(* ===== verification/Prelude.thy ===== *)
theory Prelude imports Main "HOL-Library.Word" "HOL-Library.List_Lexorder" "HOL-Library.Product_Lexorder" begin

text \<open>
  What every component of the model shares: machine integers with the overflow behaviour the
  Rust source asks for, the \<open>Result\<close> type and its \<open>?\<close> operator, Unicode strings, and the
  iterator adaptors of the standard library (\<open>as_chunks\<close>, \<open>min_by_key\<close>, \<open>collect\<close> into a
  \<open>Result\<close>) with the lemmas the component proofs rewrite with.
\<close>

named_theorems usize_simps \<open>saturating and wrapping arithmetic, unfolded\<close>
named_theorems result_simps \<open>the Result operators, unfolded\<close>

subsection \<open>Machine integers\<close>

text \<open>
  \<open>usize\<close> is a natural number with the arithmetic of a 64-bit target written out:
  \<open>saturating_add\<close> and \<open>saturating_mul\<close> stop at \<open>usize::MAX\<close>, \<open>saturating_sub\<close> is natural-number
  subtraction, and a plain \<open>+=\<close> or \<open>-=\<close> wraps as in a release build. An invariant of a component
  says where no operation wraps.
\<close>

type_synonym usize = nat

definition usize_MAX :: usize where
  "usize_MAX = 2 ^ 64 - 1"

definition sat_add :: "usize \<Rightarrow> usize \<Rightarrow> usize" where
  "sat_add a b = min (a + b) usize_MAX"

definition sat_mul :: "usize \<Rightarrow> usize \<Rightarrow> usize" where
  "sat_mul a b = min (a * b) usize_MAX"

definition wrap_add :: "usize \<Rightarrow> usize \<Rightarrow> usize" where
  "wrap_add a b = (a + b) mod 2 ^ 64"

definition wrap_sub :: "usize \<Rightarrow> usize \<Rightarrow> usize" where
  "wrap_sub a b = (a + 2 ^ 64 - b) mod 2 ^ 64"

lemma usize_MAX_Suc: "Suc usize_MAX = 2 ^ 64"
  by (simp add: usize_MAX_def)

lemma sat_add_bounded [simp]: "sat_add a b \<le> usize_MAX"
  by (simp add: sat_add_def)

lemma sat_mul_bounded [simp]: "sat_mul a b \<le> usize_MAX"
  by (simp add: sat_mul_def)

lemma sat_add_exact: "a + b \<le> usize_MAX \<Longrightarrow> sat_add a b = a + b"
  by (simp add: sat_add_def)

lemma sat_add_le_limit:
  "sat_add a b \<le> limit \<Longrightarrow> limit < usize_MAX \<Longrightarrow> a + b \<le> limit"
  by (auto simp: sat_add_def min_def split: if_splits)

lemma wrap_add_exact: "a + b \<le> usize_MAX \<Longrightarrow> wrap_add a b = a + b"
  by (simp add: wrap_add_def usize_MAX_def)

lemma wrap_sub_exact: "b \<le> a \<Longrightarrow> a \<le> usize_MAX \<Longrightarrow> wrap_sub a b = a - b"
proof -
  assume "b \<le> a" "a \<le> usize_MAX"
  then have "a + 2 ^ 64 - b = (a - b) + 2 ^ 64" and "a - b < 2 ^ 64"
    by (auto simp: usize_MAX_def)
  then show ?thesis unfolding wrap_sub_def by (simp only: mod_add_self2 mod_less)
qed

subsection \<open>Results\<close>

text \<open>
  \<open>Result<T, E>\<close> is \<open>'e + 'a\<close>, the error on the left. \<open>rbind\<close> is the \<open>?\<close> operator, \<open>res_ok\<close> is
  \<open>.ok()\<close>, and \<open>collect_res\<close> is an iterator of results collected into a \<open>Result<Vec<_>>\<close>: it stops
  at the first error.
\<close>

definition rbind :: "'e + 'a \<Rightarrow> ('a \<Rightarrow> 'e + 'b) \<Rightarrow> 'e + 'b" where
  "rbind r f = (case r of Inl e \<Rightarrow> Inl e | Inr x \<Rightarrow> f x)"

definition res_ok :: "'e + 'a \<Rightarrow> 'a option" where
  "res_ok r = (case r of Inl _ \<Rightarrow> None | Inr x \<Rightarrow> Some x)"

definition is_ok :: "'e + 'a \<Rightarrow> bool" where
  "is_ok r = (case r of Inl _ \<Rightarrow> False | Inr _ \<Rightarrow> True)"

definition res_map :: "('a \<Rightarrow> 'b) \<Rightarrow> 'e + 'a \<Rightarrow> 'e + 'b" where
  "res_map f r = (case r of Inl e \<Rightarrow> Inl e | Inr x \<Rightarrow> Inr (f x))"

fun collect_res :: "('a \<Rightarrow> 'e + 'b) \<Rightarrow> 'a list \<Rightarrow> 'e + 'b list" where
  "collect_res f [] = Inr []"
| "collect_res f (x # xs) = rbind (f x) (\<lambda>y. rbind (collect_res f xs) (\<lambda>ys. Inr (y # ys)))"

lemma rbind_simps [simp]: "rbind (Inl e) f = Inl e" "rbind (Inr x) f = f x"
  by (simp_all add: rbind_def)

lemma rbind_cong [fundef_cong]:
  "r = r' \<Longrightarrow> (\<And>x. r' = Inr x \<Longrightarrow> f x = f' x) \<Longrightarrow> rbind r f = rbind r' f'"
  by (cases r') (auto simp: rbind_def)

lemma rbind_Inr_iff: "rbind r f = Inr y \<longleftrightarrow> (\<exists>x. r = Inr x \<and> f x = Inr y)"
  by (cases r) auto

lemma rbind_Inl_iff: "rbind r f = Inl e \<longleftrightarrow> r = Inl e \<or> (\<exists>x. r = Inr x \<and> f x = Inl e)"
  by (cases r) auto

lemma res_ok_simps [simp]: "res_ok (Inl e) = None" "res_ok (Inr x) = Some x"
  by (simp_all add: res_ok_def)

lemma res_ok_Some_iff: "res_ok r = Some x \<longleftrightarrow> r = Inr x"
  by (cases r) auto

lemma is_ok_simps [simp]: "is_ok (Inl e) = False" "is_ok (Inr x) = True"
  by (simp_all add: is_ok_def)

lemma is_ok_iff: "is_ok r \<longleftrightarrow> (\<exists>x. r = Inr x)"
  by (cases r) auto

lemma res_map_simps [simp]: "res_map f (Inl e) = Inl e" "res_map f (Inr x) = Inr (f x)"
  by (simp_all add: res_map_def)

lemma res_map_Inr_iff: "res_map f r = Inr y \<longleftrightarrow> (\<exists>x. r = Inr x \<and> y = f x)"
  by (cases r) auto

lemma res_map_Inl_iff: "res_map f r = Inl e \<longleftrightarrow> r = Inl e"
  by (cases r) auto

lemmas [result_simps] = res_map_Inr_iff res_map_Inl_iff rbind_Inr_iff rbind_Inl_iff res_ok_Some_iff is_ok_iff

lemma collect_res_Inr_iff:
  "collect_res f xs = Inr ys \<longleftrightarrow> list_all2 (\<lambda>x y. f x = Inr y) xs ys"
proof (induction xs arbitrary: ys)
  case Nil
  then show ?case by auto
next
  case (Cons x xs)
  then show ?case by (cases ys) (auto simp: rbind_Inr_iff)
qed

lemma collect_res_length: "collect_res f xs = Inr ys \<Longrightarrow> length ys = length xs"
  by (auto simp: collect_res_Inr_iff dest: list_all2_lengthD)

lemma collect_res_map:
  "collect_res f xs = Inr ys \<Longrightarrow> (\<And>x y. x \<in> set xs \<Longrightarrow> f x = Inr y \<Longrightarrow> g y = h x) \<Longrightarrow>
   map g ys = map h xs"
  by (induction xs arbitrary: ys) (auto simp: rbind_Inr_iff)

subsection \<open>Unicode strings\<close>

text \<open>
  A Rust \<open>char\<close> is a Unicode scalar value and a \<open>String\<close> a sequence of them; \<open>lit\<close> reads an ASCII
  literal and \<open>dec\<close> is the decimal \<open>Display\<close> of an unsigned integer.
\<close>

type_synonym uchar = nat
type_synonym ustring = "uchar list"

definition lit :: "string \<Rightarrow> ustring" where
  "lit s = map of_char s"

abbreviation chr :: "char \<Rightarrow> uchar" where
  "chr c \<equiv> of_char c"

fun dec :: "nat \<Rightarrow> ustring" where
  "dec n = (if n < 10 then [48 + n] else dec (n div 10) @ [48 + n mod 10])"

declare dec.simps [simp del]

definition scalar_value :: "nat \<Rightarrow> bool" where
  "scalar_value c \<longleftrightarrow> c < 0xD800 \<or> (0xE000 \<le> c \<and> c < 0x110000)"

abbreviation valid_str :: "ustring \<Rightarrow> bool" where
  "valid_str s \<equiv> list_all scalar_value s"

lemma lit_append: "lit (a @ b) = lit a @ lit b"
  by (simp add: lit_def)

lemma lit_Nil [simp]: "lit [] = []"
  by (simp add: lit_def)

lemma length_lit [simp]: "length (lit s) = length s"
  by (simp add: lit_def)

subsection \<open>Iterator adaptors\<close>

text \<open>\<open>slice.as_chunks::<N>()\<close>: the whole blocks of \<open>n\<close> elements and what is left.\<close>

function as_chunks :: "nat \<Rightarrow> 'a list \<Rightarrow> 'a list list \<times> 'a list" where
  "as_chunks n xs =
     (if n = 0 \<or> length xs < n then ([], xs)
      else let (bs, r) = as_chunks n (drop n xs) in (take n xs # bs, r))"
  by pat_completeness auto
termination
  by (relation "measure (\<lambda>(n, xs). length xs)") auto

declare as_chunks.simps [simp del]

lemma as_chunks_short: "length xs < n \<Longrightarrow> as_chunks n xs = ([], xs)"
  by (simp add: as_chunks.simps [of n xs])

lemma as_chunks_block:
  "0 < n \<Longrightarrow> n \<le> length xs \<Longrightarrow>
   as_chunks n xs = (take n xs # fst (as_chunks n (drop n xs)), snd (as_chunks n (drop n xs)))"
  by (simp add: as_chunks.simps [of n xs] Let_def case_prod_beta)

lemma as_chunks_induct [case_names short block]:
  assumes "0 < n"
    and short: "\<And>xs. length xs < n \<Longrightarrow> P xs"
    and block: "\<And>xs. n \<le> length xs \<Longrightarrow> P (drop n xs) \<Longrightarrow> P xs"
  shows "P xs"
proof (induction xs rule: length_induct)
  case (1 xs)
  show ?case
  proof (cases "length xs < n")
    case True
    then show ?thesis by (rule short)
  next
    case False
    with \<open>0 < n\<close> have "length (drop n xs) < length xs" "n \<le> length xs" by auto
    with 1 show ?thesis using block [of xs] by blast
  qed
qed

lemma as_chunks_concat:
  assumes "0 < n"
  shows "concat (fst (as_chunks n xs)) @ snd (as_chunks n xs) = xs"
  using assms
proof (induction xs rule: as_chunks_induct [OF assms])
  case (1 xs)
  then show ?case by (simp add: as_chunks_short)
next
  case (2 xs)
  then show ?case by (simp add: as_chunks_block)
qed

lemma as_chunks_lengths:
  assumes "0 < n"
  shows "list_all (\<lambda>b. length b = n) (fst (as_chunks n xs)) \<and> length (snd (as_chunks n xs)) < n"
proof (induction xs rule: as_chunks_induct [OF assms])
  case (1 xs)
  then show ?case by (simp add: as_chunks_short)
next
  case (2 xs)
  then show ?case by (simp add: as_chunks_block [OF assms 2(1)])
qed

lemma as_chunks_ex:
  assumes "as_chunks n xs = (bs, r)" "0 < n"
  shows "set xs = \<Union> (set ` set bs) \<union> set r"
proof -
  have "xs = concat bs @ r" using as_chunks_concat [of n xs] assms by simp
  then show ?thesis by (simp only: set_append set_concat)
qed

text \<open>\<open>Iterator::position\<close>, and the searches that skip whole blocks without a match first.\<close>

fun position :: "('a \<Rightarrow> bool) \<Rightarrow> 'a list \<Rightarrow> nat option" where
  "position P [] = None"
| "position P (x # xs) = (if P x then Some 0 else map_option Suc (position P xs))"

lemma fold_or: "fold (\<lambda>b found. found \<or> P b) bs acc \<longleftrightarrow> acc \<or> list_ex P bs"
  by (induction bs arbitrary: acc) auto

lemma position_skip:
  "k \<le> length xs \<Longrightarrow> \<forall>x \<in> set (take k xs). \<not> P x \<Longrightarrow>
   position P xs = map_option ((+) k) (position P (drop k xs))"
proof (induction k arbitrary: xs)
  case (Suc k)
  then obtain x ys where "xs = x # ys" by (cases xs) auto
  with Suc show ?case by (cases "position P (drop k ys)") auto
qed (simp add: option.map_ident plus_nat_def [abs_def] cong: option.map_cong)

lemma position_cases:
  shows "position P xs = None \<Longrightarrow> \<forall>x \<in> set xs. \<not> P x"
    and "position P xs = Some k \<Longrightarrow> k < length xs \<and> P (xs ! k) \<and> (\<forall>i < k. \<not> P (xs ! i))"
proof (induction xs arbitrary: k)
  case (Cons x xs)
  { case 1 then show ?case using Cons.IH(1) by (auto split: if_splits) }
  { case 2 then show ?case using Cons.IH(2) by (auto simp: less_Suc_eq_0_disj split: if_splits) }
qed simp_all

lemma clean_blocks_prefix:
  fixes P :: "'a \<Rightarrow> bool"
  assumes "0 < n"
  defines "clean \<equiv> \<lambda>xs. length (takeWhile (\<lambda>block. \<not> fold (\<lambda>b found. found \<or> P b) block False)
    (fst (as_chunks n xs)))"
  shows "clean xs * n \<le> length xs \<and> (\<forall>x \<in> set (take (clean xs * n) xs). \<not> P x)"
proof (induction xs rule: as_chunks_induct [OF assms(1)])
  case (1 xs)
  then show ?case by (simp add: clean_def as_chunks_short)
next
  case (2 xs)
  have step: "clean xs = (if list_ex P (take n xs) then 0 else Suc (clean (drop n xs)))"
    by (simp add: clean_def as_chunks_block [OF assms(1) 2(1)] fold_or)
  show ?case
  proof (cases "list_ex P (take n xs)")
    case True
    then show ?thesis by (simp add: step)
  next
    case False
    have "take (n + clean (drop n xs) * n) xs = take n xs @ take (clean (drop n xs) * n) (drop n xs)"
      by (rule take_add)
    moreover have "\<forall>x \<in> set (take n xs). \<not> P x" using False by (auto simp: list_ex_iff)
    ultimately show ?thesis using 2 False by (auto simp: step list_ex_iff)
  qed
qed

lemma block_search:
  fixes P :: "'a \<Rightarrow> bool" and xs :: "'a list"
  assumes "0 < n"
    and "k = length (takeWhile (\<lambda>block. \<not> fold (\<lambda>b found. found \<or> P b) block False)
      (fst (as_chunks n xs))) * n"
  shows "position P xs = map_option ((+) k) (position P (drop k xs))"
proof (rule position_skip)
  note prefix = clean_blocks_prefix [OF assms(1), of P xs, folded assms(2)]
  show "k \<le> length xs" by (rule conjunct1 [OF prefix])
  show "\<forall>x \<in> set (take k xs). \<not> P x" by (rule conjunct2 [OF prefix])
qed

text \<open>\<open>Iterator::min_by_key\<close>: the first of the elements whose key is least.\<close>

fun min_by_key :: "('a \<Rightarrow> 'k :: linorder) \<Rightarrow> 'a list \<Rightarrow> 'a option" where
  "min_by_key f [] = None"
| "min_by_key f (x # xs) = Some (foldl (\<lambda>m y. if f y < f m then y else m) x xs)"

lemma min_by_key_foldl:
  fixes f :: "'a \<Rightarrow> 'k :: linorder"
  shows "foldl (\<lambda>m y. if f y < f m then y else m) x xs \<in> set (x # xs) \<and>
     (\<forall>y \<in> set (x # xs). f (foldl (\<lambda>m y. if f y < f m then y else m) x xs) \<le> f y)"
proof (induction xs arbitrary: x)
  case Nil
  then show ?case by simp
next
  case (Cons a xs)
  from Cons.IH [of "if f a < f x then a else x"] show ?case
    by (auto split: if_splits)
qed

lemma min_by_key_None_iff [simp]: "min_by_key f xs = None \<longleftrightarrow> xs = []"
  by (cases xs) auto

lemma min_by_key_in_set: "min_by_key f xs = Some m \<Longrightarrow> m \<in> set xs"
  by (cases xs) (use min_by_key_foldl [of f] in auto)

lemma min_by_key_least: "min_by_key f xs = Some m \<Longrightarrow> y \<in> set xs \<Longrightarrow> f m \<le> f y"
  by (cases xs) (use min_by_key_foldl [of f] in auto)

text \<open>\<open>Iterator::find\<close> and friends are \<open>find\<close>, \<open>filter\<close> and \<open>takeWhile\<close> of the library.\<close>

lemma find_in_set: "find P xs = Some x \<Longrightarrow> x \<in> set xs \<and> P x"
  by (auto simp: find_Some_iff)

lemma find_distinct_key:
  assumes "distinct (map f xs)" "x \<in> set xs"
  shows "find (\<lambda>y. f y = f x) xs = Some x"
  using assms by (induction xs) (auto simp: rev_image_eqI)

end
