(* ===== verification/Utf8.thy ===== *)
theory Utf8 imports Prelude begin

text \<open>
  Rust strings are UTF-8: \<open>len\<close>, byte scans and slicing see bytes, \<open>chars\<close> sees scalar values. This
  theory gives the encoding of a scalar value, the byte length of a string, and byte slicing
  (\<open>&s[..n]\<close>), which panics off a character boundary and is an option here.
\<close>

unbundle bit_operations_syntax

type_synonym byte = "8 word"

definition utf8_nums :: "uchar \<Rightarrow> nat list" where
  "utf8_nums c =
     (if c < 0x80 then [c]
      else if c < 0x800 then [0xC0 + c div 64, 0x80 + c mod 64]
      else if c < 0x10000 then [0xE0 + c div 4096, 0x80 + c div 64 mod 64, 0x80 + c mod 64]
      else [0xF0 + c div 262144, 0x80 + c div 4096 mod 64, 0x80 + c div 64 mod 64, 0x80 + c mod 64])"

definition utf8_char :: "uchar \<Rightarrow> byte list" where
  "utf8_char c = map of_nat (utf8_nums c)"

definition utf8 :: "ustring \<Rightarrow> byte list" where
  "utf8 s = concat (map utf8_char s)"

definition char_len :: "uchar \<Rightarrow> nat" where
  "char_len c = (if c < 0x80 then 1 else if c < 0x800 then 2 else if c < 0x10000 then 3 else 4)"

definition str_len :: "ustring \<Rightarrow> usize" where
  "str_len s = sum_list (map char_len s)"

text \<open>\<open>split_at_byte s n\<close> is \<open>(&s[..n], &s[n..])\<close>; \<open>None\<close> is the panic.\<close>

fun split_at_byte :: "ustring \<Rightarrow> nat \<Rightarrow> (ustring \<times> ustring) option" where
  "split_at_byte s 0 = Some ([], s)"
| "split_at_byte [] (Suc n) = None"
| "split_at_byte (c # s) (Suc n) =
     (if char_len c \<le> Suc n
      then map_option (\<lambda>(a, b). (c # a, b)) (split_at_byte s (Suc n - char_len c))
      else None)"

lemma length_utf8_char [simp]: "length (utf8_char c) = char_len c"
  by (simp add: utf8_char_def utf8_nums_def char_len_def)

lemma char_len_pos [simp]: "0 < char_len c"
  by (simp add: char_len_def)

lemma utf8_char_not_Nil: "utf8_char c \<noteq> []"
  using length_utf8_char [of c] char_len_pos [of c] by (metis length_greater_0_conv)

lemma utf8_Nil [simp]: "utf8 [] = []"
  and utf8_Cons: "utf8 (c # s) = utf8_char c @ utf8 s"
  and utf8_append: "utf8 (s @ t) = utf8 s @ utf8 t"
  by (simp_all add: utf8_def)

lemma str_len_Nil [simp]: "str_len [] = 0"
  and str_len_Cons [simp]: "str_len (c # s) = char_len c + str_len s"
  and str_len_append [simp]: "str_len (s @ t) = str_len s + str_len t"
  by (simp_all add: str_len_def)

lemma length_utf8 [simp]: "length (utf8 s) = str_len s"
  by (induction s) (simp_all add: utf8_Cons)

lemma length_le_str_len: "length s \<le> str_len s"
proof (induction s)
  case (Cons c s)
  then show ?case using char_len_pos [of c] by (simp only: str_len_Cons length_Cons)
qed simp

lemma str_len_0_iff [simp]: "str_len s = 0 \<longleftrightarrow> s = []"
  using length_le_str_len [of s] by auto

lemma str_len_ascii: "list_all (\<lambda>c. c < 0x80) s \<Longrightarrow> str_len s = length s"
  by (induction s) (simp_all add: char_len_def)

lemma utf8_ascii: "list_all (\<lambda>c. c < 0x80) s \<Longrightarrow> utf8 s = map of_nat s"
  by (induction s) (simp_all add: utf8_Cons utf8_char_def utf8_nums_def)

text \<open>A byte below \<open>0x80\<close> in the encoding is a whole ASCII character; the others are not.\<close>

lemma unat_byte: "n < 256 \<Longrightarrow> unat (of_nat n :: byte) = n"
  by (simp add: unat_of_nat)

lemma byte_eq_iff: "m < 256 \<Longrightarrow> n < 256 \<Longrightarrow> (of_nat m :: byte) = of_nat n \<longleftrightarrow> m = n"
  using unat_byte by metis

lemma byte_less_iff: "m < 256 \<Longrightarrow> n < 256 \<Longrightarrow> (of_nat m :: byte) < of_nat n \<longleftrightarrow> m < n"
  by (simp add: word_less_nat_alt unat_byte)

lemma byte_le_iff: "m < 256 \<Longrightarrow> n < 256 \<Longrightarrow> (of_nat m :: byte) \<le> of_nat n \<longleftrightarrow> m \<le> n"
  by (simp add: word_le_nat_alt unat_byte)

lemma utf8_nums_bound:
  assumes "scalar_value c" "n \<in> set (utf8_nums c)"
  shows "n < 256"
  using assms by (auto simp: utf8_nums_def scalar_value_def less_mult_imp_div_less split: if_splits)

lemma utf8_nums_multibyte: "\<not> c < 0x80 \<Longrightarrow> n \<in> set (utf8_nums c) \<Longrightarrow> 0x80 \<le> n"
  by (auto simp: utf8_nums_def split: if_splits)

lemma utf8_char_memD:
  assumes "scalar_value c" "b \<in> set (utf8_char c)"
  shows "unat b \<in> set (utf8_nums c) \<and> unat b < 256"
  using assms utf8_nums_bound [OF assms(1)] by (auto simp: utf8_char_def unat_byte)

lemma utf8_char_memI:
  assumes "n \<in> set (utf8_nums c)"
  shows "of_nat n \<in> set (utf8_char c)"
  using assms by (auto simp: utf8_char_def)

lemma utf8_char_ascii_byte:
  assumes "scalar_value c" "b \<in> set (utf8_char c)" "unat b < 0x80"
  shows "c < 0x80 \<and> unat b = c"
  using utf8_char_memD [OF assms(1,2)] utf8_nums_multibyte [of c "unat b"] assms(3)
  by (cases "c < 0x80") (auto simp: utf8_nums_def)

lemma split_at_byte_append:
  "split_at_byte (a @ b) (str_len a) = Some (a, b)"
proof (induction a)
  case (Cons c a)
  have "str_len (c # a) = Suc (str_len (c # a) - 1)"
    using char_len_pos [of c] by simp
  with Cons show ?case
    by (metis (no_types, lifting) append_Cons add_diff_cancel_left' case_prod_conv le_add1
        option.simps(9) split_at_byte.simps(3) str_len_Cons)
qed simp

lemma split_at_byte_SomeD:
  "split_at_byte s n = Some (a, b) \<Longrightarrow> s = a @ b \<and> n = str_len a"
  by (induction s n arbitrary: a rule: split_at_byte.induct) (auto split: if_splits)

text \<open>
  The encoding is self-delimiting: reading one character off the front of any sequence that begins
  with an encoded character returns that character and the rest.
\<close>

fun utf8_next :: "nat list \<Rightarrow> (uchar \<times> nat list) option" where
  "utf8_next [] = None"
| "utf8_next (a # s) =
     (if a < 0x80 then Some (a, s)
      else if a < 0xE0 then
        (case s of b # s' \<Rightarrow> Some ((a - 0xC0) * 64 + (b - 0x80), s') | _ \<Rightarrow> None)
      else if a < 0xF0 then
        (case s of b # c # s' \<Rightarrow> Some (((a - 0xE0) * 64 + (b - 0x80)) * 64 + (c - 0x80), s')
         | _ \<Rightarrow> None)
      else
        (case s of b # c # d # s' \<Rightarrow>
           Some ((((a - 0xF0) * 64 + (b - 0x80)) * 64 + (c - 0x80)) * 64 + (d - 0x80), s')
         | _ \<Rightarrow> None))"

lemma digits_sum:
  "(q * 64 + m) * 64 + k = r \<Longrightarrow> r * 64 + j = c \<Longrightarrow> 262144 * q + 4096 * m + k * 64 + j = (c :: nat)"
  by (auto simp: algebra_simps)

lemma utf8_next_nums:
  assumes "scalar_value c"
  shows "utf8_next (utf8_nums c @ s) = Some (c, s)"
proof -
  have "c div 4096 = c div 64 div 64" "c div 262144 = c div 64 div 64 div 64"
    by (simp_all add: div_mult2_eq [symmetric])
  then have "c div 4096 * 64 + c div 64 mod 64 = c div 64"
    "(c div 262144 * 64 + c div 4096 mod 64) * 64 + c div 64 mod 64 = c div 64"
    "c div 64 * 64 + c mod 64 = c"
    by simp_all
  moreover from this have "262144 * (c div 262144) + 4096 * (c div 4096 mod 64) +
      c div 64 mod 64 * 64 + c mod 64 = c"
    using digits_sum by blast
  moreover have "c < 0x800 \<Longrightarrow> c div 64 < 0x20" "c < 0x10000 \<Longrightarrow> c div 4096 < 0x10"
    by (auto simp: less_mult_imp_div_less)
  ultimately show ?thesis by (auto simp: utf8_nums_def)
qed

lemma utf8_char_prefix_free:
  assumes "scalar_value c" "scalar_value d" "utf8_char c @ s = utf8_char d @ t"
  shows "c = d \<and> s = t"
proof -
  have u: "map unat (utf8_char x) = utf8_nums x" if "scalar_value x" for x
    using utf8_nums_bound [OF that] by (auto simp: utf8_char_def unat_byte intro!: map_idI)
  from assms(3) have "map unat (utf8_char c @ s) = map unat (utf8_char d @ t)" by simp
  then have "utf8_nums c @ map unat s = utf8_nums d @ map unat t"
    by (simp add: u assms(1,2))
  then have "utf8_next (utf8_nums c @ map unat s) = utf8_next (utf8_nums d @ map unat t)" by simp
  then have "c = d" by (simp add: utf8_next_nums assms(1,2))
  with assms(3) show ?thesis by simp
qed

lemma utf8_inj:
  assumes "valid_str s" "valid_str t" "utf8 s = utf8 t"
  shows "s = t"
  using assms
proof (induction s arbitrary: t)
  case Nil
  then have "str_len t = 0" by (metis length_utf8 list.size(3) utf8_Nil)
  then show ?case by simp
next
  case (Cons c s)
  then obtain d t' where t: "t = d # t'"
    by (cases t) (auto simp: utf8_Cons utf8_char_not_Nil)
  with Cons.prems have "scalar_value c" "scalar_value d" "valid_str s" "valid_str t'"
    and "utf8_char c @ utf8 s = utf8_char d @ utf8 t'"
    by (simp_all add: utf8_Cons)
  with utf8_char_prefix_free Cons.IH show ?case unfolding t by blast
qed

text \<open>\<open>u64::to_le_bytes\<close> of a length, and the number it encodes.\<close>

definition le64 :: "nat \<Rightarrow> byte list" where
  "le64 n = map (\<lambda>i. of_nat (n div 256 ^ i)) [0 ..< 8]"

definition from_le :: "byte list \<Rightarrow> nat" where
  "from_le bs = foldr (\<lambda>b acc. unat b + 256 * acc) bs 0"

lemma length_le64 [simp]: "length (le64 n) = 8"
  by (simp add: le64_def)

lemma le64_round_trip:
  assumes "n < 2 ^ 64"
  shows "from_le (le64 n) = n"
proof -
  have "foldr (\<lambda>b acc. unat b + 256 * acc) (map (\<lambda>i. of_nat (m div 256 ^ i) :: byte) [0 ..< k]) 0 =
      m mod 256 ^ k" for k m :: nat
  proof (induction k arbitrary: m)
    case 0
    then show ?case by simp
  next
    case (Suc k)
    have "map (\<lambda>i. of_nat (m div 256 ^ i) :: byte) [0 ..< Suc k] =
        of_nat m # map (\<lambda>i. of_nat (m div 256 div 256 ^ i)) [0 ..< k]"
      by (simp add: upt_conv_Cons map_Suc_upt [symmetric] div_mult2_eq del: upt_Suc)
    then show ?case
      using Suc.IH [of "m div 256"] by (simp add: unat_of_nat mod_mult2_eq del: upt_Suc)
  qed
  from this [of n 8] show ?thesis using assms by (simp add: from_le_def le64_def del: upt_Suc)
qed

lemma le64_inj: "m < 2 ^ 64 \<Longrightarrow> n < 2 ^ 64 \<Longrightarrow> le64 m = le64 n \<Longrightarrow> m = n"
  using le64_round_trip by metis

end
