(* ===== verification/Errors.thy ===== *)
theory Errors imports Utf8 begin

text \<open>
  The failure vocabulary every component returns: the error enum of \<open>error.rs\<close> with the small enums
  its variants carry (\<open>Dispatch\<close> of \<open>operation.rs\<close>, \<open>Capability\<close> of \<open>harness.rs\<close>, \<open>TransportKind\<close> of
  \<open>transport.rs\<close>, \<open>CancelReason\<close> of \<open>session.rs\<close>), the accessors a host asks before it retries, and
  the diagnostic text. A process handle (\<open>Arc<dyn ProcessControl>\<close>) is the number of the object it
  points to, a \<open>Duration\<close> is its nanoseconds; how \<open>redact::program_name\<close> abbreviates a program and
  how the standard library prints a duration are arguments of the diagnostic.
\<close>

subsection \<open>The enums the variants carry\<close>

datatype dispatch = NotSubmitted | Accepted | AcceptanceUnknown

definition is_safe_to_replay :: "dispatch \<Rightarrow> bool" where
  "is_safe_to_replay d = (case d of NotSubmitted \<Rightarrow> True | _ \<Rightarrow> False)"

definition needs_reconciliation :: "dispatch \<Rightarrow> bool" where
  "needs_reconciliation d = (case d of AcceptanceUnknown \<Rightarrow> True | _ \<Rightarrow> False)"

fun dispatch_display :: "dispatch \<Rightarrow> ustring" where
  "dispatch_display NotSubmitted = lit ''not submitted''"
| "dispatch_display Accepted = lit ''accepted''"
| "dispatch_display AcceptanceUnknown = lit ''acceptance unknown''"

datatype capability =
    Steering | SessionListing | NativeReview | AccountUsage | ResumeCap | ConfigurationCap
  | SessionConfiguration | InteractiveApprovals | Questions | Images | McpPassthrough

fun capability_display :: "capability \<Rightarrow> ustring" where
  "capability_display Steering = lit ''steering''"
| "capability_display SessionListing = lit ''session listing''"
| "capability_display NativeReview = lit ''native review''"
| "capability_display AccountUsage = lit ''account usage''"
| "capability_display ResumeCap = lit ''resume''"
| "capability_display ConfigurationCap = lit ''per-turn configuration''"
| "capability_display SessionConfiguration = lit ''mid-session configuration''"
| "capability_display InteractiveApprovals = lit ''interactive approvals''"
| "capability_display Questions = lit ''questions''"
| "capability_display Images = lit ''images''"
| "capability_display McpPassthrough = lit ''MCP passthrough''"

datatype transport_kind = StdioKind | WebSocketKind | AcpKind

fun transport_kind_display :: "transport_kind \<Rightarrow> ustring" where
  "transport_kind_display StdioKind = lit ''stdio''"
| "transport_kind_display WebSocketKind = lit ''websocket''"
| "transport_kind_display AcpKind = lit ''acp''"

datatype cancel_reason = Requested | ConsentRevoked | TimeoutReason | Shutdown

fun cancel_reason_display :: "cancel_reason \<Rightarrow> ustring" where
  "cancel_reason_display Requested = lit ''requested''"
| "cancel_reason_display ConsentRevoked = lit ''consent revoked''"
| "cancel_reason_display TimeoutReason = lit ''timeout''"
| "cancel_reason_display Shutdown = lit ''shutdown''"

text \<open>The identifier newtypes of \<open>identity.rs\<close> wrap a string their own constructor checked.\<close>

type_synonym harness_id = ustring
type_synonym control = nat
type_synonym duration = nat

subsection \<open>Codes and vendor failures\<close>

datatype error_code = ErrorCode (code_str: ustring)

definition CODE_MAX_LENGTH :: usize where
  "CODE_MAX_LENGTH = 48"

definition is_label_byte :: "byte \<Rightarrow> bool" where
  "is_label_byte b \<longleftrightarrow>
     (0x61 \<le> b \<and> b \<le> 0x7a) \<or> (0x30 \<le> b \<and> b \<le> 0x39) \<or> b = 0x2d \<or> b = 0x5f"

definition is_label_shaped :: "ustring \<Rightarrow> bool" where
  "is_label_shaped code \<longleftrightarrow>
     code \<noteq> [] \<and> str_len code \<le> CODE_MAX_LENGTH \<and> list_all is_label_byte (utf8 code)"

definition error_code_display :: "error_code \<Rightarrow> ustring" where
  "error_code_display c =
     (if is_label_shaped (code_str c) then code_str c else lit ''vendor-code'')"

record vendor_error =
  ve_code :: error_code
  ve_message :: ustring
  ve_request_id :: "ustring option"
  ve_vendor_code :: "ustring option"
  ve_retryable :: bool

definition vendor_error_new :: "error_code \<Rightarrow> ustring \<Rightarrow> vendor_error" where
  "vendor_error_new code message =
     \<lparr>ve_code = code, ve_message = message, ve_request_id = None, ve_vendor_code = None,
      ve_retryable = False\<rparr>"

definition with_request_id :: "ustring \<Rightarrow> vendor_error \<Rightarrow> vendor_error" where
  "with_request_id request_id e = e\<lparr>ve_request_id := Some request_id\<rparr>"

definition with_vendor_code :: "ustring \<Rightarrow> bool \<Rightarrow> vendor_error \<Rightarrow> vendor_error" where
  "with_vendor_code vendor_code retryable e =
     e\<lparr>ve_vendor_code := Some vendor_code, ve_retryable := retryable\<rparr>"

definition vendor_error_display :: "vendor_error \<Rightarrow> ustring" where
  "vendor_error_display e = error_code_display (ve_code e) @ lit '': vendor failure''"

subsection \<open>The error\<close>

datatype error =
    Busy
  | Operation dispatch error
  | CleanupRequired control error
  | Vendor vendor_error
  | NotSupported capability
  | UnsupportedTransport harness_id transport_kind
  | VersionGate ustring ustring
  | AuthRequired ustring
  | Launch ustring ustring
  | Teardown "32 word option" ustring
  | Link ustring ustring
  | LimitExceeded ustring usize usize
  | InvalidVendorValue ustring ustring
  | Protocol ustring ustring
  | Timeout ustring duration
  | Cancelled cancel_reason
  | Closed ustring
  | HostConfiguration ustring ustring

type_synonym 'a result = "error + 'a"

abbreviation Ok :: "'a \<Rightarrow> 'a result" where
  "Ok \<equiv> Inr"

abbreviation Err :: "error \<Rightarrow> 'a result" where
  "Err \<equiv> Inl"

definition not_supported :: "capability \<Rightarrow> error" where
  "not_supported c = NotSupported c"

fun retryable :: "error \<Rightarrow> bool" where
  "retryable Busy = True"
| "retryable (Operation _ source) = retryable source"
| "retryable (CleanupRequired _ _) = False"
| "retryable (Vendor e) = ve_retryable e"
| "retryable _ = False"

fun error_dispatch :: "error \<Rightarrow> dispatch" where
  "error_dispatch (Operation d _) = d"
| "error_dispatch (CleanupRequired _ source) = error_dispatch source"
| "error_dispatch _ = AcceptanceUnknown"

fun with_dispatch :: "error \<Rightarrow> dispatch \<Rightarrow> error" where
  "with_dispatch (Operation _ source) d = Operation d source"
| "with_dispatch e d = Operation d e"

fun cause :: "error \<Rightarrow> error" where
  "cause (Operation _ source) = cause source"
| "cause (CleanupRequired _ source) = cause source"
| "cause e = e"

fun cleanup_control :: "error \<Rightarrow> control option" where
  "cleanup_control (Operation _ source) = cleanup_control source"
| "cleanup_control (CleanupRequired c _) = Some c"
| "cleanup_control _ = None"

definition jsonrpc_code_is_retryable :: "64 word \<Rightarrow> bool" where
  "jsonrpc_code_is_retryable code \<longleftrightarrow> sint code > -32000 \<or> sint code < -32768"

fun error_display :: "(ustring \<Rightarrow> ustring) \<Rightarrow> (duration \<Rightarrow> ustring) \<Rightarrow> error \<Rightarrow> ustring" where
  "error_display program_name dbg Busy =
     lit ''expected an idle session, received an active turn''"
| "error_display program_name dbg (Operation _ source) = error_display program_name dbg source"
| "error_display program_name dbg (CleanupRequired _ source) =
     error_display program_name dbg source"
| "error_display program_name dbg (Vendor e) = vendor_error_display e"
| "error_display program_name dbg (NotSupported c) =
     lit ''expected a harness that supports '' @ capability_display c @
     lit '', received one that does not''"
| "error_display program_name dbg (UnsupportedTransport h t) =
     lit ''expected a transport '' @ h @ lit '' supports, received '' @ transport_kind_display t"
| "error_display program_name dbg (VersionGate found minimum) =
     lit ''expected version '' @ minimum @
     lit '' or newer, received a vendor-reported version ('' @ dec (str_len found) @
     lit '' bytes)''"
| "error_display program_name dbg (AuthRequired _) =
     lit ''expected a signed-in CLI, received a signed-out one; inspect the typed login hint''"
| "error_display program_name dbg (Launch program message) =
     lit ''expected to launch '' @ program_name program @ lit '', received '' @ message"
| "error_display program_name dbg (Teardown pid message) =
     (case pid of Some p \<Rightarrow> lit ''expected to end process tree '' @ dec (unat p)
        | None \<Rightarrow> lit ''expected to end a process tree'') @ lit '', received '' @ message"
| "error_display program_name dbg (Link _ message) =
     lit ''expected a live vendor link, received '' @ message"
| "error_display program_name dbg (LimitExceeded subject limit received) =
     lit ''expected at most '' @ dec limit @ lit '' '' @ subject @ lit '', received '' @ dec received"
| "error_display program_name dbg (InvalidVendorValue field _) =
     lit ''expected a usable '' @ field @ lit '', received invalid vendor data''"
| "error_display program_name dbg (Protocol expected _) =
     lit ''expected '' @ expected @ lit '', received invalid vendor data''"
| "error_display program_name dbg (Timeout operation after) =
     lit ''expected '' @ operation @ lit '' to answer within '' @ dbg after @
     lit '', received nothing''"
| "error_display program_name dbg (Cancelled reason) =
     lit ''cancelled: '' @ cancel_reason_display reason"
| "error_display program_name dbg (Closed subject) =
     lit ''expected an open '' @ subject @ lit '', received a closed one''"
| "error_display program_name dbg (HostConfiguration expected received) =
     lit ''expected '' @ expected @ lit '', received '' @ received"

subsection \<open>What the accessors guarantee\<close>

lemma cause_not_wrapped: "cause e \<noteq> Operation d s" "cause e \<noteq> CleanupRequired c s"
  by (induction e) auto

lemma cause_idem [simp]: "cause (cause e) = cause e"
  by (induction e) auto

lemma with_dispatch_simps [simp]:
  "error_dispatch (with_dispatch e d) = d"
  "cause (with_dispatch e d) = cause e"
  "retryable (with_dispatch e d) = retryable e"
  "cleanup_control (with_dispatch e d) = cleanup_control e"
  "with_dispatch (with_dispatch e d) d' = with_dispatch e d'"
  by (cases e; simp)+

text \<open>
  The number of annotations on the way to the cause. A submission annotation replaces one that is
  already there, so it never stacks.
\<close>

fun annotations :: "error \<Rightarrow> nat" where
  "annotations (Operation _ s) = Suc (annotations s)"
| "annotations (CleanupRequired _ s) = annotations s"
| "annotations _ = 0"

lemma annotations_with_dispatch:
  "annotations (with_dispatch e d) = annotations (with_dispatch e d')"
  by (cases e) simp_all

text \<open>Annotating a failure with how far its request got (\<open>Error::with_dispatch\<close>) sets exactly
  that: \<open>dispatch\<close> reads the new value back, the typed cause, the retryability and the handle of a
  child whose cleanup is still owed are untouched, the annotation survives any further wrapping in
  \<open>CleanupRequired\<close>, and annotating twice is annotating once with the last value, so layers never
  build a chain.\<close>

theorem with_dispatch_annotates:
  "error_dispatch (with_dispatch e d) = d \<and>
   error_dispatch (CleanupRequired c (with_dispatch e d)) = d \<and>
   cause (with_dispatch e d) = cause e \<and>
   retryable (with_dispatch e d) = retryable e \<and>
   cleanup_control (with_dispatch e d) = cleanup_control e \<and>
   with_dispatch (with_dispatch e d) d' = with_dispatch e d' \<and>
   annotations (with_dispatch (with_dispatch e d) d') = annotations (with_dispatch e d)"
  using annotations_with_dispatch by simp

subsection \<open>Diagnostics carry no payload\<close>

text \<open>
  \<open>scrub\<close> removes from a failure everything the documentation calls payload: the vendor's message and
  ids, a code that is not a label, the login hint, the dialled peer, and what arrived in place of a
  usable value. A vendor-reported version keeps its length.
\<close>

fun scrub :: "error \<Rightarrow> error" where
  "scrub (Operation d s) = Operation d (scrub s)"
| "scrub (CleanupRequired c s) = CleanupRequired c (scrub s)"
| "scrub (Vendor e) = Vendor (vendor_error_new (ErrorCode (error_code_display (ve_code e))) [])"
| "scrub (VersionGate found minimum) = VersionGate (replicate (str_len found) 0) minimum"
| "scrub (AuthRequired _) = AuthRequired []"
| "scrub (Link _ m) = Link [] m"
| "scrub (InvalidVendorValue f _) = InvalidVendorValue f []"
| "scrub (Protocol x _) = Protocol x []"
| "scrub e = e"

lemma vendor_code_label: "is_label_shaped (lit ''vendor-code'')"
  by code_simp

lemma error_code_display_label: "is_label_shaped (error_code_display c)"
  by (simp add: error_code_display_def vendor_code_label)

lemma error_code_display_idem [simp]:
  "error_code_display (ErrorCode (error_code_display c)) = error_code_display c"
  using error_code_display_label [of c] by (simp add: error_code_display_def)

lemma str_len_replicate_0 [simp]: "str_len (replicate n 0) = n"
  by (induction n) (simp_all add: char_len_def)

text \<open>The diagnostic text of an error (\<open>Display\<close>, which \<open>Debug\<close> repeats) is a function of its
  payload-free part: removing the vendor's message, request id and code, a code that is not a short
  lowercase label, the login hint, the dialled peer and every value that arrived in place of a
  usable one changes no character of it, at any depth of annotation; and what is printed for a
  code is always label-shaped, at most 48 bytes.\<close>

theorem error_display_payload_free:
  "error_display program_name dbg (scrub e) = error_display program_name dbg e \<and>
   is_label_shaped (error_code_display c) \<and> str_len (error_code_display c) \<le> 48"
  using error_code_display_label [of c]
  by (induction e) (simp_all add: vendor_error_display_def vendor_error_new_def
      is_label_shaped_def CODE_MAX_LENGTH_def)

text \<open>The JSON-RPC reserved range is exactly what is not retried.\<close>

lemma jsonrpc_reserved_not_retryable:
  "jsonrpc_code_is_retryable code \<longleftrightarrow> sint code \<notin> {-32768 .. -32000}"
  by (auto simp: jsonrpc_code_is_retryable_def)

end
