(* ===== verification/Btree.thy ===== *)
theory Btree imports Errors begin

text \<open>
  The ordered map the source keeps its keyed state in (\<open>std::collections::BTreeMap\<close>). The interface
  its clients rely on is the locale \<open>ordered_map\<close>: what a lookup answers after an insertion or a
  removal, and that iteration meets every key once, in order. A sorted association list provides
  it, and the model's components use that list.
\<close>

lemma map_of_rev_distinct:
  "distinct (map fst kvs) \<Longrightarrow> map_of (rev kvs) = map_of kvs"
proof (induction kvs)
  case (Cons kv kvs)
  then have "map_of kvs (fst kv) = None" by (simp add: map_of_eq_None_iff)
  with Cons show ?case
    by (auto simp: map_add_def fun_eq_iff split: option.split)
qed simp

locale ordered_map =
  fixes invar :: "'m \<Rightarrow> bool"
    and empty :: 'm
    and get :: "'m \<Rightarrow> 'k :: linorder \<Rightarrow> 'v option"
    and insert :: "'k \<Rightarrow> 'v \<Rightarrow> 'm \<Rightarrow> 'm"
    and remove :: "'k \<Rightarrow> 'm \<Rightarrow> 'm"
    and keys :: "'m \<Rightarrow> 'k list"
  assumes invar_empty: "invar empty"
    and get_empty: "get empty = Map.empty"
    and invar_insert: "invar m \<Longrightarrow> invar (insert k v m)"
    and get_insert: "invar m \<Longrightarrow> get (insert k v m) = (get m)(k \<mapsto> v)"
    and invar_remove: "invar m \<Longrightarrow> invar (remove k m)"
    and get_remove: "invar m \<Longrightarrow> get (remove k m) = (get m)(k := None)"
    and set_keys: "invar m \<Longrightarrow> set (keys m) = dom (get m)"
    and sorted_keys: "invar m \<Longrightarrow> sorted_wrt (<) (keys m)"
begin

lemma distinct_keys: "invar m \<Longrightarrow> distinct (keys m)"
  using sorted_keys strict_sorted_iff by blast

lemma insert_all:
  assumes "invar m"
  shows "invar (foldl (\<lambda>m (k, v). insert k v m) m kvs) \<and>
    get (foldl (\<lambda>m (k, v). insert k v m) m kvs) = get m ++ map_of (rev kvs)"
  using assms
proof (induction kvs arbitrary: m)
  case (Cons kv kvs)
  then show ?case
    by (cases kv) (simp add: invar_insert get_insert map_add_def fun_eq_iff split: option.split)
qed simp

lemma get_insert_all:
  "distinct (map fst kvs) \<Longrightarrow>
   get (foldl (\<lambda>m (k, v). insert k v m) empty kvs) = map_of kvs"
  using insert_all [OF invar_empty, of kvs] by (simp add: get_empty map_of_rev_distinct)

lemma keys_unique:
  assumes "invar m" "invar m'" "dom (get m) = dom (get m')"
  shows "keys m = keys m'"
  using assms set_keys sorted_keys by (metis strict_sorted_equal)

lemma keys_insert_all:
  assumes "distinct (map fst kvs)"
  shows "keys (foldl (\<lambda>m (k, v). insert k v m) empty kvs) = sort (map fst kvs)"
proof (rule strict_sorted_equal)
  have inv: "invar (foldl (\<lambda>m (k, v). insert k v m) empty kvs)"
    using insert_all [OF invar_empty] by blast
  then show "sorted_wrt (<) (keys (foldl (\<lambda>m (k, v). insert k v m) empty kvs))"
    by (rule sorted_keys)
  show "sorted_wrt (<) (sort (map fst kvs))"
    using assms by (simp add: strict_sorted_iff)
  show "set (keys (foldl (\<lambda>m (k, v). insert k v m) empty kvs)) = set (sort (map fst kvs))"
    using set_keys [OF inv] get_insert_all [OF assms] by (simp add: dom_map_of_conv_image_fst)
qed

lemma length_insert_all:
  "distinct (map fst kvs) \<Longrightarrow>
   length (keys (foldl (\<lambda>m (k, v). insert k v m) empty kvs)) = length kvs"
  by (simp add: keys_insert_all)

end

subsection \<open>Sorted association lists\<close>

type_synonym ('k, 'v) btree = "('k \<times> 'v) list"

definition bt_invar :: "('k :: linorder, 'v) btree \<Rightarrow> bool" where
  "bt_invar m \<longleftrightarrow> sorted_wrt (<) (map fst m)"

fun bt_insert :: "'k :: linorder \<Rightarrow> 'v \<Rightarrow> ('k, 'v) btree \<Rightarrow> ('k, 'v) btree" where
  "bt_insert k v [] = [(k, v)]"
| "bt_insert k v ((k', v') # m) =
     (if k < k' then (k, v) # (k', v') # m
      else if k = k' then (k, v) # m
      else (k', v') # bt_insert k v m)"

definition bt_remove :: "'k :: linorder \<Rightarrow> ('k, 'v) btree \<Rightarrow> ('k, 'v) btree" where
  "bt_remove k m = filter (\<lambda>(k', _). k' \<noteq> k) m"

abbreviation bt_get :: "('k, 'v) btree \<Rightarrow> 'k \<Rightarrow> 'v option" where
  "bt_get \<equiv> map_of"

definition bt_keys :: "('k, 'v) btree \<Rightarrow> 'k list" where
  "bt_keys m = map fst m"

definition bt_contains_key :: "('k, 'v) btree \<Rightarrow> 'k \<Rightarrow> bool" where
  "bt_contains_key m k \<longleftrightarrow> bt_get m k \<noteq> None"

lemma set_bt_insert_keys: "fst ` set (bt_insert k v m) = {k} \<union> fst ` set m"
  by (induction k v m rule: bt_insert.induct) auto

lemma bt_invar_insert: "bt_invar m \<Longrightarrow> bt_invar (bt_insert k v m)"
proof (induction k v m rule: bt_insert.induct)
  case (2 k v k' v' m)
  then show ?case
    using set_bt_insert_keys [of k v m] by (auto simp: bt_invar_def)
qed (simp add: bt_invar_def)

lemma bt_get_insert: "bt_invar m \<Longrightarrow> bt_get (bt_insert k v m) = (bt_get m)(k \<mapsto> v)"
proof (induction k v m rule: bt_insert.induct)
  case (2 k v k' v' m)
  then show ?case by (auto simp: bt_invar_def fun_eq_iff)
qed auto

lemma bt_get_remove: "bt_get (bt_remove k m) = (bt_get m)(k := None)"
  by (induction m) (auto simp: bt_remove_def fun_eq_iff)

lemma bt_invar_remove: "bt_invar m \<Longrightarrow> bt_invar (bt_remove k m)"
  by (induction m) (auto simp: bt_invar_def bt_remove_def)

interpretation btree: ordered_map bt_invar "[]" bt_get bt_insert bt_remove bt_keys
proof
  fix m :: "('k :: linorder, 'v) btree" and k v
  show "bt_invar m \<Longrightarrow> bt_invar (bt_insert k v m)" by (rule bt_invar_insert)
  show "bt_invar m \<Longrightarrow> bt_get (bt_insert k v m) = (bt_get m)(k \<mapsto> v)" by (rule bt_get_insert)
  show "bt_invar m \<Longrightarrow> bt_invar (bt_remove k m)" by (rule bt_invar_remove)
  show "bt_get (bt_remove k m) = (bt_get m)(k := None)" by (rule bt_get_remove)
  show "set (bt_keys m) = dom (bt_get m)" by (simp add: bt_keys_def dom_map_of_conv_image_fst)
  show "bt_invar m \<Longrightarrow> sorted_wrt (<) (bt_keys m)" by (simp add: bt_invar_def bt_keys_def)
qed (simp_all add: bt_invar_def)

end
