(* ===== verification/Text_Norm.thy ===== *)
theory Text_Norm imports Errors begin

text \<open>
  Bounds for vendor text (\<open>normalize.rs\<close>): which characters are stripped, the byte scans that avoid
  decoding clean text, the field limits, and the three ways a value is admitted (cut, refused, or
  kept whole). The scans are modelled over the UTF-8 bytes in the blocks the source reads, and
  \<open>bound_text\<close> slices by byte offset, so \<open>None\<close> is the panic of a slice off a character boundary;
  the lemmas show that it never happens and what the fast paths compute.
\<close>

subsection \<open>Limits\<close>

datatype text_limit =
    ActivityName | Title | Detail | ApprovalOptionLabel | SessionTitle | ErrorMessage | VendorId
  | AccountLabel | CommandName | CommandDescription

fun max_code_points :: "text_limit \<Rightarrow> usize" where
  "max_code_points ActivityName = 128"
| "max_code_points Title = 256"
| "max_code_points Detail = 4096"
| "max_code_points ApprovalOptionLabel = 128"
| "max_code_points SessionTitle = 256"
| "max_code_points ErrorMessage = 2048"
| "max_code_points VendorId = 128"
| "max_code_points AccountLabel = 128"
| "max_code_points CommandName = 128"
| "max_code_points CommandDescription = 512"

definition COMMAND_CATALOG_MAX_ITEMS :: usize where
  "COMMAND_CATALOG_MAX_ITEMS = 256"

definition MODEL_CATALOG_MAX_ITEMS :: usize where
  "MODEL_CATALOG_MAX_ITEMS = 256"

definition REASONING_EFFORT_MAX_ITEMS :: usize where
  "REASONING_EFFORT_MAX_ITEMS = 32"

definition APPROVAL_MAX_OPTIONS :: usize where
  "APPROVAL_MAX_OPTIONS = 16"

definition MAX_PATH_LENGTH :: usize where
  "MAX_PATH_LENGTH = 4096"

definition ARGV_VALUE_MAX_CODE_POINTS :: usize where
  "ARGV_VALUE_MAX_CODE_POINTS = 128"

definition SCAN_BLOCK :: usize where
  "SCAN_BLOCK = 64"

subsection \<open>Character and byte tests\<close>

definition is_strippable :: "uchar \<Rightarrow> bool" where
  "is_strippable c =
     (if c = 0x09 \<or> c = 0x0a then False
      else c \<le> 0x1f \<or> (0x7f \<le> c \<and> c \<le> 0x9f) \<or> c = 0x061c \<or> c = 0x200e \<or> c = 0x200f \<or>
           (0x202a \<le> c \<and> c \<le> 0x202e) \<or> (0x2066 \<le> c \<and> c \<le> 0x2069))"

definition is_flagged_byte :: "byte \<Rightarrow> bool" where
  "is_flagged_byte b =
     (let control = b < 0x20 \<and> b \<noteq> 0x09 \<and> b \<noteq> 0x0a
      in control \<or> b = 0x7f \<or> b = 0xc2 \<or> b = 0xd8 \<or> b = 0xe2)"

definition any_flagged :: "byte list \<Rightarrow> bool" where
  "any_flagged bytes = fold (\<lambda>b found. found \<or> is_flagged_byte b) bytes False"

definition contains_flagged_byte :: "byte list \<Rightarrow> bool" where
  "contains_flagged_byte bytes =
     (let (blocks, remainder) = as_chunks SCAN_BLOCK bytes
      in list_ex any_flagged blocks \<or> any_flagged remainder)"

definition may_need_stripping :: "ustring \<Rightarrow> bool" where
  "may_need_stripping s = contains_flagged_byte (utf8 s)"

definition is_clean_ascii_byte :: "byte \<Rightarrow> bool" where
  "is_clean_ascii_byte b = (let printable = b \<ge> 0x20 \<and> b \<le> 0x7e in printable \<or> b = 0x09 \<or> b = 0x0a)"

definition leading_clean_bytes :: "byte list \<Rightarrow> usize" where
  "leading_clean_bytes bytes = length (takeWhile is_clean_ascii_byte bytes)"

fun clean_blocks :: "usize \<Rightarrow> byte list list \<Rightarrow> byte list \<Rightarrow> usize" where
  "clean_blocks clean [] remainder = clean + leading_clean_bytes remainder"
| "clean_blocks clean (block # blocks) remainder =
     (if fold (\<lambda>b dirty. dirty \<or> \<not> is_clean_ascii_byte b) block False
      then clean + leading_clean_bytes block
      else clean_blocks (clean + length block) blocks remainder)"

definition clean_ascii_prefix_len :: "byte list \<Rightarrow> usize" where
  "clean_ascii_prefix_len bytes =
     (let (blocks, remainder) = as_chunks 16 bytes in clean_blocks 0 blocks remainder)"

text \<open>\<open>char::is_control\<close> is the category Cc; \<open>str::trim\<close> removes Unicode white space.\<close>

definition is_control :: "uchar \<Rightarrow> bool" where
  "is_control c \<longleftrightarrow> c \<le> 0x1f \<or> (0x7f \<le> c \<and> c \<le> 0x9f)"

definition is_whitespace :: "uchar \<Rightarrow> bool" where
  "is_whitespace c \<longleftrightarrow>
     (0x09 \<le> c \<and> c \<le> 0x0d) \<or> c = 0x20 \<or> c = 0x85 \<or> c = 0xa0 \<or> c = 0x1680 \<or>
     (0x2000 \<le> c \<and> c \<le> 0x200a) \<or> c = 0x2028 \<or> c = 0x2029 \<or> c = 0x202f \<or> c = 0x205f \<or> c = 0x3000"

definition trim :: "ustring \<Rightarrow> ustring" where
  "trim s = rev (dropWhile is_whitespace (rev (dropWhile is_whitespace s)))"

subsection \<open>Stripping and cutting\<close>

record bounded_text =
  bt_text :: ustring
  bt_truncated :: bool

definition bt_is_empty :: "bounded_text \<Rightarrow> bool" where
  "bt_is_empty b \<longleftrightarrow> bt_text b = []"

definition sanitize_owned :: "ustring \<Rightarrow> bounded_text" where
  "sanitize_owned raw =
     (if \<not> may_need_stripping raw then \<lparr>bt_text = raw, bt_truncated = False\<rparr>
      else let kept = filter (\<lambda>c. \<not> is_strippable c) raw
           in \<lparr>bt_text = kept, bt_truncated = (str_len kept \<noteq> str_len raw)\<rparr>)"

definition sanitize_field :: "ustring \<Rightarrow> bounded_text" where
  "sanitize_field raw = sanitize_owned raw"

fun bound_loop :: "usize \<Rightarrow> ustring \<Rightarrow> usize \<Rightarrow> bool \<Rightarrow> ustring \<Rightarrow> bounded_text" where
  "bound_loop cap text kept truncated [] = \<lparr>bt_text = text, bt_truncated = truncated\<rparr>"
| "bound_loop cap text kept truncated (c # cs) =
     (if is_strippable c then bound_loop cap text kept True cs
      else if kept = cap then \<lparr>bt_text = text, bt_truncated = True\<rparr>
      else bound_loop cap (text @ [c]) (kept + 1) truncated cs)"

definition bound_text :: "ustring \<Rightarrow> text_limit \<Rightarrow> bounded_text option" where
  "bound_text raw limit =
     (let cap = max_code_points limit;
          prefix = clean_ascii_prefix_len (take (min (str_len raw) cap) (utf8 raw))
      in case split_at_byte raw prefix of
           None \<Rightarrow> None
         | Some (text, rest) \<Rightarrow> Some (bound_loop cap text prefix False rest))"

text \<open>Callers see the bounded text; \<open>bound_text_total\<close> shows that there always is one.\<close>

abbreviation bound :: "ustring \<Rightarrow> text_limit \<Rightarrow> bounded_text" where
  "bound raw limit \<equiv> the (bound_text raw limit)"

definition opaque_id :: "ustring \<Rightarrow> ustring \<Rightarrow> ustring result" where
  "opaque_id raw field =
     (let bounded = bound raw VendorId
      in if bt_truncated bounded \<or> trim (bt_text bounded) = []
         then Err (InvalidVendorValue field (bt_text bounded))
         else Ok (bt_text bounded))"

text \<open>\<open>redact::bounded\<close>; what \<open>redact::message_text\<close> hides is its argument.\<close>

definition redact_bounded :: "(ustring \<Rightarrow> ustring) \<Rightarrow> ustring \<Rightarrow> text_limit \<Rightarrow> bounded_text" where
  "redact_bounded message_text raw limit = bound (message_text raw) limit"

text \<open>An optional text, bounded, and whether that cut it.\<close>

definition bound_opt :: "text_limit \<Rightarrow> ustring option \<Rightarrow> bounded_text option" where
  "bound_opt limit = map_option (\<lambda>s. bound s limit)"

definition cut_opt :: "bounded_text option \<Rightarrow> bool" where
  "cut_opt b = (case b of None \<Rightarrow> False | Some t \<Rightarrow> bt_truncated t)"

definition vendor_path :: "ustring \<Rightarrow> ustring option" where
  "vendor_path raw =
     (let sanitised = sanitize_field raw
      in if bt_truncated sanitised \<or> bt_text sanitised = [] \<or>
            str_len (bt_text sanitised) > MAX_PATH_LENGTH
         then None else Some (bt_text sanitised))"

definition is_argv_value_with_max :: "ustring \<Rightarrow> usize \<Rightarrow> bool" where
  "is_argv_value_with_max raw cap \<longleftrightarrow>
     raw \<noteq> [] \<and> take 1 raw \<noteq> lit ''-'' \<and> length raw \<le> cap \<and>
     list_all (\<lambda>c. \<not> is_control c \<and> \<not> is_strippable c) raw"

definition is_argv_value :: "ustring \<Rightarrow> bool" where
  "is_argv_value raw = is_argv_value_with_max raw ARGV_VALUE_MAX_CODE_POINTS"

subsection \<open>The byte scans\<close>

lemma any_flagged_iff: "any_flagged bs \<longleftrightarrow> (\<exists>b \<in> set bs. is_flagged_byte b)"
  by (simp add: any_flagged_def fold_or list_ex_iff)

lemma contains_flagged_byte_iff:
  "contains_flagged_byte bs \<longleftrightarrow> (\<exists>b \<in> set bs. is_flagged_byte b)"
proof -
  obtain blocks r where c: "as_chunks SCAN_BLOCK bs = (blocks, r)" by (cases "as_chunks SCAN_BLOCK bs")
  then have "set bs = \<Union> (set ` set blocks) \<union> set r"
    by (rule as_chunks_ex) (simp add: SCAN_BLOCK_def)
  then show ?thesis
    by (auto simp: contains_flagged_byte_def c any_flagged_iff list_ex_iff)
qed

text \<open>Every stripped character has a byte the scan flags.\<close>

lemma is_flagged_byte_of_nat:
  assumes "n < 256"
  shows "is_flagged_byte (of_nat n) \<longleftrightarrow>
     (n < 0x20 \<and> n \<noteq> 9 \<and> n \<noteq> 10) \<or> n \<in> {0x7f, 0xc2, 0xd8, 0xe2}"
proof -
  have eq: "(of_nat n :: byte) = of_nat k \<longleftrightarrow> n = k" if "k < 256" for k
    using assms that by (rule byte_eq_iff)
  have lt: "(of_nat n :: byte) < of_nat 0x20 \<longleftrightarrow> n < 0x20"
    using assms by (rule byte_less_iff) simp
  show ?thesis
    using eq [of 9] eq [of 10] eq [of "0x7f"] eq [of "0xc2"]
      eq [of "0xd8"] eq [of "0xe2"] lt
    by (simp add: is_flagged_byte_def)
qed

lemma flagged_num_cases:
  assumes "scalar_value c" "is_strippable c"
  shows "\<exists>n \<in> set (utf8_nums c). n < 256 \<and> is_flagged_byte (of_nat n)"
proof -
  have "(c < 0x20 \<and> c \<noteq> 9 \<and> c \<noteq> 10) \<or> c = 0x7f \<or> (0x80 \<le> c \<and> c \<le> 0x9f) \<or> c = 0x61c \<or>
      (0x200e \<le> c \<and> c \<le> 0x2069)"
    using assms(2) by (simp add: is_strippable_def split: if_splits) linarith
  then have "\<exists>n \<in> set (utf8_nums c). (n < 0x20 \<and> n \<noteq> 9 \<and> n \<noteq> 10) \<or> n \<in> {0x7f, 0xc2, 0xd8, 0xe2}"
  proof (elim disjE)
    assume c: "0x80 \<le> c \<and> c \<le> 0x9f"
    then have "c div 64 = 2" by (intro div_nat_eqI) auto
    with c show ?thesis by (simp add: utf8_nums_def)
  next
    assume c: "0x200e \<le> c \<and> c \<le> 0x2069"
    then have "c div 4096 = 2" by (intro div_nat_eqI) auto
    with c show ?thesis by (simp add: utf8_nums_def)
  qed (simp_all add: utf8_nums_def)
  then show ?thesis using is_flagged_byte_of_nat utf8_nums_bound [OF assms(1)] by blast
qed

lemma may_need_stripping_complete:
  assumes "valid_str s" "c \<in> set s" "is_strippable c"
  shows "may_need_stripping s"
proof -
  from assms have "scalar_value c" by (simp add: list_all_iff)
  then obtain n where "n \<in> set (utf8_nums c)" "is_flagged_byte (of_nat n)"
    using flagged_num_cases assms(3) by blast
  then have "of_nat n \<in> set (utf8 s)"
    using assms(2) utf8_char_memI by (fastforce simp: utf8_def)
  with \<open>is_flagged_byte (of_nat n)\<close> show ?thesis
    by (auto simp: may_need_stripping_def contains_flagged_byte_iff)
qed

lemma fold_dirty: "fold (\<lambda>b dirty. dirty \<or> \<not> P b) bs acc \<longleftrightarrow> acc \<or> \<not> list_all P bs"
  by (induction bs arbitrary: acc) auto

lemma takeWhile_append_all: "list_all P xs \<Longrightarrow> takeWhile P (xs @ ys) = xs @ takeWhile P ys"
  by (induction xs) auto

lemma takeWhile_append_some: "\<not> list_all P xs \<Longrightarrow> takeWhile P (xs @ ys) = takeWhile P xs"
  by (induction xs) auto

lemma clean_blocks_eq:
  "clean_blocks n blocks r = n + length (takeWhile is_clean_ascii_byte (concat blocks @ r))"
  by (induction n blocks r rule: clean_blocks.induct)
    (simp_all add: leading_clean_bytes_def fold_dirty takeWhile_append_all takeWhile_append_some)

lemma clean_ascii_prefix_len_eq:
  "clean_ascii_prefix_len bs = length (takeWhile is_clean_ascii_byte bs)"
  using as_chunks_concat [of 16 bs]
  by (simp add: clean_ascii_prefix_len_def case_prod_beta clean_blocks_eq)

lemma is_clean_ascii_byte_of_nat:
  assumes "n < 256"
  shows "is_clean_ascii_byte (of_nat n) \<longleftrightarrow> (0x20 \<le> n \<and> n \<le> 0x7e) \<or> n = 9 \<or> n = 10"
proof -
  have eq: "(of_nat n :: byte) = of_nat k \<longleftrightarrow> n = k" if "k < 256" for k
    using assms that by (rule byte_eq_iff)
  have le: "(of_nat n :: byte) \<le> of_nat k \<longleftrightarrow> n \<le> k" if "k < 256" for k
    using assms that by (rule byte_le_iff)
  have ge: "of_nat 0x20 \<le> (of_nat n :: byte) \<longleftrightarrow> 0x20 \<le> n"
    using _ assms by (rule byte_le_iff) simp
  show ?thesis
    using eq [of 9] eq [of 10] le [of "0x7e"] ge by (simp add: is_clean_ascii_byte_def)
qed

definition clean_char :: "uchar \<Rightarrow> bool" where
  "clean_char c \<longleftrightarrow> (0x20 \<le> c \<and> c \<le> 0x7e) \<or> c = 9 \<or> c = 10"

lemma clean_char_kept: "clean_char c \<Longrightarrow> \<not> is_strippable c"
  by (auto simp: clean_char_def is_strippable_def)

lemma clean_char_ascii: "clean_char c \<Longrightarrow> c < 0x80"
  by (auto simp: clean_char_def)

text \<open>
  The prefix scan counts whole characters: what it measured, over however many bytes it was given,
  is a prefix of clean one-byte characters.
\<close>

lemma utf8_Cons_ascii: "c < 0x80 \<Longrightarrow> utf8 (c # s) = of_nat c # utf8 s"
  by (simp add: utf8_Cons utf8_char_def utf8_nums_def)

lemma utf8_Cons_multibyte:
  assumes "scalar_value c" "\<not> c < 0x80"
  obtains b bs where "utf8 (c # s) = b # bs" "\<not> is_clean_ascii_byte b"
proof -
  obtain n ns where n: "utf8_nums c = n # ns" by (cases "utf8_nums c") (auto simp: utf8_nums_def split: if_splits)
  then have "0x80 \<le> n" "n < 256"
    using utf8_nums_multibyte [OF assms(2), of n] utf8_nums_bound [OF assms(1), of n] by auto
  then have "\<not> is_clean_ascii_byte (of_nat n)"
    by (simp add: is_clean_ascii_byte_of_nat)
  with n that show thesis by (simp add: utf8_Cons utf8_char_def)
qed

lemma clean_prefix_chars:
  assumes "valid_str s"
  shows "\<exists>a b. s = a @ b \<and> list_all clean_char a \<and> length a \<le> n \<and>
    length (takeWhile is_clean_ascii_byte (take n (utf8 s))) = length a"
  using assms
proof (induction s arbitrary: n)
  case Nil
  then show ?case by simp
next
  case (Cons c s)
  have stop: ?case if "takeWhile is_clean_ascii_byte (take n (utf8 (c # s))) = []"
    using that by (intro exI [of _ "[]"] exI [of _ "c # s"]) simp
  show ?case
  proof (cases n)
    case 0
    then show ?thesis using stop by simp
  next
    case (Suc m)
    from Cons.prems have sv: "scalar_value c" and vs: "valid_str s" by auto
    show ?thesis
    proof (cases "clean_char c")
      case True
      then have "c < 0x80" by (rule clean_char_ascii)
      moreover have "is_clean_ascii_byte (of_nat c)"
        using True \<open>c < 0x80\<close> by (simp add: is_clean_ascii_byte_of_nat clean_char_def)
      moreover obtain a b where "s = a @ b" "list_all clean_char a" "length a \<le> m"
        "length (takeWhile is_clean_ascii_byte (take m (utf8 s))) = length a"
        using Cons.IH [OF vs] by blast
      ultimately show ?thesis
        by (intro exI [of _ "c # a"] exI [of _ b]) (simp add: Suc utf8_Cons_ascii True)
    next
      case False
      have "takeWhile is_clean_ascii_byte (take n (utf8 (c # s))) = []"
      proof (cases "c < 0x80")
        case True
        with False show ?thesis
          by (simp add: Suc utf8_Cons_ascii is_clean_ascii_byte_of_nat clean_char_def)
      next
        case False
        then show ?thesis using utf8_Cons_multibyte [OF sv] by (metis Suc take_Suc_Cons takeWhile.simps(2))
      qed
      then show ?thesis by (rule stop)
    qed
  qed
qed

subsection \<open>What the bound computes\<close>

abbreviation keep :: "ustring \<Rightarrow> ustring" where
  "keep s \<equiv> filter (\<lambda>c. \<not> is_strippable c) s"

text \<open>The reference: strip, then cut to the limit; truncated means different from the input.\<close>

definition bounded_ref :: "ustring \<Rightarrow> usize \<Rightarrow> bounded_text" where
  "bounded_ref raw limit =
     \<lparr>bt_text = take limit (keep raw), bt_truncated = (take limit (keep raw) \<noteq> raw)\<rparr>"

lemma keep_eq_iff: "keep s = s \<longleftrightarrow> list_all (\<lambda>c. \<not> is_strippable c) s"
  by (simp add: filter_id_conv list_all_iff)

lemma keep_Cons_neq: "is_strippable c \<Longrightarrow> take n (keep s) \<noteq> c # s"
proof
  assume "is_strippable c" "take n (keep s) = c # s"
  then have "c \<in> set (take n (keep s))" by simp
  then have "c \<in> set (keep s)" by (rule in_set_takeD)
  with \<open>is_strippable c\<close> show False by simp
qed

lemma bound_loop_eq:
  assumes "kept = length acc" "kept \<le> limit"
  shows "bound_loop limit acc kept truncated s =
    \<lparr>bt_text = acc @ take (limit - kept) (keep s),
     bt_truncated = (truncated \<or> take (limit - kept) (keep s) \<noteq> s)\<rparr>"
  using assms
proof (induction limit acc kept truncated s rule: bound_loop.induct)
  case (2 limit t kept truncated c cs)
  show ?case
  proof (cases "is_strippable c")
    case True
    with 2 keep_Cons_neq [OF True] show ?thesis by simp
  next
    case False
    show ?thesis
    proof (cases "kept = limit")
      case True
      with False show ?thesis by simp
    next
      case neq: False
      with "2.prems" have "limit - kept = Suc (limit - (kept + 1))" by simp
      with False neq 2 show ?thesis by simp
    qed
  qed
qed simp

lemma bound_text_eq:
  assumes "valid_str raw"
  shows "bound_text raw limit = Some (bounded_ref raw (max_code_points limit))"
proof -
  let ?m = "max_code_points limit"
  obtain a b where raw: "raw = a @ b" and a: "list_all clean_char a"
    and la: "length a \<le> min (str_len raw) ?m"
    and pre: "length (takeWhile is_clean_ascii_byte (take (min (str_len raw) ?m) (utf8 raw))) = length a"
    using clean_prefix_chars [OF assms] by blast
  have "str_len a = length a"
    using a by (intro str_len_ascii) (auto simp: list_all_iff clean_char_ascii)
  then have split: "split_at_byte raw (length a) = Some (a, b)"
    using split_at_byte_append [of a b] raw by simp
  have "keep a = a" using a by (auto simp: keep_eq_iff list_all_iff clean_char_kept)
  then have "take ?m (keep raw) = a @ take (?m - length a) (keep b)"
    using la by (simp add: raw)
  moreover have "bound_text raw limit = Some (bound_loop ?m a (length a) False b)"
    by (simp only: bound_text_def Let_def clean_ascii_prefix_len_eq pre split option.case prod.case)
  ultimately show ?thesis using la by (simp add: bound_loop_eq bounded_ref_def raw)
qed

lemma bound_text_total: "valid_str raw \<Longrightarrow> bound_text raw limit \<noteq> None"
  by (simp add: bound_text_eq)

lemma bound_simps:
  assumes "valid_str raw"
  shows "bt_text (bound raw limit) = take (max_code_points limit) (keep raw)"
    and "bt_truncated (bound raw limit) \<longleftrightarrow> take (max_code_points limit) (keep raw) \<noteq> raw"
  by (simp_all add: bound_text_eq [OF assms] bounded_ref_def)

lemma max_code_points_pos: "0 < max_code_points limit"
  by (cases limit) simp_all

lemma keep_take_keep [simp]: "keep (take n (keep s)) = take n (keep s)"
  by (auto simp: keep_eq_iff list_all_iff dest: in_set_takeD)

lemma valid_str_keep: "valid_str s \<Longrightarrow> valid_str (take n (keep s))"
  by (auto simp: list_all_iff dest: in_set_takeD)

text \<open>C39: \<open>bound_text\<close>, whose fast path copies a prefix found by a block-wise byte scan and slices
  the string by byte offset, never panics and computes the reference on every string: it removes
  exactly the strippable characters, cuts what is left to the field's code-point limit, reports
  truncation exactly when the result differs from the input, and a second pass changes nothing.\<close>

theorem bound_text_correct:
  assumes "valid_str raw"
  shows "bound_text raw limit = Some (bounded_ref raw (max_code_points limit)) \<and>
    length (bt_text (bound raw limit)) \<le> max_code_points limit \<and>
    list_all (\<lambda>c. \<not> is_strippable c) (bt_text (bound raw limit)) \<and>
    bound_text (bt_text (bound raw limit)) limit =
      Some \<lparr>bt_text = bt_text (bound raw limit), bt_truncated = False\<rparr>"
proof -
  note v = valid_str_keep [OF assms, of "max_code_points limit"]
  have "list_all (\<lambda>c. \<not> is_strippable c) (take (max_code_points limit) (keep raw))"
    by (auto simp: list_all_iff dest: in_set_takeD)
  then show ?thesis
    by (simp add: bound_simps [OF assms] bound_text_eq [OF assms] bound_text_eq [OF v]
        bounded_ref_def min_def)
qed

text \<open>Thirty clean characters, an em dash, an escape sequence and a bidirectional override.\<close>

lemma bound_text_correct_witness:
  "bound_text (replicate 30 0x61 @ [0x2014, 0x1b, 0x5b, 0x202e, 0x62]) ActivityName =
    Some \<lparr>bt_text = replicate 30 0x61 @ [0x2014, 0x5b, 0x62], bt_truncated = True\<rparr>"
proof -
  let ?s = "replicate 30 0x61 @ [0x2014, 0x1b, 0x5b, 0x202e, 0x62] :: ustring"
  have v: "valid_str ?s" by (simp add: scalar_value_def list_all_iff)
  have "bounded_ref ?s (max_code_points ActivityName) =
      \<lparr>bt_text = replicate 30 0x61 @ [0x2014, 0x5b, 0x62], bt_truncated = True\<rparr>"
    by (simp add: bounded_ref_def is_strippable_def)
  with bound_text_correct [OF v, of ActivityName] show ?thesis by simp
qed

lemma sanitize_owned_eq:
  assumes "valid_str raw"
  shows "sanitize_owned raw = \<lparr>bt_text = keep raw, bt_truncated = (keep raw \<noteq> raw)\<rparr>"
proof (cases "may_need_stripping raw")
  case False
  then have "keep raw = raw"
    using may_need_stripping_complete [OF assms] by (auto simp: keep_eq_iff list_all_iff)
  with False show ?thesis by (simp add: sanitize_owned_def)
next
  case True
  have "str_len (keep s) = str_len s \<longleftrightarrow> keep s = s" for s
  proof -
    have le: "str_len (keep t) \<le> str_len t" for t
      by (induction t) auto
    show ?thesis
    proof (induction s)
      case (Cons c s)
      show ?case using Cons le [of s] char_len_pos [of c] keep_Cons_neq [of c "length s" s]
        by (auto simp: take_all length_filter_le simp del: char_len_pos)
    qed simp
  qed
  with True show ?thesis by (simp add: sanitize_owned_def Let_def)
qed

text \<open>C36: \<open>sanitize_field\<close> decides from a block-wise byte scan whether to look at characters at
  all, and still never lets a strippable character through: on every string it returns the input
  without its strippable characters, and reports truncation exactly when there was one. The scan
  may have false positives (an em dash shares its lead byte) but no false negative.\<close>

theorem sanitize_field_correct:
  assumes "valid_str raw"
  shows "sanitize_field raw = \<lparr>bt_text = keep raw, bt_truncated = (\<exists>c \<in> set raw. is_strippable c)\<rparr> \<and>
    (may_need_stripping raw \<or> (\<forall>c \<in> set raw. \<not> is_strippable c))"
  using may_need_stripping_complete [OF assms] keep_eq_iff [of raw]
  by (auto simp: sanitize_field_def sanitize_owned_eq [OF assms] list_all_iff)

lemma sanitize_field_correct_witness:
  "sanitize_field [0x61, 0x2014, 0x85, 0x62] = \<lparr>bt_text = [0x61, 0x2014, 0x62], bt_truncated = True\<rparr> \<and>
   may_need_stripping [0x2014]"
proof -
  have "valid_str [0x61, 0x2014, 0x85, 0x62]" by (simp add: scalar_value_def)
  from sanitize_field_correct [OF this]
  have "sanitize_field [0x61, 0x2014, 0x85, 0x62] =
      \<lparr>bt_text = [0x61, 0x2014, 0x62], bt_truncated = True\<rparr>"
    by (simp add: is_strippable_def)
  moreover have "may_need_stripping [0x2014]"
    by (simp add: may_need_stripping_def contains_flagged_byte_iff utf8_def utf8_char_def
        utf8_nums_def is_flagged_byte_def)
  ultimately show ?thesis by simp
qed

lemma trim_eq_Nil_iff: "trim s = [] \<longleftrightarrow> list_all is_whitespace s"
proof (cases "dropWhile is_whitespace s")
  case Nil
  then show ?thesis by (auto simp: trim_def dropWhile_eq_Nil_conv list_all_iff dest: set_dropWhileD)
next
  case (Cons c t)
  then have "\<not> is_whitespace c" using hd_dropWhile [of is_whitespace s] by auto
  moreover have "c \<in> set s" using Cons set_dropWhileD [of c is_whitespace s] by simp
  ultimately show ?thesis
    using Cons by (auto simp: trim_def dropWhile_eq_Nil_conv list_all_iff)
qed

text \<open>An opaque vendor id is refused, never repaired (\<open>opaque_id\<close>): an id that is accepted is
  byte for byte the one the vendor sent, at most 128 code points, without a strippable character
  and not blank; every other id is an error that names the field and carries the bounded text. A
  path (\<open>vendor_path\<close>) is likewise kept whole or dropped, at 4096 UTF-8 bytes.\<close>

theorem opaque_values_kept_whole:
  assumes "valid_str raw"
  shows "(opaque_id raw field = Ok s \<longleftrightarrow>
       s = raw \<and> length raw \<le> 128 \<and> (\<forall>c \<in> set raw. \<not> is_strippable c) \<and>
       (\<exists>c \<in> set raw. \<not> is_whitespace c)) \<and>
    (opaque_id raw field = Err e \<longrightarrow> e = InvalidVendorValue field (take 128 (keep raw))) \<and>
    (vendor_path raw = Some p \<longleftrightarrow>
       p = raw \<and> raw \<noteq> [] \<and> str_len raw \<le> 4096 \<and> (\<forall>c \<in> set raw. \<not> is_strippable c))"
proof -
  have id: "opaque_id raw field =
      (if take 128 (keep raw) \<noteq> raw \<or> list_all is_whitespace (take 128 (keep raw))
       then Err (InvalidVendorValue field (take 128 (keep raw))) else Ok (take 128 (keep raw)))"
    by (simp add: opaque_id_def bound_simps [OF assms] trim_eq_Nil_iff)
  have cut: "take 128 (keep raw) = raw \<longleftrightarrow> length raw \<le> 128 \<and> (\<forall>c \<in> set raw. \<not> is_strippable c)"
  proof
    assume eq: "take 128 (keep raw) = raw"
    then have "length raw \<le> 128" by (metis length_take min.cobounded2)
    moreover have "\<forall>c \<in> set raw. \<not> is_strippable c"
      by (subst (1) eq [symmetric]) (auto dest: in_set_takeD)
    ultimately show "length raw \<le> 128 \<and> (\<forall>c \<in> set raw. \<not> is_strippable c)" by simp
  next
    assume "length raw \<le> 128 \<and> (\<forall>c \<in> set raw. \<not> is_strippable c)"
    then show "take 128 (keep raw) = raw" by simp
  qed
  have path: "vendor_path raw = Some p \<longleftrightarrow>
       p = raw \<and> raw \<noteq> [] \<and> str_len raw \<le> 4096 \<and> (\<forall>c \<in> set raw. \<not> is_strippable c)"
    using keep_eq_iff [of raw]
    by (auto simp: vendor_path_def sanitize_field_def sanitize_owned_eq [OF assms] Let_def
        MAX_PATH_LENGTH_def list_all_iff)
  show ?thesis
    unfolding id path using cut by (auto simp: list_all_iff)
qed

lemma opaque_values_kept_whole_witness:
  "opaque_id (lit ''thr_1'') (lit ''f'') = Ok (lit ''thr_1'') \<and>
   opaque_id [0x61, 0x1b] (lit ''f'') = Err (InvalidVendorValue (lit ''f'') [0x61])"
proof -
  have v: "valid_str (lit ''thr_1'')" "valid_str [0x61, 0x1b]"
    by (simp_all add: lit_def scalar_value_def)
  have "opaque_id (lit ''thr_1'') (lit ''f'') = Ok (lit ''thr_1'')"
    using opaque_values_kept_whole [OF v(1), of "lit ''f''" "lit ''thr_1''"]
    by (simp add: lit_def is_strippable_def is_whitespace_def)
  moreover have "opaque_id [0x61, 0x1b] (lit ''f'') \<noteq> Ok s" for s
    using opaque_values_kept_whole [OF v(2), of "lit ''f''" s] by (simp add: is_strippable_def)
  then obtain e where "opaque_id [0x61, 0x1b] (lit ''f'') = Err e"
    by (cases "opaque_id [0x61, 0x1b] (lit ''f'')") auto
  moreover from this have "e = InvalidVendorValue (lit ''f'') [0x61]"
    using opaque_values_kept_whole [OF v(2), of "lit ''f''"] by (simp add: is_strippable_def)
  ultimately show ?thesis by simp
qed

text \<open>A value that may take an argv position survives every field bound as wide as it is.\<close>

lemma argv_value_not_cut:
  assumes "valid_str raw" "is_argv_value_with_max raw n" "n \<le> max_code_points limit"
  shows "bound_text raw limit = Some \<lparr>bt_text = raw, bt_truncated = False\<rparr>"
proof -
  have "keep raw = raw" using assms(2) by (auto simp: is_argv_value_with_max_def keep_eq_iff list_all_iff)
  with assms show ?thesis
    by (simp add: bound_text_eq bounded_ref_def is_argv_value_with_max_def)
qed


subsection \<open>What a bounded field looks like\<close>

definition field_ok :: "text_limit \<Rightarrow> ustring \<Rightarrow> bool" where
  "field_ok limit s \<longleftrightarrow>
     valid_str s \<and> length s \<le> max_code_points limit \<and> (\<forall>c \<in> set s. \<not> is_strippable c)"

lemma bound_field_ok: "valid_str raw \<Longrightarrow> field_ok limit (bt_text (bound raw limit))"
  using valid_str_keep by (auto simp: field_ok_def bound_simps dest: in_set_takeD)

lemma bound_idem: "field_ok limit s \<Longrightarrow> bound s limit = \<lparr>bt_text = s, bt_truncated = False\<rparr>"
  by (simp add: field_ok_def bound_text_eq bounded_ref_def)

lemma bound_bound:
  assumes "valid_str raw"
  shows "bound (bt_text (bound raw limit)) limit = \<lparr>bt_text = bt_text (bound raw limit), bt_truncated = False\<rparr>"
  by (rule bound_idem [OF bound_field_ok [OF assms]])

abbreviation valid_opt :: "ustring option \<Rightarrow> bool" where
  "valid_opt t \<equiv> (\<forall>s \<in> set_option t. valid_str s)"

definition opt_field_ok :: "text_limit \<Rightarrow> ustring option \<Rightarrow> bool" where
  "opt_field_ok limit t \<longleftrightarrow> (\<forall>s \<in> set_option t. field_ok limit s)"

lemma bound_opt_simps [simp]:
  "bound_opt limit None = None" "cut_opt None = False"
  "bound_opt limit (Some s) = Some (bound s limit)" "cut_opt (Some b) = bt_truncated b"
  by (simp_all add: bound_opt_def cut_opt_def)

lemma bound_opt_ok: "valid_opt t \<Longrightarrow> opt_field_ok limit (map_option bt_text (bound_opt limit t))"
  by (cases t) (simp_all add: opt_field_ok_def bound_field_ok)

lemma bound_opt_idem:
  assumes "opt_field_ok limit t"
  shows "map_option bt_text (bound_opt limit t) = t" "\<not> cut_opt (bound_opt limit t)"
  using assms by (cases t; simp add: opt_field_ok_def bound_idem)+

text \<open>An accepted opaque id is the vendor's, and is accepted again under any field name.\<close>

definition id_ok :: "ustring \<Rightarrow> bool" where
  "id_ok s \<longleftrightarrow> field_ok VendorId s \<and> trim s \<noteq> []"

lemma opaque_id_Ok:
  assumes "valid_str raw" "opaque_id raw field = Ok s"
  shows "s = raw" "id_ok s"
proof -
  have "\<not> bt_truncated (bound raw VendorId)" "s = bt_text (bound raw VendorId)" "trim s \<noteq> []"
    using assms(2) by (auto simp: opaque_id_def Let_def split: if_splits)
  then show "s = raw" using assms(1) by (simp add: bound_simps)
  show "id_ok s"
    using bound_field_ok [OF assms(1), of VendorId] \<open>s = bt_text _\<close> \<open>trim s \<noteq> []\<close> by (simp add: id_ok_def)
qed

lemma opaque_id_idem: "id_ok s \<Longrightarrow> opaque_id s field = Ok s"
  by (simp add: id_ok_def opaque_id_def bound_idem)

lemma collect_opaque_id:
  assumes "collect_res (\<lambda>i. opaque_id i field) raws = Ok ids" "\<forall>raw \<in> set raws. valid_str raw"
  shows "ids = raws"
  using assms
proof (induction raws arbitrary: ids)
  case (Cons raw raws)
  then show ?case using opaque_id_Ok(1) [of raw field] by (auto simp: rbind_Inr_iff)
qed simp

end
