(* ===== verification/Identity.thy ===== *)
theory Identity imports Text_Norm begin

text \<open>
  Harness identity (\<open>identity.rs\<close>): the shared validation of identifiers, the three newtypes it
  guards, and the \<open>acp:\<close> composition. A newtype wraps the string its constructor checked; the
  values this crate writes itself go through \<open>trusted\<close>, and the lemmas show that the checks would
  have accepted them.
\<close>

definition IDENTIFIER_MAX_LENGTH :: usize where
  "IDENTIFIER_MAX_LENGTH = 64"

definition ACP_PREFIX :: ustring where
  "ACP_PREFIX = lit ''acp:''"

definition PROFILE_ID_MAX_LENGTH :: usize where
  "PROFILE_ID_MAX_LENGTH = IDENTIFIER_MAX_LENGTH - str_len ACP_PREFIX"

definition is_identifier_char :: "uchar \<Rightarrow> bool" where
  "is_identifier_char c \<longleftrightarrow>
     (0x61 \<le> c \<and> c \<le> 0x7a) \<or> (0x30 \<le> c \<and> c \<le> 0x39) \<or> c \<in> {0x2d, 0x5f, 0x2e, 0x3a}"

definition is_separator :: "uchar \<Rightarrow> bool" where
  "is_separator c \<longleftrightarrow> c \<in> {0x2d, 0x5f, 0x2e, 0x3a}"

text \<open>\<open>slice.windows(2)\<close>\<close>

definition windows2 :: "'a list \<Rightarrow> ('a \<times> 'a) list" where
  "windows2 xs = zip xs (tl xs)"

definition identifier_shape :: ustring where
  "identifier_shape =
     lit ''ASCII lowercase, digits, `-`, `_`, `.` or `:`, within the identifier length, not beginning or ending with a separator and with no separator repeated''"

definition refuse_identifier :: "ustring \<Rightarrow> ustring \<Rightarrow> 'a result" where
  "refuse_identifier subject received =
     Err (HostConfiguration identifier_shape (subject @ lit '' '' @ received))"

definition validate :: "ustring \<Rightarrow> ustring \<Rightarrow> usize \<Rightarrow> ustring result" where
  "validate raw subject max_length =
     (if raw = [] then refuse_identifier subject (lit ''was empty'')
      else if length raw > max_length then
        refuse_identifier subject (lit ''was '' @ dec (length raw) @ lit '' characters, over the '' @
          dec max_length @ lit '' allowed'')
      else if list_ex (\<lambda>c. \<not> is_identifier_char c) raw then
        refuse_identifier subject (lit ''contains a disallowed character'')
      else if is_separator (hd raw) \<or> is_separator (last raw) then
        refuse_identifier subject (lit ''begins or ends with a separator'')
      else if list_ex (\<lambda>(a, b). is_separator (unat a) \<and> is_separator (unat b)) (windows2 (utf8 raw)) then
        refuse_identifier subject (lit ''repeats a separator'')
      else Ok raw)"

type_synonym protocol_family = ustring
type_synonym profile_id = ustring

definition harness_id_new :: "ustring \<Rightarrow> harness_id result" where
  "harness_id_new raw = validate raw (lit ''harness id'') IDENTIFIER_MAX_LENGTH"

definition protocol_family_new :: "ustring \<Rightarrow> protocol_family result" where
  "protocol_family_new raw = validate raw (lit ''protocol family'') IDENTIFIER_MAX_LENGTH"

definition profile_id_new :: "ustring \<Rightarrow> profile_id result" where
  "profile_id_new raw = validate raw (lit ''profile id'') PROFILE_ID_MAX_LENGTH"

definition harness_id_claude :: harness_id where
  "harness_id_claude = lit ''claude''"

definition harness_id_codex :: harness_id where
  "harness_id_codex = lit ''codex''"

definition harness_id_acp :: "profile_id \<Rightarrow> harness_id" where
  "harness_id_acp profile = ACP_PREFIX @ profile"

text \<open>\<open>str::strip_prefix\<close>\<close>

definition strip_prefix :: "ustring \<Rightarrow> ustring \<Rightarrow> ustring option" where
  "strip_prefix s pre =
     (if take (length pre) s = pre then Some (drop (length pre) s) else None)"

definition acp_profile :: "harness_id \<Rightarrow> profile_id option" where
  "acp_profile h = strip_prefix h ACP_PREFIX"

definition protocol_claude_code :: protocol_family where
  "protocol_claude_code = lit ''claude-code''"

definition protocol_codex_app_server :: protocol_family where
  "protocol_codex_app_server = lit ''codex-app-server''"

definition protocol_acp :: protocol_family where
  "protocol_acp = lit ''agent-client-protocol''"

record harness_identity =
  hi_id :: harness_id
  hi_protocol :: protocol_family
  hi_profile :: "profile_id option"

definition identity_claude :: harness_identity where
  "identity_claude =
     \<lparr>hi_id = harness_id_claude, hi_protocol = protocol_claude_code, hi_profile = None\<rparr>"

definition identity_codex :: harness_identity where
  "identity_codex =
     \<lparr>hi_id = harness_id_codex, hi_protocol = protocol_codex_app_server, hi_profile = None\<rparr>"

definition identity_acp :: "profile_id \<Rightarrow> harness_identity" where
  "identity_acp profile =
     \<lparr>hi_id = harness_id_acp profile, hi_protocol = protocol_acp, hi_profile = Some profile\<rparr>"

definition identity_custom ::
  "ustring \<Rightarrow> ustring \<Rightarrow> ustring option \<Rightarrow> harness_identity result" where
  "identity_custom raw protocol profile =
     rbind (harness_id_new raw) (\<lambda>i.
     rbind (protocol_family_new protocol) (\<lambda>p.
     rbind (case profile of None \<Rightarrow> Ok None | Some f \<Rightarrow> res_map Some (profile_id_new f)) (\<lambda>f.
     Ok \<lparr>hi_id = i, hi_protocol = p, hi_profile = f\<rparr>)))"

subsection \<open>What validation accepts\<close>

text \<open>The grammar: words of letters and digits, joined by single separators, within the length.\<close>

definition no_double :: "ustring \<Rightarrow> bool" where
  "no_double s \<longleftrightarrow> list_all (\<lambda>(a, b). \<not> (is_separator a \<and> is_separator b)) (windows2 s)"

definition well_formed :: "usize \<Rightarrow> ustring \<Rightarrow> bool" where
  "well_formed n s \<longleftrightarrow>
     s \<noteq> [] \<and> length s \<le> n \<and> list_all is_identifier_char s \<and>
     \<not> is_separator (hd s) \<and> \<not> is_separator (last s) \<and> no_double s"

lemma identifier_char_ascii: "is_identifier_char c \<Longrightarrow> c < 0x80"
  by (auto simp: is_identifier_char_def)

lemma windows2_map: "windows2 (map f s) = map (\<lambda>(a, b). (f a, f b)) (windows2 s)"
  by (simp add: windows2_def map_tl [symmetric] zip_map_map)

lemma validate_windows:
  assumes "list_all is_identifier_char s"
  shows "list_ex (\<lambda>(a, b). is_separator (unat a) \<and> is_separator (unat b)) (windows2 (utf8 s)) \<longleftrightarrow>
     \<not> no_double s"
proof -
  have small: "\<forall>c \<in> set s. c < 0x80" using assms identifier_char_ascii by (auto simp: list_all_iff)
  then have "utf8 s = map of_nat s" by (simp add: utf8_ascii list_all_iff)
  moreover have "unat (of_nat c :: byte) = c" if "c \<in> set s" for c
    using small that by (intro unat_byte) auto
  moreover have "a \<in> set s \<and> b \<in> set s" if "(a, b) \<in> set (windows2 s)" for a b
    using that by (cases s) (auto simp: windows2_def dest: set_zip_leftD set_zip_rightD)
  ultimately show ?thesis
    by (fastforce simp: windows2_map list_ex_iff no_double_def list_all_iff)
qed

lemma validate_Ok_iff: "validate raw subject n = Ok s \<longleftrightarrow> s = raw \<and> well_formed n raw"
proof (cases "list_all is_identifier_char raw")
  case True
  then show ?thesis
    using validate_windows [OF True]
    by (auto simp: validate_def refuse_identifier_def well_formed_def list_ex_iff list_all_iff)
next
  case False
  then show ?thesis
    by (auto simp: validate_def refuse_identifier_def well_formed_def list_ex_iff list_all_iff)
qed

lemma harness_id_new_Ok_iff: "harness_id_new raw = Ok h \<longleftrightarrow> h = raw \<and> well_formed 64 raw"
  by (simp add: harness_id_new_def validate_Ok_iff IDENTIFIER_MAX_LENGTH_def)

lemma protocol_family_new_Ok_iff:
  "protocol_family_new raw = Ok h \<longleftrightarrow> h = raw \<and> well_formed 64 raw"
  by (simp add: protocol_family_new_def validate_Ok_iff IDENTIFIER_MAX_LENGTH_def)

lemma PROFILE_ID_MAX_LENGTH_eq: "PROFILE_ID_MAX_LENGTH = 60"
  by code_simp

lemma profile_id_new_Ok_iff: "profile_id_new raw = Ok p \<longleftrightarrow> p = raw \<and> well_formed 60 raw"
  by (simp add: profile_id_new_def validate_Ok_iff PROFILE_ID_MAX_LENGTH_eq)

lemma well_formed_mono: "well_formed m s \<Longrightarrow> m \<le> n \<Longrightarrow> well_formed n s"
  by (auto simp: well_formed_def)

text \<open>The refusal never copies the caller's text into a diagnostic: it is one of five sentences.\<close>

lemma validate_Err:
  assumes "validate raw subject n = Err e"
  shows "\<exists>m. e = HostConfiguration identifier_shape (subject @ lit '' '' @ m) \<and>
    m \<in> {lit ''was empty'', lit ''contains a disallowed character'',
      lit ''begins or ends with a separator'', lit ''repeats a separator'',
      lit ''was '' @ dec (length raw) @ lit '' characters, over the '' @ dec n @ lit '' allowed''}"
  using assms by (auto simp: validate_def refuse_identifier_def split: if_splits)

subsection \<open>The acp: composition\<close>

lemma no_double_Cons [simp]:
  "no_double []" "no_double [a]"
  "no_double (a # b # s) \<longleftrightarrow> \<not> (is_separator a \<and> is_separator b) \<and> no_double (b # s)"
  by (simp_all add: no_double_def windows2_def)

lemma ACP_PREFIX_unfold: "ACP_PREFIX = [0x61, 0x63, 0x70, 0x3a]"
  by (simp add: ACP_PREFIX_def lit_def)

lemma well_formed_acp_iff: "well_formed 64 (ACP_PREFIX @ s) \<longleftrightarrow> well_formed 60 s"
proof (cases s)
  case Nil
  then show ?thesis by (simp add: well_formed_def ACP_PREFIX_unfold is_separator_def)
next
  case (Cons c t)
  then show ?thesis
    by (auto simp: well_formed_def ACP_PREFIX_unfold is_identifier_char_def is_separator_def)
qed

lemma strip_prefix_iff: "strip_prefix s pre = Some r \<longleftrightarrow> s = pre @ r"
  by (auto simp: strip_prefix_def) (metis append_take_drop_id)

lemma acp_profile_iff: "acp_profile h = Some p \<longleftrightarrow> h = harness_id_acp p"
  by (simp add: acp_profile_def strip_prefix_iff harness_id_acp_def)

text \<open>The infallible constructors of the identifier types are sound and inverse to each other.
  The id composed for an ACP profile (\<open>HarnessId::acp\<close>) is one \<open>HarnessId::new\<close> accepts exactly when
  the profile is one \<open>ProfileId::new\<close> accepts, so the unchecked wrapping never makes an invalid id;
  reading the profile back (\<open>acp_profile\<close>) returns it; and every valid id with an \<open>acp:\<close> prefix names
  a profile \<open>ProfileId::new\<close> accepts and is the id composed for it.\<close>

theorem acp_composition_sound:
  "(profile_id_new p = Ok p \<longleftrightarrow> harness_id_new (harness_id_acp p) = Ok (harness_id_acp p)) \<and>
   acp_profile (harness_id_acp p) = Some p \<and>
   (harness_id_new h = Ok h \<and> acp_profile h = Some q \<longrightarrow>
      profile_id_new q = Ok q \<and> harness_id_acp q = h)"
  by (auto simp: profile_id_new_Ok_iff harness_id_new_Ok_iff acp_profile_iff harness_id_acp_def
      well_formed_acp_iff)

lemma acp_composition_sound_witness:
  "profile_id_new (lit ''a:b'') = Ok (lit ''a:b'') \<and>
   acp_profile (lit ''acp:a:b'') = Some (lit ''a:b'') \<and>
   acp_profile harness_id_claude = None"
proof -
  have "harness_id_new (lit ''acp:a:b'') = Ok (lit ''acp:a:b'')" by code_simp
  moreover have "acp_profile (lit ''acp:a:b'') = Some (lit ''a:b'')" by code_simp
  ultimately have "profile_id_new (lit ''a:b'') = Ok (lit ''a:b'')"
    using acp_composition_sound [of "[]" "lit ''acp:a:b''" "lit ''a:b''"] by simp
  moreover have "acp_profile harness_id_claude = None" by code_simp
  ultimately show ?thesis by code_simp
qed

text \<open>The ids this crate writes itself are ones its own validation accepts.\<close>

lemma built_in_ids_valid:
  "harness_id_new harness_id_claude = Ok harness_id_claude"
  "harness_id_new harness_id_codex = Ok harness_id_codex"
  "protocol_family_new protocol_claude_code = Ok protocol_claude_code"
  "protocol_family_new protocol_codex_app_server = Ok protocol_codex_app_server"
  "protocol_family_new protocol_acp = Ok protocol_acp"
  by code_simp+

definition identity_valid :: "harness_identity \<Rightarrow> bool" where
  "identity_valid i \<longleftrightarrow> well_formed 64 (hi_id i) \<and> well_formed 64 (hi_protocol i) \<and>
     (case hi_profile i of None \<Rightarrow> True | Some p \<Rightarrow> well_formed 60 p)"

text \<open>C40: every identity a host can obtain is well formed: the built-in ones, every ACP profile that
  passed validation, and a host's own (\<open>HarnessIdentity::custom\<close>), which is accepted exactly when all
  three parts are, and then holds them unchanged. Well formed is words of lowercase letters and
  digits joined by single separators, at most 64 code points (60 for a profile).\<close>

theorem identities_well_formed:
  "identity_valid identity_claude \<and> identity_valid identity_codex \<and>
   (profile_id_new p = Ok p \<longrightarrow> identity_valid (identity_acp p)) \<and>
   (identity_custom i f pr = Ok r \<longleftrightarrow>
      r = \<lparr>hi_id = i, hi_protocol = f, hi_profile = pr\<rparr> \<and> identity_valid r)"
proof (intro conjI impI)
  show "identity_valid identity_claude" "identity_valid identity_codex"
    using built_in_ids_valid
    by (simp_all add: identity_valid_def identity_claude_def identity_codex_def
        harness_id_new_Ok_iff protocol_family_new_Ok_iff)
  show "identity_valid (identity_acp p)" if "profile_id_new p = Ok p"
    using that built_in_ids_valid
    by (simp add: identity_valid_def identity_acp_def profile_id_new_Ok_iff harness_id_acp_def
        well_formed_acp_iff protocol_family_new_Ok_iff)
  show "identity_custom i f pr = Ok r \<longleftrightarrow>
      r = \<lparr>hi_id = i, hi_protocol = f, hi_profile = pr\<rparr> \<and> identity_valid r"
    by (cases pr)
      (auto simp: identity_custom_def result_simps harness_id_new_Ok_iff
        protocol_family_new_Ok_iff profile_id_new_Ok_iff identity_valid_def)
qed

lemma identities_well_formed_witness:
  "identity_custom (lit ''my-agent'') (lit ''my.wire'') (Some (lit ''p1'')) =
     Ok \<lparr>hi_id = lit ''my-agent'', hi_protocol = lit ''my.wire'', hi_profile = Some (lit ''p1'')\<rparr>"
proof -
  have "identity_valid
      \<lparr>hi_id = lit ''my-agent'', hi_protocol = lit ''my.wire'', hi_profile = Some (lit ''p1'')\<rparr>"
    by code_simp
  then show ?thesis using identities_well_formed by blast
qed

end
