(* ===== verification/Registry.thy ===== *)
theory Registry imports Btree Identity begin

text \<open>
  The registry of linked harnesses (\<open>registry.rs\<close>): built once from a list, refusing a duplicate id.
  A harness is whatever implements the trait; what the registry asks it is the id its descriptor
  names, the argument \<open>id_of\<close>. The map is the ordered map of \<open>Btree\<close>.
\<close>

type_synonym 'h harness_registry = "(harness_id, 'h) btree"

text \<open>\<open>{:?}\<close> of a list of identifiers, which hold no character a string literal would escape.\<close>

fun debug_join :: "ustring list \<Rightarrow> ustring" where
  "debug_join [] = []"
| "debug_join [x] = lit ''\"'' @ x @ lit ''\"''"
| "debug_join (x # y # xs) = lit ''\"'' @ x @ lit ''\", '' @ debug_join (y # xs)"

definition debug_names :: "ustring list \<Rightarrow> ustring" where
  "debug_names xs = lit ''['' @ debug_join xs @ lit '']''"

fun register :: "('h \<Rightarrow> harness_id) \<Rightarrow> 'h harness_registry \<Rightarrow> 'h list \<Rightarrow> 'h harness_registry result" where
  "register id_of registered [] = Ok registered"
| "register id_of registered (h # hs) =
     (let i = id_of h
      in if bt_contains_key registered i
         then Err (HostConfiguration (lit ''one harness per id'') (i @ lit '' registered twice''))
         else register id_of (bt_insert i h registered) hs)"

definition registry_new :: "('h \<Rightarrow> harness_id) \<Rightarrow> 'h list \<Rightarrow> 'h harness_registry result" where
  "registry_new id_of hs = register id_of [] hs"

definition registry_ids :: "'h harness_registry \<Rightarrow> harness_id list" where
  "registry_ids r = bt_keys r"

definition registry_get :: "'h harness_registry \<Rightarrow> harness_id \<Rightarrow> 'h option" where
  "registry_get r i = bt_get r i"

definition registry_id_names :: "'h harness_registry \<Rightarrow> ustring list" where
  "registry_id_names r = bt_keys r"

definition registry_require :: "'h harness_registry \<Rightarrow> harness_id \<Rightarrow> 'h result" where
  "registry_require r i =
     (case registry_get r i of
        Some h \<Rightarrow> Ok h
      | None \<Rightarrow> Err (HostConfiguration (lit ''a registered harness id'')
          (i @ lit '', with '' @ debug_names (registry_id_names r) @ lit '' registered'')))"

definition registry_len :: "'h harness_registry \<Rightarrow> usize" where
  "registry_len r = length r"

definition registry_is_empty :: "'h harness_registry \<Rightarrow> bool" where
  "registry_is_empty r \<longleftrightarrow> r = []"

lemma register_Ok_iff:
  assumes "bt_invar m"
  shows "register id_of m hs = Ok r \<longleftrightarrow>
     distinct (map id_of hs) \<and> dom (bt_get m) \<inter> id_of ` set hs = {} \<and>
     r = foldl (\<lambda>m (k, v). bt_insert k v m) m (map (\<lambda>h. (id_of h, h)) hs)"
  using assms
proof (induction id_of m hs rule: register.induct)
  case (2 id_of m h hs)
  have dom: "dom (bt_get (bt_insert (id_of h) h m)) = {id_of h} \<union> dom (bt_get m)"
    using 2 by (simp add: bt_get_insert)
  show ?case
  proof (cases "bt_contains_key m (id_of h)")
    case True
    then show ?thesis by (auto simp: bt_contains_key_def)
  next
    case False
    with 2 dom show ?thesis
      by (simp add: bt_invar_insert) (auto simp: bt_contains_key_def)
  qed
qed auto

lemma register_Err:
  assumes "bt_invar m" "register id_of m hs = Err e"
  shows "\<exists>xs h ys. hs = xs @ h # ys \<and> id_of h \<in> dom (bt_get m) \<union> id_of ` set xs \<and>
    e = HostConfiguration (lit ''one harness per id'') (id_of h @ lit '' registered twice'')"
  using assms
proof (induction id_of m hs rule: register.induct)
  case (2 id_of m h hs)
  show ?case
  proof (cases "bt_contains_key m (id_of h)")
    case True
    with 2 show ?thesis
      by (intro exI [of _ "[]"] exI [of _ h] exI [of _ hs]) (auto simp: bt_contains_key_def)
  next
    case False
    with 2 obtain xs g ys where "hs = xs @ g # ys"
      and "id_of g \<in> dom (bt_get (bt_insert (id_of h) h m)) \<union> id_of ` set xs"
      and "e = HostConfiguration (lit ''one harness per id'') (id_of g @ lit '' registered twice'')"
      using bt_invar_insert by (fastforce simp: Let_def)
    with "2.prems" show ?thesis
      by (intro exI [of _ "h # xs"] exI [of _ g] exI [of _ ys]) (auto simp: bt_get_insert)
  qed
qed simp

lemma registry_new_Ok_iff:
  "registry_new id_of hs = Ok r \<longleftrightarrow> distinct (map id_of hs) \<and>
   r = foldl (\<lambda>m (k, v). bt_insert k v m) [] (map (\<lambda>h. (id_of h, h)) hs)"
  by (simp add: registry_new_def register_Ok_iff btree.invar_empty)

lemma map_of_ids: "distinct (map id_of hs) \<Longrightarrow> h \<in> set hs \<Longrightarrow>
    map_of (map (\<lambda>h. (id_of h, h)) hs) (id_of h) = Some h"
  by (induction hs) (auto simp: rev_image_eqI)

text \<open>A registry is built exactly when no two harnesses claim one id, and a refusal names an id
  that was claimed twice; a built registry finds every harness under the id its descriptor names
  and nothing else, requires exactly the registered ids, lists them in order without repetition,
  and holds as many harnesses as it was given, whatever order they came in.\<close>

theorem registry_new_correct:
  "(is_ok (registry_new id_of hs) \<longleftrightarrow> distinct (map id_of hs)) \<and>
   (registry_new id_of hs = Err e \<longrightarrow>
      (\<exists>i. e = HostConfiguration (lit ''one harness per id'') (i @ lit '' registered twice'') \<and>
        1 < count_list (map id_of hs) i)) \<and>
   (registry_new id_of hs = Ok r \<longrightarrow>
      registry_ids r = sort (map id_of hs) \<and> registry_len r = length hs \<and>
      (registry_get r i = Some h \<longleftrightarrow> h \<in> set hs \<and> id_of h = i) \<and>
      (is_ok (registry_require r i) \<longleftrightarrow> i \<in> id_of ` set hs))"
proof (intro conjI impI)
  show "is_ok (registry_new id_of hs) \<longleftrightarrow> distinct (map id_of hs)"
    by (auto simp: is_ok_iff registry_new_Ok_iff)
next
  assume "registry_new id_of hs = Err e"
  then obtain xs h ys where "hs = xs @ h # ys" "id_of h \<in> id_of ` set xs"
    "e = HostConfiguration (lit ''one harness per id'') (id_of h @ lit '' registered twice'')"
    using register_Err [OF btree.invar_empty] by (fastforce simp: registry_new_def)
  moreover from this have "0 < count_list (map id_of xs) (id_of h)"
    by (metis count_list_0_iff gr0I image_set)
  ultimately show "\<exists>i. e = HostConfiguration (lit ''one harness per id'') (i @ lit '' registered twice'') \<and>
        1 < count_list (map id_of hs) i"
    by (intro exI [of _ "id_of h"]) simp
next
  assume "registry_new id_of hs = Ok r"
  then have d: "distinct (map fst (map (\<lambda>h. (id_of h, h)) hs))" and d': "distinct (map id_of hs)"
    and r: "r = foldl (\<lambda>m (k, v). bt_insert k v m) [] (map (\<lambda>h. (id_of h, h)) hs)"
    by (simp_all add: registry_new_Ok_iff comp_def)
  have keys: "bt_keys r = sort (map id_of hs)"
    using btree.keys_insert_all [OF d] by (simp add: r comp_def)
  then show "registry_ids r = sort (map id_of hs)" by (simp add: registry_ids_def)
  have "length (bt_keys r) = length hs" by (simp add: keys)
  then show "registry_len r = length hs" by (simp add: registry_len_def bt_keys_def)
  have get: "registry_get r j = Some g \<longleftrightarrow> g \<in> set hs \<and> id_of g = j" for j g
    using btree.get_insert_all [OF d] map_of_ids [OF d']
    by (auto simp: r registry_get_def dest: map_of_SomeD)
  then show "registry_get r i = Some h \<longleftrightarrow> h \<in> set hs \<and> id_of h = i" by blast
  show "is_ok (registry_require r i) \<longleftrightarrow> i \<in> id_of ` set hs"
  proof -
    have "is_ok (registry_require r i) \<longleftrightarrow> (\<exists>h. registry_get r i = Some h)"
      by (auto simp: registry_require_def split: option.split)
    then show ?thesis using get by auto
  qed
qed

lemma registry_new_correct_witness:
  "\<exists>r. registry_new id [lit ''codex'', lit ''claude''] = Ok r \<and>
     registry_ids r = [lit ''claude'', lit ''codex''] \<and>
     is_ok (registry_require r (lit ''codex'')) \<and> \<not> is_ok (registry_require r (lit ''acp:x''))"
proof -
  let ?hs = "[lit ''codex'', lit ''claude'']"
  have "distinct (map id ?hs)" by code_simp
  then have "is_ok (registry_new id ?hs)" by (rule registry_new_correct [THEN conjunct1, THEN iffD2])
  then obtain r where r: "registry_new id ?hs = Ok r" unfolding is_ok_iff by blast
  note built = registry_new_correct [THEN conjunct2, THEN conjunct2, THEN mp, OF r]
  have "registry_ids r = sort (map id ?hs)"
    "is_ok (registry_require r (lit ''codex'')) \<longleftrightarrow> lit ''codex'' \<in> id ` set ?hs"
    "is_ok (registry_require r (lit ''acp:x'')) \<longleftrightarrow> lit ''acp:x'' \<in> id ` set ?hs"
    by (fact built [THEN conjunct1], fact built [THEN conjunct2, THEN conjunct2, THEN conjunct2],
      fact built [THEN conjunct2, THEN conjunct2, THEN conjunct2])
  moreover have "sort (map id ?hs) = [lit ''claude'', lit ''codex'']"
    and "lit ''acp:x'' \<notin> id ` set ?hs"
    by code_simp+
  ultimately show ?thesis using r by auto
qed

end
