(* ===== verification/Recovery.thy ===== *)
theory Recovery imports Text_Norm begin

text \<open>
  Attempts and reconciliation (\<open>operation.rs\<close>, \<open>recovery.rs\<close>): which dispatch of a logical turn
  something belongs to, the digest that recognises a changed request, and the record a supervisor
  keeps so that work is never replayed without proof that it did not run. SHA-256 (the \<open>ring\<close> crate)
  and the JSON text of the prompt and configuration (\<open>serde_json\<close>) are arguments.
\<close>

subsection \<open>Attempts and operations\<close>

type_synonym attempt_id = "64 word"
type_synonym session_id = ustring
type_synonym turn_id = ustring

definition attempt_FIRST :: attempt_id where
  "attempt_FIRST = 1"

definition attempt_next :: "attempt_id \<Rightarrow> attempt_id" where
  "attempt_next a = (if a = - 1 then - 1 else a + 1)"

record operation_ref =
  op_session :: session_id
  op_turn :: turn_id
  op_attempt :: attempt_id

definition is_same_turn :: "operation_ref \<Rightarrow> operation_ref \<Rightarrow> bool" where
  "is_same_turn a b \<longleftrightarrow> op_session a = op_session b \<and> op_turn a = op_turn b"

definition is_superseded_by :: "operation_ref \<Rightarrow> operation_ref \<Rightarrow> bool" where
  "is_superseded_by a b \<longleftrightarrow> is_same_turn a b \<and> op_attempt b > op_attempt a"

definition retried_as :: "operation_ref \<Rightarrow> attempt_id \<Rightarrow> operation_ref" where
  "retried_as a n = a\<lparr>op_attempt := n\<rparr>"

text \<open>
  Supersession is a strict order, total between attempts at one turn, and the saturating successor
  supersedes every attempt but the last: a counter that wrapped would make the newest attempt stale.
\<close>

lemma attempt_next_gt: "a \<noteq> - 1 \<Longrightarrow> a < attempt_next a"
  using unatSuc [of a] by (simp add: attempt_next_def word_less_nat_alt eq_neg_iff_add_eq_0 add.commute)

lemma attempt_next_ge: "a \<le> attempt_next a"
  using attempt_next_gt [of a] by (cases "a = - 1") (auto simp: attempt_next_def)

text \<open>Stale work is recognised by comparing generations. Within one turn supersession is a strict
  total order, it never relates two turns, and the next generation of an attempt supersedes it for
  every generation but the last representable one, where the counter saturates instead of wrapping
  to a generation older than every other.\<close>

theorem supersession_order:
  "\<not> is_superseded_by a a \<and>
   (is_superseded_by a b \<and> is_superseded_by b c \<longrightarrow> is_superseded_by a c) \<and>
   (is_same_turn a b \<longrightarrow> a = b\<lparr>op_attempt := op_attempt a\<rparr> \<and>
      (is_superseded_by a b \<or> is_superseded_by b a \<or> op_attempt a = op_attempt b)) \<and>
   (op_attempt a \<noteq> - 1 \<longrightarrow> is_superseded_by a (retried_as a (attempt_next (op_attempt a)))) \<and>
   \<not> is_superseded_by (retried_as a (attempt_next (op_attempt a))) a"
  using attempt_next_gt [of "op_attempt a"] attempt_next_ge [of "op_attempt a"]
  by (auto simp: is_superseded_by_def is_same_turn_def retried_as_def)

lemma supersession_order_witness:
  "is_superseded_by \<lparr>op_session = [], op_turn = [], op_attempt = 2\<rparr>
     \<lparr>op_session = [], op_turn = [], op_attempt = 10\<rparr> \<and>
   is_superseded_by \<lparr>op_session = [], op_turn = [], op_attempt = 2\<rparr>
     \<lparr>op_session = [], op_turn = [], op_attempt = 3\<rparr>"
proof -
  let ?a = "\<lparr>op_session = [], op_turn = [], op_attempt = 2\<rparr>"
  have "op_attempt ?a \<noteq> - 1" by simp
  then have "is_superseded_by ?a (retried_as ?a (attempt_next (op_attempt ?a)))"
    using supersession_order by blast
  then show ?thesis
    by (simp add: retried_as_def attempt_next_def is_superseded_by_def is_same_turn_def)
qed

subsection \<open>The request fingerprint\<close>

datatype attachment_kind = ImageKind | TextKind | PdfKind | DataKind | UnknownKind

record attachment =
  at_id :: ustring
  at_name :: ustring
  at_mime_type :: ustring
  at_kind :: attachment_kind
  at_bytes :: "byte list"

record 'c turn_request =
  tr_turn_id :: turn_id
  tr_attempt :: attempt_id
  tr_input :: ustring
  tr_attachments :: "attachment list"
  tr_configuration :: "'c option"

text \<open>
  What \<open>DigestWriter\<close> is fed: the JSON header of the prompt and the configuration, then every field of
  every attachment behind its own length. \<open>json\<close> is \<open>serde_json\<close> on the header, \<open>None\<close> its failure.
\<close>

definition frame :: "byte list \<Rightarrow> byte list" where
  "frame bytes = le64 (length bytes) @ bytes"

fun kind_json :: "attachment_kind \<Rightarrow> byte list" where
  "kind_json ImageKind = utf8 (lit ''\"image\"'')"
| "kind_json TextKind = utf8 (lit ''\"text\"'')"
| "kind_json PdfKind = utf8 (lit ''\"pdf\"'')"
| "kind_json DataKind = utf8 (lit ''\"data\"'')"
| "kind_json UnknownKind = utf8 (lit ''\"unknown\"'')"

definition attachment_frames :: "attachment \<Rightarrow> byte list" where
  "attachment_frames a =
     frame (utf8 (at_id a)) @ frame (utf8 (at_name a)) @ frame (utf8 (at_mime_type a)) @
     kind_json (at_kind a) @ frame (at_bytes a)"

definition unserializable :: error where
  "unserializable =
     HostConfiguration (lit ''serializable turn content'') (lit ''unserializable turn content'')"

definition digest_input ::
  "(ustring \<times> 'c option \<Rightarrow> byte list option) \<Rightarrow> 'c turn_request \<Rightarrow> byte list result" where
  "digest_input json request =
     (case json (tr_input request, tr_configuration request) of
        None \<Rightarrow> Err unserializable
      | Some header \<Rightarrow>
          Ok (header @ frame (le64 (length (tr_attachments request))) @
            concat (map attachment_frames (tr_attachments request))))"

type_synonym fingerprint = "byte list"

definition fingerprint_of ::
  "(byte list \<Rightarrow> byte list) \<Rightarrow> (ustring \<times> 'c option \<Rightarrow> byte list option) \<Rightarrow>
   'c turn_request \<Rightarrow> fingerprint result" where
  "fingerprint_of sha256 json request = res_map sha256 (digest_input json request)"

text \<open>
  What a 64-bit process can hold: valid strings, and lengths that fit the framing.
\<close>

definition attachment_ok :: "attachment \<Rightarrow> bool" where
  "attachment_ok a \<longleftrightarrow> valid_str (at_id a) \<and> valid_str (at_name a) \<and> valid_str (at_mime_type a) \<and>
     str_len (at_id a) < 2 ^ 64 \<and> str_len (at_name a) < 2 ^ 64 \<and> str_len (at_mime_type a) < 2 ^ 64 \<and>
     length (at_bytes a) < 2 ^ 64"

definition request_ok :: "'c turn_request \<Rightarrow> bool" where
  "request_ok r \<longleftrightarrow> length (tr_attachments r) < 2 ^ 64 \<and> list_all attachment_ok (tr_attachments r)"

lemma frame_prefix_free:
  assumes "length a < 2 ^ 64" "length b < 2 ^ 64" "frame a @ s = frame b @ t"
  shows "a = b \<and> s = t"
proof -
  have "le64 (length a) = le64 (length b)" "a @ s = b @ t"
    using assms(3) by (simp_all add: frame_def)
  with le64_inj assms(1,2) show ?thesis by (metis append_eq_append_conv)
qed

lemma frame_utf8_prefix_free:
  assumes "valid_str x" "valid_str y" "str_len x < 2 ^ 64" "str_len y < 2 ^ 64"
    and "frame (utf8 x) @ s = frame (utf8 y) @ t"
  shows "x = y \<and> s = t"
  using frame_prefix_free [OF _ _ assms(5)] utf8_inj assms(1-4) by simp

lemma kind_json_unfold:
  "kind_json ImageKind = [0x22, 0x69, 0x6d, 0x61, 0x67, 0x65, 0x22]"
  "kind_json TextKind = [0x22, 0x74, 0x65, 0x78, 0x74, 0x22]"
  "kind_json PdfKind = [0x22, 0x70, 0x64, 0x66, 0x22]"
  "kind_json DataKind = [0x22, 0x64, 0x61, 0x74, 0x61, 0x22]"
  "kind_json UnknownKind = [0x22, 0x75, 0x6e, 0x6b, 0x6e, 0x6f, 0x77, 0x6e, 0x22]"
  by (simp_all add: lit_def utf8_Cons utf8_char_def utf8_nums_def)

lemma kind_json_prefix_free:
  assumes "kind_json k @ s = kind_json l @ t"
  shows "k = l \<and> s = t"
  using assms by (cases k; cases l) (simp_all only: kind_json_unfold append_Cons list.inject, simp_all)

lemma attachment_frames_prefix_free:
  assumes "attachment_ok a" "attachment_ok b" "attachment_frames a @ s = attachment_frames b @ t"
  shows "a = b \<and> s = t"
proof -
  note ok = assms(1,2) [unfolded attachment_ok_def]
  from assms(3) have 1: "frame (utf8 (at_id a)) @ frame (utf8 (at_name a)) @
      frame (utf8 (at_mime_type a)) @ kind_json (at_kind a) @ frame (at_bytes a) @ s =
    frame (utf8 (at_id b)) @ frame (utf8 (at_name b)) @
      frame (utf8 (at_mime_type b)) @ kind_json (at_kind b) @ frame (at_bytes b) @ t"
    by (simp add: attachment_frames_def)
  from 1 have id: "at_id a = at_id b" and 2: "frame (utf8 (at_name a)) @
      frame (utf8 (at_mime_type a)) @ kind_json (at_kind a) @ frame (at_bytes a) @ s =
    frame (utf8 (at_name b)) @ frame (utf8 (at_mime_type b)) @ kind_json (at_kind b) @
      frame (at_bytes b) @ t"
    using frame_utf8_prefix_free ok by blast+
  from 2 have name: "at_name a = at_name b" and 3: "frame (utf8 (at_mime_type a)) @
      kind_json (at_kind a) @ frame (at_bytes a) @ s =
    frame (utf8 (at_mime_type b)) @ kind_json (at_kind b) @ frame (at_bytes b) @ t"
    using frame_utf8_prefix_free ok by blast+
  from 3 have mime: "at_mime_type a = at_mime_type b"
    and 4: "kind_json (at_kind a) @ frame (at_bytes a) @ s = kind_json (at_kind b) @ frame (at_bytes b) @ t"
    using frame_utf8_prefix_free ok by blast+
  from 4 have kind: "at_kind a = at_kind b" and 5: "frame (at_bytes a) @ s = frame (at_bytes b) @ t"
    using kind_json_prefix_free by blast+
  from 5 have "at_bytes a = at_bytes b" "s = t" using frame_prefix_free ok by blast+
  with id name mime kind show ?thesis by simp
qed

lemma attachments_inj:
  assumes "list_all attachment_ok as" "list_all attachment_ok bs" "length as = length bs"
    and "concat (map attachment_frames as) = concat (map attachment_frames bs)"
  shows "as = bs"
  using assms(3,1,2,4)
proof (induction as bs rule: list_induct2)
  case (Cons a as b bs)
  then show ?case using attachment_frames_prefix_free [of a b] by auto
qed simp

text \<open>C4: the digest input determines the content. If the JSON header is self-delimiting and
  determines the prompt and the configuration, two requests with the same digest input have the
  same prompt, configuration and attachments: no field can be split, joined, moved or reordered
  into another request that is hashed alike, so the fingerprint is as strong as SHA-256.\<close>

theorem digest_input_injective:
  assumes header: "\<And>x y a b s t. json x = Some a \<Longrightarrow> json y = Some b \<Longrightarrow> a @ s = b @ t \<Longrightarrow> x = y"
    and "request_ok r" "request_ok r'"
    and "digest_input json r = Ok d" "digest_input json r' = Ok d"
  shows "tr_input r = tr_input r' \<and> tr_configuration r = tr_configuration r' \<and>
    tr_attachments r = tr_attachments r'"
proof -
  let ?as = "tr_attachments r" and ?bs = "tr_attachments r'"
  obtain a b where a: "json (tr_input r, tr_configuration r) = Some a"
    and b: "json (tr_input r', tr_configuration r') = Some b"
    and eq: "a @ frame (le64 (length ?as)) @ concat (map attachment_frames ?as) =
      b @ frame (le64 (length ?bs)) @ concat (map attachment_frames ?bs)"
    using assms(4,5) by (auto simp: digest_input_def split: option.splits)
  have same: "(tr_input r, tr_configuration r) = (tr_input r', tr_configuration r')"
    using header [OF a b eq] .
  then have "frame (le64 (length ?as)) @ concat (map attachment_frames ?as) =
      frame (le64 (length ?bs)) @ concat (map attachment_frames ?bs)"
    using a b eq by simp
  then have "le64 (length ?as) = le64 (length ?bs)"
    and frames: "concat (map attachment_frames ?as) = concat (map attachment_frames ?bs)"
    using frame_prefix_free [of "le64 (length ?as)" "le64 (length ?bs)"] by simp_all
  then have "length ?as = length ?bs" using le64_inj assms(2,3) by (auto simp: request_ok_def)
  then have "?as = ?bs" using attachments_inj frames assms(2,3) by (auto simp: request_ok_def)
  with same show ?thesis by simp
qed

definition witness_json :: "ustring \<times> nat option \<Rightarrow> byte list option" where
  "witness_json x = (if x = (lit ''hi'', None) then Some [0x5b, 0x5d] else None)"

definition witness_request :: "nat turn_request" where
  "witness_request =
     \<lparr>tr_turn_id = lit ''t'', tr_attempt = 1, tr_input = lit ''hi'',
      tr_attachments = [\<lparr>at_id = lit ''a'', at_name = lit ''n'', at_mime_type = [], at_kind = TextKind,
        at_bytes = [1, 2]\<rparr>],
      tr_configuration = None\<rparr>"

lemma digest_input_injective_witness:
  "tr_attachments witness_request = tr_attachments (witness_request\<lparr>tr_attempt := 2\<rparr>) \<and>
   is_ok (digest_input witness_json witness_request)"
proof -
  have header: "x = y" if "witness_json x = Some a" "witness_json y = Some b" for x y a b
    using that by (simp add: witness_json_def split: if_splits)
  have ok: "request_ok witness_request" "request_ok (witness_request\<lparr>tr_attempt := 2\<rparr>)"
    by (simp_all add: request_ok_def witness_request_def attachment_ok_def lit_def scalar_value_def char_len_def)
  have "is_ok (digest_input witness_json witness_request)"
    by (simp add: digest_input_def witness_json_def witness_request_def)
  then obtain d where d: "digest_input witness_json witness_request = Ok d" by (auto simp: is_ok_iff)
  then have "digest_input witness_json (witness_request\<lparr>tr_attempt := 2\<rparr>) = Ok d"
    by (simp add: digest_input_def cong: option.case_cong)
  with digest_input_injective [OF header ok d] d show ?thesis by simp
qed

subsection \<open>The recovery record\<close>

text \<open>\<open>TerminalStatus\<close> of \<open>stream.rs\<close>.\<close>

datatype terminal_status = Completed | CancelledStatus cancel_reason | FailedStatus error_code

datatype recovery_action = Submit | Observe | Reconcile | Finished

record recovery_record =
  rr_operation :: operation_ref
  rr_fingerprint :: fingerprint
  rr_dispatch :: dispatch
  rr_terminal :: "terminal_status option"

definition refusal :: "string \<Rightarrow> string \<Rightarrow> error" where
  "refusal expected received = HostConfiguration (lit expected) (lit received)"

definition recovery_new ::
  "('c turn_request \<Rightarrow> fingerprint result) \<Rightarrow> session_id \<Rightarrow> 'c turn_request \<Rightarrow> recovery_record result"
where
  "recovery_new fp session request =
     rbind (fp request) (\<lambda>f. Ok
       \<lparr>rr_operation = \<lparr>op_session = session, op_turn = tr_turn_id request,
          op_attempt = tr_attempt request\<rparr>,
        rr_fingerprint = f, rr_dispatch = NotSubmitted, rr_terminal = None\<rparr>)"

definition recovery_action_of :: "recovery_record \<Rightarrow> recovery_action" where
  "recovery_action_of r =
     (if rr_terminal r \<noteq> None then Finished
      else case rr_dispatch r of
        NotSubmitted \<Rightarrow> Submit | Accepted \<Rightarrow> Observe | AcceptanceUnknown \<Rightarrow> Reconcile)"

definition recovery_validate ::
  "('c turn_request \<Rightarrow> fingerprint result) \<Rightarrow> recovery_record \<Rightarrow> 'c turn_request \<Rightarrow> unit result"
where
  "recovery_validate fp r request =
     (let e = refusal ''the original logical turn ID and identical request fingerprint''
                ''different request identity or content''
      in if tr_turn_id request \<noteq> op_turn (rr_operation r) then Err e
         else rbind (fp request) (\<lambda>f. if f \<noteq> rr_fingerprint r then Err e else Ok ()))"

definition require_owner :: "recovery_record \<Rightarrow> operation_ref \<Rightarrow> unit result" where
  "require_owner r operation =
     (if operation \<noteq> rr_operation r
      then Err (refusal ''the current session, logical turn and attempt'' ''a foreign or stale operation'')
      else Ok ())"

definition record_dispatch ::
  "recovery_record \<Rightarrow> operation_ref \<Rightarrow> dispatch \<Rightarrow> recovery_record result" where
  "record_dispatch r operation d =
     rbind (require_owner r operation) (\<lambda>_.
       if rr_terminal r \<noteq> None \<or> (rr_dispatch r = Accepted \<and> d \<noteq> Accepted) \<or>
          (rr_dispatch r = AcceptanceUnknown \<and> d = NotSubmitted)
       then Err (refusal ''monotonic dispatch certainty for a live attempt''
              ''a terminal attempt or unproven certainty downgrade'')
       else Ok (r\<lparr>rr_dispatch := d\<rparr>))"

definition reconcile_not_submitted ::
  "recovery_record \<Rightarrow> operation_ref \<Rightarrow> recovery_record result" where
  "reconcile_not_submitted r operation =
     rbind (require_owner r operation) (\<lambda>_.
       if rr_dispatch r \<noteq> AcceptanceUnknown \<or> rr_terminal r \<noteq> None
       then Err (refusal ''a live acceptance-unknown attempt'' ''another dispatch state'')
       else Ok (r\<lparr>rr_dispatch := NotSubmitted\<rparr>))"

definition recovery_retry ::
  "('c turn_request \<Rightarrow> fingerprint result) \<Rightarrow> recovery_record \<Rightarrow> 'c turn_request \<Rightarrow>
   recovery_record result" where
  "recovery_retry fp r request =
     rbind (recovery_validate fp r request) (\<lambda>_.
       if recovery_action_of r \<noteq> Submit \<or> tr_attempt request \<le> op_attempt (rr_operation r)
       then Err (refusal ''a newer attempt after proof of non-submission''
              ''an unsafe replay or non-increasing attempt'')
       else Ok (r\<lparr>rr_operation := (rr_operation r)\<lparr>op_attempt := tr_attempt request\<rparr>\<rparr>))"

definition recovery_finish ::
  "recovery_record \<Rightarrow> operation_ref \<Rightarrow> terminal_status \<Rightarrow> recovery_record result" where
  "recovery_finish r operation terminal =
     rbind (require_owner r operation) (\<lambda>_.
       case rr_terminal r of
         Some previous \<Rightarrow>
           if previous = terminal then Ok r
           else Err (refusal ''one logical terminal outcome'' ''a conflicting terminal outcome'')
       | None \<Rightarrow> Ok (r\<lparr>rr_terminal := Some terminal\<rparr>))"

text \<open>
  Everything a supervisor may do with the record, as one step relation: each constructor is a call
  that succeeded. A refused call leaves the record as it was.
\<close>

datatype 'c recovery_event =
    RecordDispatch operation_ref dispatch
  | ReconcileNotSubmitted operation_ref
  | Retry "'c turn_request"
  | Finish operation_ref terminal_status

inductive recovery_step ::
  "('c turn_request \<Rightarrow> fingerprint result) \<Rightarrow> recovery_record \<Rightarrow> 'c recovery_event \<Rightarrow>
   recovery_record \<Rightarrow> bool" for fp where
  dispatch: "record_dispatch r o1 d = Ok r' \<Longrightarrow> recovery_step fp r (RecordDispatch o1 d) r'"
| reconcile: "reconcile_not_submitted r o1 = Ok r' \<Longrightarrow> recovery_step fp r (ReconcileNotSubmitted o1) r'"
| retry: "recovery_retry fp r q = Ok r' \<Longrightarrow> recovery_step fp r (Retry q) r'"
| finish: "recovery_finish r o1 t = Ok r' \<Longrightarrow> recovery_step fp r (Finish o1 t) r'"

inductive_cases recovery_stepE:
  "recovery_step fp r (RecordDispatch o1 d) r'"
  "recovery_step fp r (ReconcileNotSubmitted o1) r'"
  "recovery_step fp r (Retry q) r'"
  "recovery_step fp r (Finish o1 t) r'"

inductive_simps recovery_step_simps:
  "recovery_step fp r (RecordDispatch o1 d) r'"
  "recovery_step fp r (ReconcileNotSubmitted o1) r'"
  "recovery_step fp r (Retry q) r'"
  "recovery_step fp r (Finish o1 t) r'"

inductive recovery_run ::
  "('c turn_request \<Rightarrow> fingerprint result) \<Rightarrow> recovery_record \<Rightarrow> 'c recovery_event list \<Rightarrow>
   recovery_record \<Rightarrow> bool" for fp where
  nil: "recovery_run fp r [] r"
| cons: "recovery_step fp r ev r' \<Longrightarrow> recovery_run fp r' evs r'' \<Longrightarrow> recovery_run fp r (ev # evs) r''"

lemmas recovery_op_defs = record_dispatch_def reconcile_not_submitted_def recovery_retry_def
  recovery_finish_def require_owner_def recovery_validate_def

lemma recovery_step_cases:
  assumes "recovery_step fp r ev r'"
  obtains (Dispatch) o1 d where "ev = RecordDispatch o1 d" "o1 = rr_operation r" "rr_terminal r = None"
      "rr_dispatch r = Accepted \<Longrightarrow> d = Accepted"
      "rr_dispatch r = AcceptanceUnknown \<Longrightarrow> d \<noteq> NotSubmitted" "r' = r\<lparr>rr_dispatch := d\<rparr>"
    | (Reconcile) o1 where "ev = ReconcileNotSubmitted o1" "o1 = rr_operation r" "rr_terminal r = None"
      "rr_dispatch r = AcceptanceUnknown" "r' = r\<lparr>rr_dispatch := NotSubmitted\<rparr>"
    | (Retry) q where "ev = Retry q" "tr_turn_id q = op_turn (rr_operation r)"
      "fp q = Ok (rr_fingerprint r)" "rr_terminal r = None" "rr_dispatch r = NotSubmitted"
      "op_attempt (rr_operation r) < tr_attempt q"
      "r' = r\<lparr>rr_operation := (rr_operation r)\<lparr>op_attempt := tr_attempt q\<rparr>\<rparr>"
    | (Finish) o1 t where "ev = Finish o1 t" "o1 = rr_operation r"
      "rr_terminal r = None \<or> rr_terminal r = Some t" "r' = r\<lparr>rr_terminal := Some t\<rparr>"
  using assms
proof cases
  case (dispatch o1 d)
  then show ?thesis by (intro Dispatch) (auto simp: recovery_op_defs result_simps split: if_splits)
next
  case (reconcile o1)
  then show ?thesis by (intro Reconcile) (auto simp: recovery_op_defs result_simps split: if_splits)
next
  case (retry q)
  then show ?thesis
    by (intro Retry)
      (auto simp: recovery_op_defs result_simps recovery_action_of_def Let_def
        split: if_splits dispatch.splits)
next
  case (finish o1 t)
  then show ?thesis
    by (intro Finish) (auto simp: recovery_op_defs result_simps split: if_splits option.splits)
qed

text \<open>What no step changes, and what only moves forward.\<close>

lemma recovery_step_frame:
  assumes "recovery_step fp r ev r'"
  shows "rr_fingerprint r' = rr_fingerprint r"
    and "op_session (rr_operation r') = op_session (rr_operation r)"
    and "op_turn (rr_operation r') = op_turn (rr_operation r)"
    and "op_attempt (rr_operation r) \<le> op_attempt (rr_operation r')"
    and "rr_terminal r = Some t \<Longrightarrow> rr_terminal r' = Some t"
    and "rr_dispatch r = Accepted \<Longrightarrow> rr_dispatch r' = Accepted"
  using assms by (cases rule: recovery_step_cases; auto)+

lemma recovery_run_frame:
  assumes "recovery_run fp r evs r'"
  shows "rr_fingerprint r' = rr_fingerprint r \<and>
    op_session (rr_operation r') = op_session (rr_operation r) \<and>
    op_turn (rr_operation r') = op_turn (rr_operation r) \<and>
    op_attempt (rr_operation r) \<le> op_attempt (rr_operation r') \<and>
    (rr_terminal r = Some t \<longrightarrow> rr_terminal r' = Some t) \<and>
    (rr_dispatch r = Accepted \<longrightarrow> rr_dispatch r' = Accepted)"
  using assms
proof induction
  case (cons r ev r' evs r'')
  then show ?case using recovery_step_frame [OF cons.hyps(1)] order_trans by metis
qed simp

lemma no_retry_after_acceptance:
  assumes "recovery_run fp r evs r'" "rr_dispatch r = Accepted"
  shows "Retry q \<notin> set evs"
  using assms
proof induction
  case (cons r ev r' evs r'')
  then show ?case using recovery_step_frame(6) [OF cons.hyps(1)]
    by (auto elim: recovery_step_cases)
qed simp

lemma uncertain_needs_reconciliation:
  assumes "recovery_run fp r evs r'" "rr_dispatch r = AcceptanceUnknown" "rr_dispatch r' = NotSubmitted"
  shows "\<exists>o1. ReconcileNotSubmitted o1 \<in> set evs"
  using assms
proof induction
  case (cons r ev r' evs r'')
  from cons.hyps(1) show ?case
  proof (cases rule: recovery_step_cases)
    case (Dispatch o1 d)
    with cons show ?thesis
      using recovery_run_frame [OF cons.hyps(2)] by (cases d) auto
  qed (use cons in auto)
qed simp

text \<open>C3: work is never replayed without proof that it did not run. Over any sequence of successful
  calls on a recovery record: the session, turn and fingerprint never change and the attempt never
  goes back; a committed terminal is never replaced; once an attempt was accepted it stays accepted
  and no retry ever succeeds; an attempt of unknown acceptance can be retried only after an explicit
  reconciliation; and each retry that succeeds carries the original fingerprint and a strictly
  newer attempt, while nothing was submitted and no terminal is committed.\<close>

theorem recovery_never_replays:
  assumes "recovery_run fp r evs r'"
  shows "rr_fingerprint r' = rr_fingerprint r \<and>
    is_same_turn (rr_operation r) (rr_operation r') \<and>
    op_attempt (rr_operation r) \<le> op_attempt (rr_operation r') \<and>
    (\<forall>t. rr_terminal r = Some t \<longrightarrow> rr_terminal r' = Some t) \<and>
    (rr_dispatch r = Accepted \<longrightarrow> rr_dispatch r' = Accepted \<and> (\<forall>q. Retry q \<notin> set evs)) \<and>
    (rr_dispatch r = AcceptanceUnknown \<and> recovery_action_of r' = Submit \<longrightarrow>
       (\<exists>o1. ReconcileNotSubmitted o1 \<in> set evs)) \<and>
    (\<forall>q r''. recovery_retry fp r' q = Ok r'' \<longrightarrow>
       recovery_action_of r' = Submit \<and> fp q = Ok (rr_fingerprint r) \<and>
       is_superseded_by (rr_operation r') (rr_operation r''))"
proof -
  have retry: "recovery_action_of r' = Submit \<and> fp q = Ok (rr_fingerprint r) \<and>
      is_superseded_by (rr_operation r') (rr_operation r'')"
    if "recovery_retry fp r' q = Ok r''" for q r''
  proof -
    have "recovery_step fp r' (Retry q) r''" using that by (rule recovery_step.retry)
    then show ?thesis
      using recovery_run_frame [OF assms]
      by (cases rule: recovery_step_cases)
        (auto simp: recovery_action_of_def is_superseded_by_def is_same_turn_def)
  qed
  have "recovery_action_of r' = Submit \<Longrightarrow> rr_dispatch r' = NotSubmitted"
    by (simp add: recovery_action_of_def split: if_splits dispatch.splits)
  then show ?thesis
    using recovery_run_frame [OF assms] no_retry_after_acceptance [OF assms]
      uncertain_needs_reconciliation [OF assms] retry
    by (auto simp: is_same_turn_def)
qed

definition witness_record :: recovery_record where
  "witness_record =
     \<lparr>rr_operation = \<lparr>op_session = lit ''s'', op_turn = lit ''t'', op_attempt = 1\<rparr>,
      rr_fingerprint = [7], rr_dispatch = NotSubmitted, rr_terminal = None\<rparr>"

lemma recovery_never_replays_witness:
  "\<exists>evs r'. recovery_run (\<lambda>q :: nat turn_request. Ok [7]) (witness_record\<lparr>rr_dispatch := AcceptanceUnknown\<rparr>)
      evs r' \<and> recovery_action_of r' = Submit \<and> op_attempt (rr_operation r') = 2 \<and>
      (\<exists>o1. ReconcileNotSubmitted o1 \<in> set evs)"
proof -
  let ?fp = "\<lambda>q :: nat turn_request. Ok [7] :: fingerprint result"
  let ?r = "witness_record\<lparr>rr_dispatch := AcceptanceUnknown\<rparr>" and ?o = "rr_operation witness_record"
  let ?q = "witness_request\<lparr>tr_attempt := 2\<rparr>"
  let ?r2 = "witness_record\<lparr>rr_operation := ?o\<lparr>op_attempt := 2\<rparr>\<rparr>"
  have 1: "recovery_step ?fp ?r (ReconcileNotSubmitted ?o) witness_record"
    by (simp add: recovery_step_simps recovery_op_defs witness_record_def)
  have 2: "recovery_step ?fp witness_record (Retry ?q) ?r2"
    by (simp add: recovery_step_simps recovery_op_defs witness_record_def witness_request_def
        recovery_action_of_def word_le_nat_alt)
  have run: "recovery_run ?fp ?r [ReconcileNotSubmitted ?o, Retry ?q] ?r2"
    using 1 2 by (auto intro: recovery_run.intros)
  have submit: "recovery_action_of ?r2 = Submit"
    by (simp add: recovery_action_of_def witness_record_def)
  have "\<exists>o1. ReconcileNotSubmitted o1 \<in> set [ReconcileNotSubmitted ?o, Retry ?q]"
    using recovery_never_replays [OF run] submit by simp
  then show ?thesis using run submit by fastforce
qed

lemma recovery_new_owns:
  "recovery_new fp session request = Ok r \<Longrightarrow>
   recovery_validate fp r request = Ok () \<and> recovery_action_of r = Submit \<and>
   op_attempt (rr_operation r) = tr_attempt request"
  by (auto simp: recovery_new_def recovery_validate_def recovery_action_of_def result_simps)

end
