(* ===== verification/Host_Limits.thy ===== *)
theory Host_Limits imports Errors begin

text \<open>
  The caps a host sets (\<open>Limits\<close> of \<open>host.rs\<close>, \<open>LineLimits\<close> of \<open>process.rs\<close>) with their defaults. A
  duration is its nanoseconds and a wall-clock instant its distance from the epoch.
\<close>

record line_limits =
  max_line_bytes :: usize
  max_buffered_bytes :: usize

definition line_limits_default :: line_limits where
  "line_limits_default = \<lparr>max_line_bytes = 1024 * 1024, max_buffered_bytes = 2 * 1024 * 1024\<rparr>"

definition DEFAULT_STDERR_TAIL_BYTES :: usize where
  "DEFAULT_STDERR_TAIL_BYTES = 16 * 1024"

definition from_secs :: "nat \<Rightarrow> duration" where
  "from_secs s = s * 1000000000"

record limits =
  turn_channel_capacity :: usize
  turn_buffer_bytes :: usize
  max_pending_requests :: usize
  line :: line_limits
  stderr_tail_bytes :: usize
  request_timeout :: duration
  idle_timeout :: duration
  shutdown_timeout :: duration
  cancel_settle_timeout :: duration
  approval_timeout :: duration
  kill_grace :: duration

definition limits_default :: limits where
  "limits_default =
     \<lparr>turn_channel_capacity = 1024, turn_buffer_bytes = 8 * 1024 * 1024, max_pending_requests = 64,
      line = line_limits_default, stderr_tail_bytes = DEFAULT_STDERR_TAIL_BYTES,
      request_timeout = from_secs 120, idle_timeout = from_secs 120, shutdown_timeout = from_secs 5,
      cancel_settle_timeout = from_secs 60, approval_timeout = from_secs (30 * 60),
      kill_grace = from_secs 2\<rparr>"

text \<open>\<open>SystemTime::checked_add\<close> fails past the last instant the platform represents, an argument.\<close>

definition approval_expires_at ::
  "nat \<Rightarrow> (nat \<Rightarrow> ustring) \<Rightarrow> (duration \<Rightarrow> ustring) \<Rightarrow> limits \<Rightarrow> nat \<Rightarrow> nat result" where
  "approval_expires_at last_instant dbg_time dbg l now =
     (if now + approval_timeout l \<le> last_instant then Ok (now + approval_timeout l)
      else Err (HostConfiguration (lit ''an approval deadline representable from the host clock'')
        (lit ''host clock '' @ dbg_time now @ lit '' with approval timeout '' @ dbg (approval_timeout l))))"

end
