(* ===== verification/Queue_Contract.thy ===== *)
theory Queue_Contract imports Prelude begin

text \<open>
  What a client of a bounded queue relies on, whatever budgets decide which items it takes: a
  refused item leaves the contents alone, an accepted one goes to the back, and reading takes the
  front. The turn transcript provides it.
\<close>

datatype 'w queue_op = Write 'w | Read

text \<open>
  A client's run: the items accepted and the items read, in order. One write offers the items
  \<open>items w\<close> together; all of them are taken or none is.
\<close>

fun queue_run ::
  "('w \<Rightarrow> 'e list) \<Rightarrow> ('w \<Rightarrow> 's \<Rightarrow> 's \<times> bool) \<Rightarrow> ('s \<Rightarrow> ('e \<times> 's) option) \<Rightarrow> 'w queue_op list \<Rightarrow>
   's \<Rightarrow> 'e list \<times> 'e list \<times> 's" where
  "queue_run items offer poll [] s = ([], [], s)"
| "queue_run items offer poll (Write w # ops) s =
     (let (s', ok) = offer w s; (acc, del, t) = queue_run items offer poll ops s'
      in (if ok then items w @ acc else acc, del, t))"
| "queue_run items offer poll (Read # ops) s =
     (case poll s of
        None \<Rightarrow> queue_run items offer poll ops s
      | Some (e, s') \<Rightarrow>
          let (acc, del, t) = queue_run items offer poll ops s' in (acc, e # del, t))"

locale bounded_queue =
  fixes inv :: "'s \<Rightarrow> bool"
    and contents :: "'s \<Rightarrow> 'e list"
    and items :: "'w \<Rightarrow> 'e list"
    and offer :: "'w \<Rightarrow> 's \<Rightarrow> 's \<times> bool"
    and poll :: "'s \<Rightarrow> ('e \<times> 's) option"
  assumes inv_offer: "inv s \<Longrightarrow> inv (fst (offer w s))"
    and contents_offer: "inv s \<Longrightarrow>
      contents (fst (offer w s)) = (if snd (offer w s) then contents s @ items w else contents s)"
    and inv_poll: "inv s \<Longrightarrow> poll s = Some (e, s') \<Longrightarrow> inv s'"
    and contents_poll: "inv s \<Longrightarrow> poll s = Some (e, s') \<Longrightarrow> contents s = e # contents s'"
    and poll_empty: "inv s \<Longrightarrow> poll s = None \<Longrightarrow> contents s = []"
begin

text \<open>Nothing is lost, repeated or reordered, over any interleaving of writers and the reader.\<close>

lemma run_fifo:
  assumes "inv s" "queue_run items offer poll ops s = (acc, del, t)"
  shows "inv t \<and> contents s @ acc = del @ contents t"
  using assms
proof (induction ops arbitrary: s acc del)
  case Nil
  then show ?case by simp
next
  case (Cons op ops)
  show ?case
  proof (cases op)
    case (Write w)
    obtain s' ok where p: "offer w s = (s', ok)" by (cases "offer w s")
    with Cons.prems inv_offer [of s w] contents_offer [of s w] have "inv s'"
      and "contents s' = (if ok then contents s @ items w else contents s)" by simp_all
    with Cons.IH [of s'] Cons.prems(2) show ?thesis
      by (auto simp: Write p split: prod.splits if_splits)
  next
    case Read
    show ?thesis
    proof (cases "poll s")
      case None
      with Cons Read show ?thesis by simp
    next
      case (Some r)
      obtain e s' where r: "r = (e, s')" by (cases r)
      with Some Cons.prems have "inv s'" "contents s = e # contents s'"
        using inv_poll contents_poll by blast+
      with Cons.IH [of s'] Cons.prems(2) show ?thesis
        by (auto simp: Read Some r split: prod.splits)
    qed
  qed
qed

lemma run_delivers_prefix:
  assumes "inv s" "contents s = []" "queue_run items offer poll ops s = (acc, del, t)"
  shows "\<exists>rest. acc = del @ rest \<and> contents t = rest"
  using run_fifo [OF assms(1,3)] assms(2) by simp

lemma drained:
  assumes "inv s" "contents s = []" "queue_run items offer poll ops s = (acc, del, t)" "poll t = None"
  shows "del = acc"
  using run_fifo [OF assms(1,3)] poll_empty [of t] assms(2,4) by simp

end

end
