(* ===== verification/Turn_Buffer.thy ===== *)
theory Turn_Buffer imports Recovery Host_Limits Queue_Contract begin

text \<open>
  The bounded transcript of one turn (\<open>stream/buffer.rs\<close>): a queue of payload and interaction events
  under separate count and byte budgets, a terminal kept outside those budgets, and the counters the
  budgets are checked against. Each operation takes the lock once and is one step; the size of an
  event (\<open>payload_bytes\<close>, the counter of \<open>Json_Size\<close>) is the argument \<open>sz\<close>. Counters are updated with
  wrapping arithmetic; the invariant shows that no update wraps.
\<close>

named_theorems buffer_simps \<open>the transcript operations, unfolded\<close>

subsection \<open>Events\<close>

text \<open>
  \<open>EventKind\<close> of \<open>event.rs\<close>, with the payload structs it carries as the parameter \<open>'p\<close>.
\<close>

datatype 'p event_kind =
    TurnStarted ustring
  | TextDelta ustring
  | ReasoningStarted
  | ReasoningDelta ustring
  | ReasoningEnded
  | ActivityStarted ustring 'p
  | ActivityUpdated ustring 'p
  | ActivityCompleted ustring 'p
  | ApprovalRequested 'p
  | ApprovalResolved 'p 'p
  | QuestionAsked 'p
  | QuestionResolved 'p 'p
  | UsageEvent 'p
  | ThreadUsage 'p
  | AccountLimits 'p
  | Notice 'p ustring "ustring option"
  | CancelledEvent cancel_reason
  | CompletedEvent
  | ErrorEvent vendor_error

record 'p agent_event =
  ev_session :: session_id
  ev_turn :: turn_id
  ev_attempt :: attempt_id
  ev_at :: nat
  ev_kind :: "'p event_kind"

fun is_control_kind :: "'p event_kind \<Rightarrow> bool" where
  "is_control_kind (ApprovalRequested _) = True"
| "is_control_kind (ApprovalResolved _ _) = True"
| "is_control_kind (QuestionAsked _) = True"
| "is_control_kind (QuestionResolved _ _) = True"
| "is_control_kind _ = False"

subsection \<open>Budgets and state\<close>

definition INTERACTION_EVENT_BYTES :: usize where
  "INTERACTION_EVENT_BYTES = 8 * 1024"

definition control_event_cap :: "limits \<Rightarrow> usize" where
  "control_event_cap l = max (sat_mul (max_pending_requests l) 2) 2"

definition control_reserve_bytes :: "limits \<Rightarrow> usize" where
  "control_reserve_bytes l =
     min (sat_mul (control_event_cap l) INTERACTION_EVENT_BYTES) (turn_buffer_bytes l div 2)"

record 'p queued =
  q_event :: "'p agent_event"
  q_bytes :: usize
  q_control :: bool

record 'p buf_state =
  bs_events :: "'p queued list"
  bs_terminal :: "'p agent_event list"
  bs_status :: "terminal_status option"
  bs_payload_bytes :: usize
  bs_control_bytes :: usize
  bs_payloads :: usize
  bs_controls :: usize
  bs_close_refused :: bool

definition buf_state_default :: "'p buf_state" where
  "buf_state_default =
     \<lparr>bs_events = [], bs_terminal = [], bs_status = None, bs_payload_bytes = 0, bs_control_bytes = 0,
      bs_payloads = 0, bs_controls = 0, bs_close_refused = False\<rparr>"

definition state_queued_bytes :: "'p buf_state \<Rightarrow> usize" where
  "state_queued_bytes s = sat_add (bs_payload_bytes s) (bs_control_bytes s)"

record 'p buffer =
  b_state :: "'p buf_state"
  b_limits :: limits
  b_abandoned :: bool
  b_terminated :: bool
  b_senders :: usize

definition buffer_new :: "limits \<Rightarrow> 'p buffer" where
  "buffer_new l =
     \<lparr>b_state = buf_state_default, b_limits = l, b_abandoned = False, b_terminated = False,
      b_senders = 1\<rparr>"

subsection \<open>Senders\<close>

definition add_sender :: "'p buffer \<Rightarrow> 'p buffer" where
  "add_sender b = b\<lparr>b_senders := wrap_add (b_senders b) 1\<rparr>"

text \<open>The compare-and-exchange loop ends with one atomic decision on the count.\<close>

definition release_nonfinal_sender :: "'p buffer \<Rightarrow> 'p buffer \<times> bool" where
  "release_nonfinal_sender b =
     (if b_senders b > 1 then (b\<lparr>b_senders := b_senders b - 1\<rparr>, True) else (b, False))"

definition remove_sender :: "'p buffer \<Rightarrow> 'p buffer" where
  "remove_sender b = b\<lparr>b_senders := wrap_sub (b_senders b) 1\<rparr>"

definition is_closed :: "'p buffer \<Rightarrow> bool" where
  "is_closed b = b_abandoned b"

definition owes_overflow_terminal :: "'p buffer \<Rightarrow> bool" where
  "owes_overflow_terminal b \<longleftrightarrow>
     bs_close_refused (b_state b) \<and> bs_status (b_state b) = None \<and> b_senders b = 1 \<and> \<not> is_closed b"

subsection \<open>Queueing\<close>

definition limit_exceeded :: "string \<Rightarrow> usize \<Rightarrow> usize \<Rightarrow> error" where
  "limit_exceeded subject limit received = LimitExceeded (lit subject) limit received"

definition admit :: "limits \<Rightarrow> 'p buf_state \<Rightarrow> bool \<Rightarrow> usize \<Rightarrow> unit result" where
  "admit l s control bytes =
     (let (count, cap) =
        (if control then (bs_controls s, control_event_cap l)
         else (bs_payloads s, max (turn_channel_capacity l) 1));
        payload_budget = turn_buffer_bytes l - control_reserve_bytes l;
        payload_total = sat_add (bs_payload_bytes s) bytes;
        total = sat_add (state_queued_bytes s) bytes
      in if \<not> control \<and> bs_close_refused s then
           Err (limit_exceeded ''queued turn events after a refused close'' cap (sat_add count 1))
         else if count \<ge> cap then
           Err (limit_exceeded ''queued turn events'' cap (sat_add count 1))
         else if \<not> control \<and> payload_total > payload_budget then
           Err (limit_exceeded ''queued turn payload bytes'' payload_budget payload_total)
         else if total > turn_buffer_bytes l then
           Err (limit_exceeded
             (if control then ''queued turn control bytes'' else ''queued turn payload bytes'')
             (turn_buffer_bytes l) total)
         else Ok ())"

definition enqueue_event :: "'p buf_state \<Rightarrow> 'p agent_event \<Rightarrow> bool \<Rightarrow> usize \<Rightarrow> 'p buf_state" where
  "enqueue_event s event control bytes =
     (let s = (if control
               then s\<lparr>bs_control_bytes := wrap_add (bs_control_bytes s) bytes,
                      bs_controls := wrap_add (bs_controls s) 1\<rparr>
               else s\<lparr>bs_payload_bytes := wrap_add (bs_payload_bytes s) bytes,
                      bs_payloads := wrap_add (bs_payloads s) 1\<rparr>)
      in s\<lparr>bs_events := bs_events s @ [\<lparr>q_event = event, q_bytes = bytes, q_control = control\<rparr>]\<rparr>)"

definition push_as ::
  "('p agent_event \<Rightarrow> usize result) \<Rightarrow> 'p buffer \<Rightarrow> 'p agent_event \<Rightarrow> bool \<Rightarrow> 'p buffer \<times> unit result"
where
  "push_as sz b event close =
     (case sz event of
        Inl e \<Rightarrow> (b, Err e)
      | Inr bytes \<Rightarrow>
          (let control = is_control_kind (ev_kind event); s = b_state b
           in if is_closed b \<or> bs_status s \<noteq> None then (b, Err (Closed (lit ''turn stream'')))
              else case admit (b_limits b) s control bytes of
                Inl err \<Rightarrow>
                  (b\<lparr>b_state := s\<lparr>bs_close_refused := bs_close_refused s \<or> close\<rparr>\<rparr>, Err err)
              | Inr _ \<Rightarrow> (b\<lparr>b_state := enqueue_event s event control bytes\<rparr>, Ok ())))"

definition buffer_push ::
  "('p agent_event \<Rightarrow> usize result) \<Rightarrow> 'p buffer \<Rightarrow> 'p agent_event \<Rightarrow> 'p buffer \<times> unit result" where
  "buffer_push sz b event = push_as sz b event False"

definition push_close ::
  "('p agent_event \<Rightarrow> usize result) \<Rightarrow> 'p buffer \<Rightarrow> 'p agent_event \<Rightarrow> 'p buffer \<times> unit result" where
  "push_close sz b event = push_as sz b event True"

definition buffer_finish ::
  "'p buffer \<Rightarrow> 'p agent_event list \<Rightarrow> terminal_status \<Rightarrow> 'p buffer \<times> unit result" where
  "buffer_finish b es status =
     (let s = b_state b
      in if bs_status s \<noteq> None then (b, Ok ())
         else let s' = s\<lparr>bs_status := Some status\<rparr>;
                  s' = (if is_closed b then s' else s'\<lparr>bs_terminal := bs_terminal s' @ es\<rparr>)
              in (b\<lparr>b_state := s', b_terminated := True\<rparr>,
                  if is_closed b then Err (Closed (lit ''turn stream'')) else Ok ()))"

definition buffer_status :: "'p buffer \<Rightarrow> terminal_status option" where
  "buffer_status b = bs_status (b_state b)"

subsection \<open>Reading\<close>

datatype try_recv_error = Empty | Disconnected

definition try_recv :: "'p buffer \<Rightarrow> 'p buffer \<times> (try_recv_error + 'p agent_event)" where
  "try_recv b =
     (let s = b_state b
      in case bs_events s of
           q # qs \<Rightarrow>
             (b\<lparr>b_state :=
                (if q_control q
                 then s\<lparr>bs_events := qs, bs_control_bytes := wrap_sub (bs_control_bytes s) (q_bytes q),
                        bs_controls := wrap_sub (bs_controls s) 1\<rparr>
                 else s\<lparr>bs_events := qs, bs_payload_bytes := wrap_sub (bs_payload_bytes s) (q_bytes q),
                        bs_payloads := wrap_sub (bs_payloads s) 1\<rparr>)\<rparr>,
              Inr (q_event q))
         | [] \<Rightarrow>
             (case bs_terminal s of
                e # es \<Rightarrow> (b\<lparr>b_state := s\<lparr>bs_terminal := es\<rparr>\<rparr>, Inr e)
              | [] \<Rightarrow>
                  if bs_status s \<noteq> None \<or> b_senders b = 0 then (b, Inl Disconnected)
                  else (b, Inl Empty)))"

definition receiver_queued_bytes :: "'p buffer \<Rightarrow> usize" where
  "receiver_queued_bytes b = state_queued_bytes (b_state b)"

text \<open>\<open>Drop for EventReceiver\<close>: the token is cancelled first, then the queue is cleared.\<close>

definition receiver_abandon :: "'p buffer \<Rightarrow> 'p buffer" where
  "receiver_abandon b = b\<lparr>b_abandoned := True\<rparr>"

definition receiver_clear :: "'p buffer \<Rightarrow> 'p buffer" where
  "receiver_clear b = b\<lparr>b_state := (b_state b)
     \<lparr>bs_events := [], bs_terminal := [], bs_payload_bytes := 0, bs_control_bytes := 0,
      bs_payloads := 0, bs_controls := 0\<rparr>\<rparr>"

definition receiver_drop :: "'p buffer \<Rightarrow> 'p buffer" where
  "receiver_drop b = receiver_clear (receiver_abandon b)"

subsection \<open>The invariant\<close>

lemma wrap_sub_parts:
  "x + y \<le> usize_MAX \<Longrightarrow> wrap_sub (x + y) x = y"
  "Suc y \<le> usize_MAX \<Longrightarrow> wrap_sub (Suc y) (Suc 0) = y"
  using wrap_sub_exact [of x "x + y"] wrap_sub_exact [of 1 "Suc y"] by simp_all

definition class_bytes :: "bool \<Rightarrow> 'p queued list \<Rightarrow> nat" where
  "class_bytes c qs = sum_list (map q_bytes (filter (\<lambda>q. q_control q = c) qs))"

definition class_count :: "bool \<Rightarrow> 'p queued list \<Rightarrow> nat" where
  "class_count c qs = length (filter (\<lambda>q. q_control q = c) qs)"

lemma class_simps [simp]:
  "class_bytes c [] = 0" "class_count c [] = 0"
  "class_bytes c (q # qs) = (if q_control q = c then q_bytes q else 0) + class_bytes c qs"
  "class_count c (q # qs) = (if q_control q = c then 1 else 0) + class_count c qs"
  "class_bytes c (qs @ qs') = class_bytes c qs + class_bytes c qs'"
  "class_count c (qs @ qs') = class_count c qs + class_count c qs'"
  by (simp_all add: class_bytes_def class_count_def)

text \<open>
  The counters are what the queue holds, class by class; every class is inside its budget, both
  together inside the turn's; a reserved terminal implies a committed status.
\<close>

definition counters_ok :: "('p agent_event \<Rightarrow> usize result) \<Rightarrow> 'p buf_state \<Rightarrow> bool" where
  "counters_ok sz s \<longleftrightarrow>
     bs_payload_bytes s = class_bytes False (bs_events s) \<and>
     bs_control_bytes s = class_bytes True (bs_events s) \<and>
     bs_payloads s = class_count False (bs_events s) \<and>
     bs_controls s = class_count True (bs_events s) \<and>
     list_all (\<lambda>q. sz (q_event q) = Ok (q_bytes q) \<and>
       q_control q = is_control_kind (ev_kind (q_event q))) (bs_events s)"

definition budgets_ok :: "limits \<Rightarrow> 'p buf_state \<Rightarrow> bool" where
  "budgets_ok l s \<longleftrightarrow>
     bs_payloads s \<le> max (turn_channel_capacity l) 1 \<and>
     bs_controls s \<le> control_event_cap l \<and>
     bs_payload_bytes s \<le> turn_buffer_bytes l - control_reserve_bytes l \<and>
     bs_payload_bytes s + bs_control_bytes s \<le> turn_buffer_bytes l"

definition limits_ok :: "limits \<Rightarrow> bool" where
  "limits_ok l \<longleftrightarrow> turn_buffer_bytes l < usize_MAX \<and> turn_channel_capacity l \<le> usize_MAX"

definition buf_inv :: "('p agent_event \<Rightarrow> usize result) \<Rightarrow> 'p buffer \<Rightarrow> bool" where
  "buf_inv sz b \<longleftrightarrow>
     limits_ok (b_limits b) \<and> counters_ok sz (b_state b) \<and> budgets_ok (b_limits b) (b_state b) \<and>
     (bs_terminal (b_state b) \<noteq> [] \<longrightarrow> bs_status (b_state b) \<noteq> None)"

lemmas buf_inv_defs = buf_inv_def counters_ok_def budgets_ok_def

lemma control_event_cap_bounds: "2 \<le> control_event_cap l" "control_event_cap l \<le> usize_MAX"
  by (simp_all add: control_event_cap_def sat_mul_def usize_MAX_def)

lemma control_reserve_le: "control_reserve_bytes l \<le> turn_buffer_bytes l div 2"
  by (simp add: control_reserve_bytes_def)

text \<open>When an event is admitted, in exact arithmetic.\<close>

definition has_room :: "limits \<Rightarrow> 'p buf_state \<Rightarrow> bool \<Rightarrow> usize \<Rightarrow> bool" where
  "has_room l s control bytes \<longleftrightarrow>
     (if control then bs_controls s < control_event_cap l
      else \<not> bs_close_refused s \<and> bs_payloads s < max (turn_channel_capacity l) 1 \<and>
        bs_payload_bytes s + bytes \<le> turn_buffer_bytes l - control_reserve_bytes l) \<and>
     bs_payload_bytes s + bs_control_bytes s + bytes \<le> turn_buffer_bytes l"

lemma sat_add_gt_iff: "m < usize_MAX \<Longrightarrow> sat_add a b > m \<longleftrightarrow> a + b > m"
  by (auto simp: sat_add_def)

lemma admit_Ok_iff:
  assumes "limits_ok l"
  shows "admit l s control bytes = Ok u \<longleftrightarrow> has_room l s control bytes"
proof -
  have m: "turn_buffer_bytes l < usize_MAX" "turn_buffer_bytes l - control_reserve_bytes l < usize_MAX"
    using assms by (auto simp: limits_ok_def)
  have "sat_add (state_queued_bytes s) bytes > turn_buffer_bytes l \<longleftrightarrow>
      bs_payload_bytes s + bs_control_bytes s + bytes > turn_buffer_bytes l"
    using m(1) by (auto simp: sat_add_def state_queued_bytes_def)
  then show ?thesis
    using sat_add_gt_iff [OF m(2)]
    by (auto simp: admit_def has_room_def Let_def not_less split: if_splits)
qed

lemma admit_Err_kind: "admit l s control bytes = Err e \<Longrightarrow> \<exists>subject limit received. e = LimitExceeded subject limit received"
  by (auto simp: admit_def limit_exceeded_def Let_def split: if_splits)

lemma enqueue_event_inv:
  assumes inv: "limits_ok l" "counters_ok sz s" "budgets_ok l s"
    and room: "has_room l s (is_control_kind (ev_kind e)) bytes" and sz: "sz e = Ok bytes"
  shows "counters_ok sz (enqueue_event s e (is_control_kind (ev_kind e)) bytes) \<and>
    budgets_ok l (enqueue_event s e (is_control_kind (ev_kind e)) bytes)"
proof -
  have max: "turn_buffer_bytes l < usize_MAX" "turn_channel_capacity l \<le> usize_MAX"
    and le: "turn_buffer_bytes l - control_reserve_bytes l \<le> turn_buffer_bytes l" "1 \<le> usize_MAX"
    using inv(1) by (simp_all add: limits_ok_def usize_MAX_def)
  note cap = control_event_cap_bounds(2) [of l]
  show ?thesis
  proof (cases "is_control_kind (ev_kind e)")
    case True
    with room have "bs_controls s + 1 \<le> control_event_cap l"
      "bs_payload_bytes s + bs_control_bytes s + bytes \<le> turn_buffer_bytes l"
      by (simp_all add: has_room_def)
    moreover from this have "wrap_add (bs_control_bytes s) bytes = bs_control_bytes s + bytes"
      "wrap_add (bs_controls s) 1 = bs_controls s + 1"
      using max cap by (intro wrap_add_exact; linarith)+
    ultimately show ?thesis
      using inv sz True by (auto simp: counters_ok_def budgets_ok_def enqueue_event_def Let_def)
  next
    case False
    with room have "bs_payloads s + 1 \<le> max (turn_channel_capacity l) 1"
      "bs_payload_bytes s + bytes \<le> turn_buffer_bytes l - control_reserve_bytes l"
      "bs_payload_bytes s + bs_control_bytes s + bytes \<le> turn_buffer_bytes l"
      by (simp_all add: has_room_def)
    moreover from this have "wrap_add (bs_payload_bytes s) bytes = bs_payload_bytes s + bytes"
      "wrap_add (bs_payloads s) 1 = bs_payloads s + 1"
      using max le by (intro wrap_add_exact; linarith)+
    ultimately show ?thesis
      using inv sz False by (auto simp: counters_ok_def budgets_ok_def enqueue_event_def Let_def)
  qed
qed

subsection \<open>Every branch of every operation\<close>

lemma push_as_cases:
  assumes "limits_ok (b_limits b)"
  obtains (Unsized) e where "sz event = Err e" "push_as sz b event close = (b, Err e)"
    | (Late) bytes where "sz event = Ok bytes" "is_closed b \<or> bs_status (b_state b) \<noteq> None"
      "push_as sz b event close = (b, Err (Closed (lit ''turn stream'')))"
    | (Full) bytes subject limit received where "sz event = Ok bytes" "\<not> is_closed b"
      "bs_status (b_state b) = None"
      "\<not> has_room (b_limits b) (b_state b) (is_control_kind (ev_kind event)) bytes"
      "push_as sz b event close =
        (b\<lparr>b_state := (b_state b)\<lparr>bs_close_refused := bs_close_refused (b_state b) \<or> close\<rparr>\<rparr>,
         Err (LimitExceeded subject limit received))"
    | (Queued) bytes where "sz event = Ok bytes" "\<not> is_closed b" "bs_status (b_state b) = None"
      "has_room (b_limits b) (b_state b) (is_control_kind (ev_kind event)) bytes"
      "push_as sz b event close =
        (b\<lparr>b_state := enqueue_event (b_state b) event (is_control_kind (ev_kind event)) bytes\<rparr>, Ok ())"
proof (cases "sz event")
  case (Inl e)
  then show ?thesis by (intro Unsized) (simp_all add: push_as_def)
next
  case (Inr bytes)
  let ?adm = "admit (b_limits b) (b_state b) (is_control_kind (ev_kind event)) bytes"
  consider "is_closed b \<or> bs_status (b_state b) \<noteq> None"
    | "\<not> is_closed b" "bs_status (b_state b) = None" "?adm = Ok ()"
    | e where "\<not> is_closed b" "bs_status (b_state b) = None" "?adm = Err e"
    by (cases ?adm) auto
  then show ?thesis
  proof cases
    case 1
    with Inr show ?thesis by (intro Late) (auto simp: push_as_def Let_def)
  next
    case 2
    with Inr admit_Ok_iff [OF assms] show ?thesis by (intro Queued) (auto simp: push_as_def Let_def)
  next
    case (3 e)
    then obtain subject limit received where e: "e = LimitExceeded subject limit received"
      using admit_Err_kind by blast
    have "\<not> has_room (b_limits b) (b_state b) (is_control_kind (ev_kind event)) bytes"
      using 3(3) admit_Ok_iff [OF assms, of "b_state b" "is_control_kind (ev_kind event)" bytes "()"]
      by auto
    with 3 Inr e show ?thesis by (intro Full) (auto simp: push_as_def Let_def)
  qed
qed

lemma buffer_new_inv: "limits_ok l \<Longrightarrow> buf_inv sz (buffer_new l)"
  by (simp add: buf_inv_defs buffer_new_def buf_state_default_def)

lemma enqueue_event_frame [simp]:
  "bs_events (enqueue_event s e c n) = bs_events s @ [\<lparr>q_event = e, q_bytes = n, q_control = c\<rparr>]"
  "bs_terminal (enqueue_event s e c n) = bs_terminal s"
  "bs_status (enqueue_event s e c n) = bs_status s"
  "bs_close_refused (enqueue_event s e c n) = bs_close_refused s"
  by (simp_all add: enqueue_event_def Let_def)

lemma push_as_inv:
  assumes "buf_inv sz b"
  shows "buf_inv sz (fst (push_as sz b event close))"
proof -
  have lim: "limits_ok (b_limits b)" using assms by (simp add: buf_inv_def)
  then show ?thesis
  proof (cases rule: push_as_cases [where sz = sz and event = event and close = close])
    case (Queued bytes)
    then show ?thesis
      using assms enqueue_event_inv [of "b_limits b" sz "b_state b" event bytes] by (simp add: buf_inv_def)
  qed (use assms in \<open>auto simp: buf_inv_defs\<close>)
qed

lemma push_as_frame:
  "b_limits (fst (push_as sz b event close)) = b_limits b"
  "b_abandoned (fst (push_as sz b event close)) = b_abandoned b"
  "b_terminated (fst (push_as sz b event close)) = b_terminated b"
  "b_senders (fst (push_as sz b event close)) = b_senders b"
  "bs_terminal (b_state (fst (push_as sz b event close))) = bs_terminal (b_state b)"
  "bs_status (b_state (fst (push_as sz b event close))) = bs_status (b_state b)"
  "bs_close_refused (b_state b) \<Longrightarrow> bs_close_refused (b_state (fst (push_as sz b event close)))"
  by (auto simp: push_as_def Let_def split: sum.split)

lemma buffer_finish_inv: "buf_inv sz b \<Longrightarrow> buf_inv sz (fst (buffer_finish b es st))"
  by (auto simp: buf_inv_defs buffer_finish_def Let_def)

lemma buffer_finish_frame:
  "b_limits (fst (buffer_finish b es st)) = b_limits b"
  "b_abandoned (fst (buffer_finish b es st)) = b_abandoned b"
  "b_senders (fst (buffer_finish b es st)) = b_senders b"
  "bs_events (b_state (fst (buffer_finish b es st))) = bs_events (b_state b)"
  "bs_status (b_state (fst (buffer_finish b es st))) \<noteq> None"
  "bs_status (b_state b) = Some st' \<Longrightarrow> buffer_finish b es st = (b, Ok ())"
  by (auto simp: buffer_finish_def Let_def)

lemma try_recv_inv:
  assumes "buf_inv sz b"
  shows "buf_inv sz (fst (try_recv b))"
proof -
  have max: "turn_buffer_bytes (b_limits b) < usize_MAX" "turn_channel_capacity (b_limits b) \<le> usize_MAX"
    and one: "1 \<le> usize_MAX"
    using assms by (simp_all add: buf_inv_def limits_ok_def usize_MAX_def)
  show ?thesis
  proof (cases "bs_events (b_state b)")
    case Nil
    then show ?thesis using assms by (auto simp: try_recv_def buf_inv_defs Let_def split: list.split)
  next
    case (Cons q qs)
    let ?s = "b_state b"
    have b: "bs_payload_bytes ?s \<le> usize_MAX" "bs_control_bytes ?s \<le> usize_MAX"
      "bs_payloads ?s \<le> usize_MAX" "bs_controls ?s \<le> usize_MAX"
      using assms max one control_event_cap_bounds(2) [of "b_limits b"] by (auto simp: buf_inv_defs)
    then show ?thesis
      using assms Cons
      by (cases "q_control q") (auto simp: try_recv_def buf_inv_defs wrap_sub_parts)
  qed
qed

lemma try_recv_frame:
  "b_limits (fst (try_recv b)) = b_limits b"
  "b_abandoned (fst (try_recv b)) = b_abandoned b"
  "b_senders (fst (try_recv b)) = b_senders b"
  "bs_status (b_state (fst (try_recv b))) = bs_status (b_state b)"
  "bs_close_refused (b_state (fst (try_recv b))) = bs_close_refused (b_state b)"
  by (auto simp: try_recv_def Let_def split: list.split)

lemma receiver_drop_inv:
  "buf_inv sz b \<Longrightarrow> buf_inv sz (receiver_abandon b)"
  "buf_inv sz b \<Longrightarrow> buf_inv sz (receiver_clear b)"
  by (auto simp: buf_inv_defs receiver_abandon_def receiver_clear_def)

lemma sender_ops_inv:
  "buf_inv sz b \<Longrightarrow> buf_inv sz (add_sender b)"
  "buf_inv sz b \<Longrightarrow> buf_inv sz (fst (release_nonfinal_sender b))"
  "buf_inv sz b \<Longrightarrow> buf_inv sz (remove_sender b)"
  by (auto simp: buf_inv_def add_sender_def release_nonfinal_sender_def remove_sender_def)

text \<open>One \<open>push\<close> or \<open>push_close\<close>, on every branch. A queued transcript under its invariant
  accepts an event exactly when its size can be counted, the reader is there, no terminal is
  committed and the event's class has room in its count budget, its byte budget and the turn's; an
  accepted event is the new last one. A refusal queues nothing, names the limit when it was one,
  and leaves a trace only for a close that found no room: every later payload event is refused.\<close>

theorem push_every_branch:
  assumes "buf_inv sz b"
  shows "(snd (push_as sz b event close) = Ok () \<longleftrightarrow>
      (\<exists>bytes. sz event = Ok bytes \<and> \<not> is_closed b \<and> bs_status (b_state b) = None \<and>
         has_room (b_limits b) (b_state b) (is_control_kind (ev_kind event)) bytes)) \<and>
    map q_event (bs_events (b_state (fst (push_as sz b event close)))) =
      map q_event (bs_events (b_state b)) @ (if snd (push_as sz b event close) = Ok () then [event] else []) \<and>
    (is_ok (sz event) \<and> \<not> is_closed b \<and> bs_status (b_state b) = None \<and>
       snd (push_as sz b event close) \<noteq> Ok () \<longrightarrow>
       (\<exists>subject limit received. snd (push_as sz b event close) = Err (LimitExceeded subject limit received)) \<and>
       bs_close_refused (b_state (fst (push_as sz b event close))) = (bs_close_refused (b_state b) \<or> close)) \<and>
    (bs_close_refused (b_state b) \<and> \<not> is_control_kind (ev_kind event) \<longrightarrow>
       snd (push_as sz b event close) \<noteq> Ok ())"
proof -
  have lim: "limits_ok (b_limits b)" using assms by (simp add: buf_inv_def)
  then show ?thesis
    by (cases rule: push_as_cases [where sz = sz and event = event and close = close])
      (auto simp: has_room_def)
qed

subsection \<open>The transcript as a queue\<close>

datatype 'p transcript_write =
    WriteEvent "'p agent_event"
  | WriteClose "'p agent_event"
  | WriteTerminal "'p agent_event list" terminal_status

fun transcript_items :: "'p transcript_write \<Rightarrow> 'p agent_event list" where
  "transcript_items (WriteEvent e) = [e]"
| "transcript_items (WriteClose e) = [e]"
| "transcript_items (WriteTerminal es _) = es"

text \<open>A terminal is taken when none was committed before.\<close>

fun transcript_offer ::
  "('p agent_event \<Rightarrow> usize result) \<Rightarrow> 'p transcript_write \<Rightarrow> 'p buffer \<Rightarrow> 'p buffer \<times> bool" where
  "transcript_offer sz (WriteEvent e) b = (let (b', r) = buffer_push sz b e in (b', is_ok r))"
| "transcript_offer sz (WriteClose e) b = (let (b', r) = push_close sz b e in (b', is_ok r))"
| "transcript_offer sz (WriteTerminal es st) b =
     (fst (buffer_finish b es st), buffer_status b = None)"

definition transcript_poll :: "'p buffer \<Rightarrow> ('p agent_event \<times> 'p buffer) option" where
  "transcript_poll b = (case try_recv b of (b', Inr e) \<Rightarrow> Some (e, b') | (_, Inl _) \<Rightarrow> None)"

definition transcript :: "'p buffer \<Rightarrow> 'p agent_event list" where
  "transcript b = map q_event (bs_events (b_state b)) @ bs_terminal (b_state b)"

definition live_inv :: "('p agent_event \<Rightarrow> usize result) \<Rightarrow> 'p buffer \<Rightarrow> bool" where
  "live_inv sz b \<longleftrightarrow> buf_inv sz b \<and> \<not> is_closed b"

lemma push_as_transcript:
  assumes "buf_inv sz b"
  shows "transcript (fst (push_as sz b e close)) =
    (if is_ok (snd (push_as sz b e close)) then transcript b @ [e] else transcript b)"
proof -
  have lim: "limits_ok (b_limits b)" using assms by (simp add: buf_inv_def)
  then show ?thesis
    using assms
    by (cases rule: push_as_cases [where sz = sz and event = e and close = close])
      (auto simp: transcript_def buf_inv_def)
qed

interpretation turn: bounded_queue "live_inv sz" transcript transcript_items "transcript_offer sz"
  transcript_poll for sz :: "'p agent_event \<Rightarrow> usize result"
proof
  fix b b' :: "'p buffer" and w :: "'p transcript_write" and e :: "'p agent_event"
  assume inv: "live_inv sz b"
  show "live_inv sz (fst (transcript_offer sz w b))"
    using inv push_as_inv [of sz b] buffer_finish_inv [of sz b] push_as_frame(2) [of sz b]
      buffer_finish_frame(2) [of b]
    by (cases w) (auto simp: live_inv_def is_closed_def buffer_push_def push_close_def case_prod_beta)
  show "transcript (fst (transcript_offer sz w b)) =
      (if snd (transcript_offer sz w b) then transcript b @ transcript_items w else transcript b)"
    using inv push_as_transcript [of sz b]
    by (cases w) (auto simp: live_inv_def buffer_push_def push_close_def case_prod_beta transcript_def
        buffer_finish_def buffer_status_def Let_def is_closed_def)
  show "live_inv sz b'" if "transcript_poll b = Some (e, b')"
    using that inv try_recv_inv [of sz b] try_recv_frame(2) [of b]
    by (auto simp: live_inv_def transcript_poll_def is_closed_def split: prod.splits sum.splits)
  show "transcript b = e # transcript b'" if "transcript_poll b = Some (e, b')"
    using that
    by (auto simp: transcript_poll_def try_recv_def transcript_def Let_def
        split: prod.splits sum.splits list.splits if_splits)
  show "transcript b = []" if "transcript_poll b = None"
    using that
    by (auto simp: transcript_poll_def try_recv_def transcript_def Let_def
        split: prod.splits sum.splits list.splits if_splits)
qed

lemma live_inv_new: "limits_ok l \<Longrightarrow> live_inv sz (buffer_new l)"
  using buffer_new_inv by (simp add: live_inv_def is_closed_def) (simp add: buffer_new_def)

lemma transcript_new: "transcript (buffer_new l) = []"
  by (simp add: transcript_def buffer_new_def buf_state_default_def)

lemma queued_bytes_eq:
  assumes "buf_inv sz b"
  shows "receiver_queued_bytes b = sum_list (map q_bytes (bs_events (b_state b)))"
    and "receiver_queued_bytes b \<le> turn_buffer_bytes (b_limits b)"
proof -
  have "class_bytes False qs + class_bytes True qs = sum_list (map q_bytes qs)" for qs :: "'a queued list"
    by (induction qs) auto
  moreover have "sat_add (bs_payload_bytes (b_state b)) (bs_control_bytes (b_state b)) =
      bs_payload_bytes (b_state b) + bs_control_bytes (b_state b)"
    using assms by (intro sat_add_exact) (auto simp: buf_inv_defs limits_ok_def)
  ultimately show "receiver_queued_bytes b = sum_list (map q_bytes (bs_events (b_state b)))"
    and "receiver_queued_bytes b \<le> turn_buffer_bytes (b_limits b)"
    using assms by (auto simp: receiver_queued_bytes_def state_queued_bytes_def buf_inv_defs)
qed

text \<open>C2: the budgets hold at every moment. Over any interleaving of events, closes, terminals and
  reads on a new transcript, the queued events are at most the configured counts per class, their
  serialized sizes sum to what \<open>queued_bytes\<close> reports, that sum never passes \<open>turn_buffer_bytes\<close>, and
  payload alone never reaches into the reserve that interactions keep.\<close>

theorem transcript_bounded:
  assumes "limits_ok l"
    and "queue_run transcript_items (transcript_offer sz) transcript_poll ops (buffer_new l) = (acc, del, b)"
    and "l' = b_limits b" "qs = bs_events (b_state b)"
  shows "receiver_queued_bytes b = sum_list (map q_bytes qs) \<and>
    receiver_queued_bytes b \<le> turn_buffer_bytes l' \<and>
    list_all (\<lambda>q. sz (q_event q) = Ok (q_bytes q)) qs \<and>
    class_bytes False qs \<le> turn_buffer_bytes l' - control_reserve_bytes l' \<and>
    class_count False qs \<le> max (turn_channel_capacity l') 1 \<and>
    class_count True qs \<le> control_event_cap l'"
proof -
  have "live_inv sz b" using turn.run_fifo [OF live_inv_new [OF assms(1)] assms(2)] by simp
  then have "buf_inv sz b" by (simp add: live_inv_def)
  with queued_bytes_eq [OF this] assms(3,4) show ?thesis
    by (auto simp: buf_inv_defs list_all_iff)
qed

text \<open>C1: the reader sees exactly what was accepted, in order. Over any interleaving of writers and
  the reader on a new transcript, what was read is a prefix of what was accepted (events in the
  order they were pushed, then the first committed terminal), the rest is still queued, and when
  the reader is told that nothing is left, it has read all of it.\<close>

theorem transcript_fifo:
  assumes "limits_ok l"
    and "queue_run transcript_items (transcript_offer sz) transcript_poll ops (buffer_new l) = (acc, del, b)"
  shows "acc = del @ transcript b \<and> (\<forall>err. snd (try_recv b) = Inl err \<longrightarrow> del = acc)"
proof -
  note run = turn.run_fifo [OF live_inv_new [OF assms(1)] assms(2)]
  have "transcript b = []" if "snd (try_recv b) = Inl err" for err
  proof -
    have "transcript_poll b = None"
      using that by (cases "try_recv b") (simp add: transcript_poll_def)
    with run turn.poll_empty show ?thesis by blast
  qed
  with run show ?thesis by (auto simp: transcript_new)
qed

subsection \<open>Concrete runs\<close>

definition demo_event :: "unit event_kind \<Rightarrow> unit agent_event" where
  "demo_event k = \<lparr>ev_session = lit ''s'', ev_turn = lit ''t'', ev_attempt = 1, ev_at = 0, ev_kind = k\<rparr>"

abbreviation demo_size :: "unit agent_event \<Rightarrow> usize result" where
  "demo_size \<equiv> \<lambda>_. Ok 10"

lemma limits_ok_default: "limits_ok limits_default"
  by (simp add: limits_ok_def limits_default_def usize_MAX_def)

definition demo_ops :: "unit transcript_write queue_op list" where
  "demo_ops =
     [Write (WriteEvent (demo_event (TextDelta (lit ''a'')))), Read,
      Write (WriteEvent (demo_event (ApprovalRequested ()))),
      Write (WriteTerminal [demo_event CompletedEvent] Completed),
      Write (WriteEvent (demo_event (TextDelta (lit ''late''))))]"

definition demo_run :: "unit agent_event list \<times> unit agent_event list \<times> unit buffer" where
  "demo_run =
     queue_run transcript_items (transcript_offer demo_size) transcript_poll demo_ops
       (buffer_new limits_default)"

lemmas demo_defs = demo_run_def demo_ops_def buffer_new_def buf_state_default_def buffer_push_def
  push_close_def push_as_def demo_event_def is_closed_def admit_def control_event_cap_def
  control_reserve_bytes_def state_queued_bytes_def limits_default_def sat_add_def sat_mul_def
  usize_MAX_def INTERACTION_EVENT_BYTES_def enqueue_event_def wrap_add_def wrap_sub_def
  transcript_poll_def try_recv_def buffer_finish_def buffer_status_def Let_def

lemma demo_run_eq:
  "demo_run =
    ([demo_event (TextDelta (lit ''a'')), demo_event (ApprovalRequested ()), demo_event CompletedEvent],
     [demo_event (TextDelta (lit ''a''))],
     snd (snd demo_run))"
  "receiver_queued_bytes (snd (snd demo_run)) = 10"
  "turn_buffer_bytes (b_limits (snd (snd demo_run))) = 8388608"
  by (simp_all add: demo_defs receiver_queued_bytes_def)

lemma push_every_branch_witness:
  "snd (push_as demo_size (buffer_new limits_default) (demo_event ReasoningStarted) False) = Ok ()"
proof -
  let ?b = "buffer_new limits_default :: unit buffer"
  have "has_room (b_limits ?b) (b_state ?b) False 10" "\<not> is_closed ?b" "bs_status (b_state ?b) = None"
    by (simp_all add: demo_defs has_room_def)
  then show ?thesis
    using push_every_branch [OF buffer_new_inv [OF limits_ok_default],
        of demo_size "demo_event ReasoningStarted" False]
    by (simp add: demo_event_def)
qed

lemma transcript_bounded_witness:
  "receiver_queued_bytes (snd (snd demo_run)) = 10 \<and>
   receiver_queued_bytes (snd (snd demo_run)) \<le> turn_buffer_bytes limits_default"
proof -
  have "receiver_queued_bytes (snd (snd demo_run)) \<le> turn_buffer_bytes (b_limits (snd (snd demo_run)))"
    using transcript_bounded [OF limits_ok_default demo_run_eq(1) [unfolded demo_run_def] refl refl]
    unfolding demo_run_def by blast
  moreover have "turn_buffer_bytes limits_default = 8388608" by (simp add: limits_default_def)
  ultimately show ?thesis using demo_run_eq(2,3) by simp
qed

lemma transcript_fifo_witness:
  "fst demo_run = [demo_event (TextDelta (lit ''a'')), demo_event (ApprovalRequested ()), demo_event CompletedEvent] \<and>
   transcript (snd (snd demo_run)) = [demo_event (ApprovalRequested ()), demo_event CompletedEvent]"
proof -
  have "fst demo_run = [demo_event (TextDelta (lit ''a''))] @ transcript (snd (snd demo_run))"
    using transcript_fifo [OF limits_ok_default demo_run_eq(1) [unfolded demo_run_def]] demo_run_eq(1)
    by (metis demo_run_def fst_conv)
  moreover have "fst demo_run =
      [demo_event (TextDelta (lit ''a'')), demo_event (ApprovalRequested ()), demo_event CompletedEvent]"
    by (subst demo_run_eq(1)) simp
  ultimately show ?thesis by simp
qed

end
