(* ===== verification/Turn_Stream.thy ===== *)
theory Turn_Stream imports Turn_Buffer begin

text \<open>
  The only door into a turn's transcript (\<open>stream.rs\<close>): the sink a reducer publishes through, the
  terminals it commits, and the two-phase drop of the last sink. \<open>EventKind::normalized\<close> of
  \<open>event.rs\<close> is modelled on the variants; what the payload structs and the credential redaction do
  to their own text is an argument. The interleaving of several sinks, one reader and the drop is a
  step relation whose steps are the sections the source runs under the lock or as one atomic.
\<close>

subsection \<open>Normalization\<close>

text \<open>
  \<open>n_text\<close> is \<open>redact::message_text\<close>, \<open>n_payload\<close> the \<open>normalized\<close> of a payload struct, \<open>n_severity\<close>
  that of a notice's severity.
\<close>

record 'p normalizers =
  n_text :: "ustring \<Rightarrow> ustring"
  n_payload :: "'p \<Rightarrow> 'p result"
  n_severity :: "'p \<Rightarrow> 'p"

definition normalize_error :: "(ustring \<Rightarrow> ustring) \<Rightarrow> vendor_error \<Rightarrow> vendor_error" where
  "normalize_error message_text e =
     \<lparr>ve_code = ErrorCode (bt_text (bound (code_str (ve_code e)) VendorId)),
      ve_message = bt_text (redact_bounded message_text (ve_message e) ErrorMessage),
      ve_request_id = map_option (\<lambda>i. bt_text (bound i VendorId)) (ve_request_id e),
      ve_vendor_code = map_option (\<lambda>c. bt_text (redact_bounded message_text c VendorId)) (ve_vendor_code e),
      ve_retryable = ve_retryable e\<rparr>"

definition notice ::
  "'p normalizers \<Rightarrow> 'p \<Rightarrow> ustring \<Rightarrow> ustring option \<Rightarrow> 'p event_kind option" where
  "notice N severity title description =
     (let title = bt_text (redact_bounded (n_text N) title Title)
      in if trim title = [] then None
         else
           let description =
             (case map_option (\<lambda>d. bt_text (redact_bounded (n_text N) d Detail)) description of
                None \<Rightarrow> None
              | Some d \<Rightarrow> if trim d \<noteq> [] then Some d else None)
           in Some (Notice (n_severity N severity) title description))"

fun event_normalized :: "'p normalizers \<Rightarrow> 'p event_kind \<Rightarrow> 'p event_kind result" where
  "event_normalized N (TurnStarted i) = res_map TurnStarted (opaque_id i (lit ''native turn id''))"
| "event_normalized N (TextDelta t) = Ok (TextDelta (bt_text (sanitize_owned t)))"
| "event_normalized N (ReasoningDelta t) = Ok (ReasoningDelta (bt_text (sanitize_owned t)))"
| "event_normalized N (ActivityStarted i a) =
     rbind (opaque_id i (lit ''activity call id'')) (\<lambda>i. res_map (ActivityStarted i) (n_payload N a))"
| "event_normalized N (ActivityUpdated i a) =
     rbind (opaque_id i (lit ''activity call id'')) (\<lambda>i. res_map (ActivityUpdated i) (n_payload N a))"
| "event_normalized N (ActivityCompleted i a) =
     rbind (opaque_id i (lit ''activity call id'')) (\<lambda>i. res_map (ActivityCompleted i) (n_payload N a))"
| "event_normalized N (ApprovalRequested r) = res_map ApprovalRequested (n_payload N r)"
| "event_normalized N (ApprovalResolved i d) =
     rbind (n_payload N i) (\<lambda>i. res_map (ApprovalResolved i) (n_payload N d))"
| "event_normalized N (QuestionAsked r) = res_map QuestionAsked (n_payload N r)"
| "event_normalized N (QuestionResolved i d) =
     rbind (n_payload N i) (\<lambda>i. res_map (QuestionResolved i) (n_payload N d))"
| "event_normalized N (AccountLimits l) = res_map AccountLimits (n_payload N l)"
| "event_normalized N (Notice s t d) =
     (case notice N s t d of
        Some k \<Rightarrow> Ok k
      | None \<Rightarrow> Err (InvalidVendorValue (lit ''notice title'')
          (bt_text (redact_bounded (n_text N) t Title))))"
| "event_normalized N (ErrorEvent e) = Ok (ErrorEvent (normalize_error (n_text N) e))"
| "event_normalized N unchanged = Ok unchanged"

subsection \<open>The sink\<close>

record sink =
  sk_session :: session_id
  sk_turn :: turn_id
  sk_attempt :: attempt_id

text \<open>\<open>now\<close> is the host's clock, the session of the run and its normalizers come with it.\<close>

definition stamp :: "nat \<Rightarrow> sink \<Rightarrow> 'p event_kind \<Rightarrow> 'p agent_event" where
  "stamp now sink kind =
     \<lparr>ev_session = sk_session sink, ev_turn = sk_turn sink, ev_attempt = sk_attempt sink, ev_at = now,
      ev_kind = kind\<rparr>"

definition sink_event ::
  "'p normalizers \<Rightarrow> nat \<Rightarrow> sink \<Rightarrow> 'p event_kind \<Rightarrow> 'p agent_event result" where
  "sink_event N now sink kind =
     res_map (stamp now sink) (event_normalized N kind)"

definition stream_overflow :: error_code where
  "stream_overflow = ErrorCode (lit ''stream-overflow'')"

definition sink_cancel ::
  "'p normalizers \<Rightarrow> nat \<Rightarrow> sink \<Rightarrow> 'p buffer \<Rightarrow> cancel_reason \<Rightarrow> 'p buffer \<times> unit result" where
  "sink_cancel N now sink b reason =
     (case rbind (sink_event N now sink (CancelledEvent reason)) (\<lambda>c.
             rbind (sink_event N now sink CompletedEvent) (\<lambda>d. Ok [c, d])) of
        Inl e \<Rightarrow> (b, Err e)
      | Inr es \<Rightarrow> buffer_finish b es (CancelledStatus reason))"

definition cancel_on_close ::
  "'p normalizers \<Rightarrow> nat \<Rightarrow> sink \<Rightarrow> 'p buffer \<Rightarrow> cancel_reason \<Rightarrow> 'p buffer \<times> unit result" where
  "cancel_on_close N now sink b reason = sink_cancel N now sink b reason"

definition sink_fail ::
  "'p normalizers \<Rightarrow> nat \<Rightarrow> sink \<Rightarrow> 'p buffer \<Rightarrow> vendor_error \<Rightarrow> 'p buffer \<times> unit result" where
  "sink_fail N now sink b e =
     (case sink_event N now sink (ErrorEvent e) of
        Inl err \<Rightarrow> (b, Err err)
      | Inr event \<Rightarrow>
          (case ev_kind event of
             ErrorEvent e \<Rightarrow> buffer_finish b [event] (FailedStatus (ve_code e))
           | _ \<Rightarrow> (b, Ok ())))"

definition sink_complete ::
  "'p normalizers \<Rightarrow> nat \<Rightarrow> sink \<Rightarrow> 'p buffer \<Rightarrow> 'p buffer \<times> unit result" where
  "sink_complete N now sink b =
     (case sink_event N now sink CompletedEvent of
        Inl e \<Rightarrow> (b, Err e)
      | Inr d \<Rightarrow> buffer_finish b [d] Completed)"

text \<open>\<open>LimitExceeded\<close> prints no program and no duration.\<close>

definition limit_text :: "error \<Rightarrow> ustring" where
  "limit_text e = error_display (\<lambda>p. p) (\<lambda>_. []) e"

definition sink_emit ::
  "('p agent_event \<Rightarrow> usize result) \<Rightarrow> 'p normalizers \<Rightarrow> nat \<Rightarrow> sink \<Rightarrow> 'p buffer \<Rightarrow> 'p event_kind \<Rightarrow>
   'p buffer \<times> unit result" where
  "sink_emit sz N now sink b kind =
     (case kind of
        CompletedEvent \<Rightarrow> sink_complete N now sink b
      | ErrorEvent e \<Rightarrow> sink_fail N now sink b e
      | _ \<Rightarrow>
          (case sink_event N now sink kind of
             Inl e \<Rightarrow> (b, Err e)
           | Inr event \<Rightarrow>
               (let (b', r) = buffer_push sz b event
                in case r of
                     Inl (LimitExceeded s l n) \<Rightarrow>
                       (fst (sink_fail N now sink b'
                          (vendor_error_new stream_overflow (limit_text (LimitExceeded s l n)))), r)
                   | _ \<Rightarrow> (b', r))))"

datatype 'p structure_close = ActivityClose ustring 'p | ReasoningClose

fun close_event :: "'p structure_close \<Rightarrow> 'p event_kind" where
  "close_event (ActivityClose i r) = ActivityCompleted i r"
| "close_event ReasoningClose = ReasoningEnded"

definition emit_close ::
  "('p agent_event \<Rightarrow> usize result) \<Rightarrow> 'p normalizers \<Rightarrow> nat \<Rightarrow> sink \<Rightarrow> 'p buffer \<Rightarrow> 'p structure_close \<Rightarrow>
   'p buffer \<times> unit result" where
  "emit_close sz N now sink b close =
     (case sink_event N now sink (close_event close) of
        Inl e \<Rightarrow> (b, Err e)
      | Inr event \<Rightarrow> push_close sz b event)"

definition sink_is_terminal :: "'p buffer \<Rightarrow> bool" where
  "sink_is_terminal b \<longleftrightarrow> buffer_status b \<noteq> None"

text \<open>The failure the last sink's drop publishes for a close that was refused for room.\<close>

definition drop_error :: vendor_error where
  "drop_error =
     vendor_error_new stream_overflow
       (lit ''expected a terminal after a close was refused for room, received the last sender dropped'')"

definition drop_publish :: "'p normalizers \<Rightarrow> nat \<Rightarrow> sink \<Rightarrow> 'p buffer \<Rightarrow> bool \<Rightarrow> 'p buffer" where
  "drop_publish N now sink b owed =
     (if owed then
        (case sink_event N now sink (ErrorEvent drop_error) of
           Inr event \<Rightarrow> fst (buffer_finish b [event] (FailedStatus (ve_code drop_error)))
         | Inl _ \<Rightarrow> b)
      else b)"

text \<open>\<open>Drop for EventSink\<close> without an interleaving.\<close>

definition sink_drop :: "'p normalizers \<Rightarrow> nat \<Rightarrow> sink \<Rightarrow> 'p buffer \<Rightarrow> 'p buffer" where
  "sink_drop N now sink b =
     (let (b, nonfinal) = release_nonfinal_sender b;
          owed = \<not> nonfinal \<and> owes_overflow_terminal b
      in if nonfinal then b else remove_sender (drop_publish N now sink b owed))"

subsection \<open>The stream handle\<close>

record 'p turn_stream =
  ts_turn :: turn_id
  ts_attempt :: attempt_id
  ts_native_turn_id :: ustring
  ts_dispatch :: dispatch
  ts_events :: "'p buffer"

definition stream_accepted ::
  "turn_id \<Rightarrow> attempt_id \<Rightarrow> ustring \<Rightarrow> 'p buffer \<Rightarrow> 'p turn_stream" where
  "stream_accepted t a native events =
     \<lparr>ts_turn = t, ts_attempt = a, ts_native_turn_id = native, ts_dispatch = Accepted, ts_events = events\<rparr>"

definition stream_operation :: "'p turn_stream \<Rightarrow> session_id \<Rightarrow> operation_ref" where
  "stream_operation s session =
     \<lparr>op_session = session, op_turn = ts_turn s, op_attempt = ts_attempt s\<rparr>"

definition stream_with_dispatch :: "'p turn_stream \<Rightarrow> dispatch \<Rightarrow> 'p turn_stream" where
  "stream_with_dispatch s d = s\<lparr>ts_dispatch := d\<rparr>"

definition stream_terminal_status :: "'p turn_stream \<Rightarrow> terminal_status option" where
  "stream_terminal_status s = buffer_status (ts_events s)"

definition stream_try_recv ::
  "'p turn_stream \<Rightarrow> 'p turn_stream \<times> (try_recv_error + 'p agent_event)" where
  "stream_try_recv s = (let (b, r) = try_recv (ts_events s) in (s\<lparr>ts_events := b\<rparr>, r))"

definition sink_with_limits ::
  "session_id \<Rightarrow> turn_id \<Rightarrow> attempt_id \<Rightarrow> limits \<Rightarrow> sink \<times> 'p buffer" where
  "sink_with_limits s t a l = (\<lparr>sk_session = s, sk_turn = t, sk_attempt = a\<rparr>, buffer_new l)"

definition sink_new ::
  "session_id \<Rightarrow> turn_id \<Rightarrow> attempt_id \<Rightarrow> usize \<Rightarrow> sink \<times> 'p buffer" where
  "sink_new s t a capacity = sink_with_limits s t a (limits_default\<lparr>turn_channel_capacity := capacity\<rparr>)"

definition sink_operation :: "sink \<Rightarrow> operation_ref" where
  "sink_operation k =
     \<lparr>op_session = sk_session k, op_turn = sk_turn k, op_attempt = sk_attempt k\<rparr>"

subsection \<open>What one call does\<close>

lemma ev_kind_stamp [simp]: "ev_kind (stamp now sink k) = k"
  by (simp add: stamp_def)

lemma sink_fail_eq:
  "sink_fail N now sink b e =
     buffer_finish b [stamp now sink (ErrorEvent (normalize_error (n_text N) e))]
       (FailedStatus (ve_code (normalize_error (n_text N) e)))"
  by (simp add: sink_fail_def sink_event_def)

lemma sink_cancel_eq:
  "sink_cancel N now sink b reason =
     buffer_finish b [stamp now sink (CancelledEvent reason), stamp now sink CompletedEvent]
       (CancelledStatus reason)"
  by (simp add: sink_cancel_def sink_event_def)

lemma sink_complete_eq:
  "sink_complete N now sink b = buffer_finish b [stamp now sink CompletedEvent] Completed"
  by (simp add: sink_complete_def sink_event_def)

lemma buffer_finish_first:
  assumes "bs_status (b_state b) = None" "\<not> is_closed b"
  shows "bs_status (b_state (fst (buffer_finish b es st))) = Some st"
    and "transcript (fst (buffer_finish b es st)) = transcript b @ es"
    and "snd (buffer_finish b es st) = Ok ()"
  using assms by (auto simp: buffer_finish_def transcript_def is_closed_def Let_def)

lemma buffer_finish_late:
  "bs_status (b_state b) = Some st \<Longrightarrow> buffer_finish b es st' = (b, Ok ())"
  by (simp add: buffer_finish_def Let_def)

lemma drop_publish_eq:
  "drop_publish N now sink b owed =
     (if owed then fst (buffer_finish b
        [stamp now sink (ErrorEvent (normalize_error (n_text N) drop_error))] (FailedStatus stream_overflow))
      else b)"
  by (simp add: drop_publish_def sink_event_def drop_error_def vendor_error_new_def)

text \<open>What a full queue does. When \<open>emit\<close> is refused for room, the turn has ended with a failure:
  the status is committed, the reader will find exactly one error event after everything that was
  accepted before, and the refusal is returned to the caller. When \<open>emit_close\<close> is refused for room
  nothing is committed and nothing is queued, so the caller's own terminal still wins.\<close>

theorem overflow_commits_failure:
  assumes "live_inv sz b"
  shows "(snd (sink_emit sz N now sink b kind) = Err (LimitExceeded s l n) \<and>
      (\<forall>e. kind \<noteq> ErrorEvent e) \<and> event_normalized N kind \<noteq> Err (LimitExceeded s l n) \<and>
      (\<forall>e. sz e \<noteq> Err (LimitExceeded s l n)) \<longrightarrow>
      (\<exists>c e v. buffer_status (fst (sink_emit sz N now sink b kind)) = Some (FailedStatus c) \<and>
        transcript (fst (sink_emit sz N now sink b kind)) = transcript b @ [e] \<and>
        ev_kind e = ErrorEvent v \<and> ve_code v = c)) \<and>
    (snd (emit_close sz N now sink b close) = Err (LimitExceeded s l n) \<longrightarrow>
      buffer_status (fst (emit_close sz N now sink b close)) = buffer_status b \<and>
      transcript (fst (emit_close sz N now sink b close)) = transcript b)"
proof (intro conjI impI)
  have inv: "buf_inv sz b" and open_b: "\<not> is_closed b" and lim: "limits_ok (b_limits b)"
    using assms by (simp_all add: live_inv_def buf_inv_def)
  show "\<exists>c e v. buffer_status (fst (sink_emit sz N now sink b kind)) = Some (FailedStatus c) \<and>
        transcript (fst (sink_emit sz N now sink b kind)) = transcript b @ [e] \<and>
        ev_kind e = ErrorEvent v \<and> ve_code v = c"
    if refused: "snd (sink_emit sz N now sink b kind) = Err (LimitExceeded s l n) \<and>
      (\<forall>e. kind \<noteq> ErrorEvent e) \<and> event_normalized N kind \<noteq> Err (LimitExceeded s l n) \<and>
      (\<forall>e. sz e \<noteq> Err (LimitExceeded s l n))"
  proof -
    have not_complete: "kind \<noteq> CompletedEvent"
      using refused by (auto simp: sink_emit_def sink_complete_eq buffer_finish_def
          Let_def is_closed_def split: if_splits)
    then have emit: "sink_emit sz N now sink b kind =
        (case sink_event N now sink kind of
             Inl e \<Rightarrow> (b, Err e)
           | Inr event \<Rightarrow>
               (let (b', r) = buffer_push sz b event
                in case r of
                     Inl (LimitExceeded s l n) \<Rightarrow>
                       (fst (sink_fail N now sink b'
                          (vendor_error_new stream_overflow (limit_text (LimitExceeded s l n)))), r)
                   | _ \<Rightarrow> (b', r)))"
      using refused by (cases kind) (simp_all add: sink_emit_def)
    then obtain event where event: "sink_event N now sink kind = Ok event"
      using refused by (cases "sink_event N now sink kind") (auto simp: sink_event_def result_simps)
    obtain b' r where push: "buffer_push sz b event = (b', r)" by (cases "buffer_push sz b event")
    then have r: "r = Err (LimitExceeded s l n)"
      using refused by (auto simp: emit event split: sum.splits error.splits)
    have b': "bs_status (b_state b') = None" "\<not> is_closed b'" "transcript b' = transcript b"
      using push r refused open_b lim
      by (cases rule: push_as_cases [OF lim, where sz = sz and event = event and close = False];
          auto simp: buffer_push_def is_closed_def transcript_def)+
    show ?thesis
      using buffer_finish_first [OF b'(1,2)] b'(3)
      by (simp add: emit event push r sink_fail_eq buffer_status_def)
  qed
  show "buffer_status (fst (emit_close sz N now sink b close)) = buffer_status b"
    "transcript (fst (emit_close sz N now sink b close)) = transcript b"
    if "snd (emit_close sz N now sink b close) = Err (LimitExceeded s l n)"
    using that push_as_transcript [OF inv] push_as_frame(6) [of sz b]
    by (auto simp: emit_close_def push_close_def buffer_status_def split: sum.splits)
qed

abbreviation demo_N :: "unit normalizers" where
  "demo_N \<equiv> \<lparr>n_text = id, n_payload = Ok, n_severity = id\<rparr>"

abbreviation demo_sink :: sink where
  "demo_sink \<equiv> \<lparr>sk_session = [], sk_turn = [], sk_attempt = 1\<rparr>"

definition demo_full :: "unit buffer" where
  "demo_full = buffer_new (limits_default\<lparr>turn_buffer_bytes := 4\<rparr>)"

lemma overflow_commits_failure_witness:
  "buffer_status (fst (emit_close demo_size demo_N 0 demo_sink demo_full ReasoningClose)) = None \<and>
   (\<exists>c. buffer_status (fst (sink_emit demo_size demo_N 0 demo_sink demo_full ReasoningStarted)) =
     Some (FailedStatus c))"
proof -
  let ?e = "LimitExceeded (lit ''queued turn payload bytes'') 2 10"
  have live: "live_inv demo_size demo_full"
    unfolding demo_full_def
    by (intro live_inv_new) (simp add: limits_ok_def limits_default_def usize_MAX_def)
  have "snd (buffer_push demo_size demo_full (stamp 0 demo_sink ReasoningStarted)) = Err ?e"
    by (simp add: demo_full_def stamp_def demo_defs limit_exceeded_def)
  then have 1: "snd (sink_emit demo_size demo_N 0 demo_sink demo_full ReasoningStarted) = Err ?e"
    by (simp add: sink_emit_def sink_event_def case_prod_beta)
  have 2: "snd (emit_close demo_size demo_N 0 demo_sink demo_full ReasoningClose) = Err ?e"
    by (simp add: emit_close_def sink_event_def push_close_def stamp_def demo_full_def demo_defs
        limit_exceeded_def)
  have "buffer_status demo_full = None"
    by (simp add: demo_full_def buffer_status_def buffer_new_def buf_state_default_def)
  moreover note overflow_commits_failure [OF live, of demo_N 0 demo_sink ReasoningStarted
      "lit ''queued turn payload bytes''" 2 10 ReasoningClose, unfolded 1 2]
  ultimately show ?thesis by auto
qed

text \<open>One terminal, the first to be committed. Once a status is committed no call on any sink
  changes it or adds to the transcript: later cancellations, failures and completions are answered
  without effect, and events and closes are refused as closed. The terminal itself never waits for
  room: on a live stream the first \<open>cancel\<close>, \<open>fail\<close> or \<open>complete\<close> always commits, with at most two
  reserved events behind everything accepted before.\<close>

theorem first_terminal_wins:
  "(buffer_status b = Some st \<longrightarrow>
      sink_cancel N now sink b reason = (b, Ok ()) \<and> sink_fail N now sink b e = (b, Ok ()) \<and>
      sink_complete N now sink b = (b, Ok ()) \<and>
      (\<forall>event bytes. sz event = Ok bytes \<longrightarrow>
         buffer_push sz b event = (b, Err (Closed (lit ''turn stream''))) \<and>
         push_close sz b event = (b, Err (Closed (lit ''turn stream''))))) \<and>
   (buffer_status b = None \<and> \<not> is_closed b \<longrightarrow>
      buffer_status (fst (sink_cancel N now sink b reason)) = Some (CancelledStatus reason) \<and>
      buffer_status (fst (sink_complete N now sink b)) = Some Completed \<and>
      buffer_status (fst (sink_fail N now sink b e)) =
        Some (FailedStatus (ve_code (normalize_error (n_text N) e))) \<and>
      (\<forall>b' \<in> {fst (sink_cancel N now sink b reason), fst (sink_fail N now sink b e),
          fst (sink_complete N now sink b)}.
        \<exists>es. length es \<le> 2 \<and> transcript b' = transcript b @ es))"
proof (intro conjI impI)
  assume st: "buffer_status b = Some st"
  then show "sink_cancel N now sink b reason = (b, Ok ())" "sink_fail N now sink b e = (b, Ok ())"
    "sink_complete N now sink b = (b, Ok ())"
    by (simp_all add: sink_cancel_eq sink_fail_eq sink_complete_eq buffer_status_def buffer_finish_late)
  from st show "\<forall>event bytes. sz event = Ok bytes \<longrightarrow>
         buffer_push sz b event = (b, Err (Closed (lit ''turn stream''))) \<and>
         push_close sz b event = (b, Err (Closed (lit ''turn stream'')))"
    by (auto simp: buffer_push_def push_close_def push_as_def buffer_status_def Let_def)
next
  assume "buffer_status b = None \<and> \<not> is_closed b"
  then have b: "bs_status (b_state b) = None" "\<not> is_closed b" by (simp_all add: buffer_status_def)
  show "buffer_status (fst (sink_cancel N now sink b reason)) = Some (CancelledStatus reason)"
    "buffer_status (fst (sink_complete N now sink b)) = Some Completed"
    "buffer_status (fst (sink_fail N now sink b e)) =
        Some (FailedStatus (ve_code (normalize_error (n_text N) e)))"
    by (simp_all add: sink_cancel_eq sink_fail_eq sink_complete_eq buffer_status_def
        buffer_finish_first [OF b])
  show "\<forall>b' \<in> {fst (sink_cancel N now sink b reason), fst (sink_fail N now sink b e),
          fst (sink_complete N now sink b)}.
        \<exists>es. length es \<le> 2 \<and> transcript b' = transcript b @ es"
    by (simp add: sink_cancel_eq sink_fail_eq sink_complete_eq buffer_finish_first [OF b])
qed

lemma first_terminal_wins_witness:
  "let b = fst (sink_complete \<lparr>n_text = id, n_payload = Ok, n_severity = id\<rparr> 0
             \<lparr>sk_session = [], sk_turn = [], sk_attempt = 1\<rparr> (buffer_new limits_default :: unit buffer))
   in buffer_status b = Some Completed \<and>
      sink_cancel \<lparr>n_text = id, n_payload = Ok, n_severity = id\<rparr> 1
        \<lparr>sk_session = [], sk_turn = [], sk_attempt = 1\<rparr> b Requested = (b, Ok ())"
proof -
  let ?N = "\<lparr>n_text = id, n_payload = Ok, n_severity = id\<rparr> :: unit normalizers"
  let ?k = "\<lparr>sk_session = [], sk_turn = [], sk_attempt = 1\<rparr>"
  let ?b = "fst (sink_complete ?N 0 ?k (buffer_new limits_default))"
  have new: "buffer_status (buffer_new limits_default :: unit buffer) = None \<and>
      \<not> is_closed (buffer_new limits_default :: unit buffer)"
    by (simp add: buffer_status_def buffer_new_def buf_state_default_def is_closed_def)
  have "buffer_status ?b = Some Completed"
    using first_terminal_wins [THEN conjunct2, THEN mp, OF new] by blast
  moreover from this have "sink_cancel ?N 1 ?k ?b Requested = (?b, Ok ())"
    by (rule first_terminal_wins [THEN conjunct1, THEN mp, THEN conjunct1])
  ultimately show ?thesis by (simp add: Let_def)
qed

subsection \<open>Sinks, their drops and the reader, interleaved\<close>

text \<open>
  \<open>w_live\<close> counts the sinks whose drop has not begun. The drop of the last one runs in four sections:
  it is elected by the count, decides under the lock whether it owes a terminal, publishes it, and
  removes itself from the count. Between any two sections the reader may run.
\<close>

datatype drop_phase = Elected | Decided bool | Published

record 'p world =
  w_buf :: "'p buffer"
  w_live :: nat
  w_drop :: "drop_phase option"

definition world_new :: "limits \<Rightarrow> 'p world" where
  "world_new l = \<lparr>w_buf = buffer_new l, w_live = 1, w_drop = None\<rparr>"

text \<open>The guard of \<open>clone\<close>: \<open>2 ^ 64\<close> handles do not fit in memory.\<close>

inductive stream_step ::
  "('p agent_event \<Rightarrow> usize result) \<Rightarrow> 'p normalizers \<Rightarrow> sink \<Rightarrow> 'p world \<Rightarrow> 'p world \<Rightarrow> bool"
  for sz N sink where
  push: "0 < w_live w \<Longrightarrow>
    stream_step sz N sink w (w\<lparr>w_buf := fst (buffer_push sz (w_buf w) event)\<rparr>)"
| close: "0 < w_live w \<Longrightarrow>
    stream_step sz N sink w (w\<lparr>w_buf := fst (push_close sz (w_buf w) event)\<rparr>)"
| commit: "0 < w_live w \<Longrightarrow>
    stream_step sz N sink w (w\<lparr>w_buf := fst (buffer_finish (w_buf w) es st)\<rparr>)"
| clone: "0 < w_live w \<Longrightarrow> b_senders (w_buf w) < usize_MAX \<Longrightarrow>
    stream_step sz N sink w (w\<lparr>w_buf := add_sender (w_buf w), w_live := w_live w + 1\<rparr>)"
| release: "0 < w_live w \<Longrightarrow> release_nonfinal_sender (w_buf w) = (b, True) \<Longrightarrow>
    stream_step sz N sink w (w\<lparr>w_buf := b, w_live := w_live w - 1\<rparr>)"
| elect: "0 < w_live w \<Longrightarrow> release_nonfinal_sender (w_buf w) = (b, False) \<Longrightarrow>
    stream_step sz N sink w (w\<lparr>w_buf := b, w_live := w_live w - 1, w_drop := Some Elected\<rparr>)"
| decide: "w_drop w = Some Elected \<Longrightarrow>
    stream_step sz N sink w (w\<lparr>w_drop := Some (Decided (owes_overflow_terminal (w_buf w)))\<rparr>)"
| publish: "w_drop w = Some (Decided owed) \<Longrightarrow>
    stream_step sz N sink w
      (w\<lparr>w_buf := drop_publish N now sink (w_buf w) owed, w_drop := Some Published\<rparr>)"
| remove: "w_drop w = Some Published \<Longrightarrow>
    stream_step sz N sink w (w\<lparr>w_buf := remove_sender (w_buf w), w_drop := None\<rparr>)"
| recv: "\<not> is_closed (w_buf w) \<Longrightarrow> stream_step sz N sink w (w\<lparr>w_buf := fst (try_recv (w_buf w))\<rparr>)"
| abandon: "stream_step sz N sink w (w\<lparr>w_buf := receiver_abandon (w_buf w)\<rparr>)"
| clear: "is_closed (w_buf w) \<Longrightarrow>
    stream_step sz N sink w (w\<lparr>w_buf := receiver_clear (w_buf w)\<rparr>)"

inductive stream_reach ::
  "('p agent_event \<Rightarrow> usize result) \<Rightarrow> 'p normalizers \<Rightarrow> sink \<Rightarrow> limits \<Rightarrow> 'p world \<Rightarrow> bool"
  for sz N sink l where
  start: "stream_reach sz N sink l (world_new l)"
| step: "stream_reach sz N sink l w \<Longrightarrow> stream_step sz N sink w w' \<Longrightarrow> stream_reach sz N sink l w'"

text \<open>A refused close that nobody has answered for: no terminal, and a reader still there.\<close>

definition unanswered :: "'p buffer \<Rightarrow> bool" where
  "unanswered b \<longleftrightarrow> bs_close_refused (b_state b) \<and> bs_status (b_state b) = None \<and> \<not> is_closed b"

definition world_inv :: "('p agent_event \<Rightarrow> usize result) \<Rightarrow> 'p world \<Rightarrow> bool" where
  "world_inv sz w \<longleftrightarrow>
     buf_inv sz (w_buf w) \<and>
     b_senders (w_buf w) = w_live w + (if w_drop w = None then 0 else 1) \<and>
     b_senders (w_buf w) \<le> usize_MAX \<and>
     (w_drop w \<noteq> None \<longrightarrow> w_live w = 0) \<and>
     (w_drop w \<in> {Some (Decided False), Some Published} \<or> b_senders (w_buf w) = 0 \<longrightarrow>
        \<not> unanswered (w_buf w))"

lemma world_inv_new: "limits_ok l \<Longrightarrow> world_inv sz (world_new l)"
  using buffer_new_inv [of l sz]
  by (simp add: world_inv_def world_new_def) (simp add: buffer_new_def usize_MAX_def)

lemma unanswered_frames:
  "unanswered (fst (try_recv b)) = unanswered b"
  "unanswered (add_sender b) = unanswered b"
  "unanswered (remove_sender b) = unanswered b"
  "\<not> unanswered (receiver_abandon b)"
  "unanswered (receiver_clear b) = unanswered b"
  "\<not> unanswered (fst (buffer_finish b es st))"
  using try_recv_frame [of b] buffer_finish_frame [where b = b and es = es and st = st]
  by (auto simp: unanswered_def is_closed_def add_sender_def remove_sender_def receiver_abandon_def
      receiver_clear_def)

lemma release_nonfinal_sender_cases:
  "release_nonfinal_sender b = (b', True) \<Longrightarrow> 1 < b_senders b \<and> b' = b\<lparr>b_senders := b_senders b - 1\<rparr>"
  "release_nonfinal_sender b = (b', False) \<Longrightarrow> b_senders b \<le> 1 \<and> b' = b"
  by (auto simp: release_nonfinal_sender_def split: if_splits)

lemma buf_inv_senders [simp]: "buf_inv sz (b\<lparr>b_senders := n\<rparr>) = buf_inv sz b"
  by (simp add: buf_inv_def)

lemma unanswered_senders [simp]: "unanswered (b\<lparr>b_senders := n\<rparr>) = unanswered b"
  by (simp add: unanswered_def is_closed_def)

text \<open>The election sees the count of the invariant: the elected drop is the last owner.\<close>

lemma elected_owes_iff: "b_senders b = 1 \<Longrightarrow> owes_overflow_terminal b = unanswered b"
  by (simp add: owes_overflow_terminal_def unanswered_def)

lemma drop_publish_inv:
  assumes "buf_inv sz b"
  shows "buf_inv sz (drop_publish N now sink b owed)"
    and "b_senders (drop_publish N now sink b owed) = b_senders b"
    and "owed \<Longrightarrow> \<not> unanswered (drop_publish N now sink b owed)"
    and "\<not> owed \<Longrightarrow> drop_publish N now sink b owed = b"
  using assms
  by (simp_all add: drop_publish_eq unanswered_frames buffer_finish_inv buffer_finish_frame(3))

lemma stream_step_inv:
  assumes "stream_step sz N sink w w'" "world_inv sz w"
  shows "world_inv sz w'"
  using assms
proof cases
  case (push event)
  then show ?thesis
    using assms(2) push_as_inv [of sz "w_buf w"] push_as_frame(4) [of sz "w_buf w"]
    by (simp add: world_inv_def buffer_push_def)
next
  case (close event)
  then show ?thesis
    using assms(2) push_as_inv [of sz "w_buf w"] push_as_frame(4) [of sz "w_buf w"]
    by (simp add: world_inv_def push_close_def)
next
  case (commit es st)
  then show ?thesis
    using assms(2) buffer_finish_inv [of sz "w_buf w"] buffer_finish_frame(3) [of "w_buf w"]
    by (simp add: world_inv_def unanswered_frames)
next
  case clone
  then show ?thesis
    using assms(2) sender_ops_inv(1) [of sz "w_buf w"]
    by (auto simp: world_inv_def unanswered_frames) (simp_all add: add_sender_def wrap_add_exact)
next
  case (release b)
  then show ?thesis
    using assms(2) release_nonfinal_sender_cases(1) [OF release(3)] by (auto simp: world_inv_def)
next
  case (elect b)
  then show ?thesis
    using assms(2) release_nonfinal_sender_cases(2) [OF elect(3)] by (auto simp: world_inv_def)
next
  case decide
  then show ?thesis
    using assms(2) elected_owes_iff [of "w_buf w"] by (auto simp: world_inv_def)
next
  case (publish owed now)
  then show ?thesis
    using assms(2) drop_publish_inv [where b = "w_buf w" and sz = sz]
    by (cases owed) (auto simp: world_inv_def)
next
  case remove
  then show ?thesis
    using assms(2) by (auto simp: world_inv_def remove_sender_def wrap_sub_def usize_MAX_def)
next
  case recv
  then show ?thesis
    using assms(2) try_recv_inv [of sz "w_buf w"] try_recv_frame(3) [of "w_buf w"]
    by (simp add: world_inv_def unanswered_frames)
next
  case abandon
  then show ?thesis
    using assms(2) receiver_drop_inv(1) [of sz "w_buf w"]
    by (simp add: world_inv_def unanswered_frames) (simp add: receiver_abandon_def)
next
  case clear
  then show ?thesis
    using assms(2) receiver_drop_inv(2) [of sz "w_buf w"]
    by (simp add: world_inv_def unanswered_frames) (simp add: receiver_clear_def)
qed

lemma stream_reach_inv:
  assumes "stream_reach sz N sink l w" "limits_ok l"
  shows "world_inv sz w"
  using assms by induction (auto intro: world_inv_new stream_step_inv)

text \<open>C9: a stream never ends silently over a missing close. However clones, publications, drops and
  reads of any number of sinks interleave, a reader that is still there and is told that the stream
  is over finds a committed status, unless every sink was dropped, the drop of the last one has run
  to its end, and no close was ever refused for room; the number of senders is the number of sinks
  not yet dropped plus the one elected as last, so the election is never lost and never won twice.\<close>

theorem stream_never_ends_silently:
  assumes "limits_ok l" "stream_reach sz N sink l w"
  shows "b_senders (w_buf w) = w_live w + (if w_drop w = None then 0 else 1) \<and>
    (w_drop w \<noteq> None \<longrightarrow> w_live w = 0) \<and>
    (snd (try_recv (w_buf w)) = Inl Disconnected \<and> \<not> is_closed (w_buf w) \<and>
       buffer_status (w_buf w) = None \<longrightarrow>
       w_live w = 0 \<and> w_drop w = None \<and> \<not> bs_close_refused (b_state (w_buf w)))"
proof -
  have inv: "world_inv sz w" using stream_reach_inv [OF assms(2,1)] .
  have "b_senders (w_buf w) = 0"
    if "snd (try_recv (w_buf w)) = Inl Disconnected" "buffer_status (w_buf w) = None"
    using that by (auto simp: try_recv_def buffer_status_def Let_def split: list.splits if_splits)
  with inv show ?thesis
    by (auto simp: world_inv_def unanswered_def buffer_status_def split: if_splits)
qed

text \<open>The whole drop of the last sink after a refused close commits the overflow failure.\<close>

lemma last_drop_commits:
  assumes "b_senders b = 1" "unanswered b"
  shows "buffer_status (sink_drop N now sink b) = Some (FailedStatus stream_overflow) \<and>
    b_senders (sink_drop N now sink b) = 0"
proof -
  have "release_nonfinal_sender b = (b, False)" using assms(1) by (simp add: release_nonfinal_sender_def)
  moreover have "owes_overflow_terminal b" using elected_owes_iff assms by blast
  moreover have "bs_status (b_state b) = None" "\<not> is_closed b" using assms(2) by (auto simp: unanswered_def)
  ultimately show ?thesis
    using assms(1) buffer_finish_first(1) [of b] buffer_finish_frame(3) [of b]
    by (simp add: sink_drop_def drop_publish_eq remove_sender_def buffer_status_def wrap_sub_def)
qed

lemma stream_never_ends_silently_witness:
  "\<exists>w. stream_reach demo_size demo_N demo_sink (limits_default\<lparr>turn_buffer_bytes := 4\<rparr>) w \<and>
     bs_close_refused (b_state (w_buf w)) \<and> w_drop w = Some Elected \<and> b_senders (w_buf w) = 1"
proof -
  let ?l = "limits_default\<lparr>turn_buffer_bytes := 4\<rparr>"
  let ?r = "stream_reach demo_size demo_N demo_sink ?l"
  have l: "limits_ok ?l" by (simp add: limits_ok_def limits_default_def usize_MAX_def)
  let ?w0 = "world_new ?l :: unit world"
  let ?w1 = "?w0\<lparr>w_buf := fst (push_close demo_size (w_buf ?w0) (stamp 0 demo_sink ReasoningEnded))\<rparr>"
  have "?r ?w0" by (rule stream_reach.start)
  then have 1: "?r ?w1"
    by (rule stream_reach.step) (rule stream_step.close, simp add: world_new_def)
  have refused: "bs_close_refused (b_state (w_buf ?w1))" and one: "b_senders (w_buf ?w1) = 1"
    by (simp_all add: world_new_def stamp_def demo_defs limit_exceeded_def)
  have "release_nonfinal_sender (w_buf ?w1) = (w_buf ?w1, False)"
    using one by (simp add: release_nonfinal_sender_def)
  then have "stream_step demo_size demo_N demo_sink ?w1
      (?w1\<lparr>w_buf := w_buf ?w1, w_live := w_live ?w1 - 1, w_drop := Some Elected\<rparr>)"
    by (intro stream_step.elect) (simp_all add: world_new_def)
  from stream_reach.step [OF 1 this]
  have 2: "?r (?w1\<lparr>w_buf := w_buf ?w1, w_live := w_live ?w1 - 1, w_drop := Some Elected\<rparr>)" .
  from stream_never_ends_silently [OF l 2] refused one 2 show ?thesis
    by (intro exI [of _ "?w1\<lparr>w_buf := w_buf ?w1, w_live := w_live ?w1 - 1, w_drop := Some Elected\<rparr>"]) simp
qed

end
