(* ===== verification/Json_Size.thy ===== *)
theory Json_Size imports Turn_Buffer begin

text \<open>
  The compact JSON size of a value, counted without producing the JSON (\<open>stream/size.rs\<close>). A value
  is what its \<open>Serialize\<close> implementation hands to the serializer: one constructor per method of
  serde's data model. The counter is modelled with its state and its arithmetic (8-bit block sums,
  saturating totals); \<open>json\<close> is the specification, the text \<open>serde_json\<close> writes. How \<open>serde_json\<close>
  prints a float is the argument \<open>ft\<close>.
\<close>

subsection \<open>The data model\<close>

datatype 'f sval =
    VBool bool
  | VI8 "8 word" | VI16 "16 word" | VI32 "32 word" | VI64 "64 word" | VI128 "128 word"
  | VU8 "8 word" | VU16 "16 word" | VU32 "32 word" | VU64 "64 word" | VU128 "128 word"
  | VFloat 'f
  | VChar uchar
  | VStr ustring
  | VBytes "byte list"
  | VNone
  | VSome "'f sval"
  | VUnit
  | VUnitStruct
  | VUnitVariant ustring
  | VNewtypeStruct ustring "'f sval"
  | VNewtypeVariant ustring "'f sval"
  | VSeq "'f sval list"
  | VTuple "'f sval list"
  | VTupleStruct "'f sval list"
  | VTupleVariant ustring "'f sval list"
  | VMap "('f sval \<times> 'f sval) list"
  | VStruct ustring "(ustring \<times> 'f sval) list"
  | VStructVariant ustring "(ustring \<times> 'f sval) list"
  | VDisplay "ustring list" bool
  | VCustomError

text \<open>
  \<open>VDisplay\<close> is \<open>collect_str\<close>: the fragments the formatter wrote and whether it succeeded.
  \<open>VCustomError\<close> is a \<open>Serialize\<close> implementation that fails.
\<close>

subsection \<open>Lengths of strings and numbers\<close>

definition SERDE_JSON_PRIVATE :: ustring where
  "SERDE_JSON_PRIVATE = lit ''$serde_json::private::''"

definition is_private :: "ustring \<Rightarrow> bool" where
  "is_private name \<longleftrightarrow> take (length SERDE_JSON_PRIVATE) name = SERDE_JSON_PRIVATE"

definition escape_extra :: "byte \<Rightarrow> byte" where
  "escape_extra b =
     (let control = of_bool (b < 0x20);
          short = of_bool (b - 8 < 6) AND of_bool (b \<noteq> 11);
          marked = of_bool (b = 0x22) OR of_bool (b = 0x5c)
      in control * 5 - short * 4 + marked)"

definition EXTRA :: "byte list" where
  "EXTRA = map (\<lambda>n. escape_extra (of_nat n)) [0 ..< 256]"

definition SHORT_STRING :: usize where
  "SHORT_STRING = 32"

definition table_extra :: "byte list \<Rightarrow> usize" where
  "table_extra bytes = sum_list (map (\<lambda>b. unat (EXTRA ! unat b)) bytes)"

definition block_sum :: "byte list \<Rightarrow> byte" where
  "block_sum block = foldl (\<lambda>s b. s + escape_extra b) 0 block"

text \<open>The \<open>u128\<close> sum is a natural number: \<open>escaped_len_bound\<close> shows that it does not overflow.\<close>

definition escaped_len :: "ustring \<Rightarrow> nat" where
  "escaped_len s =
     (let (blocks, remainder) = as_chunks 32 (utf8 s);
          extra = foldl (\<lambda>e block. e + unat (block_sum block)) 0 blocks
      in str_len s + extra + table_extra remainder)"

text \<open>\<open>checked_ilog10\<close> of the standard library, for a positive argument.\<close>

fun ilog10 :: "nat \<Rightarrow> nat" where
  "ilog10 n = (if n < 10 then 0 else Suc (ilog10 (n div 10)))"

declare ilog10.simps [simp del]

definition checked_ilog10 :: "nat \<Rightarrow> nat option" where
  "checked_ilog10 n = (if n = 0 then None else Some (ilog10 n))"

definition digits :: "64 word \<Rightarrow> usize" where
  "digits v = (case checked_ilog10 (unat v) of None \<Rightarrow> 1 | Some l \<Rightarrow> l + 1)"

definition unsigned_abs :: "'a :: len word \<Rightarrow> 'a word" where
  "unsigned_abs v = of_int \<bar>sint v\<bar>"

definition signed_digits :: "64 word \<Rightarrow> usize" where
  "signed_digits v = digits (unsigned_abs v) + of_bool (sint v < 0)"

definition digits_wide :: "128 word \<Rightarrow> usize" where
  "digits_wide v = (case checked_ilog10 (unat v) of None \<Rightarrow> 1 | Some l \<Rightarrow> l + 1)"

definition float_len :: "('f \<Rightarrow> byte list option) \<Rightarrow> 'f \<Rightarrow> usize option" where
  "float_len ft v = map_option (\<lambda>t. min (length t) usize_MAX) (ft v)"

subsection \<open>The counter\<close>

definition add_wide :: "usize \<Rightarrow> nat \<Rightarrow> usize" where
  "add_wide n bytes = sat_add n (if bytes \<le> usize_MAX then bytes else usize_MAX)"

definition add_quoted :: "usize \<Rightarrow> ustring \<Rightarrow> usize" where
  "add_quoted n s =
     (if str_len s < SHORT_STRING then sat_add n (str_len s + 2 + table_extra (utf8 s))
      else add_wide n (escaped_len s + 2))"

definition separator :: "usize \<Rightarrow> bool \<Rightarrow> usize" where
  "separator n first = sat_add n (of_bool (\<not> first))"

definition count_i64 :: "64 word \<Rightarrow> usize" where
  "count_i64 v = signed_digits v"

definition count_i128 :: "128 word \<Rightarrow> usize" where
  "count_i128 v = digits_wide (unsigned_abs v) + of_bool (sint v < 0)"

fun ser_bytes :: "usize \<Rightarrow> bool \<Rightarrow> byte list \<Rightarrow> usize" where
  "ser_bytes n first [] = n"
| "ser_bytes n first (b # bs) = ser_bytes (sat_add (separator n first) (digits (ucast b))) False bs"

definition collect_fragments :: "usize \<Rightarrow> ustring list \<Rightarrow> usize" where
  "collect_fragments n fragments = foldl (\<lambda>n f. add_wide n (escaped_len f)) n fragments"

definition collect_str :: "usize \<Rightarrow> ustring list \<Rightarrow> bool \<Rightarrow> usize option" where
  "collect_str n fragments ok =
     (if ok then Some (collect_fragments (sat_add n 2) fragments) else None)"

definition key_quoted :: "usize \<Rightarrow> usize \<Rightarrow> usize option" where
  "key_quoted n unquoted = Some (sat_add n (unquoted + 2))"

text \<open>\<open>KeySizer\<close>: every method it does not count is \<open>None\<close>.\<close>

fun ser_key :: "usize \<Rightarrow> 'f sval \<Rightarrow> usize option" where
  "ser_key n (VBool b) = key_quoted n (if b then 4 else 5)"
| "ser_key n (VI8 v) = key_quoted n (count_i64 (scast v))"
| "ser_key n (VI16 v) = key_quoted n (count_i64 (scast v))"
| "ser_key n (VI32 v) = key_quoted n (count_i64 (scast v))"
| "ser_key n (VI64 v) = key_quoted n (count_i64 v)"
| "ser_key n (VI128 v) = key_quoted n (count_i128 v)"
| "ser_key n (VU8 v) = key_quoted n (digits (ucast v))"
| "ser_key n (VU16 v) = key_quoted n (digits (ucast v))"
| "ser_key n (VU32 v) = key_quoted n (digits (ucast v))"
| "ser_key n (VU64 v) = key_quoted n (digits v)"
| "ser_key n (VU128 v) = key_quoted n (digits_wide v)"
| "ser_key n (VChar c) = Some (add_quoted n [c])"
| "ser_key n (VStr s) = Some (add_quoted n s)"
| "ser_key n (VUnitVariant s) = Some (add_quoted n s)"
| "ser_key n (VNewtypeStruct name v) = (if is_private name then None else ser_key n v)"
| "ser_key n (VDisplay fs ok) = collect_str n fs ok"
| "ser_key n _ = None"

text \<open>\<open>Sizer\<close> and \<open>Compound\<close>: the count so far is threaded through, \<open>None\<close> is \<open>Unsupported\<close>.\<close>

fun ser :: "('f \<Rightarrow> byte list option) \<Rightarrow> usize \<Rightarrow> 'f sval \<Rightarrow> usize option"
  and ser_elems :: "('f \<Rightarrow> byte list option) \<Rightarrow> usize \<Rightarrow> bool \<Rightarrow> 'f sval list \<Rightarrow> usize option"
  and ser_fields ::
    "('f \<Rightarrow> byte list option) \<Rightarrow> usize \<Rightarrow> bool \<Rightarrow> (ustring \<times> 'f sval) list \<Rightarrow> usize option"
  and ser_entries ::
    "('f \<Rightarrow> byte list option) \<Rightarrow> usize \<Rightarrow> bool \<Rightarrow> ('f sval \<times> 'f sval) list \<Rightarrow> usize option"
where
  "ser ft n (VBool b) = Some (sat_add n (if b then 4 else 5))"
| "ser ft n (VI8 v) = Some (sat_add n (count_i64 (scast v)))"
| "ser ft n (VI16 v) = Some (sat_add n (count_i64 (scast v)))"
| "ser ft n (VI32 v) = Some (sat_add n (count_i64 (scast v)))"
| "ser ft n (VI64 v) = Some (sat_add n (count_i64 v))"
| "ser ft n (VI128 v) = Some (sat_add n (count_i128 v))"
| "ser ft n (VU8 v) = Some (sat_add n (digits (ucast v)))"
| "ser ft n (VU16 v) = Some (sat_add n (digits (ucast v)))"
| "ser ft n (VU32 v) = Some (sat_add n (digits (ucast v)))"
| "ser ft n (VU64 v) = Some (sat_add n (digits v))"
| "ser ft n (VU128 v) = Some (sat_add n (digits_wide v))"
| "ser ft n (VFloat f) = map_option (sat_add n) (float_len ft f)"
| "ser ft n (VChar c) = Some (add_quoted n [c])"
| "ser ft n (VStr s) = Some (add_quoted n s)"
| "ser ft n (VBytes bs) = Some (sat_add (ser_bytes (sat_add n 1) True bs) 1)"
| "ser ft n VNone = Some (sat_add n 4)"
| "ser ft n (VSome v) = ser ft n v"
| "ser ft n VUnit = Some (sat_add n 4)"
| "ser ft n VUnitStruct = Some (sat_add n 4)"
| "ser ft n (VUnitVariant s) = Some (add_quoted n s)"
| "ser ft n (VNewtypeStruct name v) = (if is_private name then None else ser ft n v)"
| "ser ft n (VNewtypeVariant s v) =
     map_option (\<lambda>n. sat_add n 1) (ser ft (sat_add (add_quoted n s) 2) v)"
| "ser ft n (VSeq vs) = map_option (\<lambda>n. sat_add n 1) (ser_elems ft (sat_add n 1) True vs)"
| "ser ft n (VTuple vs) = map_option (\<lambda>n. sat_add n 1) (ser_elems ft (sat_add n 1) True vs)"
| "ser ft n (VTupleStruct vs) = map_option (\<lambda>n. sat_add n 1) (ser_elems ft (sat_add n 1) True vs)"
| "ser ft n (VTupleVariant s vs) =
     map_option (\<lambda>n. sat_add n 2) (ser_elems ft (sat_add (add_quoted n s) 3) True vs)"
| "ser ft n (VMap kvs) = map_option (\<lambda>n. sat_add n 1) (ser_entries ft (sat_add n 1) True kvs)"
| "ser ft n (VStruct name fs) =
     (if is_private name then None
      else map_option (\<lambda>n. sat_add n 1) (ser_fields ft (sat_add n 1) True fs))"
| "ser ft n (VStructVariant s fs) =
     map_option (\<lambda>n. sat_add n 2) (ser_fields ft (sat_add (add_quoted n s) 3) True fs)"
| "ser ft n (VDisplay fs ok) = collect_str n fs ok"
| "ser ft n VCustomError = None"
| "ser_elems ft n first [] = Some n"
| "ser_elems ft n first (v # vs) =
     (case ser ft (separator n first) v of
        None \<Rightarrow> None
      | Some n \<Rightarrow> ser_elems ft n False vs)"
| "ser_fields ft n first [] = Some n"
| "ser_fields ft n first ((key, v) # fs) =
     (case ser ft (sat_add (add_quoted (separator n first) key) 1) v of
        None \<Rightarrow> None
      | Some n \<Rightarrow> ser_fields ft n False fs)"
| "ser_entries ft n first [] = Some n"
| "ser_entries ft n first ((k, v) # kvs) =
     (case ser_key (separator n first) k of
        None \<Rightarrow> None
      | Some n \<Rightarrow>
          (case ser ft (sat_add n 1) v of
             None \<Rightarrow> None
           | Some n \<Rightarrow> ser_entries ft n False kvs))"

definition count_from :: "('f \<Rightarrow> byte list option) \<Rightarrow> usize \<Rightarrow> 'f sval \<Rightarrow> usize option" where
  "count_from ft already v =
     (case ser ft already v of
        None \<Rightarrow> None
      | Some n \<Rightarrow> if n = usize_MAX then None else Some n)"

definition serialized_len :: "('f \<Rightarrow> byte list option) \<Rightarrow> 'f sval \<Rightarrow> usize option" where
  "serialized_len ft v = count_from ft 0 v"

subsection \<open>The specification: the JSON text\<close>

definition hex_digit :: "nat \<Rightarrow> byte" where
  "hex_digit d = of_nat (if d < 10 then 0x30 + d else 0x57 + d)"

definition escape_byte :: "byte \<Rightarrow> byte list" where
  "escape_byte b =
     (if b = 0x22 then [0x5c, 0x22] else if b = 0x5c then [0x5c, 0x5c]
      else if b = 8 then [0x5c, 0x62] else if b = 9 then [0x5c, 0x74]
      else if b = 10 then [0x5c, 0x6e] else if b = 12 then [0x5c, 0x66]
      else if b = 13 then [0x5c, 0x72]
      else if b < 0x20 then
        [0x5c, 0x75, 0x30, 0x30, hex_digit (unat b div 16), hex_digit (unat b mod 16)]
      else [b])"

definition escaped :: "ustring \<Rightarrow> byte list" where
  "escaped s = concat (map escape_byte (utf8 s))"

definition quoted :: "byte list \<Rightarrow> byte list" where
  "quoted t = [0x22] @ t @ [0x22]"

definition json_nat :: "nat \<Rightarrow> byte list" where
  "json_nat n = map of_nat (dec n)"

definition json_int :: "int \<Rightarrow> byte list" where
  "json_int i = (if i < 0 then 0x2d # json_nat (nat (- i)) else json_nat (nat i))"

definition json_bool :: "bool \<Rightarrow> byte list" where
  "json_bool b = utf8 (lit (if b then ''true'' else ''false''))"

definition json_null :: "byte list" where
  "json_null = utf8 (lit ''null'')"

definition comma :: "bool \<Rightarrow> byte list" where
  "comma first = (if first then [] else [0x2c])"

fun json_bytes :: "bool \<Rightarrow> byte list \<Rightarrow> byte list" where
  "json_bytes first [] = []"
| "json_bytes first (b # bs) = comma first @ json_nat (unat b) @ json_bytes False bs"

definition tagged :: "ustring \<Rightarrow> byte list \<Rightarrow> byte list" where
  "tagged variant t = [0x7b] @ quoted (escaped variant) @ [0x3a] @ t @ [0x7d]"

fun json_key :: "'f sval \<Rightarrow> byte list option" where
  "json_key (VBool b) = Some (quoted (json_bool b))"
| "json_key (VI8 v) = Some (quoted (json_int (sint v)))"
| "json_key (VI16 v) = Some (quoted (json_int (sint v)))"
| "json_key (VI32 v) = Some (quoted (json_int (sint v)))"
| "json_key (VI64 v) = Some (quoted (json_int (sint v)))"
| "json_key (VI128 v) = Some (quoted (json_int (sint v)))"
| "json_key (VU8 v) = Some (quoted (json_nat (unat v)))"
| "json_key (VU16 v) = Some (quoted (json_nat (unat v)))"
| "json_key (VU32 v) = Some (quoted (json_nat (unat v)))"
| "json_key (VU64 v) = Some (quoted (json_nat (unat v)))"
| "json_key (VU128 v) = Some (quoted (json_nat (unat v)))"
| "json_key (VChar c) = Some (quoted (escaped [c]))"
| "json_key (VStr s) = Some (quoted (escaped s))"
| "json_key (VUnitVariant s) = Some (quoted (escaped s))"
| "json_key (VNewtypeStruct name v) = (if is_private name then None else json_key v)"
| "json_key (VDisplay fs ok) = (if ok then Some (quoted (escaped (concat fs))) else None)"
| "json_key _ = None"

fun json :: "('f \<Rightarrow> byte list option) \<Rightarrow> 'f sval \<Rightarrow> byte list option"
  and json_elems :: "('f \<Rightarrow> byte list option) \<Rightarrow> bool \<Rightarrow> 'f sval list \<Rightarrow> byte list option"
  and json_fields ::
    "('f \<Rightarrow> byte list option) \<Rightarrow> bool \<Rightarrow> (ustring \<times> 'f sval) list \<Rightarrow> byte list option"
  and json_entries ::
    "('f \<Rightarrow> byte list option) \<Rightarrow> bool \<Rightarrow> ('f sval \<times> 'f sval) list \<Rightarrow> byte list option"
where
  "json ft (VBool b) = Some (json_bool b)"
| "json ft (VI8 v) = Some (json_int (sint v))"
| "json ft (VI16 v) = Some (json_int (sint v))"
| "json ft (VI32 v) = Some (json_int (sint v))"
| "json ft (VI64 v) = Some (json_int (sint v))"
| "json ft (VI128 v) = Some (json_int (sint v))"
| "json ft (VU8 v) = Some (json_nat (unat v))"
| "json ft (VU16 v) = Some (json_nat (unat v))"
| "json ft (VU32 v) = Some (json_nat (unat v))"
| "json ft (VU64 v) = Some (json_nat (unat v))"
| "json ft (VU128 v) = Some (json_nat (unat v))"
| "json ft (VFloat f) = ft f"
| "json ft (VChar c) = Some (quoted (escaped [c]))"
| "json ft (VStr s) = Some (quoted (escaped s))"
| "json ft (VBytes bs) = Some ([0x5b] @ json_bytes True bs @ [0x5d])"
| "json ft VNone = Some json_null"
| "json ft (VSome v) = json ft v"
| "json ft VUnit = Some json_null"
| "json ft VUnitStruct = Some json_null"
| "json ft (VUnitVariant s) = Some (quoted (escaped s))"
| "json ft (VNewtypeStruct name v) = (if is_private name then None else json ft v)"
| "json ft (VNewtypeVariant s v) = map_option (tagged s) (json ft v)"
| "json ft (VSeq vs) = map_option (\<lambda>t. [0x5b] @ t @ [0x5d]) (json_elems ft True vs)"
| "json ft (VTuple vs) = map_option (\<lambda>t. [0x5b] @ t @ [0x5d]) (json_elems ft True vs)"
| "json ft (VTupleStruct vs) = map_option (\<lambda>t. [0x5b] @ t @ [0x5d]) (json_elems ft True vs)"
| "json ft (VTupleVariant s vs) =
     map_option (\<lambda>t. tagged s ([0x5b] @ t @ [0x5d])) (json_elems ft True vs)"
| "json ft (VMap kvs) = map_option (\<lambda>t. [0x7b] @ t @ [0x7d]) (json_entries ft True kvs)"
| "json ft (VStruct name fs) =
     (if is_private name then None
      else map_option (\<lambda>t. [0x7b] @ t @ [0x7d]) (json_fields ft True fs))"
| "json ft (VStructVariant s fs) =
     map_option (\<lambda>t. tagged s ([0x7b] @ t @ [0x7d])) (json_fields ft True fs)"
| "json ft (VDisplay fs ok) = (if ok then Some (quoted (escaped (concat fs))) else None)"
| "json ft VCustomError = None"
| "json_elems ft first [] = Some []"
| "json_elems ft first (v # vs) =
     (case json ft v of None \<Rightarrow> None
      | Some t \<Rightarrow> map_option (\<lambda>ts. comma first @ t @ ts) (json_elems ft False vs))"
| "json_fields ft first [] = Some []"
| "json_fields ft first ((key, v) # fs) =
     (case json ft v of None \<Rightarrow> None
      | Some t \<Rightarrow>
          map_option (\<lambda>ts. comma first @ quoted (escaped key) @ [0x3a] @ t @ ts) (json_fields ft False fs))"
| "json_entries ft first [] = Some []"
| "json_entries ft first ((k, v) # kvs) =
     (case json_key k of None \<Rightarrow> None
      | Some q \<Rightarrow>
          (case json ft v of None \<Rightarrow> None
           | Some t \<Rightarrow>
               map_option (\<lambda>ts. comma first @ q @ [0x3a] @ t @ ts) (json_entries ft False kvs)))"

subsection \<open>Escapes\<close>

lemma unat_of_bool_word [simp]: "unat (of_bool P :: 'a :: len word) = of_bool P"
  by (cases P) simp_all

lemma short_range: "(b - 8 :: byte) < 6 \<longleftrightarrow> 8 \<le> unat b \<and> unat b < 14"
proof (cases "8 \<le> b")
  case True
  then have "unat (b - 8) = unat b - 8" by (simp add: unat_sub)
  with True show ?thesis by (auto simp: word_less_nat_alt word_le_nat_alt)
next
  case False
  then have "unat b < 8" by (simp add: word_less_nat_alt not_le)
  moreover from this have "unat (b - 8) = unat b + 248"
    by (simp add: unat_sub_if_size word_size)
  ultimately show ?thesis by (simp add: word_less_nat_alt)
qed

lemma of_bool_bits [simp]:
  "(of_bool P AND of_bool Q :: byte) = of_bool (P \<and> Q)"
  "(of_bool P OR of_bool Q :: byte) = of_bool (P \<or> Q)"
  by (cases P; cases Q; simp)+

lemma short_escapes:
  "(8 \<le> unat b \<and> unat b < 14 \<and> b \<noteq> 11) \<longleftrightarrow> b \<in> {8, 9, 10, 12, 13 :: byte}"
  by (auto simp: word_unat_eq_iff)

lemma escape_extra_cases:
  "escape_extra b =
    (if b = 0x22 \<or> b = 0x5c \<or> b \<in> {8, 9, 10, 12, 13} then 1 else if b < 0x20 then 5 else 0)"
proof -
  have "escape_extra b = of_bool (b < 0x20) * 5 - of_bool (b \<in> {8, 9, 10, 12, 13}) * 4 +
      of_bool (b = 0x22 \<or> b = 0x5c)"
    unfolding escape_extra_def Let_def of_bool_bits short_range by (subst short_escapes [symmetric]) simp
  then show ?thesis by (auto simp: word_less_nat_alt)
qed

lemma escape_byte_length: "length (escape_byte b) = Suc (unat (escape_extra b))"
  by (auto simp: escape_byte_def escape_extra_cases)

lemma escape_extra_le: "unat (escape_extra b) \<le> 5"
  by (simp add: escape_extra_cases)

lemma EXTRA_nth: "EXTRA ! unat b = escape_extra b"
proof -
  have "unat b < 256" using unsigned_less [of b] by simp
  then show ?thesis by (simp add: EXTRA_def del: upt_Suc)
qed

abbreviation extra_sum :: "byte list \<Rightarrow> nat" where
  "extra_sum bs \<equiv> sum_list (map (\<lambda>b. unat (escape_extra b)) bs)"

lemma table_extra_eq: "table_extra bs = extra_sum bs"
  by (simp add: table_extra_def EXTRA_nth)

lemma extra_sum_le: "extra_sum bs \<le> 5 * length bs"
proof (induction bs)
  case (Cons b bs)
  then show ?case using escape_extra_le [of b] by simp
qed simp

text \<open>The 8-bit sum of a block of at most 51 bytes does not wrap; blocks have 32.\<close>

lemma block_sum_eq:
  assumes "length bs \<le> 51"
  shows "unat (block_sum bs) = extra_sum bs"
proof -
  have "foldl (\<lambda>s b. s + escape_extra b) a bs = a + of_nat (extra_sum bs)" for a :: byte and bs
    by (induction bs arbitrary: a) simp_all
  then have "block_sum bs = of_nat (extra_sum bs)" by (simp add: block_sum_def)
  moreover have "extra_sum bs < 256" using extra_sum_le [of bs] assms by simp
  ultimately show ?thesis by (simp add: unat_byte)
qed

lemma blocks_sum_eq:
  assumes "list_all (\<lambda>b. length b = 32) blocks"
  shows "foldl (\<lambda>e block. e + unat (block_sum block)) e blocks = e + extra_sum (concat blocks)"
  using assms by (induction blocks arbitrary: e) (simp_all add: block_sum_eq)

lemma length_concat_escape: "length (concat (map escape_byte bs)) = length bs + extra_sum bs"
  by (induction bs) (simp_all add: escape_byte_length)

lemma escaped_len_eq: "escaped_len s = length (escaped s)"
proof -
  obtain blocks r where c: "as_chunks 32 (utf8 s) = (blocks, r)" by (cases "as_chunks 32 (utf8 s)")
  then have "list_all (\<lambda>b. length b = 32) blocks" "concat blocks @ r = utf8 s"
    using as_chunks_lengths [of 32 "utf8 s"] as_chunks_concat [of 32 "utf8 s"] by simp_all
  moreover from this(2) have "extra_sum (utf8 s) = extra_sum (concat blocks) + extra_sum r"
    by (metis map_append sum_list_append)
  ultimately show ?thesis
    using c by (simp add: escaped_len_def blocks_sum_eq table_extra_eq escaped_def length_concat_escape)
qed

lemma escaped_len_bound: "escaped_len s \<le> 6 * str_len s"
  using extra_sum_le [of "utf8 s"] by (simp add: escaped_len_eq escaped_def length_concat_escape)

lemma escaped_append: "escaped (s @ t) = escaped s @ escaped t"
  by (simp add: escaped_def utf8_append)

lemma length_quoted [simp]: "length (quoted t) = length t + 2"
  by (simp add: quoted_def)

lemma sat_add_assoc [simp]: "sat_add (sat_add n a) b = sat_add n (a + b)"
  by (simp add: sat_add_def)

lemma sat_add_0: "n \<le> usize_MAX \<Longrightarrow> sat_add n 0 = n"
  by (simp add: sat_add_def)

lemma sat_add_min: "sat_add n (min k usize_MAX) = sat_add n k"
  by (simp add: sat_add_def)

lemma add_wide_eq: "add_wide n k = sat_add n k"
  by (simp add: add_wide_def sat_add_def)

lemma add_quoted_eq: "add_quoted n s = sat_add n (length (quoted (escaped s)))"
  using escaped_len_eq [of s]
  by (simp add: add_quoted_def add_wide_eq table_extra_eq escaped_def length_concat_escape)

subsection \<open>Digits\<close>

lemma length_dec: "length (dec n) = Suc (ilog10 n)"
  by (induction n rule: dec.induct) (simp add: dec.simps ilog10.simps)

lemma digits_eq: "digits v = length (json_nat (unat v))"
  by (simp add: digits_def checked_ilog10_def json_nat_def length_dec ilog10.simps [of 0])

lemma digits_wide_eq: "digits_wide v = length (json_nat (unat v))"
  by (simp add: digits_wide_def checked_ilog10_def json_nat_def length_dec ilog10.simps [of 0])

lemma sint_abs_lt: "\<bar>sint (v :: 'a :: len word)\<bar> < 2 ^ LENGTH('a)"
proof -
  have "sint v < 2 ^ (LENGTH('a) - 1)" "- (2 ^ (LENGTH('a) - 1)) \<le> sint v"
    by (rule sint_lt, rule sint_ge)
  moreover have "(2 :: int) ^ (LENGTH('a) - 1) < 2 ^ LENGTH('a)" by simp
  ultimately show ?thesis by linarith
qed

lemma unat_unsigned_abs: "unat (unsigned_abs (v :: 'a :: len word)) = nat \<bar>sint v\<bar>"
  using sint_abs_lt [of v] by (simp add: unsigned_abs_def unat_eq_nat_uint uint_word_of_int)

lemma unat_up_ucast:
  "is_up (ucast :: 'a :: len word \<Rightarrow> 'b :: len word) \<Longrightarrow> unat (ucast (a :: 'a word) :: 'b word) = unat a"
  unfolding unat_eq_nat_uint by (simp only: uint_up_ucast)

lemma widenings [simp]:
  "unat (ucast (a :: 8 word) :: 64 word) = unat a" "unat (ucast (b :: 16 word) :: 64 word) = unat b"
  "unat (ucast (c :: 32 word) :: 64 word) = unat c"
  "sint (scast (a :: 8 word) :: 64 word) = sint a" "sint (scast (b :: 16 word) :: 64 word) = sint b"
  "sint (scast (c :: 32 word) :: 64 word) = sint c"
  by (rule unat_up_ucast sint_up_scast, simp add: is_up)+

lemma count_i64_eq: "count_i64 v = length (json_int (sint v))"
  by (simp add: count_i64_def signed_digits_def digits_eq unat_unsigned_abs json_int_def)

lemma count_i128_eq: "count_i128 v = length (json_int (sint v))"
  by (simp add: count_i128_def digits_wide_eq unat_unsigned_abs json_int_def)

subsection \<open>The counter computes the length of the text\<close>

lemma length_tokens [simp]:
  "length (json_bool b) = (if b then 4 else 5)" "length json_null = 4"
  "length (comma first) = of_bool (\<not> first)"
  "length (tagged s t) = Suc (Suc (Suc (length (quoted (escaped s)) + length t)))"
  by (simp_all add: json_bool_def json_null_def comma_def tagged_def utf8_ascii lit_def)

lemma separator_le [simp]: "separator n first \<le> usize_MAX"
  by (simp add: separator_def)

lemmas count_eqs = count_i64_eq count_i128_eq digits_eq digits_wide_eq add_quoted_eq key_quoted_def

lemma collect_fragments_eq:
  "n \<le> usize_MAX \<Longrightarrow> collect_fragments n fs = sat_add n (length (escaped (concat fs)))"
proof (induction fs arbitrary: n)
  case Nil
  then show ?case by (simp add: collect_fragments_def escaped_def sat_add_0)
next
  case (Cons f fs)
  then show ?case
    using Cons.IH [of "sat_add n (length (escaped f))"]
    by (simp add: collect_fragments_def add_wide_eq escaped_len_eq escaped_append)
qed

lemma collect_str_eq:
  "n \<le> usize_MAX \<Longrightarrow> collect_str n fs ok =
    (if ok then Some (sat_add n (length (quoted (escaped (concat fs))))) else None)"
  by (simp add: collect_str_def collect_fragments_eq)

lemma ser_bytes_eq: "n \<le> usize_MAX \<Longrightarrow> ser_bytes n first bs = sat_add n (length (json_bytes first bs))"
  by (induction n first bs rule: ser_bytes.induct)
    (simp_all add: sat_add_0 digits_eq separator_def add_ac)

lemma ser_key_eq:
  "n \<le> usize_MAX \<Longrightarrow> ser_key n k = map_option (\<lambda>t. sat_add n (length t)) (json_key k)"
  by (induction n k rule: ser_key.induct) (simp_all add: count_eqs collect_str_eq)

lemma ser_eq:
  fixes ft :: "'f \<Rightarrow> byte list option"
  shows "n \<le> usize_MAX \<Longrightarrow> ser ft n v = map_option (\<lambda>t. sat_add n (length t)) (json ft v)"
    and "n \<le> usize_MAX \<Longrightarrow>
      ser_elems ft n first vs = map_option (\<lambda>t. sat_add n (length t)) (json_elems ft first vs)"
    and "n \<le> usize_MAX \<Longrightarrow>
      ser_fields ft n first fs = map_option (\<lambda>t. sat_add n (length t)) (json_fields ft first fs)"
    and "n \<le> usize_MAX \<Longrightarrow>
      ser_entries ft n first kvs = map_option (\<lambda>t. sat_add n (length t)) (json_entries ft first kvs)"
proof (induction ft n v and ft n first vs and ft n first fs and ft n first kvs
    rule: ser_ser_elems_ser_fields_ser_entries.induct)
  case (33 ft n first v vs)
  show ?case
  proof (cases "json ft v")
    case None
    with "33.IH"(1) show ?thesis by simp
  next
    case (Some t)
    with "33.IH"(1) have v: "ser ft (separator n first) v = Some (sat_add n (of_bool (\<not> first) + length t))"
      by (simp add: separator_def)
    from "33.IH"(2) [OF v] Some v show ?thesis by (simp add: option.map_comp comp_def add_ac)
  qed
next
  case (35 ft n first key v fs)
  let ?n = "sat_add (add_quoted (separator n first) key) 1"
  show ?case
  proof (cases "json ft v")
    case None
    with "35.IH"(1) show ?thesis by simp
  next
    case (Some t)
    with "35.IH"(1) have v: "ser ft ?n v =
        Some (sat_add n (of_bool (\<not> first) + length (quoted (escaped key)) + 1 + length t))"
      by (simp add: separator_def add_quoted_eq add_ac)
    from "35.IH"(2) [OF v] Some v show ?thesis by (simp add: option.map_comp comp_def add_ac)
  qed
next
  case (37 ft n first k v kvs)
  show ?case
  proof (cases "json_key k")
    case None
    then show ?thesis by (simp add: ser_key_eq)
  next
    case (Some q)
    then have k: "ser_key (separator n first) k = Some (sat_add n (of_bool (\<not> first) + length q))"
      by (simp add: ser_key_eq separator_def)
    show ?thesis
    proof (cases "json ft v")
      case None
      with "37.IH"(1) [OF k] k Some show ?thesis by simp
    next
      case (Some t)
      with "37.IH"(1) [OF k] have v: "ser ft (sat_add (sat_add n (of_bool (\<not> first) + length q)) 1) v =
          Some (sat_add n (of_bool (\<not> first) + length q + 1 + length t))"
        by (simp add: add_ac)
      from "37.IH"(2) [OF k v] Some v k \<open>json_key k = Some q\<close> show ?thesis
        by (simp add: option.map_comp comp_def add_ac)
    qed
  qed
qed (simp_all add: count_eqs collect_str_eq ser_bytes_eq float_len_def sat_add_min sat_add_0
    option.map_comp comp_def add_ac eval_nat_numeral)

text \<open>C29: the count is exact or refused. \<open>serialized_len\<close> answers a number exactly when the value has
  a JSON text shorter than \<open>usize::MAX\<close>, and the number is the length of that text: the 8-bit sums of
  a block never wrap, a count that saturates is never mistaken for a small one, and what the counter
  cannot add up (a float key, a private marker type, a failing value) is refused, not guessed.\<close>

theorem serialized_len_exact:
  "serialized_len ft v = Some n \<longleftrightarrow> (\<exists>t. json ft v = Some t \<and> n = length t \<and> length t < usize_MAX)"
proof -
  have "ser ft 0 v = map_option (\<lambda>t. min (length t) usize_MAX) (json ft v)"
    using ser_eq(1) [of 0 ft v] by (simp add: sat_add_def)
  then show ?thesis
    by (cases "json ft v") (auto simp: serialized_len_def count_from_def min_def)
qed

subsection \<open>The size an event is budgeted at\<close>

text \<open>
  \<open>serialize e\<close> is what the event's \<open>Serialize\<close> hands over, \<open>writer e\<close> the bytes \<open>serde_json::to_writer\<close>
  passes to the counting writer, \<open>None\<close> when it fails.
\<close>

definition serde_json_len :: "('e \<Rightarrow> byte list option) \<Rightarrow> 'e \<Rightarrow> usize result" where
  "serde_json_len writer e =
     (case writer e of
        Some t \<Rightarrow> Ok (min (length t) usize_MAX)
      | None \<Rightarrow> Err (Protocol (lit ''a serializable normalized event'') (lit ''serialization failure'')))"

definition payload_bytes ::
  "('f \<Rightarrow> byte list option) \<Rightarrow> ('e \<Rightarrow> 'f sval) \<Rightarrow> ('e \<Rightarrow> byte list option) \<Rightarrow> 'e \<Rightarrow> usize result" where
  "payload_bytes ft serialize writer e =
     (case serialized_len ft (serialize e) of
        None \<Rightarrow> serde_json_len writer e
      | Some n \<Rightarrow> Ok n)"

text \<open>The fast count and the slow one agree. If \<open>serde_json\<close> writes the specified JSON for every
  value that has one, \<open>payload_bytes\<close> is the saturating length of what it writes for every event,
  and fails exactly when it fails; whether the fast path took the value never shows.\<close>

theorem payload_bytes_agrees:
  assumes "\<And>t. json ft (serialize e) = Some t \<Longrightarrow> writer e = Some t"
  shows "payload_bytes ft serialize writer e = serde_json_len writer e"
proof (cases "serialized_len ft (serialize e)")
  case None
  then show ?thesis by (simp add: payload_bytes_def)
next
  case (Some n)
  then obtain t where "json ft (serialize e) = Some t" "n = length t" "length t < usize_MAX"
    by (auto simp: serialized_len_exact)
  with assms Some show ?thesis by (simp add: payload_bytes_def serde_json_len_def)
qed

definition demo_value :: "nat sval" where
  "demo_value =
     VStruct (lit ''Event'')
       [(lit ''text'', VStr (lit ''a'' @ [10, 0x22, 0x2014, 1])), (lit ''n'', VI64 (- 12)),
        (lit ''m'', VMap [(VU8 7, VSeq [VNone, VBool True])])]"

lemma payload_bytes_agrees_witness:
  "payload_bytes (\<lambda>_. None) (\<lambda>_. demo_value) (\<lambda>_. json (\<lambda>_. None) demo_value) () = Ok 55"
proof -
  have "payload_bytes (\<lambda>_. None) (\<lambda>_. demo_value) (\<lambda>_. json (\<lambda>_. None) demo_value) () =
      serde_json_len (\<lambda>_. json (\<lambda>_. None) demo_value) ()"
    by (rule payload_bytes_agrees) simp
  moreover have "map_option length (json (\<lambda>_. None) demo_value) = Some 55"
    by (simp add: demo_value_def is_private_def SERDE_JSON_PRIVATE_def lit_def quoted_def escaped_def
        utf8_Cons utf8_char_def utf8_nums_def escape_byte_def json_int_def json_nat_def dec.simps
        hex_digit_def comma_def json_null_def json_bool_def del: length_tokens length_quoted)
  ultimately show ?thesis by (auto simp: serde_json_len_def usize_MAX_def)
qed

end
