(* ===== verification/Outbox.thy ===== *)
theory Outbox imports Utf8 Errors begin

text \<open>
  The queue every outgoing JSON-RPC frame passes through (\<open>jsonrpc/outbox.rs\<close>): admission under the
  host's bounds, the phase word a caller and the writer race on, the share of the budget a frame
  holds until it is dropped, and the turns of callers that write for themselves. The shared cells
  (\<open>Arc<FrameCtl>\<close>) live in a store indexed by the order of their creation, so aliasing between the
  queue and a caller's ticket is explicit. The writer task is the step relation at the end: every
  step is one section under the lock, one atomic exchange, or one event of the link. Frames beside the
  budget and turns are counted by wrapping additions that nothing bounds; a step that would wrap one
  (\<open>usize_MAX\<close> of them alive at once) is left out.
\<close>

subsection \<open>Options\<close>

record wire_options =
  max_outbound_frame_bytes :: usize
  max_outbound_queued_bytes :: usize
  max_outbound_queued_frames :: usize
  batch_decoding :: bool
  request_handoff :: bool
  parse_error_replies :: "usize option"
  invalid_request_replies :: "usize option"
  cancel_on_abandon :: "ustring option"

definition wire_options_default :: wire_options where
  "wire_options_default =
     \<lparr>max_outbound_frame_bytes = usize_MAX, max_outbound_queued_bytes = usize_MAX,
      max_outbound_queued_frames = usize_MAX, batch_decoding = False, request_handoff = False,
      parse_error_replies = None, invalid_request_replies = None, cancel_on_abandon = None\<rparr>"

definition with_max_outbound_frame_bytes :: "usize \<Rightarrow> wire_options \<Rightarrow> wire_options" where
  "with_max_outbound_frame_bytes n w = w\<lparr>max_outbound_frame_bytes := n\<rparr>"

definition with_max_outbound_queued_bytes :: "usize \<Rightarrow> wire_options \<Rightarrow> wire_options" where
  "with_max_outbound_queued_bytes n w = w\<lparr>max_outbound_queued_bytes := n\<rparr>"

definition with_max_outbound_queued_frames :: "usize \<Rightarrow> wire_options \<Rightarrow> wire_options" where
  "with_max_outbound_queued_frames n w = w\<lparr>max_outbound_queued_frames := n\<rparr>"

definition with_batch_decoding :: "wire_options \<Rightarrow> wire_options" where
  "with_batch_decoding w = w\<lparr>batch_decoding := True\<rparr>"

definition with_request_handoff :: "wire_options \<Rightarrow> wire_options" where
  "with_request_handoff w = w\<lparr>request_handoff := True\<rparr>"

definition with_parse_error_replies :: "usize \<Rightarrow> wire_options \<Rightarrow> wire_options" where
  "with_parse_error_replies n w = w\<lparr>parse_error_replies := Some n\<rparr>"

definition with_invalid_request_replies :: "usize \<Rightarrow> wire_options \<Rightarrow> wire_options" where
  "with_invalid_request_replies n w = w\<lparr>invalid_request_replies := Some n\<rparr>"

definition with_cancel_on_abandon :: "ustring \<Rightarrow> wire_options \<Rightarrow> wire_options" where
  "with_cancel_on_abandon m w = w\<lparr>cancel_on_abandon := Some m\<rparr>"

subsection \<open>Bounds and refusals\<close>

datatype outbound_bound = FrameBytes | QueuedBytes | QueuedFrames

fun bound_subject :: "outbound_bound \<Rightarrow> ustring" where
  "bound_subject FrameBytes = lit ''bytes of one outgoing JSON-RPC frame''"
| "bound_subject QueuedBytes = lit ''bytes of outgoing JSON-RPC frames awaiting their write''"
| "bound_subject QueuedFrames = lit ''outgoing JSON-RPC frames awaiting their write''"

definition bound_from_subject :: "ustring \<Rightarrow> outbound_bound option" where
  "bound_from_subject s = find (\<lambda>b. bound_subject b = s) [FrameBytes, QueuedBytes, QueuedFrames]"

definition exceeded_by :: "error \<Rightarrow> outbound_bound option" where
  "exceeded_by e =
     (case cause e of LimitExceeded subject _ _ \<Rightarrow> bound_from_subject subject | _ \<Rightarrow> None)"

datatype refused =
    FrameTooLarge usize usize
  | QueueFull ustring usize usize
  | NoRoomAtAll ustring usize usize
  | Sealed
  | Stopped

text \<open>
  What the caller is told. A full queue also ends the connection: \<open>outbound_overflow\<close> records the
  termination first; the error it returns is the one here.
\<close>

definition overflow_error :: "ustring \<Rightarrow> usize \<Rightarrow> usize \<Rightarrow> error" where
  "overflow_error subject limit received = with_dispatch (LimitExceeded subject limit received) NotSubmitted"

definition writer_stopped :: "ustring \<Rightarrow> error" where
  "writer_stopped peer = Link peer (lit ''a connection whose writer has stopped'')"

fun refused_error :: "ustring \<Rightarrow> refused \<Rightarrow> error" where
  "refused_error peer (FrameTooLarge limit received) =
     with_dispatch (LimitExceeded (bound_subject FrameBytes) limit received) NotSubmitted"
| "refused_error peer (QueueFull subject limit received) = overflow_error subject limit received"
| "refused_error peer (NoRoomAtAll subject limit received) =
     with_dispatch (LimitExceeded subject limit received) NotSubmitted"
| "refused_error peer Sealed = Closed (lit ''link'')"
| "refused_error peer Stopped = writer_stopped peer"

definition admission :: "wire_options \<Rightarrow> usize \<Rightarrow> usize \<Rightarrow> usize \<Rightarrow> refused + unit" where
  "admission w frames held_bytes bytes =
     (let frame_limit = min (max_outbound_frame_bytes w) (max_outbound_queued_bytes w)
      in if bytes > frame_limit then Inl (FrameTooLarge frame_limit bytes)
         else if max_outbound_queued_frames w = 0 then
           Inl (NoRoomAtAll (bound_subject QueuedFrames) 0 1)
         else
           let frames = sat_add frames 1
           in if frames > max_outbound_queued_frames w then
                Inl (QueueFull (bound_subject QueuedFrames) (max_outbound_queued_frames w) frames)
              else
                let held_bytes = sat_add held_bytes bytes
                in if held_bytes > max_outbound_queued_bytes w then
                     Inl (QueueFull (bound_subject QueuedBytes) (max_outbound_queued_bytes w) held_bytes)
                   else Inr ())"

subsection \<open>The phase word\<close>

type_synonym phase = "8 word"

definition QUEUED :: phase where "QUEUED = 0"
definition WRITING :: phase where "WRITING = 1"
definition FINISHED :: phase where "FINISHED = 2"
definition UNWRITTEN :: phase where "UNWRITTEN = 3"

record frame_ctl =
  fc_phase :: phase
  fc_bytes :: usize

text \<open>\<open>compare_exchange\<close>\<close>

definition cas :: "phase \<Rightarrow> phase \<Rightarrow> frame_ctl \<Rightarrow> frame_ctl \<times> bool" where
  "cas old new c = (if fc_phase c = old then (c\<lparr>fc_phase := new\<rparr>, True) else (c, False))"

definition ctl_begin :: "frame_ctl \<Rightarrow> frame_ctl \<times> bool" where
  "ctl_begin c = cas QUEUED WRITING c"

definition ctl_withdraw :: "frame_ctl \<Rightarrow> frame_ctl \<times> bool" where
  "ctl_withdraw c = cas QUEUED UNWRITTEN c"

definition ctl_queued :: "frame_ctl \<Rightarrow> bool" where
  "ctl_queued c \<longleftrightarrow> fc_phase c = QUEUED"

definition ctl_began :: "frame_ctl \<Rightarrow> bool" where
  "ctl_began c \<longleftrightarrow> fc_phase c = WRITING \<or> fc_phase c = FINISHED"

definition ctl_settle :: "frame_ctl \<Rightarrow> frame_ctl" where
  "ctl_settle c =
     (let (c', ok) = cas WRITING FINISHED c
      in if \<not> ok then fst (cas QUEUED UNWRITTEN c') else c')"

subsection \<open>The queue\<close>

record held =
  h_frames :: usize
  h_bytes :: usize
  h_aside :: usize
  h_turns :: usize
  h_queueing :: bool
  h_sealed :: bool
  h_direct :: usize

definition held_default :: held where
  "held_default =
     \<lparr>h_frames = 0, h_bytes = 0, h_aside = 0, h_turns = 0, h_queueing = False, h_sealed = False,
      h_direct = 0\<rparr>"

definition release :: "held \<Rightarrow> usize \<Rightarrow> held" where
  "release h bytes = h\<lparr>h_frames := h_frames h - 1, h_bytes := h_bytes h - bytes\<rparr>"

definition release_aside :: "held \<Rightarrow> held" where
  "release_aside h = h\<lparr>h_aside := h_aside h - 1\<rparr>"

text \<open>\<open>o_ctl\<close> is the index of the shared cell; \<open>o_call\<close> the id of the call a request asks.\<close>

record outgoing =
  o_frame :: ustring
  o_ctl :: nat
  o_deadline :: nat
  o_call :: "nat option"
  o_counted :: bool
  o_reply :: bool

datatype entry = FrameEntry outgoing | TurnEntry nat | BarrierEntry nat

record outbox =
  ob_limits :: wire_options
  ob_held :: held
  ob_queue :: "entry list"
  ob_writer_gone :: bool
  ob_ctls :: "frame_ctl list"
  ob_link_free :: bool

definition outbox_new :: "wire_options \<Rightarrow> outbox" where
  "outbox_new w =
     \<lparr>ob_limits = w, ob_held = held_default, ob_queue = [], ob_writer_gone = False, ob_ctls = [],
      ob_link_free = True\<rparr>"

definition update_ctl :: "nat \<Rightarrow> (frame_ctl \<Rightarrow> frame_ctl) \<Rightarrow> outbox \<Rightarrow> outbox" where
  "update_ctl i f ob = ob\<lparr>ob_ctls := (ob_ctls ob)[i := f (ob_ctls ob ! i)]\<rparr>"

text \<open>\<open>Drop for Outgoing\<close>\<close>

definition drop_outgoing :: "outgoing \<Rightarrow> outbox \<Rightarrow> outbox" where
  "drop_outgoing m ob =
     (let ob = update_ctl (o_ctl m) ctl_settle ob
      in if o_counted m
         then ob\<lparr>ob_held := release (ob_held ob) (fc_bytes (ob_ctls ob ! o_ctl m))\<rparr>
         else ob\<lparr>ob_held := release_aside (ob_held ob)\<rparr>)"

text \<open>What the bounds say of a frame: a frame written aside answers to the frame bound alone.\<close>

definition frame_check :: "outbox \<Rightarrow> bool \<Rightarrow> usize \<Rightarrow> refused + unit" where
  "frame_check ob counted bytes =
     (if counted then admission (ob_limits ob) (h_frames (ob_held ob)) (h_bytes (ob_held ob)) bytes
      else if bytes > max_outbound_frame_bytes (ob_limits ob)
      then Inl (FrameTooLarge (max_outbound_frame_bytes (ob_limits ob)) bytes)
      else Inr ())"

text \<open>The frame's share, taken with its new cell.\<close>

definition take_share :: "bool \<Rightarrow> usize \<Rightarrow> outbox \<Rightarrow> outbox" where
  "take_share counted bytes ob =
     (let h = (ob_held ob)\<lparr>h_queueing := True\<rparr>
      in ob\<lparr>ob_held :=
              (if counted
               then h\<lparr>h_frames := wrap_add (h_frames h) 1, h_bytes := sat_add (h_bytes h) bytes\<rparr>
               else h\<lparr>h_aside := wrap_add (h_aside h) 1\<rparr>),
            ob_ctls := ob_ctls ob @ [\<lparr>fc_phase = QUEUED, fc_bytes = bytes\<rparr>]\<rparr>)"

text \<open>A ticket is the index of the frame's cell.\<close>

definition queue_frame ::
  "outbox \<Rightarrow> ustring \<Rightarrow> nat \<Rightarrow> nat option \<Rightarrow> bool \<Rightarrow> bool \<Rightarrow> outbox \<times> (refused + nat)" where
  "queue_frame ob frame deadline call counted reply =
     (let bytes = str_len frame; i = length (ob_ctls ob)
      in if h_sealed (ob_held ob) then (ob, Inl Sealed)
         else case frame_check ob counted bytes of
           Inl e \<Rightarrow> (ob, Inl e)
         | Inr _ \<Rightarrow>
             (let ob = take_share counted bytes ob;
                  m = \<lparr>o_frame = frame, o_ctl = i, o_deadline = deadline, o_call = call,
                       o_counted = counted, o_reply = reply\<rparr>
              in if ob_writer_gone ob then (drop_outgoing m ob, Inl Stopped)
                 else (ob\<lparr>ob_queue := ob_queue ob @ [FrameEntry m]\<rparr>, Inr i)))"

definition enqueue :: "outbox \<Rightarrow> ustring \<Rightarrow> nat \<Rightarrow> nat option \<Rightarrow> outbox \<times> (refused + nat)" where
  "enqueue ob frame deadline call = queue_frame ob frame deadline call True False"

definition enqueue_reply :: "outbox \<Rightarrow> ustring \<Rightarrow> nat \<Rightarrow> outbox \<times> (refused + nat)" where
  "enqueue_reply ob frame deadline = queue_frame ob frame deadline None True True"

definition enqueue_aside :: "outbox \<Rightarrow> ustring \<Rightarrow> nat \<Rightarrow> outbox \<times> (refused + nat)" where
  "enqueue_aside ob frame deadline = queue_frame ob frame deadline None False False"

datatype turn = DirectTurn | NowTurn | QueuedTurn nat | StoppedTurn

text \<open>\<open>grant\<close> names the one-shot the link is handed over on.\<close>

definition outbox_turn :: "outbox \<Rightarrow> nat \<Rightarrow> outbox \<times> turn" where
  "outbox_turn ob grant =
     (let h = ob_held ob
      in if \<not> h_queueing h then
           (if h_direct h = 0 \<and> ob_link_free ob then (ob\<lparr>ob_link_free := False\<rparr>, NowTurn)
            else (ob\<lparr>ob_held := h\<lparr>h_direct := wrap_add (h_direct h) 1\<rparr>\<rparr>, DirectTurn))
         else if h_frames h = 0 \<and> h_aside h = 0 \<and> h_turns h = 0 \<and> ob_link_free ob then
           (ob\<lparr>ob_link_free := False\<rparr>, NowTurn)
         else if ob_writer_gone ob then (ob, StoppedTurn)
         else (ob\<lparr>ob_queue := ob_queue ob @ [TurnEntry grant],
                 ob_held := h\<lparr>h_turns := wrap_add (h_turns h) 1\<rparr>\<rparr>, QueuedTurn grant))"

definition turn_reached :: "outbox \<Rightarrow> outbox" where
  "turn_reached ob = ob\<lparr>ob_held := (ob_held ob)\<lparr>h_turns := h_turns (ob_held ob) - 1\<rparr>\<rparr>"

text \<open>\<open>Drop for Direct\<close>\<close>

definition direct_drop :: "outbox \<Rightarrow> outbox" where
  "direct_drop ob = ob\<lparr>ob_held := (ob_held ob)\<lparr>h_direct := h_direct (ob_held ob) - 1\<rparr>\<rparr>"

definition frame_fits :: "outbox \<Rightarrow> usize \<Rightarrow> refused + unit" where
  "frame_fits ob bytes =
     (if bytes > max_outbound_frame_bytes (ob_limits ob)
      then Inl (FrameTooLarge (max_outbound_frame_bytes (ob_limits ob)) bytes) else Inr ())"

definition direct_callers_served :: "outbox \<Rightarrow> bool" where
  "direct_callers_served ob \<longleftrightarrow> h_direct (ob_held ob) = 0"

definition seal :: "outbox \<Rightarrow> outbox" where
  "seal ob = ob\<lparr>ob_held := (ob_held ob)\<lparr>h_sealed := True\<rparr>\<rparr>"

definition is_sealed :: "outbox \<Rightarrow> bool" where
  "is_sealed ob \<longleftrightarrow> h_sealed (ob_held ob)"

definition barrier :: "outbox \<Rightarrow> nat \<Rightarrow> outbox \<times> nat option" where
  "barrier ob i =
     (if \<not> h_queueing (ob_held ob) then (ob, None)
      else if ob_writer_gone ob then (ob, None)
      else (ob\<lparr>ob_queue := ob_queue ob @ [BarrierEntry i]\<rparr>, Some i))"

definition written_started :: "outbox \<Rightarrow> nat \<Rightarrow> bool" where
  "written_started ob ticket = ctl_began (ob_ctls ob ! ticket)"

definition written_frame_bytes :: "outbox \<Rightarrow> nat \<Rightarrow> usize" where
  "written_frame_bytes ob ticket = fc_bytes (ob_ctls ob ! ticket)"

subsection \<open>The writer and its callers, interleaved\<close>

text \<open>
  The writer task takes one entry at a time; a frame is entered among the awaited calls when it asks
  one (\<open>Ready\<close>), begun under the link's lock (\<open>InFlight\<close>), and dropped when the write is over, whichever
  way. \<open>ww_wire\<close> records which frames were begun, in order: the only ones the peer can have seen.
\<close>

datatype writer = Idle | Taken entry | Ready outgoing | InFlight outgoing | Gone

record wire_world =
  ww_ob :: outbox
  ww_writer :: writer
  ww_wire :: "nat list"

definition wire_world_new :: "wire_options \<Rightarrow> wire_world" where
  "wire_world_new l = \<lparr>ww_ob = outbox_new l, ww_writer = Idle, ww_wire = []\<rparr>"

definition drop_to :: "writer \<Rightarrow> outgoing \<Rightarrow> wire_world \<Rightarrow> wire_world" where
  "drop_to st m w = w\<lparr>ww_ob := drop_outgoing m (ww_ob w), ww_writer := st\<rparr>"

inductive wire_step :: "wire_world \<Rightarrow> wire_world \<Rightarrow> bool" where
  queue: "h_aside (ob_held (ww_ob w)) < usize_MAX \<Longrightarrow>
    wire_step w (w\<lparr>ww_ob := fst (queue_frame (ww_ob w) frame deadline call counted reply)\<rparr>)"
| withdraw: "i < length (ob_ctls (ww_ob w)) \<Longrightarrow>
    wire_step w (w\<lparr>ww_ob := update_ctl i (\<lambda>c. fst (ctl_withdraw c)) (ww_ob w)\<rparr>)"
| turn: "h_turns (ob_held (ww_ob w)) < usize_MAX \<Longrightarrow>
    wire_step w (w\<lparr>ww_ob := fst (outbox_turn (ww_ob w) g)\<rparr>)"
| direct: "wire_step w (w\<lparr>ww_ob := direct_drop (ww_ob w)\<rparr>)"
| seal: "wire_step w (w\<lparr>ww_ob := seal (ww_ob w)\<rparr>)"
| barrier: "wire_step w (w\<lparr>ww_ob := fst (barrier (ww_ob w) i)\<rparr>)"
| give_back: "wire_step w (w\<lparr>ww_ob := (ww_ob w)\<lparr>ob_link_free := True\<rparr>\<rparr>)"
| recv: "ww_writer w = Idle \<Longrightarrow> ob_queue (ww_ob w) = e # q \<Longrightarrow>
    wire_step w (w\<lparr>ww_ob := (ww_ob w)\<lparr>ob_queue := q\<rparr>, ww_writer := Taken e\<rparr>)"
| reached: "ww_writer w = Taken (BarrierEntry i) \<Longrightarrow> direct_callers_served (ww_ob w) \<Longrightarrow>
    wire_step w (w\<lparr>ww_writer := Idle\<rparr>)"
| turn_over: "ww_writer w = Taken (TurnEntry g) \<Longrightarrow> direct_callers_served (ww_ob w) \<Longrightarrow>
    wire_step w (w\<lparr>ww_ob := (turn_reached (ww_ob w))\<lparr>ob_link_free := link\<rparr>, ww_writer := Idle\<rparr>)"
| given_up: "ww_writer w = Taken (FrameEntry m) \<Longrightarrow> direct_callers_served (ww_ob w) \<Longrightarrow>
    o_call m \<noteq> None \<Longrightarrow> \<not> ctl_queued (ob_ctls (ww_ob w) ! o_ctl m) \<Longrightarrow>
    wire_step w (drop_to Idle m w)"
| not_registered: "ww_writer w = Taken (FrameEntry m) \<Longrightarrow> direct_callers_served (ww_ob w) \<Longrightarrow>
    o_call m \<noteq> None \<Longrightarrow> wire_step w (drop_to Idle m w)"
| ready: "ww_writer w = Taken (FrameEntry m) \<Longrightarrow> direct_callers_served (ww_ob w) \<Longrightarrow>
    wire_step w (w\<lparr>ww_writer := Ready m\<rparr>)"
| unusable: "ww_writer w = Ready m \<Longrightarrow> ob_link_free (ww_ob w) \<Longrightarrow>
    wire_step w (drop_to Idle m
      (w\<lparr>ww_ob := update_ctl (o_ctl m) (\<lambda>c. fst (ctl_withdraw c)) (ww_ob w)\<rparr>))"
| withdrawn: "ww_writer w = Ready m \<Longrightarrow> ob_link_free (ww_ob w) \<Longrightarrow>
    \<not> snd (ctl_begin (ob_ctls (ww_ob w) ! o_ctl m)) \<Longrightarrow> wire_step w (drop_to Idle m w)"
| begun: "ww_writer w = Ready m \<Longrightarrow> ob_link_free (ww_ob w) \<Longrightarrow>
    snd (ctl_begin (ob_ctls (ww_ob w) ! o_ctl m)) \<Longrightarrow>
    wire_step w (w\<lparr>ww_ob := (update_ctl (o_ctl m) (\<lambda>c. fst (ctl_begin c)) (ww_ob w))\<lparr>ob_link_free := False\<rparr>,
      ww_writer := InFlight m, ww_wire := ww_wire w @ [o_ctl m]\<rparr>)"
| sent: "ww_writer w = InFlight m \<Longrightarrow> wire_step w (drop_to Idle m w)"
| stop: "ww_writer w \<in> {Taken (FrameEntry m), Ready m, InFlight m} \<Longrightarrow>
    wire_step w ((drop_to Gone m w)\<lparr>ww_ob := (drop_outgoing m (ww_ob w))\<lparr>ob_writer_gone := True\<rparr>\<rparr>)"
| stop_idle: "ww_writer w = Idle \<or> ww_writer w = Taken (TurnEntry g) \<or> ww_writer w = Taken (BarrierEntry g) \<Longrightarrow>
    wire_step w (w\<lparr>ww_ob := (ww_ob w)\<lparr>ob_writer_gone := True\<rparr>, ww_writer := Gone\<rparr>)"
| drain: "ww_writer w = Gone \<Longrightarrow> ob_queue (ww_ob w) = FrameEntry m # q \<Longrightarrow>
    wire_step w (drop_to Gone m (w\<lparr>ww_ob := (ww_ob w)\<lparr>ob_queue := q\<rparr>\<rparr>))"
| drain_other: "ww_writer w = Gone \<Longrightarrow> ob_queue (ww_ob w) = e # q \<Longrightarrow> \<forall>m. e \<noteq> FrameEntry m \<Longrightarrow>
    wire_step w (w\<lparr>ww_ob := (ww_ob w)\<lparr>ob_queue := q\<rparr>\<rparr>)"

inductive wire_reach :: "wire_options \<Rightarrow> wire_world \<Rightarrow> bool" for l where
  start: "wire_reach l (wire_world_new l)"
| step: "wire_reach l w \<Longrightarrow> wire_step w w' \<Longrightarrow> wire_reach l w'"

text \<open>The frames whose share is held: the writer's, then the queue's.\<close>

fun entry_frames :: "entry \<Rightarrow> outgoing list" where
  "entry_frames (FrameEntry m) = [m]"
| "entry_frames _ = []"

fun writer_frames :: "writer \<Rightarrow> outgoing list" where
  "writer_frames (Taken e) = entry_frames e"
| "writer_frames (Ready m) = [m]"
| "writer_frames (InFlight m) = [m]"
| "writer_frames _ = []"

definition queue_frames :: "outbox \<Rightarrow> outgoing list" where
  "queue_frames ob = concat (map entry_frames (ob_queue ob))"

definition frames_of :: "wire_world \<Rightarrow> outgoing list" where
  "frames_of w = writer_frames (ww_writer w) @ queue_frames (ww_ob w)"

definition counted_frames :: "outgoing list \<Rightarrow> nat" where
  "counted_frames ms = length (filter o_counted ms)"

definition counted_bytes :: "outgoing list \<Rightarrow> nat" where
  "counted_bytes ms = sum_list (map (\<lambda>m. str_len (o_frame m)) (filter o_counted ms))"

definition aside_frames :: "outgoing list \<Rightarrow> nat" where
  "aside_frames ms = length (filter (\<lambda>m. \<not> o_counted m) ms)"

definition wire_ok :: "wire_options \<Rightarrow> bool" where
  "wire_ok l \<longleftrightarrow> max_outbound_queued_bytes l < usize_MAX \<and> max_outbound_queued_frames l < usize_MAX"

definition budget_ok :: "outbox \<Rightarrow> outgoing list \<Rightarrow> bool" where
  "budget_ok ob ms \<longleftrightarrow>
     wire_ok (ob_limits ob) \<and>
     h_frames (ob_held ob) = counted_frames ms \<and> h_bytes (ob_held ob) = counted_bytes ms \<and>
     h_aside (ob_held ob) = aside_frames ms \<and> aside_frames ms \<le> usize_MAX \<and>
     counted_frames ms \<le> max_outbound_queued_frames (ob_limits ob) \<and>
     counted_bytes ms \<le> max_outbound_queued_bytes (ob_limits ob) \<and>
     (\<forall>m \<in> set ms. o_ctl m < length (ob_ctls ob) \<and>
        fc_bytes (ob_ctls ob ! o_ctl m) = str_len (o_frame m) \<and>
        str_len (o_frame m) \<le> max_outbound_frame_bytes (ob_limits ob))"

abbreviation phase_of :: "outbox \<Rightarrow> nat \<Rightarrow> phase" where
  "phase_of ob i \<equiv> fc_phase (ob_ctls ob ! i)"

text \<open>\<open>fly\<close> says whether the first frame is being written.\<close>

definition phases_ok :: "outbox \<Rightarrow> outgoing list \<Rightarrow> bool \<Rightarrow> nat list \<Rightarrow> bool" where
  "phases_ok ob ms fly wire \<longleftrightarrow>
     sorted_wrt (<) (map o_ctl ms) \<and>
     (\<forall>m \<in> set ms. o_ctl m < length (ob_ctls ob)) \<and>
     (fly \<longrightarrow> ms \<noteq> [] \<and> phase_of ob (o_ctl (hd ms)) = WRITING) \<and>
     (\<forall>m \<in> set (if fly then tl ms else ms).
        phase_of ob (o_ctl m) \<in> {QUEUED, UNWRITTEN} \<and> (\<forall>i \<in> set wire. i < o_ctl m)) \<and>
     (\<forall>i < length (ob_ctls ob). i \<notin> o_ctl ` set ms \<longrightarrow> phase_of ob i \<in> {FINISHED, UNWRITTEN}) \<and>
     sorted_wrt (<) wire \<and>
     (\<forall>i. i \<in> set wire \<longleftrightarrow> i < length (ob_ctls ob) \<and> ctl_began (ob_ctls ob ! i))"

definition wire_inv :: "wire_world \<Rightarrow> bool" where
  "wire_inv w \<longleftrightarrow>
     budget_ok (ww_ob w) (frames_of w) \<and>
     phases_ok (ww_ob w) (frames_of w) (\<exists>m. ww_writer w = InFlight m) (ww_wire w)"

subsection \<open>What each section does to the invariant\<close>

lemma phase_distinct [simp]:
  "QUEUED \<noteq> WRITING" "QUEUED \<noteq> FINISHED" "QUEUED \<noteq> UNWRITTEN"
  "WRITING \<noteq> QUEUED" "WRITING \<noteq> FINISHED" "WRITING \<noteq> UNWRITTEN"
  "FINISHED \<noteq> QUEUED" "FINISHED \<noteq> WRITING" "FINISHED \<noteq> UNWRITTEN"
  "UNWRITTEN \<noteq> QUEUED" "UNWRITTEN \<noteq> WRITING" "UNWRITTEN \<noteq> FINISHED"
  by (simp_all add: QUEUED_def WRITING_def FINISHED_def UNWRITTEN_def)

lemma counted_simps [simp]:
  "counted_frames [] = 0" "counted_bytes [] = 0" "aside_frames [] = 0"
  "counted_frames (m # ms) = (if o_counted m then 1 else 0) + counted_frames ms"
  "counted_bytes (m # ms) = (if o_counted m then str_len (o_frame m) else 0) + counted_bytes ms"
  "aside_frames (m # ms) = (if o_counted m then 0 else 1) + aside_frames ms"
  "counted_frames (ms @ ms') = counted_frames ms + counted_frames ms'"
  "counted_bytes (ms @ ms') = counted_bytes ms + counted_bytes ms'"
  "aside_frames (ms @ ms') = aside_frames ms + aside_frames ms'"
  by (simp_all add: counted_frames_def counted_bytes_def aside_frames_def)

lemma update_ctl_simps [simp]:
  "ob_limits (update_ctl i f ob) = ob_limits ob" "ob_held (update_ctl i f ob) = ob_held ob"
  "ob_queue (update_ctl i f ob) = ob_queue ob" "ob_writer_gone (update_ctl i f ob) = ob_writer_gone ob"
  "length (ob_ctls (update_ctl i f ob)) = length (ob_ctls ob)"
  "i < length (ob_ctls ob) \<Longrightarrow>
     ob_ctls (update_ctl i f ob) ! j = (if j = i then f (ob_ctls ob ! i) else ob_ctls ob ! j)"
  by (simp_all add: update_ctl_def nth_list_update)

lemma ctl_ops_bytes [simp]:
  "fc_bytes (fst (ctl_begin c)) = fc_bytes c" "fc_bytes (fst (ctl_withdraw c)) = fc_bytes c"
  "fc_bytes (ctl_settle c) = fc_bytes c"
  by (simp_all add: ctl_begin_def ctl_withdraw_def ctl_settle_def cas_def Let_def)

lemma ctl_ops_phase:
  "fc_phase (fst (ctl_withdraw c)) = (if fc_phase c = QUEUED then UNWRITTEN else fc_phase c)"
  "fc_phase (ctl_settle c) =
    (if fc_phase c = WRITING then FINISHED else if fc_phase c = QUEUED then UNWRITTEN else fc_phase c)"
  "snd (ctl_begin c) \<longleftrightarrow> fc_phase c = QUEUED"
  "snd (ctl_withdraw c) \<longleftrightarrow> fc_phase c = QUEUED"
  "fc_phase c = QUEUED \<Longrightarrow> fc_phase (fst (ctl_begin c)) = WRITING"
  by (simp_all add: ctl_begin_def ctl_withdraw_def ctl_settle_def cas_def Let_def)

text \<open>Taking a frame out: its share goes back and its cell is settled.\<close>

lemma drop_outgoing_simps [simp]:
  "ob_limits (drop_outgoing m ob) = ob_limits ob" "ob_queue (drop_outgoing m ob) = ob_queue ob"
  "ob_writer_gone (drop_outgoing m ob) = ob_writer_gone ob"
  "length (ob_ctls (drop_outgoing m ob)) = length (ob_ctls ob)"
  "ob_ctls (drop_outgoing m ob) = ob_ctls (update_ctl (o_ctl m) ctl_settle ob)"
  by (simp_all add: drop_outgoing_def Let_def)

lemma drop_head_budget:
  assumes "budget_ok ob (m # ms)"
  shows "budget_ok (drop_outgoing m ob) ms"
  using assms
  by (auto simp: budget_ok_def drop_outgoing_def Let_def release_def release_aside_def)

lemma drop_head_phases:
  assumes "phases_ok ob (m # ms) fly wire"
  shows "phases_ok (drop_outgoing m ob) ms False wire"
proof -
  have m: "o_ctl m < length (ob_ctls ob)" and sorted: "\<forall>n \<in> set ms. o_ctl m < o_ctl n"
    using assms by (auto simp: phases_ok_def)
  have began: "ctl_began (ob_ctls (drop_outgoing m ob) ! i) \<longleftrightarrow> ctl_began (ob_ctls ob ! i)" for i
    using m by (simp add: ctl_began_def ctl_ops_phase)
  have other: "phase_of (drop_outgoing m ob) i = phase_of ob i" if "i \<noteq> o_ctl m" for i
    using m that by simp
  have this_one: "phase_of (drop_outgoing m ob) (o_ctl m) \<in> {FINISHED, UNWRITTEN}"
    using assms m by (cases fly) (auto simp: phases_ok_def ctl_ops_phase)
  have "phase_of (drop_outgoing m ob) (o_ctl n) \<in> {QUEUED, UNWRITTEN} \<and> (\<forall>i \<in> set wire. i < o_ctl n)"
    if "n \<in> set ms" for n
    using assms sorted that other [of "o_ctl n"] by (cases fly) (auto simp: phases_ok_def)
  moreover have "phase_of (drop_outgoing m ob) i \<in> {FINISHED, UNWRITTEN}"
    if "i < length (ob_ctls ob)" "i \<notin> o_ctl ` set ms" for i
    using assms that this_one other [of i] by (cases "i = o_ctl m") (auto simp: phases_ok_def)
  ultimately show ?thesis
    using assms began by (auto simp: phases_ok_def)
qed


lemma budget_ok_other:
  assumes "budget_ok ob ms" "ob_limits ob' = ob_limits ob" "ob_ctls ob' = ob_ctls ob"
    "h_frames (ob_held ob') = h_frames (ob_held ob)" "h_bytes (ob_held ob') = h_bytes (ob_held ob)"
    "h_aside (ob_held ob') = h_aside (ob_held ob)"
  shows "budget_ok ob' ms"
  using assms by (simp add: budget_ok_def)

lemma phases_ok_other:
  assumes "phases_ok ob ms fly wire" "ob_ctls ob' = ob_ctls ob"
  shows "phases_ok ob' ms fly wire"
  using assms by (simp add: phases_ok_def)

lemma withdraw_budget:
  assumes "budget_ok ob ms" "i < length (ob_ctls ob)"
  shows "budget_ok (update_ctl i (\<lambda>c. fst (ctl_withdraw c)) ob) ms"
  using assms by (auto simp: budget_ok_def)

lemma withdraw_phases:
  assumes "phases_ok ob ms fly wire" "i < length (ob_ctls ob)"
  shows "phases_ok (update_ctl i (\<lambda>c. fst (ctl_withdraw c)) ob) ms fly wire"
proof -
  let ?ob = "update_ctl i (\<lambda>c. fst (ctl_withdraw c)) ob"
  have began: "ctl_began (ob_ctls ?ob ! j) \<longleftrightarrow> ctl_began (ob_ctls ob ! j)" for j
    using assms(2) by (simp add: ctl_began_def ctl_ops_phase)
  have phase: "phase_of ?ob j = (if j = i \<and> phase_of ob j = QUEUED then UNWRITTEN else phase_of ob j)" for j
    using assms(2) by (simp add: ctl_ops_phase)
  have "length (ob_ctls ?ob) = length (ob_ctls ob)" by simp
  with assms(1) show ?thesis
    unfolding phases_ok_def began phase by auto
qed

lemma begin_phases:
  assumes "phases_ok ob (m # ms) False wire" "snd (ctl_begin (ob_ctls ob ! o_ctl m))"
  shows "phases_ok (update_ctl (o_ctl m) (\<lambda>c. fst (ctl_begin c)) ob) (m # ms) True (wire @ [o_ctl m])"
proof -
  let ?ob = "update_ctl (o_ctl m) (\<lambda>c. fst (ctl_begin c)) ob"
  have m: "o_ctl m < length (ob_ctls ob)" and sorted: "\<forall>n \<in> set ms. o_ctl m < o_ctl n"
    using assms(1) by (auto simp: phases_ok_def)
  have len: "length (ob_ctls ?ob) = length (ob_ctls ob)" by simp
  have phase: "phase_of ?ob j = (if j = o_ctl m then WRITING else phase_of ob j)" for j
    using m assms(2) by (simp add: ctl_ops_phase)
  have began: "ctl_began (ob_ctls ?ob ! j) \<longleftrightarrow> j = o_ctl m \<or> ctl_began (ob_ctls ob ! j)" for j
    by (auto simp: ctl_began_def phase)
  have "\<forall>i \<in> set wire. i < o_ctl m" "sorted_wrt (<) wire" using assms(1) by (auto simp: phases_ok_def)
  then have "sorted_wrt (<) (wire @ [o_ctl m])" by (simp add: sorted_wrt_append)
  moreover have "phase_of ?ob (o_ctl n) \<in> {QUEUED, UNWRITTEN} \<and> (\<forall>i \<in> set (wire @ [o_ctl m]). i < o_ctl n)"
    if "n \<in> set ms" for n
    using assms(1) sorted that by (auto simp: phases_ok_def phase)
  moreover have "i \<in> set (wire @ [o_ctl m]) \<longleftrightarrow> i < length (ob_ctls ?ob) \<and> ctl_began (ob_ctls ?ob ! i)" for i
    using assms(1) m by (auto simp: phases_ok_def began simp del: update_ctl_simps(6))
  ultimately show ?thesis
    using assms(1) by (auto simp: phases_ok_def phase len simp del: update_ctl_simps(6))
qed


lemma admission_ok_iff:
  assumes "wire_ok w" "frames \<le> max_outbound_queued_frames w" "held_bytes \<le> max_outbound_queued_bytes w"
  shows "admission w frames held_bytes bytes = Inr () \<longleftrightarrow>
    bytes \<le> max_outbound_frame_bytes w \<and> frames < max_outbound_queued_frames w \<and>
    held_bytes + bytes \<le> max_outbound_queued_bytes w"
  using assms by (auto simp: admission_def wire_ok_def sat_add_def Let_def)

text \<open>The three things queueing a frame can do to the books.\<close>

lemma queue_frame_cases:
  obtains (refused) e where "queue_frame ob frame d c counted r = (ob, Inl e)"
      "h_sealed (ob_held ob) \<or> frame_check ob counted (str_len frame) = Inl e"
  | (gone) m where "queue_frame ob frame d c counted r =
        (drop_outgoing m (take_share counted (str_len frame) ob), Inl Stopped)"
      "frame_check ob counted (str_len frame) = Inr ()" "ob_writer_gone ob"
      "o_frame m = frame" "o_ctl m = length (ob_ctls ob)" "o_counted m = counted"
  | (taken) m where "queue_frame ob frame d c counted r =
        ((take_share counted (str_len frame) ob)\<lparr>ob_queue := ob_queue ob @ [FrameEntry m]\<rparr>,
         Inr (length (ob_ctls ob)))"
      "frame_check ob counted (str_len frame) = Inr ()" "\<not> ob_writer_gone ob"
      "o_frame m = frame" "o_ctl m = length (ob_ctls ob)" "o_counted m = counted"
proof -
  let ?m = "\<lparr>o_frame = frame, o_ctl = length (ob_ctls ob), o_deadline = d, o_call = c,
             o_counted = counted, o_reply = r\<rparr>"
  have gone: "ob_writer_gone (take_share counted (str_len frame) ob) = ob_writer_gone ob"
    and queue: "ob_queue (take_share counted (str_len frame) ob) = ob_queue ob"
    by (simp_all add: take_share_def Let_def)
  show thesis
  proof (cases "h_sealed (ob_held ob)")
    case True
    then show thesis by (intro refused [of Sealed]) (simp_all add: queue_frame_def Let_def)
  next
    case False
    show thesis
    proof (cases "frame_check ob counted (str_len frame)")
      case (Inl e)
      with False show thesis by (intro refused [of e]) (simp_all add: queue_frame_def Let_def)
    next
      case (Inr u)
      show thesis
      proof (cases "ob_writer_gone ob")
        case True
        show thesis
          by (rule that(2) [of ?m]) (simp_all add: queue_frame_def Let_def \<open>\<not> h_sealed (ob_held ob)\<close> Inr True gone)
      next
        case open_queue: False
        show thesis
          by (rule that(3) [of ?m])
            (simp_all add: queue_frame_def Let_def \<open>\<not> h_sealed (ob_held ob)\<close> Inr open_queue gone queue)
      qed
    qed
  qed
qed

lemma take_share_simps [simp]:
  "ob_limits (take_share counted bytes ob) = ob_limits ob"
  "ob_queue (take_share counted bytes ob) = ob_queue ob"
  "ob_writer_gone (take_share counted bytes ob) = ob_writer_gone ob"
  "ob_ctls (take_share counted bytes ob) = ob_ctls ob @ [\<lparr>fc_phase = QUEUED, fc_bytes = bytes\<rparr>]"
  by (simp_all add: take_share_def Let_def)

lemma take_share_budget:
  assumes "budget_ok ob ms" "frame_check ob counted (str_len (o_frame m)) = Inr ()"
    "o_ctl m = length (ob_ctls ob)" "o_counted m = counted" "h_aside (ob_held ob) < usize_MAX"
  shows "budget_ok (take_share counted (str_len (o_frame m)) ob) (ms @ [m])"
proof (cases counted)
  case True
  have "admission (ob_limits ob) (h_frames (ob_held ob)) (h_bytes (ob_held ob)) (str_len (o_frame m)) = Inr ()"
    using assms(2) True by (simp add: frame_check_def)
  with assms True show ?thesis
    using admission_ok_iff [of "ob_limits ob" "counted_frames ms" "counted_bytes ms" "str_len (o_frame m)"]
    by (auto simp: budget_ok_def take_share_def Let_def nth_append sat_add_exact wrap_add_exact wire_ok_def)
next
  case False
  with assms show ?thesis
    by (auto simp: budget_ok_def take_share_def Let_def nth_append wrap_add_exact frame_check_def
        split: if_splits)
qed

lemma take_share_phases:
  assumes "phases_ok ob ms fly wire" "o_ctl m = length (ob_ctls ob)"
  shows "phases_ok (take_share counted bytes ob) (ms @ [m]) fly wire"
proof -
  let ?ob = "take_share counted bytes ob"
  have phase: "phase_of ?ob i = (if i = length (ob_ctls ob) then QUEUED else phase_of ob i)"
    and began: "ctl_began (ob_ctls ?ob ! i) = (i \<noteq> length (ob_ctls ob) \<and> ctl_began (ob_ctls ob ! i))"
    if "i \<le> length (ob_ctls ob)" for i
    using that by (auto simp: nth_append ctl_began_def)
  have wire: "i < length (ob_ctls ob)" if "i \<in> set wire" for i
    using assms(1) that by (auto simp: phases_ok_def)
  have old: "o_ctl n < length (ob_ctls ob)" if "n \<in> set ms" for n
    using assms(1) that by (auto simp: phases_ok_def)
  have tail: "set (tl ms) \<subseteq> set ms" by (cases ms) auto
  have "sorted_wrt (<) (map o_ctl (ms @ [m]))"
    using assms old by (auto simp: phases_ok_def sorted_wrt_append)
  moreover have "ms \<noteq> [] \<and> phase_of ?ob (o_ctl (hd ms)) = WRITING" if fly
  proof -
    have ms: "ms \<noteq> []" "phase_of ob (o_ctl (hd ms)) = WRITING"
      using assms(1) that by (auto simp: phases_ok_def)
    with old [of "hd ms"] have "o_ctl (hd ms) < length (ob_ctls ob)" by simp
    with ms show ?thesis using phase [of "o_ctl (hd ms)"] by simp
  qed
  moreover have "phase_of ?ob (o_ctl n) \<in> {QUEUED, UNWRITTEN} \<and> (\<forall>i \<in> set wire. i < o_ctl n)"
    if "n \<in> set (if fly then tl ms else ms) \<or> n = m" for n
  proof (cases "n = m")
    case True
    with phase [of "o_ctl n"] wire assms(2) show ?thesis by simp
  next
    case False
    with that tail have n: "n \<in> set (if fly then tl ms else ms)" "n \<in> set ms" by (auto split: if_splits)
    with old phase [of "o_ctl n"] have "phase_of ?ob (o_ctl n) = phase_of ob (o_ctl n)"
      by (metis less_imp_le nat_neq_iff)
    with n(1) assms(1) show ?thesis by (simp add: phases_ok_def)
  qed
  moreover have "phase_of ?ob i \<in> {FINISHED, UNWRITTEN}"
    if "i < Suc (length (ob_ctls ob))" "i \<notin> o_ctl ` set (ms @ [m])" for i
    using that assms phase [of i]
    by (auto simp: phases_ok_def less_Suc_eq simp del: take_share_simps(4))
  moreover have "i \<in> set wire \<longleftrightarrow> i < Suc (length (ob_ctls ob)) \<and> ctl_began (ob_ctls ?ob ! i)" for i
    using assms(1) wire [of i] began [of i]
    by (auto simp: phases_ok_def less_Suc_eq simp del: take_share_simps(4))
  moreover have "(if fly then tl (ms @ [m]) else ms @ [m]) = (if fly then tl ms else ms) @ [m]"
    using assms(1) by (auto simp: phases_ok_def)
  moreover have "hd (ms @ [m]) = hd ms" if fly
    using assms(1) that by (simp add: phases_ok_def)
  moreover have "o_ctl n < Suc (length (ob_ctls ob))" if "n \<in> set (ms @ [m])" for n
    using old [of n] assms(2) that by auto
  moreover have "sorted_wrt (<) wire" using assms(1) by (auto simp: phases_ok_def)
  moreover have "length (ob_ctls ?ob) = Suc (length (ob_ctls ob))" by simp
  ultimately show ?thesis
    unfolding phases_ok_def by (simp del: take_share_simps(4))
qed

text \<open>A frame handed to a queue nobody reads gives its share back and is never written.\<close>

lemma gone_budget:
  assumes "budget_ok ob ms" "frame_check ob counted (str_len (o_frame m)) = Inr ()"
    "o_ctl m = length (ob_ctls ob)" "o_counted m = counted" "h_aside (ob_held ob) < usize_MAX"
  shows "budget_ok (drop_outgoing m (take_share counted (str_len (o_frame m)) ob)) ms"
proof -
  have taken: "budget_ok (take_share counted (str_len (o_frame m)) ob) (m # ms)"
    using take_share_budget [OF assms] by (auto simp: budget_ok_def)
  show ?thesis by (rule drop_head_budget [OF taken])
qed

lemma gone_phases:
  assumes "phases_ok ob ms fly wire" "o_ctl m = length (ob_ctls ob)"
  shows "phases_ok (drop_outgoing m (take_share counted bytes ob)) ms fly wire"
proof -
  let ?ob = "drop_outgoing m (take_share counted bytes ob)"
  have phase: "phase_of ?ob i = (if i = length (ob_ctls ob) then UNWRITTEN else phase_of ob i)"
    if "i \<le> length (ob_ctls ob)" for i
    using that assms(2) by (auto simp: nth_append ctl_ops_phase)
  have began: "ctl_began (ob_ctls ?ob ! i) = (i \<noteq> length (ob_ctls ob) \<and> ctl_began (ob_ctls ob ! i))"
    if "i \<le> length (ob_ctls ob)" for i
    using phase [OF that] by (simp add: ctl_began_def del: drop_outgoing_simps(5))
  have len: "length (ob_ctls ?ob) = Suc (length (ob_ctls ob))" by simp
  have wire: "i < length (ob_ctls ob)" if "i \<in> set wire" for i
    using assms(1) that by (auto simp: phases_ok_def)
  have old: "o_ctl n < length (ob_ctls ob)" if "n \<in> set ms" for n
    using assms(1) that by (auto simp: phases_ok_def)
  have same: "phase_of ?ob (o_ctl n) = phase_of ob (o_ctl n)" if "n \<in> set ms" for n
    using phase [of "o_ctl n"] old [OF that] by simp
  have tail: "set (tl ms) \<subseteq> set ms" by (cases ms) auto
  have "ms \<noteq> [] \<and> phase_of ?ob (o_ctl (hd ms)) = WRITING" if fly
    using assms(1) that same [of "hd ms"] by (auto simp: phases_ok_def simp del: drop_outgoing_simps(5))
  moreover have "phase_of ?ob (o_ctl n) \<in> {QUEUED, UNWRITTEN} \<and> (\<forall>i \<in> set wire. i < o_ctl n)"
    if "n \<in> set (if fly then tl ms else ms)" for n
  proof -
    have "n \<in> set ms" using that tail by (cases fly) auto
    then have "phase_of ?ob (o_ctl n) = phase_of ob (o_ctl n)" by (rule same)
    then show ?thesis using that assms(1) by (simp add: phases_ok_def)
  qed
  moreover have "phase_of ?ob i \<in> {FINISHED, UNWRITTEN}"
    if "i < Suc (length (ob_ctls ob))" "i \<notin> o_ctl ` set ms" for i
    using that assms(1) phase [of i]
    by (auto simp: phases_ok_def less_Suc_eq simp del: drop_outgoing_simps(5))
  moreover have "i \<in> set wire \<longleftrightarrow> i < Suc (length (ob_ctls ob)) \<and> ctl_began (ob_ctls ?ob ! i)" for i
    using assms(1) wire [of i] began [of i]
    by (auto simp: phases_ok_def less_Suc_eq simp del: drop_outgoing_simps(5))
  moreover have "o_ctl n < Suc (length (ob_ctls ob))" if "n \<in> set ms" for n
    using old [OF that] by simp
  moreover have "sorted_wrt (<) (map o_ctl ms)" "sorted_wrt (<) wire"
    using assms(1) by (auto simp: phases_ok_def)
  ultimately show ?thesis
    unfolding phases_ok_def len by blast
qed


subsection \<open>The invariant of the running writer\<close>

lemma queue_frames_simps [simp]:
  "ob_queue ob = [] \<Longrightarrow> queue_frames ob = []"
  "ob_queue ob = e # q \<Longrightarrow> queue_frames ob = entry_frames e @ concat (map entry_frames q)"
  "queue_frames (ob\<lparr>ob_queue := q\<rparr>) = concat (map entry_frames q)"
  by (simp_all add: queue_frames_def)

lemma queue_frames_same [simp]:
  "queue_frames (ob\<lparr>ob_held := h\<rparr>) = queue_frames ob"
  "queue_frames (ob\<lparr>ob_link_free := link\<rparr>) = queue_frames ob"
  "queue_frames (ob\<lparr>ob_writer_gone := g\<rparr>) = queue_frames ob"
  "queue_frames (update_ctl i f ob) = queue_frames ob"
  "queue_frames (drop_outgoing m ob) = queue_frames ob"
  by (simp_all add: queue_frames_def)

lemma wire_inv_other:
  assumes "wire_inv w" "frames_of w' = frames_of w" "ww_wire w' = ww_wire w"
    "(\<exists>m. ww_writer w' = InFlight m) = (\<exists>m. ww_writer w = InFlight m)"
    "ob_limits (ww_ob w') = ob_limits (ww_ob w)" "ob_ctls (ww_ob w') = ob_ctls (ww_ob w)"
    "h_frames (ob_held (ww_ob w')) = h_frames (ob_held (ww_ob w))"
    "h_bytes (ob_held (ww_ob w')) = h_bytes (ob_held (ww_ob w))"
    "h_aside (ob_held (ww_ob w')) = h_aside (ob_held (ww_ob w))"
  shows "wire_inv w'"
  using assms budget_ok_other [of "ww_ob w" "frames_of w" "ww_ob w'"]
    phases_ok_other [of "ww_ob w" "frames_of w" _ "ww_wire w" "ww_ob w'"]
  by (simp add: wire_inv_def)

lemma wire_inv_drop:
  assumes "budget_ok (ww_ob w) (m # queue_frames (ww_ob w))"
    "phases_ok (ww_ob w) (m # queue_frames (ww_ob w)) fly (ww_wire w)" "st \<in> {Idle, Gone}"
  shows "wire_inv (drop_to st m w)"
  using assms drop_head_budget [OF assms(1)] drop_head_phases [OF assms(2)]
  by (auto simp: wire_inv_def drop_to_def frames_of_def)

lemma wire_inv_queue:
  assumes "wire_inv w" "h_aside (ob_held (ww_ob w)) < usize_MAX"
  shows "wire_inv (w\<lparr>ww_ob := fst (queue_frame (ww_ob w) frame d c counted r)\<rparr>)"
proof (cases rule: queue_frame_cases [where ob = "ww_ob w" and frame = frame and d = d and c = c
      and counted = counted and r = r])
  case (refused e)
  with assms(1) show ?thesis by simp
next
  case (gone m)
  with assms gone_budget [of "ww_ob w" "frames_of w" counted m] gone_phases [of "ww_ob w" "frames_of w" _ "ww_wire w" m]
  show ?thesis by (auto simp: wire_inv_def frames_of_def queue_frames_def)
next
  case (taken m)
  let ?ob = "take_share counted (str_len frame) (ww_ob w)"
  have frames: "frames_of (w\<lparr>ww_ob := ?ob\<lparr>ob_queue := ob_queue (ww_ob w) @ [FrameEntry m]\<rparr>\<rparr>) = frames_of w @ [m]"
    by (simp add: frames_of_def queue_frames_def)
  have "budget_ok ?ob (frames_of w @ [m])"
    using take_share_budget [of "ww_ob w" "frames_of w" counted m] assms taken by (simp add: wire_inv_def)
  moreover have "phases_ok ?ob (frames_of w @ [m]) (\<exists>m. ww_writer w = InFlight m) (ww_wire w)"
    using take_share_phases [of "ww_ob w" "frames_of w" _ "ww_wire w" m] assms taken by (simp add: wire_inv_def)
  ultimately show ?thesis
    unfolding taken(1) fst_conv wire_inv_def frames
    by (simp add: budget_ok_other [of ?ob] phases_ok_other [of ?ob] del: take_share_simps(4))
qed

lemma wire_inv_turn:
  assumes "wire_inv w"
  shows "wire_inv (w\<lparr>ww_ob := fst (outbox_turn (ww_ob w) g)\<rparr>)"
  by (rule wire_inv_other [OF assms])
    (simp_all add: outbox_turn_def Let_def frames_of_def queue_frames_def)

lemma wire_inv_barrier:
  assumes "wire_inv w"
  shows "wire_inv (w\<lparr>ww_ob := fst (barrier (ww_ob w) i)\<rparr>)"
  by (rule wire_inv_other [OF assms])
    (simp_all add: barrier_def frames_of_def queue_frames_def)


lemma wire_inv_withdraw:
  assumes "wire_inv w" "i < length (ob_ctls (ww_ob w))"
  shows "wire_inv (w\<lparr>ww_ob := update_ctl i (\<lambda>c. fst (ctl_withdraw c)) (ww_ob w)\<rparr>)"
  using assms withdraw_budget withdraw_phases by (simp add: wire_inv_def frames_of_def)

lemma wire_inv_begun:
  assumes "wire_inv w" "ww_writer w = Ready m" "snd (ctl_begin (ob_ctls (ww_ob w) ! o_ctl m))"
  shows "wire_inv (w\<lparr>ww_ob := (update_ctl (o_ctl m) (\<lambda>c. fst (ctl_begin c)) (ww_ob w))\<lparr>ob_link_free := False\<rparr>,
    ww_writer := InFlight m, ww_wire := ww_wire w @ [o_ctl m]\<rparr>)"
proof -
  let ?ob = "update_ctl (o_ctl m) (\<lambda>c. fst (ctl_begin c)) (ww_ob w)"
  let ?ms = "m # queue_frames (ww_ob w)"
  have "budget_ok (ww_ob w) ?ms" "phases_ok (ww_ob w) ?ms False (ww_wire w)"
    using assms by (auto simp: wire_inv_def frames_of_def)
  then have "budget_ok ?ob ?ms" "phases_ok ?ob ?ms True (ww_wire w @ [o_ctl m])"
    using begin_phases assms(3) by (auto simp: budget_ok_def)
  then show ?thesis
    by (simp add: wire_inv_def frames_of_def budget_ok_other [of ?ob] phases_ok_other [of ?ob]
        del: update_ctl_simps(6))
qed

lemma wire_inv_head:
  assumes "wire_inv w" "writer_frames (ww_writer w) = [m]"
  shows "budget_ok (ww_ob w) (m # queue_frames (ww_ob w))"
    and "\<exists>fly. phases_ok (ww_ob w) (m # queue_frames (ww_ob w)) fly (ww_wire w)"
  using assms by (auto simp: wire_inv_def frames_of_def)

lemma wire_inv_drop_writer:
  assumes "wire_inv w" "writer_frames (ww_writer w) = [m]" "st \<in> {Idle, Gone}"
  shows "wire_inv (drop_to st m w)"
  using wire_inv_drop wire_inv_head [OF assms(1,2)] assms(3) by blast

lemma wire_inv_step:
  assumes "wire_step w w'" "wire_inv w"
  shows "wire_inv w'"
  using assms
proof (cases rule: wire_step.cases)
  case (recv e q)
  show ?thesis
    by (rule wire_inv_other [OF assms(2)]) (use recv in \<open>simp_all add: frames_of_def\<close>)
next
  case (reached i)
  show ?thesis by (rule wire_inv_other [OF assms(2)]) (use reached in \<open>simp_all add: frames_of_def\<close>)
next
  case (turn_over g link)
  show ?thesis
    by (rule wire_inv_other [OF assms(2)]) (use turn_over in \<open>simp_all add: frames_of_def turn_reached_def\<close>)
next
  case (ready m)
  show ?thesis by (rule wire_inv_other [OF assms(2)]) (use ready in \<open>simp_all add: frames_of_def\<close>)
next
  case (unusable m)
  let ?w = "w\<lparr>ww_ob := update_ctl (o_ctl m) (\<lambda>c. fst (ctl_withdraw c)) (ww_ob w)\<rparr>"
  have "o_ctl m < length (ob_ctls (ww_ob w))"
    using wire_inv_head(1) [OF assms(2), of m] unusable by (simp add: budget_ok_def)
  then show ?thesis
    using wire_inv_drop_writer [OF wire_inv_withdraw [OF assms(2)], of _ m Idle] unusable by simp
next
  case (stop m)
  have one: "writer_frames (ww_writer w) = [m]" using stop by auto
  show ?thesis
    by (rule wire_inv_other [OF wire_inv_drop_writer [OF assms(2) one, of Gone]])
      (use stop in \<open>simp_all add: drop_to_def frames_of_def\<close>)
next
  case (stop_idle g)
  show ?thesis
    by (rule wire_inv_other [OF assms(2)]) (use stop_idle in \<open>auto simp: frames_of_def\<close>)
next
  case (drain m q)
  let ?w = "w\<lparr>ww_ob := (ww_ob w)\<lparr>ob_queue := q\<rparr>\<rparr>"
  have "budget_ok (ww_ob ?w) (m # queue_frames (ww_ob ?w))"
    "phases_ok (ww_ob ?w) (m # queue_frames (ww_ob ?w)) False (ww_wire ?w)"
    using assms(2) drain by (auto simp: wire_inv_def frames_of_def budget_ok_def phases_ok_def)
  then show ?thesis unfolding drain(1) using wire_inv_drop [of ?w m False Gone] by simp
next
  case (drain_other e q)
  then have "entry_frames e = []" by (cases e) auto
  show ?thesis
    by (rule wire_inv_other [OF assms(2)])
      (use drain_other \<open>entry_frames e = []\<close> in \<open>simp_all add: frames_of_def\<close>)
qed (use assms(2) in \<open>auto simp: wire_inv_queue wire_inv_withdraw wire_inv_turn wire_inv_barrier
    wire_inv_begun wire_inv_drop_writer direct_drop_def seal_def frames_of_def
    intro: wire_inv_other [OF assms(2)]\<close>)

lemma wire_inv_start: "wire_ok l \<Longrightarrow> wire_inv (wire_world_new l)"
  by (simp add: wire_inv_def wire_world_new_def outbox_new_def held_default_def frames_of_def
      budget_ok_def phases_ok_def)

theorem wire_reach_inv:
  assumes "wire_reach l w" "wire_ok l"
  shows "wire_inv w"
  using assms by induction (auto intro: wire_inv_start wire_inv_step)


subsection \<open>Turns\<close>

fun entry_turns :: "entry \<Rightarrow> nat list" where
  "entry_turns (TurnEntry g) = [g]"
| "entry_turns _ = []"

definition turns_waiting :: "wire_world \<Rightarrow> nat list" where
  "turns_waiting w =
     (case ww_writer w of Taken e \<Rightarrow> entry_turns e | _ \<Rightarrow> []) @ concat (map entry_turns (ob_queue (ww_ob w)))"

definition turns_ok :: "wire_world \<Rightarrow> bool" where
  "turns_ok w \<longleftrightarrow>
     length (turns_waiting w) \<le> h_turns (ob_held (ww_ob w)) \<and>
     (\<not> h_queueing (ob_held (ww_ob w)) \<longrightarrow> ob_queue (ww_ob w) = [] \<and> ww_writer w \<in> {Idle, Gone})"

lemma drop_outgoing_held [simp]:
  "h_turns (ob_held (drop_outgoing m ob)) = h_turns (ob_held ob)"
  "h_queueing (ob_held (drop_outgoing m ob)) = h_queueing (ob_held ob)"
  by (simp_all add: drop_outgoing_def Let_def release_def release_aside_def)

lemma take_share_held [simp]:
  "h_turns (ob_held (take_share counted bytes ob)) = h_turns (ob_held ob)"
  "h_queueing (ob_held (take_share counted bytes ob))"
  by (simp_all add: take_share_def Let_def)

lemma turns_ok_queue:
  assumes "turns_ok w"
  shows "turns_ok (w\<lparr>ww_ob := fst (queue_frame (ww_ob w) frame d c counted r)\<rparr>)"
  by (cases rule: queue_frame_cases [where ob = "ww_ob w" and frame = frame and d = d and c = c
        and counted = counted and r = r])
    (use assms in \<open>simp_all add: turns_ok_def turns_waiting_def\<close>)

lemma turns_ok_turn:
  assumes "turns_ok w" "h_turns (ob_held (ww_ob w)) < usize_MAX"
  shows "turns_ok (w\<lparr>ww_ob := fst (outbox_turn (ww_ob w) g)\<rparr>)"
  using assms by (auto simp: turns_ok_def turns_waiting_def outbox_turn_def Let_def wrap_add_exact)

lemma turns_ok_step:
  assumes "wire_step w w'" "turns_ok w"
  shows "turns_ok w'"
  using assms
proof (cases rule: wire_step.cases)
  case queue
  then show ?thesis using turns_ok_queue [OF assms(2)] by simp
next
  case turn
  then show ?thesis using turns_ok_turn [OF assms(2)] by simp
qed (use assms(2) in \<open>auto simp: turns_ok_def turns_waiting_def drop_to_def direct_drop_def seal_def
    barrier_def turn_reached_def split: writer.splits\<close>)

lemma limits_step:
  assumes "wire_step w w'"
  shows "ob_limits (ww_ob w') = ob_limits (ww_ob w)"
  using assms
proof (cases rule: wire_step.cases)
  case (queue frame d c counted r)
  then show ?thesis
    by (cases rule: queue_frame_cases [where ob = "ww_ob w" and frame = frame and d = d and c = c
          and counted = counted and r = r]) simp_all
qed (simp_all add: drop_to_def direct_drop_def seal_def barrier_def turn_reached_def outbox_turn_def Let_def)

lemma wire_reach_side:
  assumes "wire_reach l w"
  shows "ob_limits (ww_ob w) = l \<and> turns_ok w"
  using assms
  by induction (auto simp: limits_step turns_ok_step, simp_all add: wire_world_new_def outbox_new_def
      held_default_def turns_ok_def turns_waiting_def)


text \<open>A frame the caller withdrew stays unwritten.\<close>

definition given_up_frame :: "nat \<Rightarrow> outbox \<Rightarrow> bool" where
  "given_up_frame i ob \<longleftrightarrow> i < length (ob_ctls ob) \<and> phase_of ob i = UNWRITTEN"

lemma given_up_update:
  assumes "given_up_frame i ob" "\<And>c. fc_phase c = UNWRITTEN \<Longrightarrow> fc_phase (f c) = UNWRITTEN"
  shows "given_up_frame i (update_ctl j f ob)"
  using assms by (cases "j < length (ob_ctls ob)") (auto simp: given_up_frame_def update_ctl_def nth_list_update)

lemma given_up_drop:
  "given_up_frame i ob \<Longrightarrow> given_up_frame i (drop_outgoing m ob)"
  using given_up_update [of i ob ctl_settle "o_ctl m"]
  by (simp add: given_up_frame_def ctl_ops_phase del: update_ctl_simps(6))

lemma given_up_step:
  assumes "wire_step w w'" "given_up_frame i (ww_ob w)"
  shows "given_up_frame i (ww_ob w')"
  using assms
proof (cases rule: wire_step.cases)
  case (queue frame d c counted r)
  have "given_up_frame i (take_share counted (str_len frame) (ww_ob w))"
    using assms(2) by (simp add: given_up_frame_def nth_append)
  then show ?thesis
    using queue assms(2)
    by (cases rule: queue_frame_cases [where ob = "ww_ob w" and frame = frame and d = d and c = c
          and counted = counted and r = r])
      (simp_all add: given_up_drop, simp add: given_up_frame_def)
next
  case (begun m)
  have "o_ctl m \<noteq> i" using begun assms(2) by (auto simp: given_up_frame_def ctl_ops_phase)
  with begun assms(2) show ?thesis
    by (auto simp: given_up_frame_def update_ctl_def)
next
  case (turn g)
  with assms(2) show ?thesis by (simp add: given_up_frame_def outbox_turn_def Let_def)
next
  case (withdraw j)
  with assms(2) show ?thesis by (simp add: given_up_update ctl_ops_phase)
next
  case (unusable m)
  have "given_up_frame i (update_ctl (o_ctl m) (\<lambda>c. fst (ctl_withdraw c)) (ww_ob w))"
    by (rule given_up_update [OF assms(2)]) (simp add: ctl_ops_phase)
  with unusable show ?thesis by (simp add: drop_to_def given_up_drop)
next
  case (drain m q)
  have "given_up_frame i ((ww_ob w)\<lparr>ob_queue := q\<rparr>)" using assms(2) by (simp add: given_up_frame_def)
  with drain show ?thesis by (simp add: drop_to_def given_up_drop)
next
  case (stop m)
  with given_up_drop [OF assms(2), of m] show ?thesis by (simp add: given_up_frame_def)
qed (use assms(2) in \<open>auto simp: drop_to_def given_up_drop, (simp add: given_up_frame_def
    direct_drop_def seal_def barrier_def turn_reached_def)+\<close>)

lemma wire_steps_reach:
  assumes "wire_step\<^sup>*\<^sup>* w w'" "wire_reach l w"
  shows "wire_reach l w'"
  using assms by induction (auto intro: wire_reach.step)

lemma given_up_steps:
  assumes "wire_step\<^sup>*\<^sup>* w w'" "given_up_frame i (ww_ob w)"
  shows "given_up_frame i (ww_ob w')"
  using assms by induction (auto intro: given_up_step)


subsection \<open>What was taken, and what became of it\<close>

text \<open>
  The same steps with a record of what callers were promised. A frame is taken when \<open>queue_frame\<close> hands
  out its ticket, a turn when it is queued or when the link is the caller's on the spot (\<open>NowOf\<close>: taken
  and settled at once), a barrier when it is queued. An entry is settled when the writer is through with
  it: the flag says whether it reached the link (a frame whose write began, a turn that was handed the
  link, a barrier that was answered) or was let go (withdrawn, refused, drained after the writer
  stopped). Every step of the record is a step of the wire and the other way round (\<open>order_step_wire\<close>,
  \<open>wire_step_order\<close>). A caller on the direct path never enters the queue.
\<close>

datatype order_label = FrameOf nat | TurnOf nat | NowOf nat | BarrierOf nat

fun entry_order :: "entry \<Rightarrow> order_label" where
  "entry_order (FrameEntry m) = FrameOf (o_ctl m)"
| "entry_order (TurnEntry g) = TurnOf g"
| "entry_order (BarrierEntry i) = BarrierOf i"

fun in_hand :: "writer \<Rightarrow> order_label list" where
  "in_hand (Taken e) = [entry_order e]"
| "in_hand (Ready m) = [FrameOf (o_ctl m)]"
| "in_hand (InFlight m) = [FrameOf (o_ctl m)]"
| "in_hand _ = []"

definition pending :: "wire_world \<Rightarrow> order_label list" where
  "pending w = in_hand (ww_writer w) @ map entry_order (ob_queue (ww_ob w))"

fun turn_taken :: "turn \<Rightarrow> nat \<Rightarrow> order_label list" where
  "turn_taken NowTurn g = [NowOf g]"
| "turn_taken (QueuedTurn grant) g = [TurnOf grant]"
| "turn_taken DirectTurn g = []"
| "turn_taken StoppedTurn g = []"

fun turn_settled :: "turn \<Rightarrow> nat \<Rightarrow> (order_label \<times> bool) list" where
  "turn_settled NowTurn g = [(NowOf g, True)]"
| "turn_settled _ g = []"

text \<open>The writer's moves that leave its entry unsettled.\<close>

fun goes_on :: "writer \<Rightarrow> writer \<Rightarrow> bool" where
  "goes_on Idle (Taken e) = True"
| "goes_on Idle Gone = True"
| "goes_on (Taken e) (Ready m) = True"
| "goes_on (Ready m) (InFlight n) = True"
| "goes_on _ _ = False"

definition reached_link :: "wire_world \<Rightarrow> wire_world \<Rightarrow> bool" where
  "reached_link w w' \<longleftrightarrow>
     (case ww_writer w of
        InFlight m \<Rightarrow> True
      | Taken (TurnEntry g) \<Rightarrow> ww_writer w' = Idle \<and> \<not> ob_link_free (ww_ob w')
      | Taken (BarrierEntry i) \<Rightarrow> ww_writer w' = Idle
      | _ \<Rightarrow> False)"

record wire_record =
  wr_world :: wire_world
  wr_taken :: "order_label list"
  wr_settled :: "(order_label \<times> bool) list"

definition wire_record_new :: "wire_options \<Rightarrow> wire_record" where
  "wire_record_new l = \<lparr>wr_world = wire_world_new l, wr_taken = [], wr_settled = []\<rparr>"

inductive order_step :: "wire_record \<Rightarrow> wire_record \<Rightarrow> bool" where
  frame_in: "w = wr_world r \<Longrightarrow> h_aside (ob_held (ww_ob w)) < usize_MAX \<Longrightarrow>
    queue_frame (ww_ob w) frame deadline call counted reply = (ob, Inr i) \<Longrightarrow>
    order_step r (r\<lparr>wr_world := w\<lparr>ww_ob := ob\<rparr>, wr_taken := wr_taken r @ [FrameOf i]\<rparr>)"
| frame_refused: "w = wr_world r \<Longrightarrow> h_aside (ob_held (ww_ob w)) < usize_MAX \<Longrightarrow>
    queue_frame (ww_ob w) frame deadline call counted reply = (ob, Inl e) \<Longrightarrow>
    order_step r (r\<lparr>wr_world := w\<lparr>ww_ob := ob\<rparr>\<rparr>)"
| turn_in: "w = wr_world r \<Longrightarrow> h_turns (ob_held (ww_ob w)) < usize_MAX \<Longrightarrow>
    outbox_turn (ww_ob w) g = (ob, t) \<Longrightarrow>
    order_step r (r\<lparr>wr_world := w\<lparr>ww_ob := ob\<rparr>, wr_taken := wr_taken r @ turn_taken t g,
      wr_settled := wr_settled r @ turn_settled t g\<rparr>)"
| barrier_in: "w = wr_world r \<Longrightarrow> barrier (ww_ob w) i = (ob, Some j) \<Longrightarrow>
    order_step r (r\<lparr>wr_world := w\<lparr>ww_ob := ob\<rparr>, wr_taken := wr_taken r @ [BarrierOf j]\<rparr>)"
| barrier_none: "w = wr_world r \<Longrightarrow> barrier (ww_ob w) i = (ob, None) \<Longrightarrow>
    order_step r (r\<lparr>wr_world := w\<lparr>ww_ob := ob\<rparr>\<rparr>)"
| frame_withdraw: "w = wr_world r \<Longrightarrow> i < length (ob_ctls (ww_ob w)) \<Longrightarrow>
    order_step r (r\<lparr>wr_world := w\<lparr>ww_ob := update_ctl i (\<lambda>c. fst (ctl_withdraw c)) (ww_ob w)\<rparr>\<rparr>)"
| direct_done: "w = wr_world r \<Longrightarrow> order_step r (r\<lparr>wr_world := w\<lparr>ww_ob := direct_drop (ww_ob w)\<rparr>\<rparr>)"
| sealing: "w = wr_world r \<Longrightarrow> order_step r (r\<lparr>wr_world := w\<lparr>ww_ob := seal (ww_ob w)\<rparr>\<rparr>)"
| link_back: "w = wr_world r \<Longrightarrow>
    order_step r (r\<lparr>wr_world := w\<lparr>ww_ob := (ww_ob w)\<lparr>ob_link_free := True\<rparr>\<rparr>\<rparr>)"
| going_on: "wire_step (wr_world r) w' \<Longrightarrow> goes_on (ww_writer (wr_world r)) (ww_writer w') \<Longrightarrow>
    order_step r (r\<lparr>wr_world := w'\<rparr>)"
| over: "wire_step (wr_world r) w' \<Longrightarrow> in_hand (ww_writer (wr_world r)) = [x] \<Longrightarrow>
    ww_writer w' \<in> {Idle, Gone} \<Longrightarrow>
    order_step r (r\<lparr>wr_world := w', wr_settled := wr_settled r @ [(x, reached_link (wr_world r) w')]\<rparr>)"
| drained: "wire_step (wr_world r) w' \<Longrightarrow> ww_writer (wr_world r) = Gone \<Longrightarrow>
    ob_queue (ww_ob (wr_world r)) = e # q \<Longrightarrow> ob_queue (ww_ob w') = q \<Longrightarrow>
    order_step r (r\<lparr>wr_world := w', wr_settled := wr_settled r @ [(entry_order e, False)]\<rparr>)"

inductive order_reach :: "wire_options \<Rightarrow> wire_record \<Rightarrow> bool" for l where
  start: "order_reach l (wire_record_new l)"
| step: "order_reach l r \<Longrightarrow> order_step r r' \<Longrightarrow> order_reach l r'"

lemma order_step_wire: "order_step r r' \<Longrightarrow> wire_step (wr_world r) (wr_world r')"
proof (induction rule: order_step.induct)
  case (frame_in w r frame d c counted reply ob i)
  with wire_step.queue [of w frame d c counted reply] show ?case by simp
next
  case (frame_refused w r frame d c counted reply ob e)
  with wire_step.queue [of w frame d c counted reply] show ?case by simp
next
  case (turn_in w r g ob t)
  with wire_step.turn [of w g] show ?case by simp
next
  case (barrier_in w r i ob j)
  with wire_step.barrier [of w i] show ?case by simp
next
  case (barrier_none w r i ob)
  with wire_step.barrier [of w i] show ?case by simp
qed (auto intro: wire_step.intros)

lemma order_reach_wire: "order_reach l r \<Longrightarrow> wire_reach l (wr_world r)"
  by (induction rule: order_reach.induct)
    (auto simp: wire_record_new_def intro: wire_reach.intros order_step_wire)

text \<open>No step of the wire goes unrecorded.\<close>

lemma wire_step_order:
  assumes "wire_step (wr_world r) w'"
  shows "\<exists>r'. order_step r r' \<and> wr_world r' = w'"
proof -
  have on: ?thesis if "goes_on (ww_writer (wr_world r)) (ww_writer w')"
    using going_on [OF assms that] by fastforce
  have ended: ?thesis if "in_hand (ww_writer (wr_world r)) = [x]" "ww_writer w' \<in> {Idle, Gone}" for x
    using over [OF assms that] by fastforce
  from assms show ?thesis
  proof (cases rule: wire_step.cases)
    case (queue frame d c counted reply)
    obtain ob res where q: "queue_frame (ww_ob (wr_world r)) frame d c counted reply = (ob, res)" by fastforce
    show ?thesis
    proof (cases res)
      case (Inl e)
      with queue q show ?thesis using frame_refused [OF refl queue(2) q [unfolded Inl]] by fastforce
    next
      case (Inr i)
      with queue q show ?thesis using frame_in [OF refl queue(2) q [unfolded Inr]] by fastforce
    qed
  next
    case (withdraw i)
    then show ?thesis using frame_withdraw [OF refl withdraw(2)] by fastforce
  next
    case (turn g)
    obtain ob t where t: "outbox_turn (ww_ob (wr_world r)) g = (ob, t)" by fastforce
    with turn show ?thesis using turn_in [OF refl turn(2) t] by fastforce
  next
    case direct
    then show ?thesis using direct_done [OF refl, of r] by fastforce
  next
    case seal
    then show ?thesis using sealing [OF refl, of r] by fastforce
  next
    case (barrier i)
    obtain ob res where b: "Outbox.barrier (ww_ob (wr_world r)) i = (ob, res)" by fastforce
    show ?thesis
    proof (cases res)
      case None
      with barrier b show ?thesis using barrier_none [OF refl b [unfolded None]] by fastforce
    next
      case (Some j)
      with barrier b show ?thesis using barrier_in [OF refl b [unfolded Some]] by fastforce
    qed
  next
    case give_back
    then show ?thesis using link_back [OF refl, of r] by fastforce
  next
    case (stop_idle g)
    then show ?thesis using on ended by (auto split: if_splits)
  next
    case (stop m)
    then show ?thesis using ended by (auto simp: drop_to_def)
  next
    case (drain m q)
    then show ?thesis using drained [OF assms drain(2,3)] by (fastforce simp: drop_to_def)
  next
    case (drain_other e q)
    then show ?thesis using drained [OF assms drain_other(2,3)] by fastforce
  qed (use on ended in \<open>simp_all add: drop_to_def\<close>)
qed

text \<open>Frames and turns write; a barrier only waits, so a turn may be taken on the spot before it.\<close>

fun writes :: "order_label \<Rightarrow> bool" where
  "writes (BarrierOf i) = False"
| "writes _ = True"

fun was_queued :: "order_label \<Rightarrow> bool" where
  "was_queued (NowOf g) = False"
| "was_queued _ = True"

fun begun_frame :: "order_label \<times> bool \<Rightarrow> nat list" where
  "begun_frame (FrameOf i, True) = [i]"
| "begun_frame _ = []"

fun in_flight :: "writer \<Rightarrow> nat list" where
  "in_flight (InFlight m) = [o_ctl m]"
| "in_flight _ = []"

definition order_inv :: "wire_record \<Rightarrow> bool" where
  "order_inv r \<longleftrightarrow>
     filter was_queued (wr_taken r) = filter was_queued (map fst (wr_settled r)) @ pending (wr_world r) \<and>
     filter writes (wr_taken r) = filter writes (map fst (wr_settled r)) @ filter writes (pending (wr_world r)) \<and>
     ww_wire (wr_world r) = concat (map begun_frame (wr_settled r)) @ in_flight (ww_writer (wr_world r))"

lemma now_turn_alone:
  assumes "wire_reach l w" "wire_ok l" "outbox_turn (ww_ob w) g = (ob', NowTurn)"
  shows "frames_of w = []" "turns_waiting w = []" "ob_link_free (ww_ob w)" "\<not> ob_link_free ob'"
proof -
  have books: "h_frames (ob_held (ww_ob w)) = counted_frames (frames_of w)"
    "h_aside (ob_held (ww_ob w)) = aside_frames (frames_of w)"
    using wire_reach_inv [OF assms(1,2)] by (auto simp: wire_inv_def budget_ok_def)
  have empty: "ms = []" if "counted_frames ms = 0" "aside_frames ms = 0" for ms
    using that by (cases ms) (auto split: if_splits)
  have turns: "turns_ok w" using wire_reach_side [OF assms(1)] by simp
  have "frames_of w = [] \<and> turns_waiting w = [] \<and> ob_link_free (ww_ob w) \<and> \<not> ob_link_free ob'"
  proof (cases "h_queueing (ob_held (ww_ob w))")
    case True
    with assms(3) books empty [of "frames_of w"] turns show ?thesis
      by (auto simp: outbox_turn_def Let_def turns_ok_def split: if_splits)
  next
    case False
    with assms(3) turns show ?thesis
      by (auto simp: outbox_turn_def Let_def turns_ok_def frames_of_def turns_waiting_def split: if_splits)
  qed
  then show "frames_of w = []" "turns_waiting w = []" "ob_link_free (ww_ob w)" "\<not> ob_link_free ob'"
    by blast+
qed

lemma nothing_to_write:
  assumes "frames_of w = []" "turns_waiting w = []"
  shows "filter writes (pending w) = []"
proof -
  have idle: "\<not> writes (entry_order e)" if "entry_frames e = []" "entry_turns e = []" for e
    using that by (cases e) simp_all
  have "\<not> writes x" if "x \<in> set (in_hand (ww_writer w))" for x
    using assms that idle by (cases "ww_writer w") (auto simp: frames_of_def turns_waiting_def)
  moreover have "\<not> writes (entry_order e)" if "e \<in> set (ob_queue (ww_ob w))" for e
    using assms that idle [of e] by (auto simp: frames_of_def queue_frames_def turns_waiting_def)
  ultimately show ?thesis by (auto simp: pending_def filter_empty_conv)
qed

lemma going_on_facts:
  assumes "wire_step w w'" "goes_on (ww_writer w) (ww_writer w')"
  shows "pending w' = pending w" "in_flight (ww_writer w) = []"
    "ww_wire w' = ww_wire w @ in_flight (ww_writer w')"
proof -
  have not_same: "\<not> goes_on st st" for st by (cases st) simp_all
  show "pending w' = pending w" using assms
    by (cases rule: wire_step.cases) (auto simp: pending_def not_same drop_to_def)
  show "in_flight (ww_writer w) = []" using assms(2) by (cases "ww_writer w") simp_all
  show "ww_wire w' = ww_wire w @ in_flight (ww_writer w')" using assms
    by (cases rule: wire_step.cases) (auto simp: not_same drop_to_def)
qed

lemma over_facts:
  assumes "wire_step w w'" "in_hand (ww_writer w) = [x]" "ww_writer w' \<in> {Idle, Gone}"
  shows "pending w = x # pending w'" "in_flight (ww_writer w') = []" "ww_wire w' = ww_wire w"
    "begun_frame (x, reached_link w w') = in_flight (ww_writer w)" "was_queued x"
proof -
  have "was_queued (entry_order e)" for e by (cases e) simp_all
  then show "was_queued x" using assms(2) by (cases "ww_writer w") auto
  show "pending w = x # pending w'" using assms
    by (cases rule: wire_step.cases) (auto simp: pending_def drop_to_def turn_reached_def)
  show "in_flight (ww_writer w') = []" using assms(3) by auto
  show "ww_wire w' = ww_wire w" using assms by (cases rule: wire_step.cases) (auto simp: drop_to_def)
  show "begun_frame (x, reached_link w w') = in_flight (ww_writer w)"
  proof (cases "ww_writer w")
    case (Taken e)
    with assms(2) show ?thesis by (cases e) (auto simp: reached_link_def)
  qed (use assms(2) in \<open>auto simp: reached_link_def\<close>)
qed

lemma drained_facts:
  assumes "wire_step w w'" "ww_writer w = Gone" "ob_queue (ww_ob w) = e # q" "ob_queue (ww_ob w') = q"
  shows "ww_writer w' = Gone" "ww_wire w' = ww_wire w"
proof -
  show "ww_writer w' = Gone" using assms(1,2) by (cases rule: wire_step.cases) (auto simp: drop_to_def)
  show "ww_wire w' = ww_wire w" using assms(1,2) by (cases rule: wire_step.cases) (auto simp: drop_to_def)
qed

lemma order_inv_step:
  assumes "order_step r r'" "order_inv r" "wire_reach l (wr_world r)" "wire_ok l"
  shows "order_inv r'"
  using assms(1)
proof (cases rule: order_step.cases)
  case (frame_in w frame d c counted reply ob i)
  with assms(2) show ?thesis
    by (cases rule: queue_frame_cases [where ob = "ww_ob w" and frame = frame and d = d and c = c
          and counted = counted and r = reply])
      (auto simp: order_inv_def pending_def)
next
  case (frame_refused w frame d c counted reply ob e)
  with assms(2) show ?thesis
    by (cases rule: queue_frame_cases [where ob = "ww_ob w" and frame = frame and d = d and c = c
          and counted = counted and r = reply])
      (auto simp: order_inv_def pending_def)
next
  case (turn_in w g ob t)
  show ?thesis
  proof (cases t)
    case NowTurn
    then have "filter writes (pending w) = []"
      using now_turn_alone [OF assms(3,4), of g ob] turn_in by (simp add: nothing_to_write)
    moreover have "ob_queue ob = ob_queue (ww_ob w)"
      using turn_in(4) NowTurn by (auto simp: outbox_turn_def Let_def split: if_splits)
    ultimately show ?thesis using assms(2) turn_in NowTurn by (simp add: order_inv_def pending_def)
  qed (use assms(2) turn_in in
      \<open>auto simp: order_inv_def pending_def outbox_turn_def Let_def split: if_splits\<close>)
next
  case (barrier_in w i ob j)
  with assms(2) show ?thesis by (auto simp: order_inv_def pending_def barrier_def split: if_splits)
next
  case (barrier_none w i ob)
  with assms(2) show ?thesis by (auto simp: order_inv_def pending_def barrier_def split: if_splits)
next
  case (going_on w')
  with assms(2) going_on_facts [OF going_on(2,3)] show ?thesis by (simp add: order_inv_def)
next
  case (over w' x)
  with assms(2) over_facts [OF over(2-4)] show ?thesis by (simp add: order_inv_def)
next
  case (drained w' e q)
  have "was_queued (entry_order e)" by (cases e) simp_all
  moreover have "begun_frame (entry_order e, False) = []" by (cases e) simp_all
  ultimately show ?thesis
    using assms(2) drained drained_facts [OF drained(2-5)] by (simp add: order_inv_def pending_def)
qed (use assms(2) in \<open>auto simp: order_inv_def pending_def direct_drop_def seal_def\<close>)

lemma order_reach_inv:
  assumes "order_reach l r" "wire_ok l"
  shows "order_inv r"
  using assms
proof (induction rule: order_reach.induct)
  case start
  show ?case by (simp add: order_inv_def wire_record_new_def wire_world_new_def outbox_new_def pending_def)
next
  case (step r r')
  then show ?case using order_inv_step order_reach_wire by blast
qed


subsection \<open>What the outbox promises\<close>

lemma bound_round_trip: "bound_from_subject (bound_subject b) = Some b"
  by (cases b; hypsubst; code_simp)

text \<open>C5: whatever the callers, the writer and the link do, and in whatever order, the books are
  exact and within the host's bounds: the frames and bytes the budget counts are those of the frames
  still queued or in the writer's hands, and no frame over the bound of one frame is ever among them.\<close>

theorem outbox_budget_exact:
  assumes "wire_reach l w" "wire_ok l"
  shows "h_frames (ob_held (ww_ob w)) = counted_frames (frames_of w) \<and>
    h_bytes (ob_held (ww_ob w)) = counted_bytes (frames_of w) \<and>
    h_frames (ob_held (ww_ob w)) \<le> max_outbound_queued_frames l \<and>
    h_bytes (ob_held (ww_ob w)) \<le> max_outbound_queued_bytes l \<and>
    (\<forall>m \<in> set (frames_of w). str_len (o_frame m) \<le> max_outbound_frame_bytes l)"
  using wire_reach_inv [OF assms] wire_reach_side [OF assms(1)]
  by (auto simp: wire_inv_def budget_ok_def)

text \<open>The frames whose write began are exactly those whose ticket says so, each once and in the
  order they were queued, whoever withdrew what in between.\<close>

theorem wire_order_once:
  assumes "wire_reach l w" "wire_ok l"
  shows "sorted_wrt (<) (ww_wire w) \<and>
    (\<forall>i < length (ob_ctls (ww_ob w)). i \<in> set (ww_wire w) \<longleftrightarrow> written_started (ww_ob w) i)"
  using wire_reach_inv [OF assms] by (auto simp: wire_inv_def phases_ok_def written_started_def)

text \<open>C6: a caller whose \<open>withdraw\<close> succeeds can treat its call as never sent: from then on, whatever
  happens, its frame is not among those whose write began and its ticket never says it started.\<close>

theorem withdrawn_never_written:
  assumes "wire_reach l w" "wire_ok l" "i < length (ob_ctls (ww_ob w))"
    "snd (ctl_withdraw (ob_ctls (ww_ob w) ! i))"
    "wire_step\<^sup>*\<^sup>* (w\<lparr>ww_ob := update_ctl i (\<lambda>c. fst (ctl_withdraw c)) (ww_ob w)\<rparr>) w'"
  shows "i \<notin> set (ww_wire w') \<and> \<not> written_started (ww_ob w') i"
proof -
  let ?w = "w\<lparr>ww_ob := update_ctl i (\<lambda>c. fst (ctl_withdraw c)) (ww_ob w)\<rparr>"
  have "wire_reach l ?w" using assms(1,3) by (blast intro: wire_reach.step wire_step.withdraw)
  then have "wire_reach l w'" by (rule wire_steps_reach [OF assms(5)])
  then have "phases_ok (ww_ob w') (frames_of w') (\<exists>m. ww_writer w' = InFlight m) (ww_wire w')"
    using wire_reach_inv [OF _ assms(2)] by (simp add: wire_inv_def)
  moreover have "given_up_frame i (ww_ob ?w)"
    using assms(3,4) by (simp add: given_up_frame_def ctl_ops_phase)
  then have "given_up_frame i (ww_ob w')" by (rule given_up_steps [OF assms(5)])
  ultimately show ?thesis
    by (auto simp: phases_ok_def given_up_frame_def written_started_def ctl_began_def)
qed

text \<open>C8: a caller that is told to write now is alone: no frame is queued or in the writer's hands, no
  other caller's turn is waiting, the link was free, and it is this caller's until it gives it back.\<close>

theorem turn_now_is_alone:
  assumes "wire_reach l w" "wire_ok l" "outbox_turn (ww_ob w) g = (ob', NowTurn)"
  shows "frames_of w = [] \<and> turns_waiting w = [] \<and> ob_link_free (ww_ob w) \<and> \<not> ob_link_free ob'"
  using now_turn_alone [OF assms] by simp

text \<open>A refusal blames the right side. Whether a frame is too large, or a budget has no room for it
  at all, does not depend on what is queued; only \<open>QueueFull\<close> does, and the same frame would have been
  taken by an empty queue.\<close>

theorem refusal_blames_backlog_only:
  assumes "admission w frames held_bytes n = Inl r"
  shows "case r of
      FrameTooLarge limit received \<Rightarrow> received = n \<and> limit < n \<and> (\<forall>f b. admission w f b n = Inl r)
    | NoRoomAtAll _ _ _ \<Rightarrow> max_outbound_queued_frames w = 0 \<and> (\<forall>f b. admission w f b n = Inl r)
    | QueueFull _ limit received \<Rightarrow> limit < received \<and> admission w 0 0 n = Inr ()
    | _ \<Rightarrow> False"
  using assms by (auto simp: admission_def Let_def sat_add_def split: if_splits)

text \<open>Every refusal of the bounds reaches the caller as a frame that was never submitted, with the
  bound it met named and read back by \<open>OutboundBound::exceeded_by\<close>.\<close>

theorem refusal_is_typed:
  assumes "admission w frames held_bytes n = Inl r"
  shows "error_dispatch (refused_error peer r) = NotSubmitted \<and>
    (\<exists>b limit received. exceeded_by (refused_error peer r) = Some b \<and> limit < received \<and>
       cause (refused_error peer r) = LimitExceeded (bound_subject b) limit received)"
  using assms
  by (auto simp: admission_def Let_def overflow_error_def exceeded_by_def bound_round_trip
      simp del: bound_subject.simps split: if_splits)

text \<open>C7: everything callers were promised is kept in order. Whatever the callers, the writer and the
  link do, what was taken is what was settled followed by what still waits, the writer's own entry
  first: nothing is lost, repeated or overtaken. This holds of all that goes through the queue, barriers
  included, and of all that writes, the turns granted on the spot included: none of these is ever let
  past a frame or a turn taken before it. The frames whose write began are those the record says so
  of, in that order.\<close>

theorem outbox_fifo:
  assumes "order_reach l r" "wire_ok l"
  shows "filter was_queued (wr_taken r) = filter was_queued (map fst (wr_settled r)) @ pending (wr_world r) \<and>
    filter writes (wr_taken r) =
      filter writes (map fst (wr_settled r)) @ filter writes (pending (wr_world r)) \<and>
    ww_wire (wr_world r) = concat (map begun_frame (wr_settled r)) @ in_flight (ww_writer (wr_world r))"
  using order_reach_inv [OF assms] unfolding order_inv_def .


subsection \<open>A connection with room for two frames\<close>

definition demo_limits :: wire_options where
  "demo_limits = wire_options_default
     \<lparr>max_outbound_frame_bytes := 4, max_outbound_queued_bytes := 6, max_outbound_queued_frames := 2\<rparr>"

definition demo_queued :: wire_world where
  "demo_queued = (wire_world_new demo_limits)
     \<lparr>ww_ob := fst (queue_frame (outbox_new demo_limits) (lit ''ab'') 9 (Some 1) True False)\<rparr>"

lemmas demo_wire_defs = demo_limits_def demo_queued_def wire_world_new_def outbox_new_def held_default_def
  wire_options_default_def queue_frame_def frame_check_def admission_def take_share_def sat_add_def
  wrap_add_def usize_MAX_def Let_def frames_of_def queue_frames_def written_started_def ctl_began_def

lemma demo_wire_ok: "wire_ok demo_limits"
  by (simp add: wire_ok_def demo_limits_def wire_options_default_def usize_MAX_def)

lemma demo_len: "str_len (lit ''ab'') = 2" by code_simp

lemma demo_queued_reach: "wire_reach demo_limits demo_queued"
proof -
  have "h_aside (ob_held (ww_ob (wire_world_new demo_limits))) < usize_MAX"
    by (simp add: wire_world_new_def outbox_new_def held_default_def usize_MAX_def)
  from wire_step.queue [OF this, of "lit ''ab''" 9 "Some 1" True False]
  have "wire_step (wire_world_new demo_limits) demo_queued"
    by (simp add: demo_queued_def wire_world_new_def)
  then show ?thesis by (blast intro: wire_reach.intros)
qed

lemma demo_queued_eq:
  "ww_writer demo_queued = Idle" "ww_wire demo_queued = []"
  "ob_ctls (ww_ob demo_queued) = [\<lparr>fc_phase = QUEUED, fc_bytes = 2\<rparr>]"
  "h_frames (ob_held (ww_ob demo_queued)) = 1" "h_bytes (ob_held (ww_ob demo_queued)) = 2"
  "frames_of demo_queued = [\<lparr>o_frame = lit ''ab'', o_ctl = 0, o_deadline = 9, o_call = Some 1,
     o_counted = True, o_reply = False\<rparr>]"
  by (simp_all add: demo_wire_defs demo_len)

lemma outbox_budget_exact_witness:
  "counted_frames (frames_of demo_queued) = 1 \<and> counted_bytes (frames_of demo_queued) = 2 \<and>
   2 \<le> max_outbound_queued_bytes demo_limits"
  using outbox_budget_exact [OF demo_queued_reach demo_wire_ok] by (simp add: demo_queued_eq)

lemma wire_order_once_witness: "\<not> written_started (ww_ob demo_queued) 0"
  using wire_order_once [OF demo_queued_reach demo_wire_ok] by (simp add: demo_queued_eq)

lemma withdrawn_never_written_witness:
  "snd (ctl_withdraw (ob_ctls (ww_ob demo_queued) ! 0)) \<and>
   \<not> written_started (update_ctl 0 (\<lambda>c. fst (ctl_withdraw c)) (ww_ob demo_queued)) 0"
proof -
  have "snd (ctl_withdraw (ob_ctls (ww_ob demo_queued) ! 0))"
    by (simp add: demo_queued_eq ctl_ops_phase)
  moreover have "0 < length (ob_ctls (ww_ob demo_queued))" by (simp add: demo_queued_eq)
  ultimately show ?thesis
    using withdrawn_never_written [OF demo_queued_reach demo_wire_ok, of 0, OF _ _ rtranclp.rtrancl_refl]
    by simp
qed

lemma turn_now_is_alone_witness:
  "snd (outbox_turn (outbox_new demo_limits) 5) = NowTurn \<and> frames_of (wire_world_new demo_limits) = []"
proof -
  have now: "outbox_turn (ww_ob (wire_world_new demo_limits)) 5 =
      ((outbox_new demo_limits)\<lparr>ob_link_free := False\<rparr>, NowTurn)"
    by (simp add: outbox_turn_def wire_world_new_def outbox_new_def held_default_def)
  from turn_now_is_alone [OF wire_reach.start demo_wire_ok now] now show ?thesis
    by (simp add: wire_world_new_def)
qed

lemma demo_refusals:
  "admission demo_limits 1 4 3 = Inl (QueueFull (bound_subject QueuedBytes) 6 7)"
  "admission demo_limits 0 0 5 = Inl (FrameTooLarge 4 5)"
  by (simp_all add: admission_def demo_limits_def wire_options_default_def sat_add_def usize_MAX_def Let_def)

lemma refusal_blames_backlog_only_witness: "admission demo_limits 0 0 3 = Inr ()"
  using refusal_blames_backlog_only [OF demo_refusals(1)] by simp

lemma refusal_is_typed_witness: "error_dispatch (refused_error (lit ''peer'') (FrameTooLarge 4 5)) = NotSubmitted"
  using refusal_is_typed [OF demo_refusals(2), of "lit ''peer''"] by blast

text \<open>A turn on the spot, a frame, a turn behind it; the writer takes the frame, whose call is not
  registered any more, so it is let go and the turn is next.\<close>

definition demo_turned :: wire_world where
  "demo_turned = demo_queued\<lparr>ww_ob := (ww_ob demo_queued)\<lparr>
     ob_queue := ob_queue (ww_ob demo_queued) @ [TurnEntry 5],
     ob_held := (ob_held (ww_ob demo_queued))\<lparr>h_turns := 1\<rparr>\<rparr>\<rparr>"

lemma demo_record_start:
  "order_reach demo_limits \<lparr>wr_world = wire_world_new demo_limits, wr_taken = [NowOf 4], wr_settled = [(NowOf 4, True)]\<rparr>"
proof -
  let ?r = "wire_record_new demo_limits"
  let ?ob = "(outbox_new demo_limits)\<lparr>ob_link_free := False\<rparr>"
  let ?r1 = "?r\<lparr>wr_world := (wire_world_new demo_limits)\<lparr>ww_ob := ?ob\<rparr>,
      wr_taken := [NowOf 4], wr_settled := [(NowOf 4, True)]\<rparr>"
  have "order_step ?r ?r1"
    using turn_in [OF refl, of ?r 4 ?ob NowTurn]
    by (simp add: wire_record_new_def wire_world_new_def outbox_turn_def outbox_new_def held_default_def usize_MAX_def)
  moreover have "order_step ?r1 (?r1\<lparr>wr_world := wire_world_new demo_limits\<rparr>)"
    using link_back [OF refl, of ?r1] by (simp add: wire_world_new_def outbox_new_def)
  ultimately have "order_reach demo_limits (?r1\<lparr>wr_world := wire_world_new demo_limits\<rparr>)"
    by (blast intro: order_reach.intros)
  then show ?thesis by (simp add: wire_record_new_def)
qed

lemma demo_record_queued:
  "order_reach demo_limits \<lparr>wr_world = demo_turned, wr_taken = [NowOf 4, FrameOf 0, TurnOf 5], wr_settled = [(NowOf 4, True)]\<rparr>"
proof -
  let ?r = "\<lparr>wr_world = wire_world_new demo_limits, wr_taken = [NowOf 4], wr_settled = [(NowOf 4, True)]\<rparr>"
  let ?r1 = "?r\<lparr>wr_world := demo_queued, wr_taken := [NowOf 4, FrameOf 0]\<rparr>"
  let ?r2 = "?r\<lparr>wr_world := demo_turned, wr_taken := [NowOf 4, FrameOf 0, TurnOf 5]\<rparr>"
  have "order_step ?r ?r1"
    using frame_in [OF refl, of ?r "lit ''ab''" 9 "Some 1" True False "ww_ob demo_queued" 0]
    by (simp add: demo_wire_defs demo_len)
  moreover have "order_step ?r1 ?r2"
    using turn_in [OF refl, of ?r1 5 "ww_ob demo_turned" "QueuedTurn 5"]
    by (simp add: demo_wire_defs demo_len demo_turned_def outbox_turn_def)
  ultimately show ?thesis using demo_record_start by (auto intro: order_reach.step)
qed

lemma demo_record_let_go:
  "\<exists>r. order_reach demo_limits r \<and> wr_taken r = [NowOf 4, FrameOf 0, TurnOf 5] \<and>
     wr_settled r = [(NowOf 4, True), (FrameOf 0, False)]"
proof -
  let ?r = "\<lparr>wr_world = demo_turned, wr_taken = [NowOf 4, FrameOf 0, TurnOf 5], wr_settled = [(NowOf 4, True)]\<rparr>"
  obtain m where m: "ob_queue (ww_ob demo_turned) = [FrameEntry m, TurnEntry 5]" "o_ctl m = 0" "o_call m = Some 1"
    "ww_writer demo_turned = Idle" "direct_callers_served (ww_ob demo_turned)"
    by (simp add: demo_wire_defs demo_len demo_turned_def direct_callers_served_def)
  let ?w1 = "demo_turned\<lparr>ww_ob := (ww_ob demo_turned)\<lparr>ob_queue := [TurnEntry 5]\<rparr>, ww_writer := Taken (FrameEntry m)\<rparr>"
  have "order_step ?r (?r\<lparr>wr_world := ?w1\<rparr>)"
    by (rule going_on) (simp_all add: m wire_step.recv)
  moreover have "wire_step ?w1 (drop_to Idle m ?w1)"
    using m by (intro wire_step.not_registered) (simp_all add: direct_callers_served_def)
  then have "order_step (?r\<lparr>wr_world := ?w1\<rparr>) (?r\<lparr>wr_world := drop_to Idle m ?w1,
      wr_settled := [(NowOf 4, True), (FrameOf 0, False)]\<rparr>)"
    using over [of "?r\<lparr>wr_world := ?w1\<rparr>" "drop_to Idle m ?w1" "FrameOf 0"] m
    by (simp add: drop_to_def reached_link_def)
  ultimately have "order_reach demo_limits (?r\<lparr>wr_world := drop_to Idle m ?w1,
      wr_settled := [(NowOf 4, True), (FrameOf 0, False)]\<rparr>)"
    using demo_record_queued order_reach.step by blast
  then show ?thesis by (intro exI conjI, assumption, simp_all)
qed

lemma outbox_fifo_witness:
  "\<exists>r :: wire_record. wr_taken r = [NowOf 4, FrameOf 0, TurnOf 5] \<and>
     wr_settled r = [(NowOf 4, True), (FrameOf 0, False)] \<and> pending (wr_world r) = [TurnOf 5] \<and> ww_wire (wr_world r) = in_flight (ww_writer (wr_world r))"
proof -
  obtain r where r: "order_reach demo_limits r" "wr_taken r = [NowOf 4, FrameOf 0, TurnOf 5]"
    "wr_settled r = [(NowOf 4, True), (FrameOf 0, False)]"
    using demo_record_let_go by blast
  show ?thesis using outbox_fifo [OF r(1) demo_wire_ok] by (intro exI [of _ r]) (simp add: r)
qed

end
