(* ===== verification/Capabilities.thy ===== *)
theory Capabilities imports Identity begin

text \<open>
  What a harness, a discovered build and an open session can do (the capability tables and the
  descriptor of \<open>harness.rs\<close>). One table of flags, three tiers of it, each of which may only narrow
  the one above. The locale \<open>narrowing_tier\<close> states what a tier owes the tier above it, over the set
  of flags a table claims; both narrowings of the source are interpretations of it.
\<close>

subsection \<open>The table\<close>

record capabilities =
  cap_structured_streaming :: bool
  cap_reasoning_stream :: bool
  cap_interactive_approvals :: bool
  cap_questions :: bool
  cap_resume :: bool
  cap_model_catalog :: bool
  cap_configuration_catalog :: bool
  cap_session_configuration :: bool
  cap_images :: bool
  cap_usage_reporting :: bool
  cap_cancellation :: bool
  cap_steering :: bool
  cap_session_listing :: bool
  cap_native_review :: bool
  cap_account_usage :: bool
  cap_mcp_passthrough :: bool
  cap_configuration :: bool

definition cap_all :: capabilities where
  "cap_all =
     \<lparr>cap_structured_streaming = True,
      cap_reasoning_stream = True,
      cap_interactive_approvals = True,
      cap_questions = True,
      cap_resume = True,
      cap_model_catalog = True,
      cap_configuration_catalog = True,
      cap_session_configuration = True,
      cap_images = True,
      cap_usage_reporting = True,
      cap_cancellation = True,
      cap_steering = True,
      cap_session_listing = True,
      cap_native_review = True,
      cap_account_usage = True,
      cap_mcp_passthrough = True,
      cap_configuration = True\<rparr>"

definition cap_none :: capabilities where
  "cap_none =
     \<lparr>cap_structured_streaming = False,
      cap_reasoning_stream = False,
      cap_interactive_approvals = False,
      cap_questions = False,
      cap_resume = False,
      cap_model_catalog = False,
      cap_configuration_catalog = False,
      cap_session_configuration = False,
      cap_images = False,
      cap_usage_reporting = False,
      cap_cancellation = False,
      cap_steering = False,
      cap_session_listing = False,
      cap_native_review = False,
      cap_account_usage = False,
      cap_mcp_passthrough = False,
      cap_configuration = False\<rparr>"

fun cap_has :: "capabilities \<Rightarrow> capability \<Rightarrow> bool" where
  "cap_has c Steering = cap_steering c"
| "cap_has c SessionListing = cap_session_listing c"
| "cap_has c NativeReview = cap_native_review c"
| "cap_has c AccountUsage = cap_account_usage c"
| "cap_has c ResumeCap = cap_resume c"
| "cap_has c ConfigurationCap = cap_configuration c"
| "cap_has c SessionConfiguration = cap_session_configuration c"
| "cap_has c InteractiveApprovals = cap_interactive_approvals c"
| "cap_has c Questions = cap_questions c"
| "cap_has c Images = cap_images c"
| "cap_has c McpPassthrough = cap_mcp_passthrough c"

definition cap_require :: "capabilities \<Rightarrow> capability \<Rightarrow> unit result" where
  "cap_require c k = (if cap_has c k then Ok () else Err (not_supported k))"

definition cap_clamped_to :: "capabilities \<Rightarrow> capabilities \<Rightarrow> capabilities" where
  "cap_clamped_to c ceiling =
     \<lparr>cap_structured_streaming = (cap_structured_streaming c \<and> cap_structured_streaming ceiling),
      cap_reasoning_stream = (cap_reasoning_stream c \<and> cap_reasoning_stream ceiling),
      cap_interactive_approvals = (cap_interactive_approvals c \<and> cap_interactive_approvals ceiling),
      cap_questions = (cap_questions c \<and> cap_questions ceiling),
      cap_resume = (cap_resume c \<and> cap_resume ceiling),
      cap_model_catalog = (cap_model_catalog c \<and> cap_model_catalog ceiling),
      cap_configuration_catalog = (cap_configuration_catalog c \<and> cap_configuration_catalog ceiling),
      cap_session_configuration = (cap_session_configuration c \<and> cap_session_configuration ceiling),
      cap_images = (cap_images c \<and> cap_images ceiling),
      cap_usage_reporting = (cap_usage_reporting c \<and> cap_usage_reporting ceiling),
      cap_cancellation = (cap_cancellation c \<and> cap_cancellation ceiling),
      cap_steering = (cap_steering c \<and> cap_steering ceiling),
      cap_session_listing = (cap_session_listing c \<and> cap_session_listing ceiling),
      cap_native_review = (cap_native_review c \<and> cap_native_review ceiling),
      cap_account_usage = (cap_account_usage c \<and> cap_account_usage ceiling),
      cap_mcp_passthrough = (cap_mcp_passthrough c \<and> cap_mcp_passthrough ceiling),
      cap_configuration = (cap_configuration c \<and> cap_configuration ceiling)\<rparr>"

definition cap_beyond :: "capabilities \<Rightarrow> capabilities \<Rightarrow> ustring list" where
  "cap_beyond c ceiling =
     map (\<lambda>(name, _, _). name) (filter (\<lambda>(_, claimed, allowed). claimed \<and> \<not> allowed)
       [(lit ''structuredStreaming'', cap_structured_streaming c, cap_structured_streaming ceiling),
        (lit ''reasoningStream'', cap_reasoning_stream c, cap_reasoning_stream ceiling),
        (lit ''interactiveApprovals'', cap_interactive_approvals c, cap_interactive_approvals ceiling),
        (lit ''questions'', cap_questions c, cap_questions ceiling),
        (lit ''resume'', cap_resume c, cap_resume ceiling),
        (lit ''modelCatalog'', cap_model_catalog c, cap_model_catalog ceiling),
        (lit ''configurationCatalog'', cap_configuration_catalog c, cap_configuration_catalog ceiling),
        (lit ''sessionConfiguration'', cap_session_configuration c, cap_session_configuration ceiling),
        (lit ''images'', cap_images c, cap_images ceiling),
        (lit ''usageReporting'', cap_usage_reporting c, cap_usage_reporting ceiling),
        (lit ''cancellation'', cap_cancellation c, cap_cancellation ceiling),
        (lit ''steering'', cap_steering c, cap_steering ceiling),
        (lit ''sessionListing'', cap_session_listing c, cap_session_listing ceiling),
        (lit ''nativeReview'', cap_native_review c, cap_native_review ceiling),
        (lit ''accountUsage'', cap_account_usage c, cap_account_usage ceiling),
        (lit ''mcpPassthrough'', cap_mcp_passthrough c, cap_mcp_passthrough ceiling),
        (lit ''configuration'', cap_configuration c, cap_configuration ceiling)])"

definition cap_within :: "capabilities \<Rightarrow> capabilities \<Rightarrow> bool" where
  "cap_within c ceiling \<longleftrightarrow> cap_beyond c ceiling = []"

subsection \<open>The tiers\<close>

datatype capability_ceiling = CapabilityCeiling (ceiling_table: capabilities)

definition ceiling_all :: capability_ceiling where
  "ceiling_all = CapabilityCeiling cap_all"

definition ceiling_none :: capability_ceiling where
  "ceiling_none = CapabilityCeiling cap_none"

definition ceiling_has :: "capability_ceiling \<Rightarrow> capability \<Rightarrow> bool" where
  "ceiling_has t k \<longleftrightarrow> cap_has (ceiling_table t) k"

definition ceiling_require :: "capability_ceiling \<Rightarrow> capability \<Rightarrow> unit result" where
  "ceiling_require t k = cap_require (ceiling_table t) k"

datatype discovered_capabilities = DiscoveredCapabilities (discovered_table: capabilities)

definition discovered_all :: discovered_capabilities where
  "discovered_all = DiscoveredCapabilities cap_all"

definition discovered_none :: discovered_capabilities where
  "discovered_none = DiscoveredCapabilities cap_none"

definition discovered_has :: "discovered_capabilities \<Rightarrow> capability \<Rightarrow> bool" where
  "discovered_has t k \<longleftrightarrow> cap_has (discovered_table t) k"

definition discovered_require :: "discovered_capabilities \<Rightarrow> capability \<Rightarrow> unit result" where
  "discovered_require t k = cap_require (discovered_table t) k"

datatype session_capabilities = SessionCapabilities (session_table: capabilities)

definition session_all :: session_capabilities where
  "session_all = SessionCapabilities cap_all"

definition session_none :: session_capabilities where
  "session_none = SessionCapabilities cap_none"

definition session_has :: "session_capabilities \<Rightarrow> capability \<Rightarrow> bool" where
  "session_has t k \<longleftrightarrow> cap_has (session_table t) k"

definition session_require :: "session_capabilities \<Rightarrow> capability \<Rightarrow> unit result" where
  "session_require t k = cap_require (session_table t) k"

definition discovered_clamped_to :: "discovered_capabilities \<Rightarrow> capability_ceiling \<Rightarrow> discovered_capabilities" where
  "discovered_clamped_to t ceiling = DiscoveredCapabilities (cap_clamped_to (discovered_table t) (ceiling_table ceiling))"

definition discovered_beyond :: "discovered_capabilities \<Rightarrow> capability_ceiling \<Rightarrow> ustring list" where
  "discovered_beyond t ceiling = cap_beyond (discovered_table t) (ceiling_table ceiling)"

definition discovered_within :: "discovered_capabilities \<Rightarrow> capability_ceiling \<Rightarrow> bool" where
  "discovered_within t ceiling \<longleftrightarrow> cap_within (discovered_table t) (ceiling_table ceiling)"

definition session_narrowed_to :: "session_capabilities \<Rightarrow> discovered_capabilities \<Rightarrow> session_capabilities" where
  "session_narrowed_to t discovered = SessionCapabilities (cap_clamped_to (session_table t) (discovered_table discovered))"

definition session_beyond :: "session_capabilities \<Rightarrow> discovered_capabilities \<Rightarrow> ustring list" where
  "session_beyond t discovered = cap_beyond (session_table t) (discovered_table discovered)"

definition session_within :: "session_capabilities \<Rightarrow> discovered_capabilities \<Rightarrow> bool" where
  "session_within t discovered \<longleftrightarrow> cap_within (session_table t) (discovered_table discovered)"

subsection \<open>The descriptor\<close>

record vendor_info =
  vi_company :: ustring
  vi_terms_url :: ustring
  vi_privacy_url :: ustring
  vi_skills_are_slash_commands :: bool

record harness_descriptor =
  hd_identity :: harness_identity
  hd_vendor :: vendor_info
  hd_capabilities :: capability_ceiling
  hd_transports :: "transport_kind list"
  hd_vendor_environment_keys :: "ustring list"

definition descriptor_id :: "harness_descriptor \<Rightarrow> harness_id" where
  "descriptor_id d = hi_id (hd_identity d)"

definition supports_transport :: "harness_descriptor \<Rightarrow> transport_kind \<Rightarrow> bool" where
  "supports_transport d t \<longleftrightarrow> List.member (hd_transports d) t"

definition default_transport :: "harness_descriptor \<Rightarrow> transport_kind option" where
  "default_transport d = (case hd_transports d of [] \<Rightarrow> None | t # _ \<Rightarrow> Some t)"

definition require_transport :: "harness_descriptor \<Rightarrow> transport_kind \<Rightarrow> unit result" where
  "require_transport d t =
     (if supports_transport d t then Ok () else Err (UnsupportedTransport (descriptor_id d) t))"

definition resolve_transport :: "harness_descriptor \<Rightarrow> transport_kind option \<Rightarrow> transport_kind result" where
  "resolve_transport d requested =
     (case requested of
        Some t \<Rightarrow> rbind (require_transport d t) (\<lambda>_. Ok t)
      | None \<Rightarrow>
          (case default_transport d of
             Some t \<Rightarrow> Ok t
           | None \<Rightarrow> Err (HostConfiguration (lit ''a harness declaring at least one transport'')
                       (descriptor_id d @ lit '' declaring none''))))"

subsection \<open>What a table claims\<close>

text \<open>A table, read as the set of flag names it claims.\<close>

definition flag_names :: "ustring list" where
  "flag_names = map lit
     [''structuredStreaming'',
      ''reasoningStream'',
      ''interactiveApprovals'',
      ''questions'',
      ''resume'',
      ''modelCatalog'',
      ''configurationCatalog'',
      ''sessionConfiguration'',
      ''images'',
      ''usageReporting'',
      ''cancellation'',
      ''steering'',
      ''sessionListing'',
      ''nativeReview'',
      ''accountUsage'',
      ''mcpPassthrough'',
      ''configuration'']"

definition flags :: "capabilities \<Rightarrow> bool list" where
  "flags c =
     [cap_structured_streaming c,
      cap_reasoning_stream c,
      cap_interactive_approvals c,
      cap_questions c,
      cap_resume c,
      cap_model_catalog c,
      cap_configuration_catalog c,
      cap_session_configuration c,
      cap_images c,
      cap_usage_reporting c,
      cap_cancellation c,
      cap_steering c,
      cap_session_listing c,
      cap_native_review c,
      cap_account_usage c,
      cap_mcp_passthrough c,
      cap_configuration c]"

definition claims :: "capabilities \<Rightarrow> ustring set" where
  "claims c = {name. (name, True) \<in> set (zip flag_names (flags c))}"

lemma length_flags [simp]: "length (flags c) = length flag_names"
  by (simp add: flags_def flag_names_def)

lemma inj_lit: "inj lit"
  by (rule injI) (simp add: lit_def inj_map_eq_map [OF inj_of_char])

lemma lit_eq: "lit a = lit b \<longleftrightarrow> a = b"
  using inj_lit by (rule inj_eq)

lemma flag_names_distinct: "distinct flag_names"
  by (simp add: flag_names_def lit_eq)

lemma beyond_zip:
  "cap_beyond c d =
     map fst (filter (\<lambda>(_, claimed, allowed). claimed \<and> \<not> allowed) (zip flag_names (zip (flags c) (flags d))))"
proof -
  have "(\<lambda>(name, _, _). name) = (fst :: ustring \<times> bool \<times> bool \<Rightarrow> ustring)" by auto
  then show ?thesis
    unfolding cap_beyond_def flag_names_def flags_def list.map zip_Cons_Cons zip_Nil by (simp only:)
qed

lemma zip_diff:
  assumes "length ns = length xs" "length xs = length ys" "distinct ns"
  shows "set (map fst (filter (\<lambda>(_, a, b). a \<and> \<not> b) (zip ns (zip xs ys)))) =
    {n. (n, True) \<in> set (zip ns xs)} - {n. (n, True) \<in> set (zip ns ys)}"
  using assms
proof (induction ns xs ys rule: list_induct3)
  case (Cons n ns x xs y ys)
  then have "(n, True) \<notin> set (zip ns xs)" "(n, True) \<notin> set (zip ns ys)"
    by (auto dest: set_zip_leftD)
  with Cons show ?case by auto
qed simp

lemma set_beyond: "set (cap_beyond c d) = claims c - claims d"
  unfolding beyond_zip claims_def by (rule zip_diff) (simp_all add: flag_names_distinct)

lemma within_iff: "cap_within c d \<longleftrightarrow> claims c \<subseteq> claims d"
  unfolding cap_within_def by (simp flip: set_empty add: set_beyond)

lemma claims_zip: "(name, True) \<in> set (zip flag_names (flags c)) \<longleftrightarrow> name \<in> claims c"
  by (simp add: claims_def)

lemma flags_clamped: "flags (cap_clamped_to c d) = map2 (\<and>) (flags c) (flags d)"
  by (simp add: flags_def cap_clamped_to_def)

lemma claims_clamped: "claims (cap_clamped_to c d) = claims c \<inter> claims d"
proof -
  have "{n. (n, True) \<in> set (zip ns (map2 (\<and>) xs ys))} =
      {n. (n, True) \<in> set (zip ns xs)} \<inter> {n. (n, True) \<in> set (zip ns ys)}"
    if "length ns = length xs" "length xs = length ys" "distinct ns" for ns :: "ustring list" and xs ys
    using that
  proof (induction ns xs ys rule: list_induct3)
    case (Cons n ns x xs y ys)
    then have "(n, True) \<notin> set (zip ns xs)" "(n, True) \<notin> set (zip ns ys)"
      by (auto dest: set_zip_leftD)
    with Cons show ?case by auto
  qed simp
  from this [of flag_names "flags c" "flags d"] show ?thesis
    by (simp add: claims_def flags_clamped flag_names_distinct)
qed

lemma claims_none: "claims cap_none = {}"
  by (simp add: claims_def flags_def cap_none_def flag_names_def)

text \<open>The flag an optional method asks for.\<close>

fun flag_of :: "capability \<Rightarrow> ustring" where


  "flag_of Steering = lit ''steering''"
| "flag_of SessionListing = lit ''sessionListing''"
| "flag_of NativeReview = lit ''nativeReview''"
| "flag_of AccountUsage = lit ''accountUsage''"
| "flag_of ResumeCap = lit ''resume''"
| "flag_of ConfigurationCap = lit ''configuration''"
| "flag_of SessionConfiguration = lit ''sessionConfiguration''"
| "flag_of InteractiveApprovals = lit ''interactiveApprovals''"
| "flag_of Questions = lit ''questions''"
| "flag_of Images = lit ''images''"
| "flag_of McpPassthrough = lit ''mcpPassthrough''"


lemma has_iff: "cap_has c k \<longleftrightarrow> flag_of k \<in> claims c"
  by (cases k; simp add: claims_def flags_def flag_names_def lit_eq)

lemma require_iff: "cap_require c k = (if flag_of k \<in> claims c then Ok () else Err (NotSupported k))"
  by (simp add: cap_require_def has_iff not_supported_def)

text \<open>A tier over the tier above it.\<close>

locale narrowing_tier =
  fixes inner :: "'i \<Rightarrow> ustring set"
    and outer :: "'o \<Rightarrow> ustring set"
    and narrow :: "'i \<Rightarrow> 'o \<Rightarrow> 'i"
    and excess :: "'i \<Rightarrow> 'o \<Rightarrow> ustring list"
    and inside :: "'i \<Rightarrow> 'o \<Rightarrow> bool"
    and grants :: "'i \<Rightarrow> capability \<Rightarrow> unit result"
  assumes inner_narrow: "inner (narrow i u) = inner i \<inter> outer u"
    and inner_inject: "inner i = inner j \<Longrightarrow> i = j"
    and set_excess: "set (excess i u) = inner i - outer u"
    and inside_excess: "inside i u \<longleftrightarrow> excess i u = []"
    and grants_iff: "grants i k = (if flag_of k \<in> inner i then Ok () else Err (NotSupported k))"
begin

lemma inside_iff: "inside i u \<longleftrightarrow> inner i \<subseteq> outer u"
  unfolding inside_excess by (simp flip: set_empty add: set_excess)

lemma narrow_inside: "inside (narrow i u) u"
  by (simp add: inside_iff inner_narrow)

lemma narrow_greatest: "inside j u \<and> inner j \<subseteq> inner i \<longleftrightarrow> inner j \<subseteq> inner (narrow i u)"
  by (auto simp: inside_iff inner_narrow)

lemma narrow_fixed_iff: "narrow i u = i \<longleftrightarrow> inside i u"
proof
  assume "narrow i u = i"
  then show "inside i u" using narrow_inside [of i u] by simp
next
  assume "inside i u"
  then have "inner (narrow i u) = inner i" by (auto simp: inside_iff inner_narrow)
  then show "narrow i u = i" by (rule inner_inject)
qed

lemma grants_narrow:
  "grants (narrow i u) k = (if grants i k = Ok () \<and> flag_of k \<in> outer u then Ok () else Err (NotSupported k))"
  by (simp add: grants_iff inner_narrow)

end

lemma flags_inject: "flags c = flags d \<Longrightarrow> c = d"
  by (cases c; cases d) (simp add: flags_def)

lemma claims_inject:
  assumes "claims c = claims d"
  shows "c = d"
proof -
  have "xs = ys"
    if "length ns = length xs" "length xs = length ys" "distinct ns"
      "{n. (n, True) \<in> set (zip ns xs)} = {n. (n, True) \<in> set (zip ns ys)}" for ns :: "ustring list" and xs ys
    using that
  proof (induction ns xs ys rule: list_induct3)
    case (Cons n ns x xs y ys)
    then have fresh: "(n, True) \<notin> set (zip ns xs)" "(n, True) \<notin> set (zip ns ys)"
      by (auto dest: set_zip_leftD)
    have "x = y" using Cons.prems(2) fresh by (auto simp: set_eq_iff)
    moreover have "{m. (m, True) \<in> set (zip ns xs)} = {m. (m, True) \<in> set (zip ns ys)}"
      using Cons.prems(2) fresh by (auto simp: set_eq_iff \<open>x = y\<close>)
    ultimately show ?case using Cons by simp
  qed simp
  from this [of flag_names "flags c" "flags d"] assms have "flags c = flags d"
    by (simp add: claims_def flag_names_distinct)
  then show ?thesis by (rule flags_inject)
qed

lemmas tier_defs =
  discovered_clamped_to_def discovered_beyond_def discovered_within_def discovered_require_def
  session_narrowed_to_def session_beyond_def session_within_def session_require_def

interpretation discovery_tier: narrowing_tier "claims \<circ> discovered_table" "claims \<circ> ceiling_table"
  discovered_clamped_to discovered_beyond discovered_within discovered_require
  by unfold_locales
    (auto simp: tier_defs claims_clamped set_beyond cap_within_def require_iff
      dest!: claims_inject intro: discovered_capabilities.expand)

interpretation session_tier: narrowing_tier "claims \<circ> session_table" "claims \<circ> discovered_table"
  session_narrowed_to session_beyond session_within session_require
  by unfold_locales
    (auto simp: tier_defs claims_clamped set_beyond cap_within_def require_iff
      dest!: claims_inject intro: session_capabilities.expand)

subsection \<open>Transports\<close>

lemma resolve_transport_Ok_iff:
  "resolve_transport d requested = Ok t \<longleftrightarrow>
     t \<in> set (hd_transports d) \<and> (requested = Some t \<or> requested = None \<and> t = hd (hd_transports d))"
  by (cases "hd_transports d")
    (auto simp: resolve_transport_def require_transport_def supports_transport_def default_transport_def
      List.member_iff split: option.split)

text \<open>Discovery and the open handshake only ever narrow what a harness declares. What a session
  holds after both narrowings is inside what discovery kept, and that inside the ceiling; an optional
  method passes \<open>require\<close> exactly when session, build and harness all claim it and is refused by name
  otherwise; narrowing changes nothing exactly when nothing was claimed beyond; and the names
  \<open>beyond\<close> reports are exactly the flags claimed by the one table and not by the other.\<close>

theorem tiers_only_narrow:
  "session_within (session_narrowed_to s (discovered_clamped_to d c)) (discovered_clamped_to d c) \<and>
   discovered_within (discovered_clamped_to d c) c \<and>
   session_require (session_narrowed_to s (discovered_clamped_to d c)) k =
     (if session_has s k \<and> discovered_has d k \<and> ceiling_has c k then Ok () else Err (NotSupported k)) \<and>
   (discovered_clamped_to d c = d \<longleftrightarrow> discovered_within d c) \<and>
   (session_narrowed_to s d = s \<longleftrightarrow> session_within s d) \<and>
   set (discovered_beyond d c) = claims (discovered_table d) - claims (ceiling_table c)"
proof (intro conjI)
  show "session_require (session_narrowed_to s (discovered_clamped_to d c)) k =
      (if session_has s k \<and> discovered_has d k \<and> ceiling_has c k then Ok () else Err (NotSupported k))"
    using discovery_tier.inner_narrow [of d c] session_tier.inner_narrow [of s "discovered_clamped_to d c"]
    by (simp add: session_tier.grants_iff session_has_def discovered_has_def ceiling_has_def has_iff conj_ac)
qed (use session_tier.narrow_inside discovery_tier.narrow_inside session_tier.narrow_fixed_iff
    discovery_tier.narrow_fixed_iff discovery_tier.set_excess in auto)

end
