(* ===== verification/Interaction.thy ===== *)
theory Interaction imports Recovery begin

text \<open>
  Everything a vendor can stop and ask (\<open>interaction.rs\<close>): the lifecycle fields permissions and
  questions share, a round of questions with the bounds a host relies on, and the check of an answer
  against what was asked. An answer names questions and choices by the vendor's own ids, so bounding
  a request must not change which answers it takes; the theorems at the end say that it does not.
\<close>

subsection \<open>Lifecycle\<close>

definition QUESTION_MAX_ITEMS :: usize where "QUESTION_MAX_ITEMS = 16"

definition QUESTION_MAX_OPTIONS :: usize where "QUESTION_MAX_OPTIONS = 32"

definition ANSWER_TEXT_MAX_LENGTH :: usize where "ANSWER_TEXT_MAX_LENGTH = 4096"

type_synonym interaction_id = ustring

definition interaction_id_normalized :: "interaction_id \<Rightarrow> interaction_id result" where
  "interaction_id_normalized i = opaque_id i (lit ''interaction id'')"

datatype interaction_kind = PermissionKind | QuestionKind

fun grants_authority :: "interaction_kind \<Rightarrow> bool" where
  "grants_authority PermissionKind = True"
| "grants_authority QuestionKind = False"

fun interaction_kind_display :: "interaction_kind \<Rightarrow> ustring" where
  "interaction_kind_display PermissionKind = lit ''permission''"
| "interaction_kind_display QuestionKind = lit ''question''"

datatype interaction_status = Pending | Resolved | Expired | CancelledAsk | Withdrawn

fun status_is_open :: "interaction_status \<Rightarrow> bool" where
  "status_is_open Pending = True"
| "status_is_open _ = False"

record interaction =
  in_id :: interaction_id
  in_kind :: interaction_kind
  in_session :: session_id
  in_operation :: "operation_ref option"
  in_expires_at :: nat
  in_status :: interaction_status

definition interaction_new :: "interaction_id \<Rightarrow> interaction_kind \<Rightarrow> session_id \<Rightarrow> nat \<Rightarrow> interaction" where
  "interaction_new i kind session expires_at =
     \<lparr>in_id = i, in_kind = kind, in_session = session, in_operation = None,
      in_expires_at = expires_at, in_status = Pending\<rparr>"

definition during :: "operation_ref \<Rightarrow> interaction \<Rightarrow> interaction" where
  "during operation i = i\<lparr>in_operation := Some operation\<rparr>"

definition resolved_as :: "interaction_status \<Rightarrow> interaction \<Rightarrow> interaction" where
  "resolved_as status i = i\<lparr>in_status := status\<rparr>"

definition interaction_is_open :: "interaction \<Rightarrow> bool" where
  "interaction_is_open i = status_is_open (in_status i)"

definition interaction_normalized :: "interaction \<Rightarrow> interaction result" where
  "interaction_normalized i = res_map (\<lambda>n. i\<lparr>in_id := n\<rparr>) (interaction_id_normalized (in_id i))"

subsection \<open>Questions\<close>

record question_option =
  qo_id :: ustring
  qo_label :: "ustring option"
  qo_description :: "ustring option"

definition question_option_new :: "ustring \<Rightarrow> question_option" where
  "question_option_new i = \<lparr>qo_id = i, qo_label = None, qo_description = None\<rparr>"

definition question_option_with_truncation :: "question_option \<Rightarrow> (question_option \<times> bool) result" where
  "question_option_with_truncation c =
     (let label = bound_opt ApprovalOptionLabel (qo_label c);
          description = bound_opt Detail (qo_description c)
      in rbind (opaque_id (qo_id c) (lit ''question option id''))
           (\<lambda>i. Ok (\<lparr>qo_id = i, qo_label = map_option bt_text label,
                     qo_description = map_option bt_text description\<rparr>,
                    cut_opt label \<or> cut_opt description)))"

definition question_option_normalized :: "question_option \<Rightarrow> question_option result" where
  "question_option_normalized c = res_map fst (question_option_with_truncation c)"

datatype question_form = Choice "question_option list" bool | FreeText "ustring option"

record question =
  qn_id :: ustring
  qn_prompt :: ustring
  qn_detail :: "ustring option"
  qn_form :: question_form
  qn_required :: bool

definition question_new :: "ustring \<Rightarrow> ustring \<Rightarrow> question_form \<Rightarrow> question" where
  "question_new i prompt form =
     \<lparr>qn_id = i, qn_prompt = prompt, qn_detail = None, qn_form = form, qn_required = False\<rparr>"

fun form_with_truncation :: "question_form \<Rightarrow> (question_form \<times> bool) result" where
  "form_with_truncation (Choice options multi_select) =
     (if options = [] \<or> length options > QUESTION_MAX_OPTIONS then
        Err (Protocol (lit ''between 1 and '' @ dec QUESTION_MAX_OPTIONS @ lit '' question options'')
               (dec (length options)))
      else if \<not> distinct (map qo_id options) then
        Err (Protocol (lit ''unique question option ids'') (lit ''duplicate question option id''))
      else rbind (collect_res question_option_with_truncation options)
             (\<lambda>os. Ok (Choice (map fst os) multi_select, list_ex snd os)))"
| "form_with_truncation (FreeText placeholder) =
     (let placeholder = bound_opt Title placeholder
      in Ok (FreeText (map_option bt_text placeholder), cut_opt placeholder))"

definition question_with_truncation :: "question \<Rightarrow> (question \<times> bool) result" where
  "question_with_truncation q =
     rbind (form_with_truncation (qn_form q))
       (\<lambda>(form, form_truncated).
          let prompt = bound (qn_prompt q) Detail; detail = bound_opt Detail (qn_detail q)
          in rbind (opaque_id (qn_id q) (lit ''question id''))
               (\<lambda>i. Ok (\<lparr>qn_id = i, qn_prompt = bt_text prompt, qn_detail = map_option bt_text detail,
                         qn_form = form, qn_required = qn_required q\<rparr>,
                        form_truncated \<or> bt_truncated prompt \<or> cut_opt detail)))"

definition question_normalized :: "question \<Rightarrow> question result" where
  "question_normalized q = res_map fst (question_with_truncation q)"

record question_request =
  qr_interaction :: interaction
  qr_title :: "ustring option"
  qr_questions :: "question list"
  qr_truncated :: bool

definition question_request_new :: "interaction \<Rightarrow> question list \<Rightarrow> question_request" where
  "question_request_new i questions =
     \<lparr>qr_interaction = i\<lparr>in_kind := QuestionKind\<rparr>, qr_title = None, qr_questions = questions,
      qr_truncated = False\<rparr>"

definition request_question :: "question_request \<Rightarrow> ustring \<Rightarrow> question option" where
  "request_question r i = find (\<lambda>q. qn_id q = i) (qr_questions r)"

definition question_request_normalized :: "question_request \<Rightarrow> question_request result" where
  "question_request_normalized r =
     (if in_kind (qr_interaction r) \<noteq> QuestionKind then
        Err (Protocol (lit ''a question interaction'') (interaction_kind_display (in_kind (qr_interaction r))))
      else if qr_questions r = [] \<or> length (qr_questions r) > QUESTION_MAX_ITEMS then
        Err (Protocol (lit ''between 1 and '' @ dec QUESTION_MAX_ITEMS @ lit '' questions'')
               (dec (length (qr_questions r))))
      else let title = bound_opt Title (qr_title r)
        in if \<not> distinct (map qn_id (qr_questions r)) then
             Err (Protocol (lit ''unique question ids'') (lit ''duplicate question id''))
           else rbind (collect_res question_with_truncation (qr_questions r))
             (\<lambda>qs. rbind (interaction_normalized (qr_interaction r))
               (\<lambda>i. Ok \<lparr>qr_interaction = i, qr_title = map_option bt_text title,
                        qr_questions = map fst qs,
                        qr_truncated = qr_truncated r \<or> cut_opt title \<or> list_ex snd qs\<rparr>)))"

subsection \<open>Answers\<close>

datatype answer_value = Chosen "ustring list" | TextAnswer ustring | Declined

definition is_declined :: "answer_value \<Rightarrow> bool" where
  "is_declined v \<longleftrightarrow> v = Declined"

fun answer_value_normalized :: "answer_value \<Rightarrow> answer_value result" where
  "answer_value_normalized (Chosen option_ids) =
     res_map Chosen (collect_res (\<lambda>i. opaque_id i (lit ''question option id'')) option_ids)"
| "answer_value_normalized (TextAnswer t) = Ok (TextAnswer (bt_text (bound t Detail)))"
| "answer_value_normalized Declined = Ok Declined"

record answer =
  an_question :: ustring
  an_value :: answer_value

definition answer_normalized :: "answer \<Rightarrow> answer result" where
  "answer_normalized a =
     rbind (opaque_id (an_question a) (lit ''question id''))
       (\<lambda>i. rbind (answer_value_normalized (an_value a))
         (\<lambda>v. Ok \<lparr>an_question = i, an_value = v\<rparr>))"

record question_response =
  rs_interaction :: interaction_id
  rs_answers :: "answer list"

fun validate_answer :: "question_form \<Rightarrow> answer_value \<Rightarrow> unit result" where
  "validate_answer (Choice options multi_select) (Chosen option_ids) =
     (if option_ids = [] then Err (Protocol (lit ''at least one chosen option'') (lit ''none''))
      else if \<not> multi_select \<and> length option_ids > 1 then
        Err (Protocol (lit ''one option for a single-select question'') (dec (length option_ids)))
      else if \<not> distinct option_ids then
        Err (Protocol (lit ''each chosen option named at most once'') (lit ''a repeated option id''))
      else if list_ex (\<lambda>chosen. \<not> list_ex (\<lambda>c. qo_id c = chosen) options) option_ids then
        Err (Protocol (lit ''one of the '' @ dec (length options) @ lit '' options this question offered'')
               (lit ''an unknown option''))
      else Ok ())"
| "validate_answer (FreeText _) (TextAnswer t) =
     (if length t > ANSWER_TEXT_MAX_LENGTH then
        Err (Protocol (lit ''at most '' @ dec ANSWER_TEXT_MAX_LENGTH @ lit '' characters'') (dec (length t)))
      else Ok ())"
| "validate_answer _ Declined = Ok ()"
| "validate_answer _ _ =
     Err (Protocol (lit ''an answer matching the question form'') (lit ''an answer with an incompatible form''))"

fun check_answers :: "question_request \<Rightarrow> ustring list \<Rightarrow> answer list \<Rightarrow> unit result" where
  "check_answers r answered [] = Ok ()"
| "check_answers r answered (a # as) =
     (case request_question r (an_question a) of
        None \<Rightarrow>
          Err (Protocol (lit ''one of the '' @ dec (length (qr_questions r)) @ lit '' questions this request asked'')
                 (lit ''an answer for an unknown question''))
      | Some q \<Rightarrow>
          if an_question a \<in> set answered then
            Err (Protocol (lit ''at most one answer per question'') (lit ''multiple answers for one question''))
          else rbind (validate_answer (qn_form q) (an_value a))
                 (\<lambda>_. check_answers r (answered @ [an_question a]) as))"

fun check_required :: "question list \<Rightarrow> answer list \<Rightarrow> unit result" where
  "check_required [] as = Ok ()"
| "check_required (q # qs) as =
     (if list_ex (\<lambda>a. an_question a = qn_id q \<and> \<not> is_declined (an_value a)) as then check_required qs as
      else Err (Protocol (lit ''an answer to a required question'') (lit ''no answer'')))"

definition validate_response :: "question_request \<Rightarrow> question_response \<Rightarrow> unit result" where
  "validate_response r resp =
     (if rs_interaction resp \<noteq> in_id (qr_interaction r) then
        Err (Protocol (lit ''an answer to this question request'') (lit ''an answer for a different interaction''))
      else rbind (check_answers r [] (rs_answers resp))
             (\<lambda>_. check_required (filter qn_required (qr_questions r)) (rs_answers resp)))"

subsection \<open>How a question ended\<close>

datatype unsupported_question = SecretCollection | ArbitraryForm | UnrecognisedForm ustring

fun unsupported_question_normalized :: "unsupported_question \<Rightarrow> unsupported_question" where
  "unsupported_question_normalized (UnrecognisedForm received) =
     UnrecognisedForm (bt_text (bound received Title))"
| "unsupported_question_normalized known = known"

fun unsupported_question_display :: "unsupported_question \<Rightarrow> ustring" where
  "unsupported_question_display SecretCollection = lit ''secret collection''"
| "unsupported_question_display ArbitraryForm = lit ''an arbitrary form''"
| "unsupported_question_display (UnrecognisedForm _) = lit ''an unrecognised form''"

datatype question_outcome =
  AnsweredOutcome "answer list" | ExpiredOutcome | CancelledOutcome | RefusedOutcome unsupported_question

fun question_outcome_normalized :: "question_outcome \<Rightarrow> question_outcome result" where
  "question_outcome_normalized (AnsweredOutcome answers) =
     res_map AnsweredOutcome (collect_res answer_normalized answers)"
| "question_outcome_normalized (RefusedOutcome reason) =
     Ok (RefusedOutcome (unsupported_question_normalized reason))"
| "question_outcome_normalized unchanged = Ok unchanged"

fun outcome_status :: "question_outcome \<Rightarrow> interaction_status" where
  "outcome_status (AnsweredOutcome _) = Resolved"
| "outcome_status ExpiredOutcome = Expired"
| "outcome_status CancelledOutcome = CancelledAsk"
| "outcome_status (RefusedOutcome _) = Withdrawn"


subsection \<open>Which answers are taken\<close>

fun value_fits :: "question_form \<Rightarrow> answer_value \<Rightarrow> bool" where
  "value_fits (Choice options multi_select) (Chosen ids) \<longleftrightarrow>
     ids \<noteq> [] \<and> (multi_select \<or> length ids = 1) \<and> distinct ids \<and> set ids \<subseteq> qo_id ` set options"
| "value_fits (FreeText _) (TextAnswer t) \<longleftrightarrow> length t \<le> 4096"
| "value_fits _ Declined \<longleftrightarrow> True"
| "value_fits _ _ \<longleftrightarrow> False"

definition response_fits :: "question_request \<Rightarrow> question_response \<Rightarrow> bool" where
  "response_fits r resp \<longleftrightarrow>
     rs_interaction resp = in_id (qr_interaction r) \<and> distinct (map an_question (rs_answers resp)) \<and>
     (\<forall>a \<in> set (rs_answers resp).
        \<exists>q. request_question r (an_question a) = Some q \<and> value_fits (qn_form q) (an_value a)) \<and>
     (\<forall>q \<in> set (qr_questions r). qn_required q \<longrightarrow>
        (\<exists>a \<in> set (rs_answers resp). an_question a = qn_id q \<and> an_value a \<noteq> Declined))"

lemma validate_answer_iff: "validate_answer form v = Ok () \<longleftrightarrow> value_fits form v"
proof (cases "(form, v)" rule: value_fits.cases)
  case (1 options multi ids)
  then show ?thesis
    by (cases ids) (auto simp: list_ex_iff image_iff Bex_def)
qed (auto simp: ANSWER_TEXT_MAX_LENGTH_def)

lemma check_answers_iff:
  "check_answers r answered as = Ok () \<longleftrightarrow>
     distinct (map an_question as) \<and> an_question ` set as \<inter> set answered = {} \<and>
     (\<forall>a \<in> set as. \<exists>q. request_question r (an_question a) = Some q \<and> value_fits (qn_form q) (an_value a))"
proof (induction as arbitrary: answered)
  case (Cons a as)
  show ?case
  proof (cases "request_question r (an_question a)")
    case (Some q)
    then show ?thesis
      using validate_answer_iff [of "qn_form q" "an_value a"]
      by (auto simp: Cons.IH rbind_Inr_iff)
  qed simp
qed simp

lemma check_required_iff:
  "check_required qs as = Ok () \<longleftrightarrow>
     (\<forall>q \<in> set qs. \<exists>a \<in> set as. an_question a = qn_id q \<and> an_value a \<noteq> Declined)"
  by (induction qs) (auto simp: list_ex_iff is_declined_def)

lemma validate_response_eq: "validate_response r resp = Ok () \<longleftrightarrow> response_fits r resp"
  by (auto simp: validate_response_def response_fits_def rbind_Inr_iff check_answers_iff check_required_iff)

lemma validate_answer_error: "validate_answer form v = Err e \<Longrightarrow> \<exists>x y. e = Protocol x y"
  by (cases "(form, v)" rule: value_fits.cases) (auto split: if_splits)

lemma check_answers_error: "check_answers r answered as = Err e \<Longrightarrow> \<exists>x y. e = Protocol x y"
  by (induction as arbitrary: answered)
    (auto simp: rbind_Inl_iff dest: validate_answer_error split: option.splits if_splits)

lemma check_required_error: "check_required qs as = Err e \<Longrightarrow> \<exists>x y. e = Protocol x y"
  by (induction qs) (auto split: if_splits)

text \<open>C32: \<open>QuestionRequest::validate\<close> accepts exactly the responses that answer this request: the
  same interaction, each question at most once, every named question asked, every value of the form
  its question takes (choices offered, each once, several only where several may be chosen, text
  within its bound), and every required question answered rather than declined. Every other response
  is a \<open>Protocol\<close> error.\<close>

theorem validate_response_iff:
  "(validate_response r resp = Ok () \<longleftrightarrow> response_fits r resp) \<and>
   (case validate_response r resp of Inl e \<Rightarrow> \<exists>x y. e = Protocol x y | Inr _ \<Rightarrow> True)"
proof -
  have "\<exists>x y. e = Protocol x y" if "validate_response r resp = Err e" for e
    using that by (auto simp: validate_response_def rbind_Inl_iff
        dest: check_answers_error check_required_error split: if_splits)
  then show ?thesis by (auto simp: validate_response_eq split: sum.split)
qed

subsection \<open>Bounded requests\<close>

definition option_valid :: "question_option \<Rightarrow> bool" where
  "option_valid c \<longleftrightarrow> valid_str (qo_id c) \<and> valid_opt (qo_label c) \<and> valid_opt (qo_description c)"

fun form_valid :: "question_form \<Rightarrow> bool" where
  "form_valid (Choice options _) \<longleftrightarrow> list_all option_valid options"
| "form_valid (FreeText placeholder) \<longleftrightarrow> valid_opt placeholder"

definition question_valid :: "question \<Rightarrow> bool" where
  "question_valid q \<longleftrightarrow>
     valid_str (qn_id q) \<and> valid_str (qn_prompt q) \<and> valid_opt (qn_detail q) \<and> form_valid (qn_form q)"

definition question_request_valid :: "question_request \<Rightarrow> bool" where
  "question_request_valid r \<longleftrightarrow>
     valid_str (in_id (qr_interaction r)) \<and> valid_opt (qr_title r) \<and> list_all question_valid (qr_questions r)"

definition option_ok :: "question_option \<Rightarrow> bool" where
  "option_ok c \<longleftrightarrow>
     id_ok (qo_id c) \<and> opt_field_ok ApprovalOptionLabel (qo_label c) \<and> opt_field_ok Detail (qo_description c)"

fun form_ok :: "question_form \<Rightarrow> bool" where
  "form_ok (Choice options _) \<longleftrightarrow>
     options \<noteq> [] \<and> length options \<le> 32 \<and> distinct (map qo_id options) \<and> list_all option_ok options"
| "form_ok (FreeText placeholder) \<longleftrightarrow> opt_field_ok Title placeholder"

definition question_ok :: "question \<Rightarrow> bool" where
  "question_ok q \<longleftrightarrow>
     id_ok (qn_id q) \<and> field_ok Detail (qn_prompt q) \<and> opt_field_ok Detail (qn_detail q) \<and> form_ok (qn_form q)"

definition question_request_ok :: "question_request \<Rightarrow> bool" where
  "question_request_ok r \<longleftrightarrow>
     in_kind (qr_interaction r) = QuestionKind \<and> id_ok (in_id (qr_interaction r)) \<and>
     opt_field_ok Title (qr_title r) \<and> qr_questions r \<noteq> [] \<and> length (qr_questions r) \<le> 16 \<and>
     distinct (map qn_id (qr_questions r)) \<and> list_all question_ok (qr_questions r)"

text \<open>What bounding keeps of a question: its id, whether it must be answered, and what it takes.\<close>

fun same_form :: "question_form \<Rightarrow> question_form \<Rightarrow> bool" where
  "same_form (Choice os multi) (Choice os' multi') \<longleftrightarrow> map qo_id os = map qo_id os' \<and> multi = multi'"
| "same_form (FreeText _) (FreeText _) \<longleftrightarrow> True"
| "same_form _ _ \<longleftrightarrow> False"

definition same_question :: "question \<Rightarrow> question \<Rightarrow> bool" where
  "same_question q q' \<longleftrightarrow>
     qn_id q = qn_id q' \<and> qn_required q = qn_required q' \<and> same_form (qn_form q) (qn_form q')"

lemma option_bounded:
  assumes "question_option_with_truncation c = Ok (c', trunc)" "option_valid c"
  shows "option_ok c' \<and> qo_id c' = qo_id c"
  using assms opaque_id_Ok [of "qo_id c"]
  by (auto simp: question_option_with_truncation_def option_valid_def option_ok_def rbind_Inr_iff Let_def
      bound_opt_ok)

lemma option_idem: "option_ok c \<Longrightarrow> question_option_with_truncation c = Ok (c, False)"
  by (simp add: question_option_with_truncation_def option_ok_def opaque_id_idem bound_opt_idem Let_def)

lemma options_bounded:
  assumes "collect_res question_option_with_truncation options = Ok os" "list_all option_valid options"
  shows "list_all option_ok (map fst os) \<and> map qo_id (map fst os) = map qo_id options"
  using assms
proof (induction options arbitrary: os)
  case (Cons c options)
  then show ?case using option_bounded [of c] by (fastforce simp: rbind_Inr_iff)
qed simp

lemma options_idem:
  "list_all option_ok options \<Longrightarrow>
   collect_res question_option_with_truncation options = Ok (map (\<lambda>c. (c, False)) options)"
  by (induction options) (simp_all add: option_idem)

lemma form_bounded:
  assumes "form_with_truncation form = Ok (form', trunc)" "form_valid form"
  shows "form_ok form' \<and> same_form form form'"
proof (cases form)
  case (Choice options multi)
  with assms obtain os where os: "collect_res question_option_with_truncation options = Ok os"
    and form': "form' = Choice (map fst os) multi" and options: "options \<noteq> []" "length options \<le> 32"
      "distinct (map qo_id options)"
    by (auto simp: rbind_Inr_iff QUESTION_MAX_OPTIONS_def split: if_splits)
  from os have "length os = length options" by (rule collect_res_length)
  then have "os \<noteq> []" "length os \<le> 32" using options by auto
  with options_bounded [OF os] assms(2) Choice options form' show ?thesis
    by (metis form_ok.simps(1) form_valid.simps(1) length_map map_is_Nil_conv same_form.simps(1))
next
  case (FreeText placeholder)
  with assms show ?thesis by (auto simp: Let_def bound_opt_ok)
qed

lemma form_idem: "form_ok form \<Longrightarrow> form_with_truncation form = Ok (form, False)"
proof (cases form)
  case (Choice options multi)
  assume "form_ok form"
  with Choice show ?thesis
    by (simp add: options_idem QUESTION_MAX_OPTIONS_def comp_def list_ex_iff)
next
  case (FreeText placeholder)
  assume "form_ok form"
  with FreeText show ?thesis by (simp add: bound_opt_idem Let_def)
qed


lemma question_bounded:
  assumes "question_with_truncation q = Ok (q', trunc)" "question_valid q"
  shows "question_ok q' \<and> same_question q q'"
proof -
  obtain form ft where form: "form_with_truncation (qn_form q) = Ok (form, ft)"
    using assms(1)
    by (cases "form_with_truncation (qn_form q)") (auto simp: question_with_truncation_def)
  then have i: "opaque_id (qn_id q) (lit ''question id'') = Ok (qn_id q')"
    and q': "qn_prompt q' = bt_text (bound (qn_prompt q) Detail)"
      "qn_detail q' = map_option bt_text (bound_opt Detail (qn_detail q))"
      "qn_form q' = form" "qn_required q' = qn_required q"
    using assms(1) by (auto simp: question_with_truncation_def rbind_Inr_iff Let_def)
  from assms(2) have valid: "valid_str (qn_id q)" "valid_str (qn_prompt q)" "valid_opt (qn_detail q)"
    "form_valid (qn_form q)" by (auto simp: question_valid_def)
  with form_bounded [OF form] opaque_id_Ok [OF _ i] show ?thesis
    by (simp add: question_ok_def same_question_def q' bound_field_ok bound_opt_ok)
qed

lemma question_idem: "question_ok q \<Longrightarrow> question_with_truncation q = Ok (q, False)"
  by (simp add: question_with_truncation_def question_ok_def form_idem opaque_id_idem bound_idem
      bound_opt_idem Let_def)

lemma questions_bounded:
  assumes "collect_res question_with_truncation questions = Ok qs" "list_all question_valid questions"
  shows "list_all question_ok (map fst qs) \<and> list_all2 same_question questions (map fst qs)"
  using assms
proof (induction questions arbitrary: qs)
  case (Cons q questions)
  then show ?case using question_bounded [of q] by (fastforce simp: rbind_Inr_iff)
qed simp

lemma questions_idem:
  "list_all question_ok qs \<Longrightarrow> collect_res question_with_truncation qs = Ok (map (\<lambda>q. (q, False)) qs)"
  by (induction qs) (simp_all add: question_idem)

lemma same_questions_ids: "list_all2 same_question qs qs' \<Longrightarrow> map qn_id qs = map qn_id qs'"
  by (induction rule: list_all2_induct) (auto simp: same_question_def)

lemma request_bounded:
  assumes "question_request_normalized r = Ok r'" "question_request_valid r"
  shows "question_request_ok r' \<and> list_all2 same_question (qr_questions r) (qr_questions r') \<and>
    qr_interaction r' = qr_interaction r"
proof -
  obtain qs i where qs: "collect_res question_with_truncation (qr_questions r) = Ok qs"
    and i: "opaque_id (in_id (qr_interaction r)) (lit ''interaction id'') = Ok i"
    and r': "qr_interaction r' = (qr_interaction r)\<lparr>in_id := i\<rparr>" "qr_questions r' = map fst qs"
      "qr_title r' = map_option bt_text (bound_opt Title (qr_title r))"
    and guards: "in_kind (qr_interaction r) = QuestionKind" "qr_questions r \<noteq> []"
      "length (qr_questions r) \<le> 16" "distinct (map qn_id (qr_questions r))"
    using assms(1)
    by (auto simp: question_request_normalized_def interaction_normalized_def
        interaction_id_normalized_def rbind_Inr_iff res_map_Inr_iff QUESTION_MAX_ITEMS_def Let_def
        split: if_splits)
  from assms(2) have valid: "valid_str (in_id (qr_interaction r))" "valid_opt (qr_title r)"
    "list_all question_valid (qr_questions r)" by (auto simp: question_request_valid_def)
  have "i = in_id (qr_interaction r)" "id_ok i" using opaque_id_Ok [OF valid(1) i] by simp_all
  moreover have bounded: "list_all question_ok (map fst qs)" "list_all2 same_question (qr_questions r) (map fst qs)"
    using questions_bounded [OF qs valid(3)] by simp_all
  moreover have "length qs = length (qr_questions r)" using collect_res_length [OF qs] .
  moreover have "map qn_id (map fst qs) = map qn_id (qr_questions r)"
    using same_questions_ids [OF bounded(2)] by simp
  ultimately show ?thesis
    using guards by (auto simp: question_request_ok_def r' bound_opt_ok [OF valid(2)])
qed

lemma request_idem: "question_request_ok r \<Longrightarrow> question_request_normalized r = Ok r"
  by (auto simp: question_request_normalized_def question_request_ok_def interaction_normalized_def
      interaction_id_normalized_def questions_idem opaque_id_idem bound_opt_idem QUESTION_MAX_ITEMS_def
      comp_def list_ex_iff)

text \<open>An answer is checked against ids and forms alone, which bounding keeps.\<close>

lemma validate_answer_same:
  assumes "same_form form form'"
  shows "validate_answer form v = validate_answer form' v"
proof (cases form)
  case (Choice os multi)
  with assms obtain os' where form': "form' = Choice os' multi" and ids: "map qo_id os = map qo_id os'"
    by (cases form') auto
  have "list_ex (\<lambda>c. qo_id c = i) os \<longleftrightarrow> list_ex (\<lambda>c. qo_id c = i) os'" for i
    using arg_cong [OF ids, of "\<lambda>xs. i \<in> set xs"] by (auto simp: list_ex_iff)
  moreover have "length os = length os'" using ids by (metis length_map)
  ultimately show ?thesis by (cases v) (simp_all add: Choice form')
next
  case (FreeText p)
  with assms obtain p' where "form' = FreeText p'" by (cases form') auto
  with FreeText show ?thesis by (cases v) simp_all
qed

lemma find_same_question:
  assumes "list_all2 same_question qs qs'"
  shows "rel_option same_question (find (\<lambda>q. qn_id q = i) qs) (find (\<lambda>q. qn_id q = i) qs')"
  using assms by (induction rule: list_all2_induct) (auto simp: same_question_def)

lemma validate_same:
  assumes "list_all2 same_question (qr_questions r) (qr_questions r')" "qr_interaction r' = qr_interaction r"
  shows "validate_response r' resp = validate_response r resp"
proof -
  have len: "length (qr_questions r') = length (qr_questions r)"
    using list_all2_lengthD [OF assms(1)] by simp
  have "check_answers r' answered as = check_answers r answered as" for answered as
  proof (induction as arbitrary: answered)
    case (Cons a as)
    have "rel_option same_question (request_question r (an_question a)) (request_question r' (an_question a))"
      unfolding request_question_def by (rule find_same_question [OF assms(1)])
    then show ?case
      by (cases rule: option.rel_cases)
        (use Cons validate_answer_same len in \<open>auto simp: same_question_def\<close>)
  qed simp
  moreover have "check_required (filter qn_required qs') as = check_required (filter qn_required qs) as"
    if "list_all2 same_question qs qs'" for qs qs' as
    using that by (induction rule: list_all2_induct) (auto simp: same_question_def)
  ultimately show ?thesis using assms by (simp add: validate_response_def)
qed


text \<open>A round of questions that \<open>QuestionRequest::normalized\<close> accepts is within every bound a host
  relies on (1 to 16 questions and 1 to 32 choices with unique ids kept whole, each text within its
  limit and without control characters), bounding it again changes nothing, and no answer changes its
  verdict: the bounded request takes exactly the responses the vendor's request would.\<close>

theorem bounded_request_sound:
  assumes "question_request_valid r" "question_request_normalized r = Ok r'"
  shows "question_request_ok r' \<and> question_request_normalized r' = Ok r' \<and>
    map qn_id (qr_questions r') = map qn_id (qr_questions r) \<and>
    (\<forall>resp. validate_response r' resp = validate_response r resp)"
  using request_bounded [OF assms(2,1)] request_idem [of r'] validate_same [of r r']
    same_questions_ids [of "qr_questions r" "qr_questions r'"]
  by simp

fun answer_value_bounded :: "answer_value \<Rightarrow> answer_value" where
  "answer_value_bounded (TextAnswer t) = TextAnswer (bt_text (bound t Detail))"
| "answer_value_bounded v = v"

definition answer_valid :: "answer \<Rightarrow> bool" where
  "answer_valid a \<longleftrightarrow> (case an_value a of TextAnswer t \<Rightarrow> valid_str t | _ \<Rightarrow> True)"

lemma collect_opaque_ids_idem:
  "list_all id_ok ids \<Longrightarrow> collect_res (\<lambda>i. opaque_id i field) ids = Ok ids"
  by (induction ids) (simp_all add: opaque_id_idem)

lemma value_bounded:
  assumes "form_ok form" "value_fits form v" "case v of TextAnswer t \<Rightarrow> valid_str t | _ \<Rightarrow> True"
  shows "answer_value_normalized v = Ok (answer_value_bounded v) \<and> value_fits form (answer_value_bounded v)"
proof (cases v)
  case (Chosen ids)
  with assms(2) obtain options multi where form: "form = Choice options multi" by (cases form) auto
  with assms Chosen have "list_all id_ok ids" by (auto simp: list_all_iff option_ok_def)
  then show ?thesis using assms(2) Chosen by (simp add: collect_opaque_ids_idem)
next
  case (TextAnswer t)
  with assms(2) obtain p where "form = FreeText p" by (cases form) auto
  with assms TextAnswer bound_field_ok [of t Detail] show ?thesis by (simp add: field_ok_def)
next
  case Declined
  with assms(2) show ?thesis by simp
qed

lemma answer_bounded:
  assumes "question_request_ok r" "request_question r (an_question a) = Some q"
    "value_fits (qn_form q) (an_value a)" "answer_valid a"
  shows "answer_normalized a = Ok (a\<lparr>an_value := answer_value_bounded (an_value a)\<rparr>) \<and>
    value_fits (qn_form q) (answer_value_bounded (an_value a))"
proof -
  have "q \<in> set (qr_questions r)" "qn_id q = an_question a"
    using find_in_set [of _ "qr_questions r" q] assms(2) by (auto simp: request_question_def)
  with assms(1) have "id_ok (an_question a)" "form_ok (qn_form q)"
    by (auto simp: question_request_ok_def question_ok_def list_all_iff)
  with value_bounded [of "qn_form q" "an_value a"] assms(3,4) show ?thesis
    by (simp add: answer_normalized_def opaque_id_idem answer_valid_def)
qed

lemma answers_bounded:
  assumes "question_request_ok r" "list_all answer_valid as"
    "\<forall>a \<in> set as. \<exists>q. request_question r (an_question a) = Some q \<and> value_fits (qn_form q) (an_value a)"
  shows "collect_res answer_normalized as =
    Ok (map (\<lambda>a. a\<lparr>an_value := answer_value_bounded (an_value a)\<rparr>) as)"
  using assms(2,3) answer_bounded [OF assms(1)] by (induction as) auto

lemma answer_value_bounded_declined [simp]: "answer_value_bounded v = Declined \<longleftrightarrow> v = Declined"
  by (cases v) simp_all

text \<open>An answer set a bounded request accepted can always be published: bounding it succeeds,
  names the same questions, and gives an answer set the request still accepts.\<close>

theorem accepted_answers_publishable:
  assumes "question_request_ok r" "validate_response r resp = Ok ()" "list_all answer_valid (rs_answers resp)"
  shows "\<exists>answers. question_outcome_normalized (AnsweredOutcome (rs_answers resp)) = Ok (AnsweredOutcome answers) \<and>
    map an_question answers = map an_question (rs_answers resp) \<and>
    validate_response r (resp\<lparr>rs_answers := answers\<rparr>) = Ok ()"
proof -
  let ?f = "\<lambda>a. a\<lparr>an_value := answer_value_bounded (an_value a)\<rparr>"
  have fits: "response_fits r resp" using assms(2) by (simp add: validate_response_eq)
  then have each: "\<forall>a \<in> set (rs_answers resp). \<exists>q. request_question r (an_question a) = Some q \<and>
      value_fits (qn_form q) (an_value a)" by (simp add: response_fits_def)
  have "collect_res answer_normalized (rs_answers resp) = Ok (map ?f (rs_answers resp))"
    by (rule answers_bounded [OF assms(1,3) each])
  moreover have "value_fits (qn_form q) (answer_value_bounded (an_value a))"
    if "a \<in> set (rs_answers resp)" "request_question r (an_question a) = Some q" for a q
    using answer_bounded [OF assms(1) that(2)] each that assms(3) by (auto simp: list_all_iff)
  then have "response_fits r (resp\<lparr>rs_answers := map ?f (rs_answers resp)\<rparr>)"
    using fits by (fastforce simp: response_fits_def comp_def)
  ultimately show ?thesis
    by (intro exI [of _ "map ?f (rs_answers resp)"]) (simp add: comp_def validate_response_eq)
qed

subsection \<open>One round\<close>

definition demo_round :: question_request where
  "demo_round = question_request_new (interaction_new (lit ''i'') PermissionKind (lit ''s'') 7)
     [(question_new (lit ''q'') (lit ''Which?'') (Choice [question_option_new (lit ''a''), question_option_new (lit ''b'')] False))
        \<lparr>qn_required := True\<rparr>,
      question_new (lit ''t'') (lit ''Why?'') (FreeText None)]"

definition demo_response :: question_response where
  "demo_response = \<lparr>rs_interaction = lit ''i'',
     rs_answers = [\<lparr>an_question = lit ''t'', an_value = TextAnswer (lit ''x'')\<rparr>,
                   \<lparr>an_question = lit ''q'', an_value = Chosen [lit ''b'']\<rparr>]\<rparr>"

lemmas demo_round_defs = demo_round_def demo_response_def question_request_new_def interaction_new_def
  question_new_def question_option_new_def lit_def

lemma demo_round_ok: "question_request_valid demo_round" "question_request_ok demo_round"
  by (simp_all add: demo_round_defs question_request_valid_def question_valid_def option_valid_def
      scalar_value_def question_request_ok_def question_ok_def option_ok_def id_ok_def field_ok_def
      opt_field_ok_def is_strippable_def trim_eq_Nil_iff is_whitespace_def)

lemma demo_response_accepted: "validate_response demo_round demo_response = Ok ()"
  by (simp add: demo_round_defs validate_response_def request_question_def is_declined_def
      ANSWER_TEXT_MAX_LENGTH_def)

lemma bounded_request_sound_witness:
  "question_request_normalized demo_round = Ok demo_round \<and>
   validate_response demo_round demo_response = Ok ()"
  using bounded_request_sound [OF demo_round_ok(1) request_idem [OF demo_round_ok(2)]]
    demo_response_accepted by simp

lemma accepted_answers_publishable_witness:
  "\<exists>answers. map an_question answers = [lit ''t'', lit ''q''] \<and>
    validate_response demo_round (demo_response\<lparr>rs_answers := answers\<rparr>) = Ok ()"
proof -
  have "list_all answer_valid (rs_answers demo_response)"
    by (simp add: demo_response_def answer_valid_def lit_def scalar_value_def)
  moreover have "map an_question (rs_answers demo_response) = [lit ''t'', lit ''q'']"
    by (simp add: demo_response_def)
  ultimately show ?thesis
    using accepted_answers_publishable [OF demo_round_ok(2) demo_response_accepted] by metis
qed

end
