(* ===== verification/Permission.thy ===== *)
theory Permission imports Interaction begin

text \<open>
  What the agent may do, who answers when it asks, and how an answer is reached (\<open>permission.rs\<close>): the
  matrix of the six level and routing pairs with the rule that a probe only narrows a declaration,
  and a permission request with the choice that decides least. \<open>redact::message_text\<close> is the argument
  \<open>msg\<close> where a reason a vendor wrote is bounded; a broker is the function that decides for it.
\<close>

subsection \<open>Levels and routings\<close>

datatype permission_level = ReadOnly | DefaultLevel | FullAccess

datatype approval_routing = User | AutoReview

definition level_ALL :: "permission_level list" where
  "level_ALL = [ReadOnly, DefaultLevel, FullAccess]"

definition routing_ALL :: "approval_routing list" where
  "routing_ALL = [User, AutoReview]"

definition level_RESTRICTIVE :: permission_level where
  "level_RESTRICTIVE = ReadOnly"

definition routing_RESTRICTIVE :: approval_routing where
  "routing_RESTRICTIVE = User"

fun level_index :: "permission_level \<Rightarrow> nat" where
  "level_index ReadOnly = 0"
| "level_index DefaultLevel = 1"
| "level_index FullAccess = 2"

text \<open>The derived \<open>Ord\<close>: increasing order of freedom.\<close>

instantiation permission_level :: linorder
begin

definition less_eq_permission_level :: "permission_level \<Rightarrow> permission_level \<Rightarrow> bool" where
  "less_eq_permission_level a b \<longleftrightarrow> level_index a \<le> level_index b"

definition less_permission_level :: "permission_level \<Rightarrow> permission_level \<Rightarrow> bool" where
  "less_permission_level a b \<longleftrightarrow> level_index a < level_index b"

instance
proof
  fix a b :: permission_level
  show "a \<le> b \<Longrightarrow> b \<le> a \<Longrightarrow> a = b"
    by (cases a; cases b) (simp_all add: less_eq_permission_level_def)
qed (auto simp: less_eq_permission_level_def less_permission_level_def)

end

subsection \<open>The matrix\<close>

datatype unsupported_reason =
    NotOfferedByVendor
  | RequiresAccountUpgrade
  | RequiresNewerVersion
  | UnattendedNotPermitted
  | OtherReason ustring

fun unsupported_reason_normalized :: "(ustring \<Rightarrow> ustring) \<Rightarrow> unsupported_reason \<Rightarrow> unsupported_reason" where
  "unsupported_reason_normalized msg (OtherReason reason) =
     OtherReason (bt_text (redact_bounded msg reason Detail))"
| "unsupported_reason_normalized msg reason = reason"

datatype configuration_verdict =
  Supported "ustring option" | Unsupported unsupported_reason "ustring option"

definition verdict_supported :: configuration_verdict where
  "verdict_supported = Supported None"

definition verdict_unsupported :: "unsupported_reason \<Rightarrow> configuration_verdict" where
  "verdict_unsupported reason = Unsupported reason None"

record supported_configuration =
  sc_level :: permission_level
  sc_routing :: approval_routing
  sc_supported :: bool
  sc_reason :: "unsupported_reason option"
  sc_vendor_id :: "ustring option"
  sc_unattended :: bool

type_synonym permission_matrix = "supported_configuration list"

definition matrix_cell_for ::
  "(permission_level \<Rightarrow> approval_routing \<Rightarrow> configuration_verdict) \<Rightarrow> permission_level \<Rightarrow>
   approval_routing \<Rightarrow> supported_configuration" where
  "matrix_cell_for verdict_for level routing =
     (let unattended = level = FullAccess \<or> routing = AutoReview
      in case verdict_for level routing of
           Supported vendor_id \<Rightarrow>
             \<lparr>sc_level = level, sc_routing = routing, sc_supported = True, sc_reason = None,
              sc_vendor_id = vendor_id, sc_unattended = unattended\<rparr>
         | Unsupported reason vendor_id \<Rightarrow>
             \<lparr>sc_level = level, sc_routing = routing, sc_supported = False, sc_reason = Some reason,
              sc_vendor_id = vendor_id, sc_unattended = unattended\<rparr>)"

definition matrix_build ::
  "(permission_level \<Rightarrow> approval_routing \<Rightarrow> configuration_verdict) \<Rightarrow> permission_matrix" where
  "matrix_build verdict_for =
     concat (map (\<lambda>level. map (matrix_cell_for verdict_for level) routing_ALL) level_ALL)"

definition matrix_none :: "unsupported_reason \<Rightarrow> permission_matrix" where
  "matrix_none reason = matrix_build (\<lambda>_ _. verdict_unsupported reason)"

definition matrix_cell ::
  "permission_matrix \<Rightarrow> permission_level \<Rightarrow> approval_routing \<Rightarrow> supported_configuration option" where
  "matrix_cell m level routing = find (\<lambda>c. sc_level c = level \<and> sc_routing c = routing) m"

definition matrix_supports :: "permission_matrix \<Rightarrow> permission_level \<Rightarrow> approval_routing \<Rightarrow> bool" where
  "matrix_supports m level routing =
     (case matrix_cell m level routing of None \<Rightarrow> False | Some c \<Rightarrow> sc_supported c)"

definition normalized_vendor_id :: "ustring option \<Rightarrow> ustring option" where
  "normalized_vendor_id i =
     Option.bind i (\<lambda>i. res_ok (opaque_id i (lit ''permission configuration vendor id'')))"

definition or_else :: "'a option \<Rightarrow> 'a option \<Rightarrow> 'a option" where
  "or_else a b = (case a of None \<Rightarrow> b | Some _ \<Rightarrow> a)"

definition cell_reason :: "(ustring \<Rightarrow> ustring) \<Rightarrow> supported_configuration \<Rightarrow> unsupported_reason" where
  "cell_reason msg c =
     unsupported_reason_normalized msg
       (case sc_reason c of None \<Rightarrow> NotOfferedByVendor | Some reason \<Rightarrow> reason)"

definition bounded_verdict ::
  "(ustring \<Rightarrow> ustring) \<Rightarrow> permission_matrix \<Rightarrow> permission_matrix \<Rightarrow> bool \<Rightarrow> permission_level \<Rightarrow>
   approval_routing \<Rightarrow> configuration_verdict" where
  "bounded_verdict msg probe declaration normalize_probe_first level routing =
     (case matrix_cell declaration level routing of
        None \<Rightarrow> verdict_unsupported
          (OtherReason (lit ''the declaration did not describe this permission configuration''))
      | Some declared \<Rightarrow>
          if \<not> sc_supported declared then
            Unsupported (cell_reason msg declared) (normalized_vendor_id (sc_vendor_id declared))
          else case matrix_cell probe level routing of
            None \<Rightarrow>
              Unsupported
                (OtherReason
                  (if normalize_probe_first
                   then lit ''the matrix did not describe this permission configuration''
                   else lit ''the probe did not describe this permission configuration''))
                (if normalize_probe_first then normalized_vendor_id (sc_vendor_id declared) else None)
          | Some probed \<Rightarrow>
              (let vendor_id =
                 (if normalize_probe_first
                  then or_else (normalized_vendor_id (sc_vendor_id probed))
                         (normalized_vendor_id (sc_vendor_id declared))
                  else normalized_vendor_id (or_else (sc_vendor_id probed) (sc_vendor_id declared)))
               in if sc_supported probed then Supported vendor_id
                  else Unsupported (cell_reason msg probed) vendor_id))"

definition bounded_by_inner ::
  "(ustring \<Rightarrow> ustring) \<Rightarrow> permission_matrix \<Rightarrow> permission_matrix \<Rightarrow> bool \<Rightarrow> permission_matrix" where
  "bounded_by_inner msg probe declaration normalize_probe_first =
     matrix_build (bounded_verdict msg probe declaration normalize_probe_first)"

definition bounded_by ::
  "(ustring \<Rightarrow> ustring) \<Rightarrow> permission_matrix \<Rightarrow> permission_matrix \<Rightarrow> permission_matrix" where
  "bounded_by msg probe declaration = bounded_by_inner msg probe declaration False"

definition normalized_bounded_by ::
  "(ustring \<Rightarrow> ustring) \<Rightarrow> permission_matrix \<Rightarrow> permission_matrix \<Rightarrow> permission_matrix" where
  "normalized_bounded_by msg probe declaration = bounded_by_inner msg probe declaration True"

definition matrix_normalized :: "(ustring \<Rightarrow> ustring) \<Rightarrow> permission_matrix \<Rightarrow> permission_matrix" where
  "matrix_normalized msg m =
     matrix_build (\<lambda>level routing.
       case matrix_cell m level routing of
         None \<Rightarrow> verdict_unsupported
           (OtherReason (lit ''the matrix did not describe this permission configuration''))
       | Some c \<Rightarrow>
           (let vendor_id = normalized_vendor_id (sc_vendor_id c)
            in if sc_supported c then Supported vendor_id else Unsupported (cell_reason msg c) vendor_id))"


subsection \<open>Choices\<close>

datatype permission_effect = Allow | Reject | OtherEffect

fun effect_allows :: "permission_effect \<Rightarrow> bool" where
  "effect_allows Allow = True"
| "effect_allows _ = False"

fun effect_rejects :: "permission_effect \<Rightarrow> bool" where
  "effect_rejects Reject = True"
| "effect_rejects _ = False"

fun effect_display :: "permission_effect \<Rightarrow> ustring" where
  "effect_display Allow = lit ''allow''"
| "effect_display Reject = lit ''reject''"
| "effect_display OtherEffect = lit ''other''"

datatype permission_scope = Once | TurnScope | SessionScope | Persistent

fun scope_index :: "permission_scope \<Rightarrow> nat" where
  "scope_index Once = 0"
| "scope_index TurnScope = 1"
| "scope_index SessionScope = 2"
| "scope_index Persistent = 3"

text \<open>The derived \<open>Ord\<close>: narrowest to widest.\<close>

instantiation permission_scope :: linorder
begin

definition less_eq_permission_scope :: "permission_scope \<Rightarrow> permission_scope \<Rightarrow> bool" where
  "less_eq_permission_scope a b \<longleftrightarrow> scope_index a \<le> scope_index b"

definition less_permission_scope :: "permission_scope \<Rightarrow> permission_scope \<Rightarrow> bool" where
  "less_permission_scope a b \<longleftrightarrow> scope_index a < scope_index b"

instance
proof
  fix a b :: permission_scope
  show "a \<le> b \<Longrightarrow> b \<le> a \<Longrightarrow> a = b"
    by (cases a; cases b) (simp_all add: less_eq_permission_scope_def)
qed (auto simp: less_eq_permission_scope_def less_permission_scope_def)

end

definition scope_ALL :: "permission_scope list" where
  "scope_ALL = [Once, TurnScope, SessionScope, Persistent]"

definition scope_is_standing :: "permission_scope \<Rightarrow> bool" where
  "scope_is_standing s \<longleftrightarrow> s \<noteq> Once"

definition outlives_session :: "permission_scope \<Rightarrow> bool" where
  "outlives_session s \<longleftrightarrow> s = Persistent"

fun scope_display :: "permission_scope \<Rightarrow> ustring" where
  "scope_display Once = lit ''once''"
| "scope_display TurnScope = lit ''this turn''"
| "scope_display SessionScope = lit ''this session''"
| "scope_display Persistent = lit ''from now on''"

datatype permission_risk = Unspecified | Reversible | Destructive

fun risk_display :: "permission_risk \<Rightarrow> ustring" where
  "risk_display Unspecified = lit ''unspecified''"
| "risk_display Reversible = lit ''reversible''"
| "risk_display Destructive = lit ''destructive''"

record permission_option =
  po_id :: ustring
  po_effect :: permission_effect
  po_scope :: "permission_scope option"
  po_policy_changing :: bool
  po_risk :: permission_risk
  po_label :: "ustring option"

definition permission_option_new :: "ustring \<Rightarrow> permission_effect \<Rightarrow> permission_option" where
  "permission_option_new i effect =
     \<lparr>po_id = i, po_effect = effect, po_scope = None, po_policy_changing = False,
      po_risk = Unspecified, po_label = None\<rparr>"

definition with_label :: "ustring \<Rightarrow> permission_option \<Rightarrow> permission_option" where
  "with_label label c = c\<lparr>po_label := Some label\<rparr>"

definition with_scope :: "permission_scope \<Rightarrow> permission_option \<Rightarrow> permission_option" where
  "with_scope scope c = c\<lparr>po_scope := Some scope\<rparr>"

definition with_risk :: "permission_risk \<Rightarrow> permission_option \<Rightarrow> permission_option" where
  "with_risk risk c = c\<lparr>po_risk := risk\<rparr>"

definition policy_changing :: "permission_option \<Rightarrow> permission_option" where
  "policy_changing c = c\<lparr>po_policy_changing := True\<rparr>"

definition option_is_destructive :: "permission_option \<Rightarrow> bool" where
  "option_is_destructive c \<longleftrightarrow> po_risk c = Destructive"

definition option_is_standing :: "permission_option \<Rightarrow> bool" where
  "option_is_standing c \<longleftrightarrow>
     po_policy_changing c \<or> (case po_scope c of Some scope \<Rightarrow> scope_is_standing scope | None \<Rightarrow> True)"

definition breadth :: "permission_option \<Rightarrow> nat \<times> nat" where
  "breadth c =
     (of_bool (po_policy_changing c),
      case po_scope c of
        Some Once \<Rightarrow> 0 | Some TurnScope \<Rightarrow> 1 | Some SessionScope \<Rightarrow> 2 | Some Persistent \<Rightarrow> 3
      | None \<Rightarrow> 4)"

subsection \<open>Requests and answers\<close>

datatype activity_kind =
    CommandActivity | FileChange | Mcp | Subagent | WebSearch | ImageActivity | Plan | Review
  | Compaction | OtherActivity

datatype decision_source = UserSource | AutoReviewSource | ExpiredSource | CancelledSource

record permission_request =
  pr_interaction :: interaction
  pr_kind :: activity_kind
  pr_title :: ustring
  pr_detail :: "ustring option"
  pr_options :: "permission_option list"
  pr_truncated :: bool

record permission_response =
  ps_interaction :: interaction_id
  ps_option :: ustring
  ps_source :: decision_source

definition permission_request_new ::
  "interaction \<Rightarrow> activity_kind \<Rightarrow> ustring \<Rightarrow> permission_option list \<Rightarrow> permission_request" where
  "permission_request_new i kind title options =
     \<lparr>pr_interaction = i\<lparr>in_kind := PermissionKind\<rparr>, pr_kind = kind, pr_title = title,
      pr_detail = None, pr_options = options, pr_truncated = False\<rparr>"

definition response_from_user :: "interaction_id \<Rightarrow> ustring \<Rightarrow> permission_response" where
  "response_from_user i chosen = \<lparr>ps_interaction = i, ps_option = chosen, ps_source = UserSource\<rparr>"

definition with_source :: "decision_source \<Rightarrow> permission_response \<Rightarrow> permission_response" where
  "with_source source r = r\<lparr>ps_source := source\<rparr>"

definition answer_with :: "permission_request \<Rightarrow> permission_option \<Rightarrow> decision_source \<Rightarrow> permission_response" where
  "answer_with r chosen source =
     \<lparr>ps_interaction = in_id (pr_interaction r), ps_option = po_id chosen, ps_source = source\<rparr>"

text \<open>\<open>{:?}\<close> of the effects offered.\<close>

fun effect_debug :: "permission_effect \<Rightarrow> ustring" where
  "effect_debug Allow = lit ''Allow''"
| "effect_debug Reject = lit ''Reject''"
| "effect_debug OtherEffect = lit ''Other''"

fun comma_join :: "ustring list \<Rightarrow> ustring" where
  "comma_join [] = []"
| "comma_join [x] = x"
| "comma_join (x # y # xs) = x @ lit '', '' @ comma_join (y # xs)"

definition option_effects :: "permission_request \<Rightarrow> permission_effect list" where
  "option_effects r = map po_effect (pr_options r)"

definition narrowest ::
  "permission_request \<Rightarrow> permission_effect \<Rightarrow> ustring \<Rightarrow> permission_response result" where
  "narrowest r effect expected =
     (case min_by_key breadth (filter (\<lambda>c. po_effect c = effect) (pr_options r)) of
        None \<Rightarrow>
          Err (Protocol expected (lit ''['' @ comma_join (map effect_debug (option_effects r)) @ lit '']''))
      | Some chosen \<Rightarrow> Ok (answer_with r chosen UserSource))"

definition request_allow :: "permission_request \<Rightarrow> permission_response result" where
  "request_allow r = narrowest r Allow (lit ''an option that allows'')"

definition request_deny :: "permission_request \<Rightarrow> permission_response result" where
  "request_deny r = narrowest r Reject (lit ''an option that refuses'')"

definition request_respond ::
  "permission_request \<Rightarrow> ustring \<Rightarrow> decision_source \<Rightarrow> permission_response result" where
  "request_respond r option_id source =
     (case find (\<lambda>c. po_id c = option_id) (pr_options r) of
        None \<Rightarrow>
          Err (Protocol (lit ''one of the '' @ dec (length (pr_options r)) @ lit '' options this request offered'')
                 option_id)
      | Some chosen \<Rightarrow> Ok (answer_with r chosen source))"

definition has_duplicate_option_ids :: "permission_request \<Rightarrow> bool" where
  "has_duplicate_option_ids r \<longleftrightarrow>
     list_ex (\<lambda>i. list_ex (\<lambda>p. po_id p = po_id (pr_options r ! i)) (take i (pr_options r)))
       [0..<length (pr_options r)]"

text \<open>One option of the loop in \<open>normalized\<close>: the bounded option and whether its label was cut.\<close>

definition permission_option_bounded :: "permission_option \<Rightarrow> (permission_option \<times> bool) result" where
  "permission_option_bounded c =
     (let label = bound_opt ApprovalOptionLabel (po_label c)
      in rbind (opaque_id (po_id c) (lit ''approval option id''))
           (\<lambda>i. Ok (c\<lparr>po_id := i, po_label := map_option bt_text label\<rparr>, cut_opt label)))"

definition permission_request_normalized :: "permission_request \<Rightarrow> permission_request result" where
  "permission_request_normalized r =
     (if in_kind (pr_interaction r) \<noteq> PermissionKind then
        Err (Protocol (lit ''a permission interaction'') (interaction_kind_display (in_kind (pr_interaction r))))
      else if pr_options r = [] then Err (Protocol (lit ''at least one approval option'') (lit ''0''))
      else if length (pr_options r) > APPROVAL_MAX_OPTIONS then
        Err (LimitExceeded (lit ''approval options offered'') APPROVAL_MAX_OPTIONS (length (pr_options r)))
      else if has_duplicate_option_ids r then
        Err (Protocol (lit ''unique approval option ids'') (lit ''duplicate approval option id''))
      else let title = bound (pr_title r) Title; detail = bound_opt Detail (pr_detail r)
        in rbind (collect_res permission_option_bounded (pr_options r))
             (\<lambda>os. rbind (interaction_normalized (pr_interaction r))
               (\<lambda>i. Ok \<lparr>pr_interaction = i, pr_kind = pr_kind r, pr_title = bt_text title,
                        pr_detail = map_option bt_text detail, pr_options = map fst os,
                        pr_truncated = pr_truncated r \<or> bt_truncated title \<or> cut_opt detail \<or>
                          list_ex snd os\<rparr>)))"

subsection \<open>Decisions\<close>

record approval_decision =
  ad_option :: ustring
  ad_effect :: permission_effect
  ad_scope :: "permission_scope option"
  ad_policy_changing :: bool
  ad_source :: decision_source

definition decision_from_option :: "permission_option \<Rightarrow> decision_source \<Rightarrow> approval_decision" where
  "decision_from_option c source =
     \<lparr>ad_option = po_id c, ad_effect = po_effect c, ad_scope = po_scope c,
      ad_policy_changing = po_policy_changing c, ad_source = source\<rparr>"

definition decision_unresolved :: "ustring \<Rightarrow> decision_source \<Rightarrow> approval_decision" where
  "decision_unresolved i source =
     \<lparr>ad_option = i, ad_effect = OtherEffect, ad_scope = None, ad_policy_changing = False,
      ad_source = source\<rparr>"

definition decision_is_standing :: "approval_decision \<Rightarrow> bool" where
  "decision_is_standing d \<longleftrightarrow>
     ad_policy_changing d \<or>
     (case ad_scope d of Some scope \<Rightarrow> scope_is_standing scope | None \<Rightarrow> ad_effect d \<noteq> OtherEffect)"

datatype broker_decision = Ask | BrokerAllow | BrokerDeny ustring

definition broker_response ::
  "(permission_request \<Rightarrow> broker_decision) option \<Rightarrow> permission_request \<Rightarrow> permission_response option" where
  "broker_response broker r =
     (case broker of
        None \<Rightarrow> None
      | Some decide \<Rightarrow>
          if pr_options r = [] \<or> length (pr_options r) > APPROVAL_MAX_OPTIONS \<or> has_duplicate_option_ids r
          then None
          else map_option (with_source AutoReviewSource)
                 (case decide r of
                    Ask \<Rightarrow> None
                  | BrokerAllow \<Rightarrow> res_ok (request_allow r)
                  | BrokerDeny _ \<Rightarrow> res_ok (request_deny r)))"


subsection \<open>The matrix is complete and a probe only narrows it\<close>

lemma matrix_cell_build: "matrix_cell (matrix_build f) level routing = Some (matrix_cell_for f level routing)"
proof -
  have key: "sc_level (matrix_cell_for f l r) = l" "sc_routing (matrix_cell_for f l r) = r" for l r
    by (simp_all add: matrix_cell_for_def Let_def split: configuration_verdict.split)
  show ?thesis
    by (cases level; cases routing)
      (simp_all add: matrix_cell_def matrix_build_def level_ALL_def routing_ALL_def key)
qed

lemma matrix_build_length: "length (matrix_build f) = 6"
  by (simp add: matrix_build_def level_ALL_def routing_ALL_def)

lemma all_levels: "(\<forall>level. P level) \<longleftrightarrow> P ReadOnly \<and> P DefaultLevel \<and> P FullAccess"
  and all_routings: "(\<forall>routing. Q routing) \<longleftrightarrow> Q User \<and> Q AutoReview"
  by (metis permission_level.exhaust) (metis approval_routing.exhaust)

lemma matrix_build_list_all:
  "list_all P (matrix_build f) \<longleftrightarrow> (\<forall>level routing. P (matrix_cell_for f level routing))"
  by (simp add: matrix_build_def level_ALL_def routing_ALL_def all_levels all_routings)

lemma cell_supported_iff:
  "sc_supported (matrix_cell_for f level routing) \<longleftrightarrow> (\<exists>i. f level routing = Supported i)"
  by (auto simp: matrix_cell_for_def Let_def split: configuration_verdict.splits)

lemma bounded_by_inner_supports:
  "matrix_supports (bounded_by_inner msg probe declaration mode) level routing \<longleftrightarrow>
     matrix_supports probe level routing \<and> matrix_supports declaration level routing"
  by (auto simp: matrix_supports_def bounded_by_inner_def matrix_cell_build cell_supported_iff
      bounded_verdict_def verdict_unsupported_def Let_def split: option.splits if_splits)

text \<open>A probe never makes a pair available that the harness did not declare, and never one the
  probe itself refused: bounding, whether it normalises the probe's ids first or not, supports
  exactly the pairs both support. The result has all six cells, each unsupported one with its
  reason, and a cell is unattended exactly when the level is full access or no person routes.\<close>

theorem probe_only_narrows:
  "(matrix_supports (bounded_by msg probe declaration) level routing \<longleftrightarrow>
      matrix_supports probe level routing \<and> matrix_supports declaration level routing) \<and>
   (matrix_supports (normalized_bounded_by msg probe declaration) level routing \<longleftrightarrow>
      matrix_supports probe level routing \<and> matrix_supports declaration level routing) \<and>
   length (bounded_by msg probe declaration) = 6 \<and>
   list_all (\<lambda>c. (sc_reason c = None \<longleftrightarrow> sc_supported c) \<and>
       (sc_unattended c \<longleftrightarrow> sc_level c = FullAccess \<or> sc_routing c = AutoReview))
     (bounded_by msg probe declaration)"
  by (simp add: bounded_by_def normalized_bounded_by_def bounded_by_inner_supports)
    (auto simp: bounded_by_inner_def matrix_build_length matrix_build_list_all matrix_cell_for_def
      Let_def split: configuration_verdict.split)

subsection \<open>The choice that decides least\<close>

lemma filter_distinct_key:
  "distinct (map f xs) \<Longrightarrow> x \<in> set xs \<Longrightarrow> filter (\<lambda>y. f y = f x) xs = [x]"
proof (induction xs)
  case (Cons a xs)
  show ?case
  proof (cases "f a = f x")
    case True
    with Cons.prems have "a = x" "\<forall>y \<in> set xs. f y \<noteq> f x" by (auto simp: rev_image_eqI)
    then show ?thesis by (simp add: filter_False)
  next
    case False
    with Cons show ?thesis by auto
  qed
qed simp

lemma has_duplicate_iff: "has_duplicate_option_ids r \<longleftrightarrow> \<not> distinct (map po_id (pr_options r))"
proof -
  let ?xs = "pr_options r"
  have earlier: "list_ex P (take i ?xs) \<longleftrightarrow> (\<exists>j < i. P (?xs ! j))" if "i < length ?xs" for i P
    using that by (auto simp: list_ex_length)
  have "has_duplicate_option_ids r \<longleftrightarrow>
      (\<exists>i \<in> {0..<length ?xs}. list_ex (\<lambda>p. po_id p = po_id (?xs ! i)) (take i ?xs))"
    unfolding has_duplicate_option_ids_def list_ex_iff [of _ "[0..<length ?xs]"] by simp
  also have "\<dots> \<longleftrightarrow> (\<exists>i < length ?xs. \<exists>j < i. po_id (?xs ! j) = po_id (?xs ! i))"
    using earlier by (simp add: Bex_def)
  also have "\<dots> \<longleftrightarrow> \<not> distinct (map po_id ?xs)" (is "?L \<longleftrightarrow> ?R")
  proof
    assume ?L
    then obtain i j where "i < length ?xs" "j < i" "po_id (?xs ! j) = po_id (?xs ! i)" by blast
    then show ?R using nth_eq_iff_index_eq [of "map po_id ?xs" j i] by auto
  next
    assume ?R
    then obtain i j where "i < length ?xs" "j < length ?xs" "i \<noteq> j" "po_id (?xs ! i) = po_id (?xs ! j)"
      by (auto simp: distinct_conv_nth)
    then show ?L by (cases i j rule: linorder_cases) force+
  qed
  finally show ?thesis .
qed

text \<open>\<open>scope_within c d\<close>: \<open>c\<close> states a reach no wider than \<open>d\<close>'s; an unstated reach is the widest.\<close>

definition scope_within :: "permission_option \<Rightarrow> permission_option \<Rightarrow> bool" where
  "scope_within c d \<longleftrightarrow>
     (case po_scope d of None \<Rightarrow> True
      | Some sd \<Rightarrow> (case po_scope c of None \<Rightarrow> False | Some sc \<Rightarrow> sc \<le> sd))"

definition decides_no_more :: "permission_option \<Rightarrow> permission_option \<Rightarrow> bool" where
  "decides_no_more c d \<longleftrightarrow>
     (\<not> po_policy_changing c \<and> po_policy_changing d) \<or>
     (po_policy_changing c = po_policy_changing d \<and> scope_within c d)"

lemma breadth_le_iff: "breadth c \<le> breadth d \<longleftrightarrow> decides_no_more c d"
  by (auto simp: breadth_def decides_no_more_def scope_within_def less_eq_permission_scope_def
      split: option.split permission_scope.split)

lemma narrowest_Ok:
  assumes "narrowest r effect expected = Ok resp"
  shows "\<exists>c \<in> set (pr_options r). resp = answer_with r c UserSource \<and> po_effect c = effect \<and>
    (\<forall>d \<in> set (pr_options r). po_effect d = effect \<longrightarrow> decides_no_more c d)"
proof -
  let ?cs = "filter (\<lambda>c. po_effect c = effect) (pr_options r)"
  obtain c where c: "min_by_key breadth ?cs = Some c" "resp = answer_with r c UserSource"
    using assms by (auto simp: narrowest_def split: option.splits)
  then show ?thesis
    using min_by_key_in_set [OF c(1)] min_by_key_least [OF c(1)]
    by (auto simp: breadth_le_iff)
qed

lemma narrowest_error_iff: "(\<exists>e. narrowest r effect expected = Err e) \<longleftrightarrow> effect \<notin> set (option_effects r)"
proof -
  have "min_by_key breadth (filter (\<lambda>c. po_effect c = effect) (pr_options r)) = None \<longleftrightarrow>
    effect \<notin> set (option_effects r)"
    by (auto simp: option_effects_def filter_empty_conv)
  then show ?thesis
    by (auto simp: narrowest_def split: option.split)
qed

text \<open>C30: the automatic answers decide least. \<open>allow\<close> and \<open>deny\<close> answer with an option the vendor
  offered, of the right effect, and of those one that writes no standing rule when any does not, and
  among equals one whose stated reach is narrowest, an unstated reach counting as widest; they fail
  exactly when the vendor offered no option of the effect.\<close>

theorem automatic_answers_decide_least:
  "(case request_allow r of
      Inr resp \<Rightarrow> \<exists>c \<in> set (pr_options r). resp = answer_with r c UserSource \<and> po_effect c = Allow \<and>
        list_all (\<lambda>d. po_effect d \<noteq> Allow \<or> decides_no_more c d) (pr_options r)
    | Inl _ \<Rightarrow> Allow \<notin> set (option_effects r)) \<and>
   (case request_deny r of
      Inr resp \<Rightarrow> \<exists>c \<in> set (pr_options r). resp = answer_with r c UserSource \<and> po_effect c = Reject \<and>
        list_all (\<lambda>d. po_effect d \<noteq> Reject \<or> decides_no_more c d) (pr_options r)
    | Inl _ \<Rightarrow> Reject \<notin> set (option_effects r))"
proof -
  have "case narrowest r effect expected of
      Inr resp \<Rightarrow> \<exists>c \<in> set (pr_options r). resp = answer_with r c UserSource \<and> po_effect c = effect \<and>
        list_all (\<lambda>d. po_effect d \<noteq> effect \<or> decides_no_more c d) (pr_options r)
    | Inl _ \<Rightarrow> effect \<notin> set (option_effects r)" for effect expected
    using narrowest_Ok [of r effect expected] narrowest_error_iff [of r effect expected]
    by (auto simp: list_all_iff split: sum.split)
  then show ?thesis by (simp add: request_allow_def request_deny_def)
qed

text \<open>C31: nothing grants a permission on its own. An automatic answer exists only where a broker was
  asked and decided to allow or deny a request with 1 to 16 uniquely named options, it is marked as
  the broker's, and the one option its id names has the effect the broker decided.\<close>

theorem broker_answers_only_what_it_decided:
  assumes "broker_response broker r = Some resp"
  shows "\<exists>decide effect. broker = Some decide \<and>
    (effect = Allow \<and> decide r = BrokerAllow \<or> effect = Reject \<and> (\<exists>why. decide r = BrokerDeny why)) \<and>
    ps_source resp = AutoReviewSource \<and> ps_interaction resp = in_id (pr_interaction r) \<and>
    map po_effect (filter (\<lambda>c. po_id c = ps_option resp) (pr_options r)) = [effect] \<and>
    length (pr_options r) \<le> 16"
proof -
  obtain decide where b: "broker = Some decide" and len: "length (pr_options r) \<le> 16"
    and distinct: "distinct (map po_id (pr_options r))"
    using assms by (auto simp: broker_response_def has_duplicate_iff APPROVAL_MAX_OPTIONS_def
        split: option.splits if_splits)
  obtain effect expected resp' where e: "effect = Allow \<and> decide r = BrokerAllow \<or>
      effect = Reject \<and> (\<exists>why. decide r = BrokerDeny why)"
    and resp': "narrowest r effect expected = Ok resp'" "resp = with_source AutoReviewSource resp'"
    using assms b by (auto simp: broker_response_def request_allow_def request_deny_def
        res_ok_Some_iff split: if_splits broker_decision.splits)
  obtain c where c: "c \<in> set (pr_options r)" "po_effect c = effect" "resp' = answer_with r c UserSource"
    using narrowest_Ok [OF resp'(1)] by blast
  have "filter (\<lambda>d. po_id d = po_id c) (pr_options r) = [c]"
    by (rule filter_distinct_key [OF distinct c(1)])
  with b e len c resp'(2) show ?thesis
    by (intro exI [of _ decide] exI [of _ effect]) (auto simp: with_source_def answer_with_def)
qed


subsection \<open>Bounded requests\<close>

definition permission_request_valid :: "permission_request \<Rightarrow> bool" where
  "permission_request_valid r \<longleftrightarrow>
     valid_str (in_id (pr_interaction r)) \<and> valid_str (pr_title r) \<and> valid_opt (pr_detail r) \<and>
     list_all (\<lambda>c. valid_str (po_id c) \<and> valid_opt (po_label c)) (pr_options r)"

definition permission_request_ok :: "permission_request \<Rightarrow> bool" where
  "permission_request_ok r \<longleftrightarrow>
     in_kind (pr_interaction r) = PermissionKind \<and> id_ok (in_id (pr_interaction r)) \<and>
     field_ok Title (pr_title r) \<and> opt_field_ok Detail (pr_detail r) \<and>
     pr_options r \<noteq> [] \<and> length (pr_options r) \<le> 16 \<and> distinct (map po_id (pr_options r)) \<and>
     list_all (\<lambda>c. id_ok (po_id c) \<and> opt_field_ok ApprovalOptionLabel (po_label c)) (pr_options r)"

definition bound_label :: "permission_option \<Rightarrow> permission_option" where
  "bound_label c = c\<lparr>po_label := map_option bt_text (bound_opt ApprovalOptionLabel (po_label c))\<rparr>"

lemma bound_label_keeps [simp]:
  "po_id (bound_label c) = po_id c" "po_effect (bound_label c) = po_effect c"
  "po_scope (bound_label c) = po_scope c" "po_policy_changing (bound_label c) = po_policy_changing c"
  "po_risk (bound_label c) = po_risk c" "breadth (bound_label c) = breadth c"
  by (simp_all add: bound_label_def breadth_def)

lemma permission_option_bounded_Ok:
  assumes "permission_option_bounded c = Ok (c', trunc)" "valid_str (po_id c)" "valid_opt (po_label c)"
  shows "c' = bound_label c \<and> id_ok (po_id c) \<and> opt_field_ok ApprovalOptionLabel (po_label c')"
proof -
  obtain i where i: "opaque_id (po_id c) (lit ''approval option id'') = Ok i"
    and c': "c' = (bound_label c)\<lparr>po_id := i\<rparr>"
    using assms(1) by (auto simp: permission_option_bounded_def rbind_Inr_iff Let_def bound_label_def)
  from opaque_id_Ok [OF assms(2) i] show ?thesis
    using assms(3) by (simp add: c' bound_label_def bound_opt_ok)
qed

lemma permission_options_bounded:
  assumes "collect_res permission_option_bounded options = Ok os"
    "list_all (\<lambda>c. valid_str (po_id c) \<and> valid_opt (po_label c)) options"
  shows "map fst os = map bound_label options \<and>
    list_all (\<lambda>c. id_ok (po_id c) \<and> opt_field_ok ApprovalOptionLabel (po_label c)) (map fst os)"
  using assms
proof (induction options arbitrary: os)
  case (Cons c options)
  then show ?case using permission_option_bounded_Ok [of c] by (fastforce simp: rbind_Inr_iff)
qed simp

lemma permission_options_idem:
  "list_all (\<lambda>c. id_ok (po_id c) \<and> opt_field_ok ApprovalOptionLabel (po_label c)) options \<Longrightarrow>
   collect_res permission_option_bounded options = Ok (map (\<lambda>c. (c, False)) options)"
  by (induction options)
    (simp_all add: permission_option_bounded_def opaque_id_idem bound_opt_idem Let_def)

lemma permission_request_idem: "permission_request_ok r \<Longrightarrow> permission_request_normalized r = Ok r"
  by (auto simp: permission_request_normalized_def permission_request_ok_def interaction_normalized_def
      interaction_id_normalized_def permission_options_idem opaque_id_idem bound_idem bound_opt_idem
      has_duplicate_iff APPROVAL_MAX_OPTIONS_def comp_def list_ex_iff)

lemma permission_request_bounded:
  assumes "permission_request_normalized r = Ok r'" "permission_request_valid r"
  shows "permission_request_ok r' \<and> pr_options r' = map bound_label (pr_options r) \<and>
    pr_interaction r' = pr_interaction r"
proof -
  have guards: "in_kind (pr_interaction r) = PermissionKind" "pr_options r \<noteq> []"
      "length (pr_options r) \<le> 16" "distinct (map po_id (pr_options r))"
    using assms(1)
    by (simp_all add: permission_request_normalized_def has_duplicate_iff APPROVAL_MAX_OPTIONS_def
        split: if_splits)
  then obtain os i where os: "collect_res permission_option_bounded (pr_options r) = Ok os"
    and i: "opaque_id (in_id (pr_interaction r)) (lit ''interaction id'') = Ok i"
    and r': "pr_interaction r' = (pr_interaction r)\<lparr>in_id := i\<rparr>" "pr_options r' = map fst os"
      "pr_title r' = bt_text (bound (pr_title r) Title)"
      "pr_detail r' = map_option bt_text (bound_opt Detail (pr_detail r))"
    using assms(1)
    by (auto simp: permission_request_normalized_def has_duplicate_iff interaction_normalized_def
        interaction_id_normalized_def rbind_Inr_iff res_map_Inr_iff APPROVAL_MAX_OPTIONS_def Let_def)
  from assms(2) have valid: "valid_str (in_id (pr_interaction r))" "valid_str (pr_title r)"
    "valid_opt (pr_detail r)" and options: "list_all (\<lambda>c. valid_str (po_id c) \<and> valid_opt (po_label c)) (pr_options r)"
    by (auto simp: permission_request_valid_def)
  have "i = in_id (pr_interaction r)" "id_ok i" using opaque_id_Ok [OF valid(1) i] by simp_all
  moreover have "map po_id (map bound_label (pr_options r)) = map po_id (pr_options r)" by simp
  ultimately show ?thesis
    using permission_options_bounded [OF os options] guards
    by (auto simp: permission_request_ok_def r' bound_field_ok [OF valid(2)] bound_opt_ok [OF valid(3)]
        simp del: map_map)
qed

lemma min_by_key_map:
  fixes k :: "'a \<Rightarrow> 'k :: linorder"
  assumes "\<And>x. k (f x) = k x"
  shows "min_by_key k (map f xs) = map_option f (min_by_key k xs)"
proof -
  have "foldl (\<lambda>m y. if k y < k m then y else m) (f x) (map f ys) =
      f (foldl (\<lambda>m y. if k y < k m then y else m) x ys)" for x ys
  proof (induction ys arbitrary: x)
    case (Cons y ys)
    then show ?case using Cons.IH [of "if k y < k x then y else x"] by (simp add: assms if_distrib cong: if_cong)
  qed simp
  then show ?thesis by (cases xs) simp_all
qed

lemma same_answers:
  assumes "pr_options r' = map bound_label (pr_options r)" "pr_interaction r' = pr_interaction r"
  shows "narrowest r' effect expected = narrowest r effect expected"
    and "request_respond r' i source = request_respond r i source"
proof -
  have "filter (\<lambda>c. po_effect c = effect) (pr_options r') =
      map bound_label (filter (\<lambda>c. po_effect c = effect) (pr_options r))"
    by (simp add: assms filter_map comp_def)
  then show "narrowest r' effect expected = narrowest r effect expected"
    by (simp add: narrowest_def min_by_key_map answer_with_def option_effects_def assms comp_def
        split: option.split)
  have "find (\<lambda>c. po_id c = i) (map bound_label cs) = map_option bound_label (find (\<lambda>c. po_id c = i) cs)"
    for cs by (induction cs) simp_all
  then show "request_respond r' i source = request_respond r i source"
    by (simp add: request_respond_def answer_with_def assms split: option.split)
qed

text \<open>A permission request that \<open>normalized\<close> accepts has 1 to 16 choices with unique ids kept
  whole and texts within their limits; no choice is added, dropped, reordered or changed in effect,
  reach, risk or policy; bounding again changes nothing; and every answer, a host's by id or an
  automatic one, is the answer the vendor's own request would have given.\<close>

theorem bounded_permission_sound:
  assumes "permission_request_valid r" "permission_request_normalized r = Ok r'"
  shows "permission_request_ok r' \<and> permission_request_normalized r' = Ok r' \<and>
    map (\<lambda>c. c\<lparr>po_label := None\<rparr>) (pr_options r') = map (\<lambda>c. c\<lparr>po_label := None\<rparr>) (pr_options r) \<and>
    request_allow r' = request_allow r \<and> request_deny r' = request_deny r \<and>
    (\<forall>i source. request_respond r' i source = request_respond r i source)"
  using permission_request_bounded [OF assms(2,1)] permission_request_idem [of r'] same_answers [of r' r]
  by (simp add: request_allow_def request_deny_def comp_def bound_label_def)

text \<open>What an audit records of a chosen option. A decision counts as standing exactly when its
  option does, with one exception: an option of effect \<open>Other\<close> with no stated reach that writes no
  rule counts as standing before it is chosen and as not standing once it is recorded.\<close>

theorem recorded_reach:
  "decision_is_standing (decision_from_option c source) \<longleftrightarrow>
     option_is_standing c \<and>
     \<not> (po_effect c = OtherEffect \<and> po_scope c = None \<and> \<not> po_policy_changing c)"
  by (auto simp: decision_is_standing_def decision_from_option_def option_is_standing_def
      scope_is_standing_def split: option.split)

subsection \<open>One request\<close>

definition demo_permission :: permission_request where
  "demo_permission = permission_request_new (interaction_new (lit ''i'') QuestionKind (lit ''s'') 7)
     CommandActivity (lit ''run'')
     [permission_option_new (lit ''a'') Allow, with_scope Once (permission_option_new (lit ''b'') Allow),
      with_scope Once (policy_changing (permission_option_new (lit ''c'') Allow)),
      permission_option_new (lit ''d'') Reject]"

lemmas demo_permission_defs = demo_permission_def permission_request_new_def interaction_new_def
  permission_option_new_def with_scope_def policy_changing_def lit_def

lemma demo_permission_ok: "permission_request_valid demo_permission" "permission_request_ok demo_permission"
  by (simp_all add: demo_permission_defs permission_request_valid_def scalar_value_def
      permission_request_ok_def id_ok_def field_ok_def opt_field_ok_def is_strippable_def
      trim_eq_Nil_iff is_whitespace_def)

lemma demo_allow: "request_allow demo_permission = Ok \<lparr>ps_interaction = lit ''i'', ps_option = lit ''b'', ps_source = UserSource\<rparr>"
  by (simp add: demo_permission_defs request_allow_def narrowest_def breadth_def answer_with_def)

lemma automatic_answers_decide_least_witness:
  "request_allow demo_permission = Ok \<lparr>ps_interaction = lit ''i'', ps_option = lit ''b'', ps_source = UserSource\<rparr> \<and>
   Allow \<in> set (option_effects demo_permission)"
proof -
  obtain c where "c \<in> set (pr_options demo_permission)" "po_effect c = Allow"
    using automatic_answers_decide_least [of demo_permission] demo_allow by auto
  then show ?thesis using demo_allow by (force simp: option_effects_def)
qed

lemma broker_answers_only_what_it_decided_witness:
  "map po_effect (filter (\<lambda>c. po_id c = lit ''b'') (pr_options demo_permission)) = [Allow]"
proof -
  have "broker_response (Some (\<lambda>_. BrokerAllow)) demo_permission =
      Some \<lparr>ps_interaction = lit ''i'', ps_option = lit ''b'', ps_source = AutoReviewSource\<rparr>"
    using demo_permission_ok(2)
    by (simp add: broker_response_def demo_allow with_source_def has_duplicate_iff
        permission_request_ok_def APPROVAL_MAX_OPTIONS_def)
  from broker_answers_only_what_it_decided [OF this] show ?thesis by auto
qed

lemma bounded_permission_sound_witness:
  "permission_request_normalized demo_permission = Ok demo_permission \<and>
   request_allow demo_permission = Ok \<lparr>ps_interaction = lit ''i'', ps_option = lit ''b'', ps_source = UserSource\<rparr>"
  using bounded_permission_sound [OF demo_permission_ok(1) permission_request_idem [OF demo_permission_ok(2)]]
    demo_allow by simp

end
