(* ===== verification/Configuration.thy ===== *)
theory Configuration imports Btree Permission begin

text \<open>
  What a session is set to, what was asked for, and what a vendor said back (\<open>configuration.rs\<close>):
  patches whose axes are kept, set or reset, the three readings of one setting, the catalog of a
  vendor's own options, and the refusals a vendor without resets or native options gives. Maps keyed
  by a vendor's option id are the ordered maps of \<open>Btree\<close>.
\<close>

subsection \<open>Values and patches\<close>

definition CONFIGURATION_CATALOG_MAX_OPTIONS :: usize where "CONFIGURATION_CATALOG_MAX_OPTIONS = 256"

definition CONFIGURATION_OPTION_MAX_VALUES :: usize where "CONFIGURATION_OPTION_MAX_VALUES = 64"

definition CONFIGURATION_TEXT_MAX_LENGTH :: usize where "CONFIGURATION_TEXT_MAX_LENGTH = 1024"

datatype 'a configuration_change = Keep | SetTo 'a | Reset

definition is_keep :: "'a configuration_change \<Rightarrow> bool" where
  "is_keep c = (case c of Keep \<Rightarrow> True | _ \<Rightarrow> False)"

definition is_reset :: "'a configuration_change \<Rightarrow> bool" where
  "is_reset c = (case c of Reset \<Rightarrow> True | _ \<Rightarrow> False)"

fun set_value :: "'a configuration_change \<Rightarrow> 'a option" where
  "set_value (SetTo v) = Some v"
| "set_value _ = None"

fun applied_to :: "'a configuration_change \<Rightarrow> 'a option \<Rightarrow> 'a option" where
  "applied_to Keep current = current"
| "applied_to (SetTo v) current = Some v"
| "applied_to Reset current = None"

fun change_from_option :: "'a option \<Rightarrow> 'a configuration_change" where
  "change_from_option (Some v) = SetTo v"
| "change_from_option None = Reset"

type_synonym option_id = ustring

datatype configuration_value = TextValue ustring | IntegerValue "64 word" | BooleanValue bool

fun value_normalized :: "configuration_value \<Rightarrow> configuration_value option" where
  "value_normalized (TextValue v) =
     (let bounded = sanitize_owned v
      in if \<not> bt_truncated bounded \<and> bt_text bounded \<noteq> [] \<and>
            length (bt_text bounded) \<le> CONFIGURATION_TEXT_MAX_LENGTH
         then Some (TextValue (bt_text bounded)) else None)"
| "value_normalized scalar = Some scalar"

record configuration =
  cf_model :: "ustring option"
  cf_effort :: "ustring option"
  cf_level :: "permission_level option"
  cf_routing :: "approval_routing option"
  cf_native :: "(option_id, configuration_value) btree"

definition configuration_unknown :: configuration where
  "configuration_unknown =
     \<lparr>cf_model = None, cf_effort = None, cf_level = None, cf_routing = None, cf_native = []\<rparr>"

definition configuration_is_unknown :: "configuration \<Rightarrow> bool" where
  "configuration_is_unknown c \<longleftrightarrow> c = configuration_unknown"

definition with_native :: "option_id \<Rightarrow> configuration_value \<Rightarrow> configuration \<Rightarrow> configuration" where
  "with_native i v c = c\<lparr>cf_native := bt_insert i v (cf_native c)\<rparr>"

record configuration_patch =
  cp_model :: "ustring configuration_change"
  cp_effort :: "ustring configuration_change"
  cp_level :: "permission_level configuration_change"
  cp_routing :: "approval_routing configuration_change"
  cp_native :: "(option_id, configuration_value configuration_change) btree"

definition patch_new :: configuration_patch where
  "patch_new =
     \<lparr>cp_model = Keep, cp_effort = Keep, cp_level = Keep, cp_routing = Keep, cp_native = []\<rparr>"

definition patch_native ::
  "option_id \<Rightarrow> configuration_value configuration_change \<Rightarrow> configuration_patch \<Rightarrow> configuration_patch" where
  "patch_native i change p = p\<lparr>cp_native := bt_insert i change (cp_native p)\<rparr>"

definition patch_is_empty :: "configuration_patch \<Rightarrow> bool" where
  "patch_is_empty p \<longleftrightarrow>
     is_keep (cp_model p) \<and> is_keep (cp_effort p) \<and> is_keep (cp_level p) \<and> is_keep (cp_routing p) \<and>
     list_all (\<lambda>(_, change). is_keep change) (cp_native p)"

text \<open>The axes, in order, whose override a patch removes.\<close>

definition resetting_axes :: "configuration_patch \<Rightarrow> ustring list" where
  "resetting_axes p =
     map fst (filter snd
       [(lit ''model'', is_reset (cp_model p)), (lit ''effort'', is_reset (cp_effort p)),
        (lit ''level'', is_reset (cp_level p)), (lit ''routing'', is_reset (cp_routing p))]) @
     map fst (filter (\<lambda>(_, change). is_reset change) (cp_native p))"

definition asks_for_a_reset :: "configuration_patch \<Rightarrow> bool" where
  "asks_for_a_reset p \<longleftrightarrow> resetting_axes p \<noteq> []"

fun patch_native_map ::
  "(option_id \<times> configuration_value configuration_change) list \<Rightarrow>
   (option_id, configuration_value) btree \<Rightarrow> (option_id, configuration_value) btree" where
  "patch_native_map [] native = native"
| "patch_native_map ((i, Keep) # cs) native = patch_native_map cs native"
| "patch_native_map ((i, SetTo v) # cs) native = patch_native_map cs (bt_insert i v native)"
| "patch_native_map ((i, Reset) # cs) native = patch_native_map cs (bt_remove i native)"

definition patched :: "configuration \<Rightarrow> configuration_patch \<Rightarrow> configuration" where
  "patched c p =
     \<lparr>cf_model = applied_to (cp_model p) (cf_model c), cf_effort = applied_to (cp_effort p) (cf_effort c),
      cf_level = applied_to (cp_level p) (cf_level c), cf_routing = applied_to (cp_routing p) (cf_routing c),
      cf_native = patch_native_map (cp_native p) (cf_native c)\<rparr>"

definition patch_requested :: "configuration_patch \<Rightarrow> configuration" where
  "patch_requested p = patched configuration_unknown p"

definition native_entry_normalized ::
  "option_id \<times> configuration_value \<Rightarrow> (option_id \<times> configuration_value) option" where
  "native_entry_normalized e =
     Option.bind (res_ok (opaque_id (fst e) (lit ''configuration option id'')))
       (\<lambda>i. map_option (Pair i) (value_normalized (snd e)))"

definition configuration_normalized :: "configuration \<Rightarrow> configuration" where
  "configuration_normalized c =
     c\<lparr>cf_model := Option.bind (cf_model c) (\<lambda>v. res_ok (opaque_id v (lit ''model id''))),
       cf_effort := Option.bind (cf_effort c) (\<lambda>v. res_ok (opaque_id v (lit ''reasoning effort id''))),
       cf_native := foldl (\<lambda>m (i, v). bt_insert i v m) [] (List.map_filter native_entry_normalized (cf_native c))\<rparr>"

subsection \<open>The three readings\<close>

record configuration_state =
  cs_requested :: configuration
  cs_accepted :: configuration
  cs_observed :: configuration

definition configuration_state_unknown :: configuration_state where
  "configuration_state_unknown =
     \<lparr>cs_requested = configuration_unknown, cs_accepted = configuration_unknown,
      cs_observed = configuration_unknown\<rparr>"

definition configuration_state_normalized :: "configuration_state \<Rightarrow> configuration_state" where
  "configuration_state_normalized s =
     \<lparr>cs_requested = configuration_normalized (cs_requested s),
      cs_accepted = configuration_normalized (cs_accepted s),
      cs_observed = configuration_normalized (cs_observed s)\<rparr>"

datatype configuration_source = RequestedSource | AcceptedSource | ObservedSource

fun configuration_source_display :: "configuration_source \<Rightarrow> ustring" where
  "configuration_source_display RequestedSource = lit ''requested''"
| "configuration_source_display AcceptedSource = lit ''accepted''"
| "configuration_source_display ObservedSource = lit ''observed''"

definition pick :: "'a option \<Rightarrow> 'a option \<Rightarrow> 'a option \<Rightarrow> ('a \<times> configuration_source) option" where
  "pick observed accepted requested =
     or_else (map_option (\<lambda>v. (v, ObservedSource)) observed)
       (or_else (map_option (\<lambda>v. (v, AcceptedSource)) accepted)
         (map_option (\<lambda>v. (v, RequestedSource)) requested))"

definition effective_model :: "configuration_state \<Rightarrow> (ustring \<times> configuration_source) option" where
  "effective_model s =
     pick (cf_model (cs_observed s)) (cf_model (cs_accepted s)) (cf_model (cs_requested s))"

definition effective_effort :: "configuration_state \<Rightarrow> (ustring \<times> configuration_source) option" where
  "effective_effort s =
     pick (cf_effort (cs_observed s)) (cf_effort (cs_accepted s)) (cf_effort (cs_requested s))"

definition effective_level :: "configuration_state \<Rightarrow> (permission_level \<times> configuration_source) option" where
  "effective_level s =
     pick (cf_level (cs_observed s)) (cf_level (cs_accepted s)) (cf_level (cs_requested s))"

definition effective_routing :: "configuration_state \<Rightarrow> (approval_routing \<times> configuration_source) option" where
  "effective_routing s =
     pick (cf_routing (cs_observed s)) (cf_routing (cs_accepted s)) (cf_routing (cs_requested s))"


subsection \<open>The catalog\<close>

datatype configuration_value_type = EnumeratedType | TextType | IntegerType | BooleanType | OtherType ustring

fun value_type :: "configuration_value \<Rightarrow> configuration_value_type" where
  "value_type (TextValue _) = TextType"
| "value_type (IntegerValue _) = IntegerType"
| "value_type (BooleanValue _) = BooleanType"

fun value_type_normalized :: "configuration_value_type \<Rightarrow> configuration_value_type" where
  "value_type_normalized (OtherType name) = OtherType (bt_text (bound name Title))"
| "value_type_normalized known = known"

datatype configuration_category =
  ModelCategory | ReasoningEffortCategory | ModeCategory | PermissionCategory | OtherCategory ustring

fun category_normalized :: "configuration_category \<Rightarrow> configuration_category" where
  "category_normalized (OtherCategory name) = OtherCategory (bt_text (bound name Title))"
| "category_normalized known = known"

record configuration_option_value =
  ov_value :: configuration_value
  ov_display_name :: "ustring option"
  ov_description :: "ustring option"
  ov_is_default :: bool

definition option_value_new :: "configuration_value \<Rightarrow> configuration_option_value" where
  "option_value_new v =
     \<lparr>ov_value = v, ov_display_name = None, ov_description = None, ov_is_default = False\<rparr>"

definition option_value_normalized :: "configuration_option_value \<Rightarrow> configuration_option_value option" where
  "option_value_normalized v =
     map_option
       (\<lambda>value. v\<lparr>ov_value := value,
          ov_display_name := map_option (\<lambda>n. bt_text (bound n Title)) (ov_display_name v),
          ov_description := map_option (\<lambda>t. bt_text (bound t Detail)) (ov_description v)\<rparr>)
       (value_normalized (ov_value v))"

record configuration_option =
  co_id :: option_id
  co_category :: configuration_category
  co_name :: "ustring option"
  co_description :: "ustring option"
  co_value_type :: configuration_value_type
  co_values :: "configuration_option_value list"
  co_current :: "configuration_value option"
  co_resettable :: bool

definition configuration_option_new ::
  "option_id \<Rightarrow> configuration_category \<Rightarrow> configuration_value_type \<Rightarrow> configuration_option" where
  "configuration_option_new i category vtype =
     \<lparr>co_id = i, co_category = category, co_name = None, co_description = None, co_value_type = vtype,
      co_values = [], co_current = None, co_resettable = False\<rparr>"

definition configuration_option_normalized :: "configuration_option \<Rightarrow> configuration_option option" where
  "configuration_option_normalized c =
     map_option
       (\<lambda>i. c\<lparr>co_id := i, co_category := category_normalized (co_category c),
          co_name := map_option (\<lambda>n. bt_text (bound n Title)) (co_name c),
          co_description := map_option (\<lambda>t. bt_text (bound t Detail)) (co_description c),
          co_value_type := value_type_normalized (co_value_type c),
          co_values := take CONFIGURATION_OPTION_MAX_VALUES (List.map_filter option_value_normalized (co_values c)),
          co_current := Option.bind (co_current c) value_normalized\<rparr>)
       (res_ok (opaque_id (co_id c) (lit ''configuration option id'')))"

type_synonym configuration_catalog = "configuration_option list"

definition catalog_option :: "configuration_catalog \<Rightarrow> option_id \<Rightarrow> configuration_option option" where
  "catalog_option cat i = find (\<lambda>c. co_id c = i) cat"

definition in_category :: "configuration_catalog \<Rightarrow> configuration_category \<Rightarrow> configuration_option list" where
  "in_category cat category = filter (\<lambda>c. co_category c = category) cat"

fun catalog_loop :: "configuration_option list \<Rightarrow> configuration_option list \<Rightarrow> configuration_option list" where
  "catalog_loop kept [] = kept"
| "catalog_loop kept (c # cs) =
     (if length kept \<ge> CONFIGURATION_CATALOG_MAX_OPTIONS then kept
      else case configuration_option_normalized c of
        None \<Rightarrow> catalog_loop kept cs
      | Some c' \<Rightarrow>
          if list_ex (\<lambda>seen. co_id seen = co_id c') kept then catalog_loop kept cs
          else catalog_loop (kept @ [c']) cs)"

definition catalog_normalized :: "configuration_catalog \<Rightarrow> configuration_catalog" where
  "catalog_normalized cat = catalog_loop [] cat"

subsection \<open>Outcomes and refusals\<close>

datatype setting_rejection =
    UnknownOption
  | UnsupportedValue ustring
  | ResetNotSupported
  | NotChangeableAfterOpen
  | RefusedByVendor ustring
  | RefusedByHarness ustring

fun setting_rejection_normalized :: "setting_rejection \<Rightarrow> setting_rejection" where
  "setting_rejection_normalized (UnsupportedValue received) = UnsupportedValue (bt_text (bound received Detail))"
| "setting_rejection_normalized (RefusedByVendor detail) = RefusedByVendor (bt_text (bound detail Detail))"
| "setting_rejection_normalized (RefusedByHarness detail) = RefusedByHarness (bt_text (bound detail Detail))"
| "setting_rejection_normalized known = known"

datatype rollback = NotNeeded | Restored | NotAttempted | RollbackFailed

fun rollback_display :: "rollback \<Rightarrow> ustring" where
  "rollback_display NotNeeded = lit ''not needed''"
| "rollback_display Restored = lit ''restored''"
| "rollback_display NotAttempted = lit ''not attempted''"
| "rollback_display RollbackFailed = lit ''failed''"

record rejected_setting =
  rj_option :: option_id
  rj_reason :: setting_rejection

record configuration_outcome =
  oc_state :: configuration_state
  oc_applied :: "option_id list"
  oc_rejected :: "rejected_setting list"
  oc_rollback :: rollback

definition outcome_applied :: "configuration_state \<Rightarrow> option_id list \<Rightarrow> configuration_outcome" where
  "outcome_applied state applied =
     \<lparr>oc_state = state, oc_applied = applied, oc_rejected = [], oc_rollback = NotNeeded\<rparr>"

definition outcome_rejecting :: "rejected_setting list \<Rightarrow> rollback \<Rightarrow> configuration_outcome \<Rightarrow> configuration_outcome" where
  "outcome_rejecting rejected back c = c\<lparr>oc_rejected := rejected, oc_rollback := back\<rparr>"

definition outcome_is_partial :: "configuration_outcome \<Rightarrow> bool" where
  "outcome_is_partial c \<longleftrightarrow> oc_applied c \<noteq> [] \<and> oc_rejected c \<noteq> []"

definition outcome_is_complete :: "configuration_outcome \<Rightarrow> bool" where
  "outcome_is_complete c \<longleftrightarrow> oc_rejected c = []"

definition refuse_unsupported_native :: "configuration_patch \<Rightarrow> unit result" where
  "refuse_unsupported_native p =
     (case find (\<lambda>(_, change). \<not> is_keep change) (cp_native p) of
        None \<Rightarrow> Ok ()
      | Some (i, _) \<Rightarrow>
          Err (Protocol (lit ''a configuration patch using model, effort, level, or routing'') i))"

definition refuse_unsupported_reset :: "configuration_patch \<Rightarrow> unit result" where
  "refuse_unsupported_reset p =
     (let axes = resetting_axes p
      in if axes = [] then Ok ()
         else Err (HostConfiguration
           (lit ''a patch that sets or keeps every axis, for a vendor with no reset'')
           (lit ''a patch asking to remove the override on '' @ comma_join axes)))"

subsection \<open>Patches\<close>

lemma is_keep_simps [simp]:
  "is_keep Keep" "\<not> is_keep (SetTo v)" "\<not> is_keep Reset"
  "\<not> is_reset Keep" "\<not> is_reset (SetTo v)" "is_reset Reset"
  by (simp_all add: is_keep_def is_reset_def)

lemma is_keep_iff: "is_keep c \<longleftrightarrow> c = Keep" and is_reset_iff: "is_reset c \<longleftrightarrow> c = Reset"
  by (cases c; simp)+

text \<open>The native half, read through the map it stands for.\<close>

lemma patch_native_map_get:
  assumes "bt_invar native" "distinct (map fst cs)"
  shows "bt_invar (patch_native_map cs native) \<and>
    (\<forall>i. bt_get (patch_native_map cs native) i =
      (case map_of cs i of None \<Rightarrow> bt_get native i | Some change \<Rightarrow> applied_to change (bt_get native i)))"
  using assms
proof (induction cs native rule: patch_native_map.induct)
  case (2 i cs native)
  then have "map_of cs i = None" by (simp add: map_of_eq_None_iff)
  with 2 show ?case by auto
next
  case (3 i v cs native)
  then have "map_of cs i = None" by (simp add: map_of_eq_None_iff)
  with 3 show ?case by (auto simp: bt_invar_insert bt_get_insert split: option.split)
next
  case (4 i cs native)
  then have "map_of cs i = None" by (simp add: map_of_eq_None_iff)
  with 4 show ?case by (auto simp: bt_invar_remove bt_get_remove split: option.split)
qed simp

lemma bt_invar_distinct: "bt_invar m \<Longrightarrow> distinct (map fst m)"
  using btree.distinct_keys by (simp add: bt_keys_def)

lemma btree_of_keys: "distinct (map fst m) \<Longrightarrow> map (\<lambda>k. (k, the (bt_get m k))) (map fst m) = m"
  by (auto intro!: map_idI)

lemma btree_eqI:
  assumes "bt_invar m" "bt_invar m'" "\<And>i. bt_get m i = bt_get m' i"
  shows "m = m'"
proof -
  have "map fst m = map fst m'"
    using btree.keys_unique [OF assms(1,2)] assms(3) by (simp add: bt_keys_def dom_def)
  moreover have "bt_get m = bt_get m'" using assms(3) by blast
  ultimately show ?thesis
    using btree_of_keys [of m] btree_of_keys [of m'] assms(1,2) bt_invar_distinct by metis
qed

lemma applied_twice: "applied_to c (applied_to c v) = applied_to c v"
  by (cases c) simp_all

text \<open>What a patch does. Each axis is kept, set or reset on its own; a native option keeps its
  value unless the patch names it, and then takes the value it sets or loses it, with no other option
  touched. Applying a patch twice is applying it once, and an empty patch changes nothing.\<close>

theorem patched_every_axis:
  assumes "bt_invar (cf_native c)" "bt_invar (cp_native p)"
  shows "cf_model (patched c p) = applied_to (cp_model p) (cf_model c) \<and>
    cf_level (patched c p) = applied_to (cp_level p) (cf_level c) \<and>
    bt_invar (cf_native (patched c p)) \<and>
    bt_get (cf_native (patched c p)) i =
      (case bt_get (cp_native p) i of
         Some (SetTo v) \<Rightarrow> Some v
       | Some Reset \<Rightarrow> None
       | _ \<Rightarrow> bt_get (cf_native c) i) \<and>
    patched (patched c p) p = patched c p \<and>
    (patch_is_empty p \<longrightarrow> patched c p = c)"
proof -
  have distinct: "distinct (map fst (cp_native p))" by (rule bt_invar_distinct [OF assms(2)])
  note get = patch_native_map_get [OF _ distinct]
  let ?n = "patch_native_map (cp_native p) (cf_native c)"
  have "patch_native_map (cp_native p) ?n = ?n"
  proof (rule btree_eqI)
    show "bt_invar ?n" "bt_invar (patch_native_map (cp_native p) ?n)"
      using get [OF assms(1)] get [of ?n] by auto
    show "bt_get (patch_native_map (cp_native p) ?n) i = bt_get ?n i" for i
      using get [OF assms(1)] get [of ?n] by (auto simp: applied_twice split: option.split)
  qed
  moreover have "?n = cf_native c" if "list_all (\<lambda>(_, change). is_keep change) (cp_native p)"
  proof (rule btree_eqI)
    show "bt_invar ?n" "bt_invar (cf_native c)" using get [OF assms(1)] assms(1) by auto
    show "bt_get ?n i = bt_get (cf_native c) i" for i
      using get [OF assms(1)] that
      by (auto simp: list_all_iff is_keep_iff dest!: map_of_SomeD split: option.split)
  qed
  ultimately show ?thesis
    using get [OF assms(1)]
    by (auto simp: patched_def applied_twice patch_is_empty_def is_keep_iff
        split: option.split configuration_change.split)
qed

text \<open>What a vendor without resets, or without native options, is never sent. A patch passes
  \<open>refuse_unsupported_reset\<close> exactly when no axis of it resets, and \<open>refuse_unsupported_native\<close> exactly when every native entry is
  kept; a refusal names what it refuses.\<close>

theorem unsupported_changes_refused:
  "(refuse_unsupported_reset p = Ok () \<longleftrightarrow>
      \<not> asks_for_a_reset p) \<and>
   (asks_for_a_reset p \<longleftrightarrow>
      Reset = cp_model p \<or> Reset = cp_effort p \<or> Reset = cp_level p \<or> Reset = cp_routing p \<or>
      Reset \<in> snd ` set (cp_native p)) \<and>
   (refuse_unsupported_native p = Ok () \<longleftrightarrow> snd ` set (cp_native p) \<subseteq> {Keep}) \<and>
   (case refuse_unsupported_native p of
      Inl e \<Rightarrow> \<exists>i change. e = Protocol (lit ''a configuration patch using model, effort, level, or routing'') i \<and>
        (i, change) \<in> set (cp_native p) \<and> change \<noteq> Keep
    | Inr _ \<Rightarrow> True)"
proof -
  have axes: "resetting_axes p \<noteq> [] \<longleftrightarrow>
      Reset = cp_model p \<or> Reset = cp_effort p \<or> Reset = cp_level p \<or> Reset = cp_routing p \<or>
      Reset \<in> snd ` set (cp_native p)"
    by (auto simp: resetting_axes_def is_reset_iff filter_empty_conv intro: rev_image_eqI)
  have native: "(refuse_unsupported_native p = Ok () \<longleftrightarrow> snd ` set (cp_native p) \<subseteq> {Keep}) \<and>
     (case refuse_unsupported_native p of
        Inl e \<Rightarrow> \<exists>i change. e = Protocol (lit ''a configuration patch using model, effort, level, or routing'') i \<and>
          (i, change) \<in> set (cp_native p) \<and> change \<noteq> Keep
      | Inr _ \<Rightarrow> True)"
  proof (cases "find (\<lambda>(_, change). \<not> is_keep change) (cp_native p)")
    case None
    then have "snd ` set (cp_native p) \<subseteq> {Keep}" by (auto simp: find_None_iff is_keep_iff)
    moreover have "refuse_unsupported_native p = Ok ()"
      using None by (simp add: refuse_unsupported_native_def)
    ultimately show ?thesis by simp
  next
    case (Some e)
    then obtain i change where e: "e = (i, change)" "(i, change) \<in> set (cp_native p)" "change \<noteq> Keep"
      using find_in_set [OF Some] by (cases e) (auto simp: is_keep_iff)
    then have "\<not> snd ` set (cp_native p) \<subseteq> {Keep}" by force
    moreover have "refuse_unsupported_native p =
        Err (Protocol (lit ''a configuration patch using model, effort, level, or routing'') i)"
      using Some e(1) by (simp add: refuse_unsupported_native_def)
    ultimately show ?thesis using e by auto
  qed
  show ?thesis
    by (intro conjI axes [folded asks_for_a_reset_def] native [THEN conjunct1] native [THEN conjunct2])
      (simp add: refuse_unsupported_reset_def asks_for_a_reset_def Let_def)
qed

subsection \<open>Bounded configurations\<close>

fun value_valid :: "configuration_value \<Rightarrow> bool" where
  "value_valid (TextValue v) \<longleftrightarrow> valid_str v"
| "value_valid _ \<longleftrightarrow> True"

definition configuration_valid :: "configuration \<Rightarrow> bool" where
  "configuration_valid c \<longleftrightarrow>
     valid_opt (cf_model c) \<and> valid_opt (cf_effort c) \<and> bt_invar (cf_native c) \<and>
     list_all (\<lambda>(i, v). valid_str i \<and> value_valid v) (cf_native c)"

lemma value_normalized_same: "value_valid v \<Longrightarrow> value_normalized v = Some v' \<Longrightarrow> v' = v"
  by (cases v) (auto simp: sanitize_owned_eq Let_def split: if_splits)

lemma opaque_ok_same: "valid_str raw \<Longrightarrow> res_ok (opaque_id raw field) = Some s \<Longrightarrow> s = raw"
  using opaque_id_Ok by (simp add: res_ok_Some_iff)

lemma opaque_ok_iff: "valid_str raw \<Longrightarrow> res_ok (opaque_id raw field) = (if id_ok raw then Some raw else None)"
  using opaque_id_Ok [of raw field] opaque_id_idem [of raw field]
  by (cases "opaque_id raw field") auto

definition value_ok :: "configuration_value \<Rightarrow> bool" where
  "value_ok v \<longleftrightarrow> value_normalized v = Some v"

lemma value_normalized_iff: "value_valid v \<Longrightarrow> value_normalized v = (if value_ok v then Some v else None)"
  using value_normalized_same [of v] by (cases "value_normalized v") (auto simp: value_ok_def)

lemma native_entries_kept:
  assumes "list_all (\<lambda>(i, v). valid_str i \<and> value_valid v) m"
  shows "List.map_filter native_entry_normalized m = filter (\<lambda>(i, v). id_ok i \<and> value_ok v) m"
proof -
  have "native_entry_normalized (i, v) = (if id_ok i \<and> value_ok v then Some (i, v) else None)"
    if "valid_str i" "value_valid v" for i v
    using that by (simp add: native_entry_normalized_def opaque_ok_iff value_normalized_iff)
  with assms show ?thesis by (induction m) (auto split: if_splits)
qed

lemma map_of_filter_distinct:
  "distinct (map fst m) \<Longrightarrow>
   map_of (filter P m) i = (case map_of m i of None \<Rightarrow> None | Some v \<Rightarrow> if P (i, v) then Some v else None)"
  by (induction m) (auto simp: map_of_eq_None_iff dest: map_of_SomeD split: option.split)

lemma distinct_filter_keys: "distinct (map fst m) \<Longrightarrow> distinct (map fst (filter P m))"
  by (induction m) auto

lemma native_normalized:
  assumes "bt_invar m" "list_all (\<lambda>(i, v). valid_str i \<and> value_valid v) m"
  shows "foldl (\<lambda>m (i, v). bt_insert i v m) [] (List.map_filter native_entry_normalized m) =
    filter (\<lambda>(i, v). id_ok i \<and> value_ok v) m"
proof (rule btree_eqI)
  let ?f = "filter (\<lambda>(i, v). id_ok i \<and> value_ok v) m"
  have distinct: "distinct (map fst ?f)"
    by (rule distinct_filter_keys [OF bt_invar_distinct [OF assms(1)]])
  have entries: "List.map_filter native_entry_normalized m = ?f" by (rule native_entries_kept [OF assms(2)])
  show "bt_invar (foldl (\<lambda>m (i, v). bt_insert i v m) [] (List.map_filter native_entry_normalized m))"
    using btree.insert_all [OF btree.invar_empty] by blast
  show "bt_invar ?f"
    using assms(1) by (induction m) (auto simp: bt_invar_def)
  show "bt_get (foldl (\<lambda>m (i, v). bt_insert i v m) [] (List.map_filter native_entry_normalized m)) i = bt_get ?f i"
    for i unfolding entries using btree.get_insert_all [OF distinct] by metis
qed

text \<open>Bounding a configuration keeps a value whole or drops it, on its own: a model, an effort or
  a native option is what the vendor wrote or absent, never shortened, an unusable option takes no
  other with it, the permission axes are untouched, and bounding again changes nothing.\<close>

theorem configuration_kept_or_dropped:
  assumes "configuration_valid c"
  shows "cf_model (configuration_normalized c) = (case cf_model c of Some v \<Rightarrow> if id_ok v then Some v else None | None \<Rightarrow> None) \<and>
    cf_effort (configuration_normalized c) = (case cf_effort c of Some v \<Rightarrow> if id_ok v then Some v else None | None \<Rightarrow> None) \<and>
    cf_level (configuration_normalized c) = cf_level c \<and> cf_routing (configuration_normalized c) = cf_routing c \<and>
    bt_get (cf_native (configuration_normalized c)) i =
      (case bt_get (cf_native c) i of
         Some v \<Rightarrow> if id_ok i \<and> value_ok v then Some v else None | None \<Rightarrow> None) \<and>
    configuration_normalized (configuration_normalized c) = configuration_normalized c"
proof -
  from assms have model: "valid_opt (cf_model c)" and effort: "valid_opt (cf_effort c)"
    and native: "bt_invar (cf_native c)" "list_all (\<lambda>(i, v). valid_str i \<and> value_valid v) (cf_native c)"
    by (simp_all add: configuration_valid_def)
  let ?f = "filter (\<lambda>(i, v). id_ok i \<and> value_ok v)"
  have eq: "configuration_normalized c =
      c\<lparr>cf_model := Option.bind (cf_model c) (\<lambda>v. if id_ok v then Some v else None),
        cf_effort := Option.bind (cf_effort c) (\<lambda>v. if id_ok v then Some v else None),
        cf_native := ?f (cf_native c)\<rparr>"
    if "valid_opt (cf_model c)" "valid_opt (cf_effort c)" "bt_invar (cf_native c)"
      "list_all (\<lambda>(i, v). valid_str i \<and> value_valid v) (cf_native c)" for c
    using that by (cases "cf_model c"; cases "cf_effort c")
      (simp_all add: configuration_normalized_def native_normalized opaque_ok_iff)
  have "bt_invar (?f m)" if "bt_invar m" for m
    using that by (induction m) (auto simp: bt_invar_def)
  moreover have "list_all P (?f m)" if "list_all P m" for P m
    using that by (induction m) auto
  ultimately have again: "configuration_normalized (configuration_normalized c) = configuration_normalized c"
    using model effort native
    by (cases "cf_model c"; cases "cf_effort c"; subst (1) eq)
      (auto simp: eq [OF model effort native] bind_eq_Some_conv split: if_splits)
  show ?thesis
    using again bt_invar_distinct [OF native(1)]
    by (auto simp: eq [OF model effort native] map_of_filter_distinct split: option.split)
qed


subsection \<open>Bounded catalogs\<close>

text \<open>The first occurrence of each element, in order.\<close>

fun firsts :: "'a list \<Rightarrow> 'a list" where
  "firsts [] = []"
| "firsts (x # xs) = x # filter (\<lambda>y. y \<noteq> x) (firsts xs)"

definition catalog_row_valid :: "configuration_option \<Rightarrow> bool" where
  "catalog_row_valid c \<longleftrightarrow> valid_str (co_id c)"

lemma configuration_option_normalized_id:
  assumes "valid_str (co_id c)"
  shows "configuration_option_normalized c = None \<longleftrightarrow> \<not> id_ok (co_id c)"
    and "configuration_option_normalized c = Some c' \<Longrightarrow> co_id c' = co_id c"
  using assms by (auto simp: configuration_option_normalized_def opaque_ok_iff split: if_splits)

lemma catalog_loop_ids:
  assumes "list_all catalog_row_valid cs" "length kept \<le> 256"
  shows "map co_id (catalog_loop kept cs) =
    take 256 (map co_id kept @ filter (\<lambda>i. i \<notin> co_id ` set kept) (firsts (map co_id (filter (id_ok \<circ> co_id) cs))))"
  using assms
proof (induction cs arbitrary: kept)
  case (Cons c cs)
  then have valid: "valid_str (co_id c)" by (simp add: catalog_row_valid_def)
  show ?case
  proof (cases "length kept \<ge> 256")
    case True
    with Cons.prems(2) show ?thesis by (simp add: CONFIGURATION_CATALOG_MAX_OPTIONS_def)
  next
    case room: False
    show ?thesis
    proof (cases "configuration_option_normalized c")
      case None
      with Cons room configuration_option_normalized_id(1) [OF valid] show ?thesis
        by (simp add: CONFIGURATION_CATALOG_MAX_OPTIONS_def)
    next
      case (Some c')
      then have c': "co_id c' = co_id c" "id_ok (co_id c)"
        using configuration_option_normalized_id(2) [OF valid Some] configuration_option_normalized_id(1) [OF valid]
          Some by simp_all
      show ?thesis
      proof (cases "co_id c \<in> co_id ` set kept")
        case True
        then have "list_ex (\<lambda>seen. co_id seen = co_id c') kept" using c' by (auto simp: list_ex_iff)
        then have "catalog_loop kept (c # cs) = catalog_loop kept cs"
          using room Some by (simp add: CONFIGURATION_CATALOG_MAX_OPTIONS_def)
        moreover have "filter (\<lambda>i. i \<notin> co_id ` set kept) (co_id c # filter (\<lambda>y. y \<noteq> co_id c) xs) =
            filter (\<lambda>i. i \<notin> co_id ` set kept) xs" for xs
        proof -
          have "(\<lambda>i. i \<noteq> co_id c \<and> i \<notin> co_id ` set kept) = (\<lambda>i. i \<notin> co_id ` set kept)"
            using True by blast
          then show ?thesis using True by (simp only: filter.simps filter_filter not_True_eq_False if_False)
        qed
        ultimately show ?thesis
          using Cons.IH [of kept] Cons.prems c'(2) by (simp only: list.pred_inject filter.simps comp_apply if_True list.map firsts.simps)
      next
        case False
        then have "\<not> list_ex (\<lambda>seen. co_id seen = co_id c') kept" using c' by (auto simp: list_ex_iff image_iff)
        then have "catalog_loop kept (c # cs) = catalog_loop (kept @ [c']) cs"
          using room Some by (simp add: CONFIGURATION_CATALOG_MAX_OPTIONS_def)
        moreover have "filter (\<lambda>i. i \<notin> co_id ` set kept) (co_id c # filter (\<lambda>y. y \<noteq> co_id c) xs) =
            co_id c # filter (\<lambda>i. i \<notin> co_id ` set (kept @ [c'])) xs" for xs
          using False c'(1) by (auto simp: filter_filter intro!: filter_cong)
        ultimately show ?thesis
          using Cons.IH [of "kept @ [c']"] Cons.prems room c' by simp
      qed
    qed
  qed
qed simp

lemma firsts_distinct: "distinct (firsts xs)" and set_firsts: "set (firsts xs) = set xs"
  by (induction xs) auto

text \<open>A catalog row is dropped only for itself: a broken id or a repeated one takes no other row
  with it, the rows kept are the first of each usable id in the vendor's order, and there are at most
  256 of them, with unique ids.\<close>

theorem catalog_rows_kept:
  assumes "list_all catalog_row_valid cat"
  shows "map co_id (catalog_normalized cat) =
      take 256 (firsts (map co_id (filter (\<lambda>c. id_ok (co_id c)) cat))) \<and>
    distinct (map co_id (catalog_normalized cat)) \<and> length (catalog_normalized cat) \<le> 256"
proof -
  have ids: "map co_id (catalog_normalized cat) =
      take 256 (firsts (map co_id (filter (\<lambda>c. id_ok (co_id c)) cat)))"
    using catalog_loop_ids [OF assms, of "[]"] by (simp add: catalog_normalized_def comp_def)
  moreover have "distinct (map co_id (catalog_normalized cat))"
    unfolding ids using firsts_distinct by (rule distinct_take)
  moreover have "length (map co_id (catalog_normalized cat)) \<le> 256" unfolding ids by simp
  ultimately show ?thesis by (metis length_map)
qed


text \<open>The setting shown is the best evidenced one: what the vendor reported, else what the harness
  encoded, else what was asked for, always under the name of the reading it came from, and nothing
  when no reading knows it.\<close>

theorem effective_best_evidence:
  "effective_model s =
     (case (cf_model (cs_observed s), cf_model (cs_accepted s), cf_model (cs_requested s)) of
        (Some v, _, _) \<Rightarrow> Some (v, ObservedSource)
      | (None, Some v, _) \<Rightarrow> Some (v, AcceptedSource)
      | (None, None, Some v) \<Rightarrow> Some (v, RequestedSource)
      | (None, None, None) \<Rightarrow> None) \<and>
   (effective_level s = None \<longleftrightarrow>
      cf_level (cs_observed s) = None \<and> cf_level (cs_accepted s) = None \<and> cf_level (cs_requested s) = None)"
  by (auto simp: effective_model_def effective_level_def pick_def or_else_def split: option.split)

subsection \<open>A patch on a known configuration\<close>

definition demo_configuration :: configuration where
  "demo_configuration =
     with_native (lit ''b'') (BooleanValue True) (with_native (lit ''a'') (TextValue (lit ''x'')) configuration_unknown)"

definition demo_patch :: configuration_patch where
  "demo_patch = patch_native (lit ''a'') Reset (patch_new\<lparr>cp_model := SetTo (lit ''m'')\<rparr>)"

lemmas demo_configuration_defs = demo_configuration_def demo_patch_def with_native_def patch_native_def
  configuration_unknown_def patch_new_def lit_def bt_invar_def

lemma demo_native: "bt_invar (cf_native demo_configuration)" "bt_invar (cp_native demo_patch)"
  by (simp_all add: demo_configuration_defs)

lemma patched_every_axis_witness:
  "cf_model (patched demo_configuration demo_patch) = Some (lit ''m'') \<and>
   bt_get (cf_native (patched demo_configuration demo_patch)) (lit ''a'') = None \<and>
   bt_get (cf_native (patched demo_configuration demo_patch)) (lit ''b'') = Some (BooleanValue True)"
  using patched_every_axis [OF demo_native, of "lit ''a''"] patched_every_axis [OF demo_native, of "lit ''b''"]
  by (simp add: demo_configuration_defs)

lemma demo_configuration_valid: "configuration_valid demo_configuration"
  by (simp add: configuration_valid_def demo_configuration_defs scalar_value_def)

lemma configuration_kept_or_dropped_witness:
  "bt_get (cf_native (configuration_normalized demo_configuration)) (lit ''b'') = Some (BooleanValue True)"
proof -
  have "id_ok (lit ''b'')"
    by (simp add: lit_def id_ok_def field_ok_def scalar_value_def is_strippable_def trim_eq_Nil_iff is_whitespace_def)
  moreover have "bt_get (cf_native demo_configuration) (lit ''b'') = Some (BooleanValue True)"
    by (simp add: demo_configuration_defs)
  moreover have "value_ok (BooleanValue True)" by (simp add: value_ok_def)
  ultimately show ?thesis
    using configuration_kept_or_dropped [OF demo_configuration_valid, of "lit ''b''"] by simp
qed

lemma catalog_rows_kept_witness:
  "map co_id (catalog_normalized
     [configuration_option_new (lit ''a'') ModelCategory TextType, configuration_option_new [0x1b] ModelCategory TextType,
      configuration_option_new (lit ''a'') ModeCategory TextType, configuration_option_new (lit ''b'') ModeCategory TextType]) =
   [lit ''a'', lit ''b'']"
proof -
  let ?cat = "[configuration_option_new (lit ''a'') ModelCategory TextType,
      configuration_option_new [0x1b] ModelCategory TextType,
      configuration_option_new (lit ''a'') ModeCategory TextType,
      configuration_option_new (lit ''b'') ModeCategory TextType]"
  have "list_all catalog_row_valid ?cat"
    by (simp add: catalog_row_valid_def configuration_option_new_def lit_def scalar_value_def)
  from catalog_rows_kept [OF this]
  have "map co_id (catalog_normalized ?cat) = take 256 (firsts (map co_id (filter (\<lambda>c. id_ok (co_id c)) ?cat)))"
    by blast
  also have "\<dots> = [lit ''a'', lit ''b'']"
    by (simp add: configuration_option_new_def lit_def id_ok_def field_ok_def scalar_value_def
        is_strippable_def trim_eq_Nil_iff is_whitespace_def)
  finally show ?thesis .
qed

end
