(* ===== verification/Host_Path.thy ===== *)
theory Host_Path imports Errors begin

text \<open>
  Paths as the host and the vendors name them: \<open>std::path\<close> on a Unix platform as far as the sources
  use it (components, equality, the last name, rebuilding a path from its components), and the
  workspace check of \<open>host.rs\<close> built on it. A path is its characters, or its bytes when they are
  not UTF-8; both are read as lists of code units, in which the separator is 0x2f.
\<close>

subsection \<open>Components\<close>

datatype path = UnicodePath ustring | RawPath "byte list"

fun to_str :: "path \<Rightarrow> ustring option" where
  "to_str (UnicodePath s) = Some s"
| "to_str (RawPath _) = None"

fun path_units :: "path \<Rightarrow> nat list" where
  "path_units (UnicodePath s) = s"
| "path_units (RawPath bs) = map unat bs"

datatype path_component = RootDir | CurDir | ParentDir | NormalComponent "nat list"

abbreviation SEP :: nat where
  "SEP \<equiv> 0x2f"

fun segments :: "nat list \<Rightarrow> nat list list" where
  "segments [] = [[]]"
| "segments (c # cs) =
     (if c = SEP then [] # segments cs
      else case segments cs of [] \<Rightarrow> [[c]] | s # ss \<Rightarrow> (c # s) # ss)"

definition has_root :: "nat list \<Rightarrow> bool" where
  "has_root p \<longleftrightarrow> take 1 p = [SEP]"

text \<open>Empty and \<open>.\<close> segments are normalized away, except for a \<open>.\<close> a relative path starts with.\<close>

definition single_component :: "nat list \<Rightarrow> path_component option" where
  "single_component s =
     (if s = [] \<or> s = lit ''.'' then None
      else if s = lit ''..'' then Some ParentDir else Some (NormalComponent s))"

definition components :: "nat list \<Rightarrow> path_component list" where
  "components p =
     (if has_root p then [RootDir] else if hd (segments p) = lit ''.'' then [CurDir] else []) @
     List.map_filter single_component (segments p)"

fun path_eq :: "path \<Rightarrow> path \<Rightarrow> bool" where
  "path_eq (UnicodePath s) (UnicodePath t) \<longleftrightarrow> components s = components t"
| "path_eq (RawPath s) (RawPath t) \<longleftrightarrow> components (map unat s) = components (map unat t)"
| "path_eq _ _ \<longleftrightarrow> False"

fun component_units :: "path_component \<Rightarrow> nat list" where
  "component_units RootDir = [SEP]"
| "component_units CurDir = lit ''.''"
| "component_units ParentDir = lit ''..''"
| "component_units (NormalComponent s) = s"

definition path_push :: "nat list \<Rightarrow> nat list \<Rightarrow> nat list" where
  "path_push buf p =
     (if has_root p then p
      else if buf \<noteq> [] \<and> last buf \<noteq> SEP then buf @ [SEP] @ p else buf @ p)"

definition path_collect :: "path_component list \<Rightarrow> nat list" where
  "path_collect cs = foldl path_push [] (map component_units cs)"

definition file_name :: "nat list \<Rightarrow> nat list option" where
  "file_name p = (case rev (components p) of NormalComponent s # _ \<Rightarrow> Some s | _ \<Rightarrow> None)"

definition strip_suffix :: "nat \<Rightarrow> ustring \<Rightarrow> ustring option" where
  "strip_suffix c s = (if s \<noteq> [] \<and> last s = c then Some (butlast s) else None)"

subsection \<open>The workspace of a host\<close>

definition EXPECTED_CWD :: ustring where
  "EXPECTED_CWD = lit ''an absolute, lexically normalized UTF-8 workspace path''"

definition absolute_cwd :: "path \<Rightarrow> ustring result" where
  "absolute_cwd cwd =
     (case to_str cwd of
        None \<Rightarrow> Err (HostConfiguration EXPECTED_CWD (lit ''a non-UTF-8 workspace path''))
      | Some text \<Rightarrow>
          if \<not> has_root text then
            Err (HostConfiguration EXPECTED_CWD (lit ''a relative workspace path''))
          else
            (let normalized = path_collect (components text);
                 shown =
                   (if file_name text \<noteq> None then
                      (case strip_suffix SEP text of
                         None \<Rightarrow> text
                       | Some trimmed \<Rightarrow> if trimmed = normalized then trimmed else text)
                    else text)
             in if list_ex (\<lambda>c. c = CurDir \<or> c = ParentDir) (components text) \<or> normalized \<noteq> shown
                then Err (HostConfiguration EXPECTED_CWD
                       (lit ''a workspace path with dot components or redundant separators''))
                else Ok shown))"

subsection \<open>Rebuilding a path\<close>

definition plain_segment :: "nat list \<Rightarrow> bool" where
  "plain_segment s \<longleftrightarrow> s \<noteq> [] \<and> SEP \<notin> set s \<and> s \<noteq> lit ''.'' \<and> s \<noteq> lit ''..''"

fun rooted :: "nat list list \<Rightarrow> nat list" where
  "rooted [] = [SEP]"
| "rooted [s] = SEP # s"
| "rooted (s # ss) = SEP # s @ rooted ss"

lemma segments_not_Nil: "segments p \<noteq> []"
  by (induction p) (auto split: list.split)

lemma segments_append: "SEP \<notin> set s \<Longrightarrow> segments (s @ SEP # r) = s # segments r"
  by (induction s) auto

lemma segments_plain: "SEP \<notin> set s \<Longrightarrow> segments s = [s]"
  by (induction s) auto

lemma segments_no_sep: "s \<in> set (segments p) \<Longrightarrow> SEP \<notin> set s"
proof (induction p arbitrary: s)
  case (Cons c p)
  then show ?case
    by (cases "segments p") (auto split: if_splits)
qed simp

lemma rooted_Cons: "rooted (s # ss) = SEP # s @ (if ss = [] then [] else rooted ss)"
  by (cases ss) simp_all

lemma rooted_snoc: "ss \<noteq> [] \<Longrightarrow> rooted (ss @ [s]) = rooted ss @ SEP # s"
  by (induction ss) (auto simp: rooted_Cons)

lemma segments_rooted:
  "\<forall>s \<in> set ss. SEP \<notin> set s \<Longrightarrow> ss \<noteq> [] \<Longrightarrow>
   segments (rooted ss) = [] # ss \<and> segments (rooted ss @ [SEP]) = [] # ss @ [[]]"
proof (induction ss)
  case (Cons s ss)
  show ?case
  proof (cases "ss = []")
    case True
    with Cons.prems segments_append [of s "[]"] show ?thesis by (simp add: segments_plain)
  next
    case False
    then obtain t where t: "rooted ss = SEP # t" by (cases ss) (auto simp: rooted_Cons)
    with Cons False segments_append [of s t] segments_append [of s "t @ [SEP]"] show ?thesis
      by (simp add: rooted_Cons)
  qed
qed simp

lemma component_units_of_segment:
  "SEP \<notin> set s \<Longrightarrow> single_component s = Some c \<Longrightarrow>
   component_units c = s \<and> s \<noteq> [] \<and> (plain_segment s \<longleftrightarrow> c \<noteq> ParentDir) \<and> c \<noteq> CurDir \<and> c \<noteq> RootDir"
  by (auto simp: single_component_def plain_segment_def split: if_splits)

text \<open>The names a rooted path goes through, and the path rebuilt from them.\<close>

definition names :: "nat list \<Rightarrow> nat list list" where
  "names p = map component_units (List.map_filter single_component (segments p))"

lemma names_plain: "s \<in> set (names p) \<Longrightarrow> s \<noteq> [] \<and> SEP \<notin> set s"
  using component_units_of_segment segments_no_sep
  by (fastforce simp: names_def List.map_filter_def)

lemma components_rooted:
  "has_root p \<Longrightarrow> components p = RootDir # List.map_filter single_component (segments p)"
  by (simp add: components_def)

lemma fold_push:
  "\<forall>s \<in> set ss. s \<noteq> [] \<and> SEP \<notin> set s \<Longrightarrow> foldl path_push [SEP] ss = rooted ss"
proof (induction ss rule: rev_induct)
  case (snoc s ss)
  then have s: "s \<noteq> []" "\<not> has_root s" by (auto simp: has_root_def take_Suc_conv_app_nth neq_Nil_conv)
  show ?case
  proof (cases "ss = []")
    case True
    with s show ?thesis by (simp add: path_push_def)
  next
    case False
    then have "last (rooted ss) \<noteq> SEP \<and> rooted ss \<noteq> []"
    proof -
      from False obtain t us where ss: "ss = us @ [t]" by (metis rev_exhaust)
      then have "t \<noteq> []" "last t \<noteq> SEP" using snoc.prems by (auto dest: last_in_set)
      then show ?thesis using ss by (cases "us = []") (auto simp: rooted_snoc)
    qed
    with snoc s False show ?thesis by (simp add: path_push_def rooted_snoc)
  qed
qed simp

lemma collect_rooted:
  assumes "has_root p"
  shows "path_collect (components p) = rooted (names p)"
proof -
  have "path_collect (components p) = foldl path_push [SEP] (names p)"
    using assms by (simp add: path_collect_def components_rooted names_def path_push_def has_root_def)
  also have "\<dots> = rooted (names p)" by (rule fold_push) (use names_plain in blast)
  finally show ?thesis .
qed

lemma dot_free_iff:
  assumes "has_root p"
  shows "list_ex (\<lambda>c. c = CurDir \<or> c = ParentDir) (components p) \<longleftrightarrow> \<not> list_all plain_segment (names p)"
proof -
  have "c = CurDir \<or> c = ParentDir \<longleftrightarrow> \<not> plain_segment (component_units c)"
    if "s \<in> set (segments p)" "single_component s = Some c" for s c
    using component_units_of_segment [OF segments_no_sep [OF that(1)] that(2)] by auto
  then show ?thesis
    using assms
    by (fastforce simp: components_rooted names_def list_ex_iff list_all_iff List.map_filter_def)
qed

lemma file_name_iff:
  assumes "has_root p" "list_all plain_segment (names p)"
  shows "file_name p \<noteq> None \<longleftrightarrow> names p \<noteq> []"
proof (cases "List.map_filter single_component (segments p)" rule: rev_cases)
  case Nil
  with assms show ?thesis by (simp add: file_name_def components_rooted names_def)
next
  case (snoc cs c)
  then have "c \<in> set (List.map_filter single_component (segments p))" by simp
  then obtain s where s: "s \<in> set (segments p)" "single_component s = Some c"
    by (auto simp: List.map_filter_def)
  have "plain_segment (component_units c)" using assms(2) snoc by (simp add: names_def)
  then have "\<exists>n. c = NormalComponent n"
    using component_units_of_segment [OF segments_no_sep [OF s(1)] s(2)] by (cases c) auto
  with assms snoc show ?thesis by (auto simp: file_name_def components_rooted names_def)
qed

lemma names_rooted:
  assumes "list_all plain_segment ss"
  shows "names (rooted ss) = ss \<and> names (rooted ss @ [SEP]) = ss"
proof (cases "ss = []")
  case True
  then show ?thesis by (simp add: names_def List.map_filter_def single_component_def)
next
  case False
  have "map component_units (List.map_filter single_component ss) = ss"
    using assms by (induction ss) (auto simp: plain_segment_def single_component_def)
  with segments_rooted [of ss] assms False show ?thesis
    by (simp add: names_def list_all_iff plain_segment_def single_component_def List.map_filter_def)
qed

lemma rooted_has_root [simp]: "has_root (rooted ss)" "has_root (rooted ss @ [SEP])"
  by (cases ss; simp add: has_root_def rooted_Cons)+

lemma rooted_no_trailing: "list_all plain_segment ss \<Longrightarrow> ss \<noteq> [] \<Longrightarrow> last (rooted ss) \<noteq> SEP"
proof (cases ss rule: rev_cases)
  case (snoc us t)
  assume "list_all plain_segment ss"
  with snoc have "plain_segment t" by simp
  then have "t \<noteq> []" "last t \<noteq> SEP" unfolding plain_segment_def by (metis last_in_set)+
  with snoc show ?thesis by (cases "us = []") (auto simp: rooted_snoc)
qed simp

lemma absolute_cwd_rooted:
  assumes "has_root p"
  shows "absolute_cwd (UnicodePath p) = Ok t \<longleftrightarrow>
    list_all plain_segment (names p) \<and> t = rooted (names p) \<and>
    (p = t \<or> names p \<noteq> [] \<and> p = t @ [SEP])"
proof (cases "list_all plain_segment (names p)")
  case False
  with assms show ?thesis by (simp add: absolute_cwd_def dot_free_iff Let_def)
next
  case True
  let ?n = "rooted (names p)"
  have "(case strip_suffix SEP p of None \<Rightarrow> p | Some trimmed \<Rightarrow> if trimmed = ?n then trimmed else p) =
      (if p = ?n @ [SEP] then ?n else p)"
    by (cases p rule: rev_cases) (auto simp: strip_suffix_def)
  then have "absolute_cwd (UnicodePath p) =
      (let shown = if names p \<noteq> [] then (if p = ?n @ [SEP] then ?n else p) else p
       in if ?n \<noteq> shown
          then Err (HostConfiguration EXPECTED_CWD
                 (lit ''a workspace path with dot components or redundant separators''))
          else Ok shown)"
    using assms True dot_free_iff [OF assms] file_name_iff [OF assms True]
    by (simp add: absolute_cwd_def collect_rooted Let_def)
  then show ?thesis using True by (auto simp: Let_def)
qed

text \<open>Which workspaces a host may hand to a vendor that echoes absolute paths, and what the vendor is
  told. Exactly the paths made of a leading separator and plain names, none of them \<open>.\<close> or \<open>..\<close>, with
  single separators and at most one trailing one, are accepted; what is returned is that path without
  the trailing separator. It names the same path as the host's, and is accepted again as it stands.\<close>

theorem absolute_cwd_accepts:
  "(absolute_cwd cwd = Ok t \<longleftrightarrow>
      (\<exists>ss. list_all plain_segment ss \<and> t = rooted ss \<and>
        (cwd = UnicodePath t \<or> ss \<noteq> [] \<and> cwd = UnicodePath (t @ [SEP])))) \<and>
   (absolute_cwd cwd = Ok t \<longrightarrow> absolute_cwd (UnicodePath t) = Ok t \<and> path_eq cwd (UnicodePath t))"
proof -
  have iff: "absolute_cwd cwd = Ok t \<longleftrightarrow>
      (\<exists>ss. list_all plain_segment ss \<and> t = rooted ss \<and>
        (cwd = UnicodePath t \<or> ss \<noteq> [] \<and> cwd = UnicodePath (t @ [SEP])))" for cwd
  proof (cases cwd)
    case (UnicodePath p)
    have root: "has_root p" if "list_all plain_segment ss" "p = rooted ss \<or> p = rooted ss @ [SEP]" for ss
      using that by auto
    show ?thesis
    proof (cases "has_root p")
      case True
      show ?thesis
        unfolding UnicodePath absolute_cwd_rooted [OF True] path.inject using names_rooted by metis
    next
      case False
      then have "absolute_cwd cwd \<noteq> Ok t" by (simp add: UnicodePath absolute_cwd_def)
      then show ?thesis using False root UnicodePath path.inject by metis
    qed
  qed (simp add: absolute_cwd_def)
  have "absolute_cwd (UnicodePath t) = Ok t \<and> path_eq cwd (UnicodePath t)" if ok: "absolute_cwd cwd = Ok t"
  proof
    obtain ss where ss: "list_all plain_segment ss" "t = rooted ss"
        "cwd = UnicodePath t \<or> ss \<noteq> [] \<and> cwd = UnicodePath (t @ [SEP])"
      using iffD1 [OF iff ok] by blast
    then show "absolute_cwd (UnicodePath t) = Ok t" by (intro iffD2 [OF iff]) blast
    have "components (rooted ss @ [SEP]) = components (rooted ss)" if "ss \<noteq> []"
      using segments_rooted [of ss] ss(1) that
      by (simp add: components_rooted list_all_iff plain_segment_def List.map_filter_def single_component_def)
    note trailing = this
    show "path_eq cwd (UnicodePath t)"
    proof (cases "cwd = UnicodePath t")
      case False
      with ss(3) have "ss \<noteq> []" "cwd = UnicodePath (t @ [SEP])" by simp_all
      with trailing show ?thesis by (simp add: ss(2))
    qed simp
  qed
  with iff show ?thesis by blast
qed

lemma absolute_cwd_accepts_witness:
  "absolute_cwd (UnicodePath (lit ''/srv/app/'')) = Ok (lit ''/srv/app'') \<and>
   path_eq (UnicodePath (lit ''/srv/app/'')) (UnicodePath (lit ''/srv/app''))"
proof -
  have "list_all plain_segment [lit ''srv'', lit ''app''] \<and> lit ''/srv/app'' = rooted [lit ''srv'', lit ''app''] \<and>
      lit ''/srv/app/'' = lit ''/srv/app'' @ [SEP]"
    by (simp add: plain_segment_def lit_def)
  then have "absolute_cwd (UnicodePath (lit ''/srv/app/'')) = Ok (lit ''/srv/app'')"
    using absolute_cwd_accepts [of "UnicodePath (lit ''/srv/app/'')" "lit ''/srv/app''"] by blast
  then show ?thesis
    using absolute_cwd_accepts [of "UnicodePath (lit ''/srv/app/'')" "lit ''/srv/app''"] by blast
qed

end
