(* ===== verification/Discovery.thy ===== *)
theory Discovery imports Capabilities Configuration Host_Path Host_Limits begin

text \<open>
  What a probe established and what may rely on it later (\<open>discovery.rs\<close>), the opening request of
  \<open>session.rs\<close> and the checks every harness runs before it opens a session (\<open>harness.rs\<close>). An instant
  is its nanoseconds from the epoch; \<open>msg\<close> is \<open>redact::message_text\<close>.
\<close>

subsection \<open>Gate, authentication and models\<close>

datatype gate_verdict =
    UsableGate
  | NotInstalled
  | VersionTooOld ustring ustring
  | MissingRequiredSurface ustring ustring
  | UnknownGate

fun gate_normalized :: "(ustring \<Rightarrow> ustring) \<Rightarrow> gate_verdict \<Rightarrow> gate_verdict" where
  "gate_normalized msg (VersionTooOld found minimum) =
     VersionTooOld (bt_text (redact_bounded msg found AccountLabel)) minimum"
| "gate_normalized msg other = other"

datatype auth_mode = Subscription | ApiKey | OtherMode ustring

fun auth_mode_normalized :: "auth_mode \<Rightarrow> auth_mode" where
  "auth_mode_normalized (OtherMode label) = OtherMode (bt_text (bound label AccountLabel))"
| "auth_mode_normalized other = other"

datatype auth_state = LoggedIn auth_mode | LoggedOut ustring | UnknownAuth

fun auth_state_normalized :: "auth_state \<Rightarrow> auth_state" where
  "auth_state_normalized (LoggedIn mode) = LoggedIn (auth_mode_normalized mode)"
| "auth_state_normalized (LoggedOut login_hint) = LoggedOut (bt_text (bound login_hint Title))"
| "auth_state_normalized other = other"

record reasoning_effort =
  re_id :: ustring
  re_display_name :: "ustring option"
  re_description :: "ustring option"

definition effort_normalized :: "reasoning_effort \<Rightarrow> reasoning_effort option" where
  "effort_normalized e =
     map_option
       (\<lambda>i. \<lparr>re_id = i,
          re_display_name = map_option (\<lambda>s. bt_text (bound s Title)) (re_display_name e),
          re_description = map_option (\<lambda>s. bt_text (bound s Detail)) (re_description e)\<rparr>)
       (res_ok (opaque_id (re_id e) (lit ''reasoning effort id'')))"

record model =
  md_id :: ustring
  md_display_name :: "ustring option"
  md_description :: "ustring option"
  md_is_default :: bool
  md_reasoning_efforts :: "reasoning_effort list"
  md_default_reasoning_effort :: "ustring option"

definition model_new :: "ustring \<Rightarrow> model" where
  "model_new i =
     \<lparr>md_id = i, md_display_name = None, md_description = None, md_is_default = False,
      md_reasoning_efforts = [], md_default_reasoning_effort = None\<rparr>"

definition model_normalized :: "model \<Rightarrow> model option" where
  "model_normalized m =
     map_option
       (\<lambda>i. \<lparr>md_id = i,
          md_display_name = map_option (\<lambda>s. bt_text (bound s Title)) (md_display_name m),
          md_description = map_option (\<lambda>s. bt_text (bound s Detail)) (md_description m),
          md_is_default = md_is_default m,
          md_reasoning_efforts =
            take REASONING_EFFORT_MAX_ITEMS (List.map_filter effort_normalized (md_reasoning_efforts m)),
          md_default_reasoning_effort =
            Option.bind (md_default_reasoning_effort m)
              (\<lambda>i. res_ok (opaque_id i (lit ''reasoning effort id'')))\<rparr>)
       (res_ok (opaque_id (md_id m) (lit ''model id'')))"

subsection \<open>The discovery\<close>

record discovery =
  dc_executable :: "path option"
  dc_version :: "ustring option"
  dc_gate :: gate_verdict
  dc_auth :: auth_state
  dc_capabilities :: discovered_capabilities
  dc_permission_matrix :: permission_matrix
  dc_models :: "model list"
  dc_configuration_catalog :: configuration_catalog

definition not_installed :: discovery where
  "not_installed =
     \<lparr>dc_executable = None, dc_version = None, dc_gate = NotInstalled, dc_auth = UnknownAuth,
      dc_capabilities = discovered_none,
      dc_permission_matrix = matrix_none (OtherReason (lit ''the agent executable is not installed'')),
      dc_models = [], dc_configuration_catalog = []\<rparr>"

definition is_usable :: "discovery \<Rightarrow> bool" where
  "is_usable d \<longleftrightarrow>
     dc_gate d = UsableGate \<and> \<not> (case dc_auth d of LoggedOut _ \<Rightarrow> True | _ \<Rightarrow> False)"

definition bounded_executable :: "path \<Rightarrow> path option" where
  "bounded_executable p = Option.bind (to_str p) (\<lambda>s. map_option UnicodePath (vendor_path s))"

definition normalized_with_permissions ::
  "(ustring \<Rightarrow> ustring) \<Rightarrow> permission_matrix \<Rightarrow> discovery \<Rightarrow> discovery" where
  "normalized_with_permissions msg permission_matrix d =
     d\<lparr>dc_executable := Option.bind (dc_executable d) bounded_executable,
       dc_version := map_option (\<lambda>v. bt_text (redact_bounded msg v AccountLabel)) (dc_version d),
       dc_gate := gate_normalized msg (dc_gate d),
       dc_auth := auth_state_normalized (dc_auth d),
       dc_permission_matrix := permission_matrix,
       dc_models := take MODEL_CATALOG_MAX_ITEMS (List.map_filter model_normalized (dc_models d)),
       dc_configuration_catalog := catalog_normalized (dc_configuration_catalog d)\<rparr>"

definition discovery_normalized :: "(ustring \<Rightarrow> ustring) \<Rightarrow> discovery \<Rightarrow> discovery" where
  "discovery_normalized msg d =
     normalized_with_permissions msg (matrix_normalized msg (dc_permission_matrix d)) d"

definition discovery_normalized_bounded_by ::
  "(ustring \<Rightarrow> ustring) \<Rightarrow> capability_ceiling \<Rightarrow> permission_matrix \<Rightarrow> discovery \<Rightarrow> discovery" where
  "discovery_normalized_bounded_by msg ceiling declared d =
     (normalized_with_permissions msg (normalized_bounded_by msg (dc_permission_matrix d) declared) d)
       \<lparr>dc_capabilities := discovered_clamped_to (dc_capabilities d) ceiling\<rparr>"

definition discovery_bounded_by ::
  "(ustring \<Rightarrow> ustring) \<Rightarrow> capability_ceiling \<Rightarrow> permission_matrix \<Rightarrow> discovery \<Rightarrow> discovery" where
  "discovery_bounded_by msg ceiling declared d =
     d\<lparr>dc_capabilities := discovered_clamped_to (dc_capabilities d) ceiling,
       dc_permission_matrix := bounded_by msg (dc_permission_matrix d) declared\<rparr>"

text \<open>\<open>Harness::discover\<close>, over what the harness's own probe returned.\<close>

definition harness_discover ::
  "(ustring \<Rightarrow> ustring) \<Rightarrow> harness_descriptor \<Rightarrow> permission_matrix \<Rightarrow> discovery result \<Rightarrow> discovery result" where
  "harness_discover msg descriptor declared probe =
     res_map (discovery_normalized_bounded_by msg (hd_capabilities descriptor) declared) probe"

subsection \<open>Opening a session\<close>

datatype resume_mode = Strict | Fallback

record resume_request =
  ru_native_session_id :: ustring
  ru_mode :: resume_mode

datatype mcp_transport =
    McpStdio ustring "ustring list" "(ustring, ustring) btree"
  | McpHttp ustring "(ustring, ustring) btree"

record mcp_server =
  mcp_name :: ustring
  mcp_transport_of :: mcp_transport

definition mcp_is_usable :: "mcp_server \<Rightarrow> bool" where
  "mcp_is_usable s \<longleftrightarrow>
     (if trim (mcp_name s) = [] then False
      else case mcp_transport_of s of
             McpStdio command _ _ \<Rightarrow> trim command \<noteq> []
           | McpHttp url _ \<Rightarrow> trim url \<noteq> [])"

record receipt_request_context =
  rx_configuration :: configuration_patch
  rx_resume :: "resume_request option"
  rx_mcp_servers :: "mcp_server list"

record receipt_binding =
  rb_identity :: harness_identity
  rb_transport :: transport_kind
  rb_workspace :: path
  rb_request :: receipt_request_context

record discovery_receipt =
  dr_harness :: harness_id
  dr_discovery :: discovery
  dr_executable_fingerprint :: "ustring option"
  dr_environment_fingerprint :: "ustring option"
  dr_authorization_fingerprint :: "ustring option"
  dr_observed_at :: nat
  dr_max_age :: duration
  dr_binding :: "receipt_binding option"

record open_session =
  os_session_id :: ustring
  os_configuration :: configuration_patch
  os_transport :: "transport_kind option"
  os_resume :: "resume_request option"
  os_executable :: "path option"
  os_discovery :: "discovery_receipt option"
  os_mcp_servers :: "mcp_server list"

definition context_from_open_request :: "open_session \<Rightarrow> receipt_request_context" where
  "context_from_open_request request =
     \<lparr>rx_configuration = os_configuration request, rx_resume = os_resume request,
      rx_mcp_servers = os_mcp_servers request\<rparr>"

definition context_matches :: "receipt_request_context \<Rightarrow> open_session \<Rightarrow> bool" where
  "context_matches c request \<longleftrightarrow>
     rx_configuration c = os_configuration request \<and> rx_resume c = os_resume request \<and>
     rx_mcp_servers c = os_mcp_servers request"

subsection \<open>Receipts\<close>

definition DISCOVERY_RECEIPT_MAX_AGE :: duration where
  "DISCOVERY_RECEIPT_MAX_AGE = from_secs 300"

record receipt_measurements =
  ms_executable_fingerprint :: "ustring option"
  ms_environment_fingerprint :: "ustring option"
  ms_authorization_fingerprint :: "ustring option"

definition receipt_new :: "harness_id \<Rightarrow> discovery \<Rightarrow> nat \<Rightarrow> discovery_receipt" where
  "receipt_new harness d observed_at =
     \<lparr>dr_harness = harness, dr_discovery = d, dr_executable_fingerprint = None,
      dr_environment_fingerprint = None, dr_authorization_fingerprint = None,
      dr_observed_at = observed_at, dr_max_age = DISCOVERY_RECEIPT_MAX_AGE, dr_binding = None\<rparr>"

text \<open>\<open>SystemTime::duration_since\<close> fails when the other instant is later.\<close>

definition receipt_age :: "discovery_receipt \<Rightarrow> nat \<Rightarrow> duration option" where
  "receipt_age r now = (if dr_observed_at r \<le> now then Some (now - dr_observed_at r) else None)"

definition is_fresh :: "discovery_receipt \<Rightarrow> nat \<Rightarrow> bool" where
  "is_fresh r now \<longleftrightarrow> (case receipt_age r now of None \<Rightarrow> False | Some age \<Rightarrow> age \<le> dr_max_age r)"

definition compare_fingerprint :: "ustring \<Rightarrow> ustring option \<Rightarrow> ustring option \<Rightarrow> unit result" where
  "compare_fingerprint subject recorded measured =
     (case (recorded, measured) of
        (Some r, Some m) \<Rightarrow>
          if r \<noteq> m then
            Err (HostConfiguration (lit ''a discovery receipt whose fingerprints still match'')
              (lit ''the '' @ subject @ lit '' fingerprint changed''))
          else Ok ()
      | (Some _, None) \<Rightarrow>
          Err (HostConfiguration
            (lit ''a current measurement for every recorded discovery fingerprint'')
            (lit ''the '' @ subject @ lit '' fingerprint was not remeasured''))
      | _ \<Rightarrow> Ok ())"

definition receipt_describes ::
  "discovery_receipt \<Rightarrow> ustring option \<Rightarrow> ustring option \<Rightarrow> unit result" where
  "receipt_describes r executable_fingerprint environment_fingerprint =
     rbind (compare_fingerprint (lit ''executable'') (dr_executable_fingerprint r) executable_fingerprint)
       (\<lambda>_. compare_fingerprint (lit ''environment'') (dr_environment_fingerprint r) environment_fingerprint)"

definition require_measurement :: "ustring \<Rightarrow> ustring option \<Rightarrow> ustring option \<Rightarrow> unit result" where
  "require_measurement subject recorded measured =
     (case recorded of
        Some _ \<Rightarrow> compare_fingerprint subject recorded measured
      | None \<Rightarrow>
          Err (HostConfiguration
            (lit ''a discovery receipt with executable, allowlisted-environment and authorization fingerprints'')
            (lit ''the recorded '' @ subject @ lit '' fingerprint was missing'')))"

definition verify_measurements :: "discovery_receipt \<Rightarrow> receipt_measurements \<Rightarrow> unit result" where
  "verify_measurements r m =
     rbind (require_measurement (lit ''executable'') (dr_executable_fingerprint r)
         (ms_executable_fingerprint m))
       (\<lambda>_. rbind (require_measurement (lit ''allowlisted environment'') (dr_environment_fingerprint r)
           (ms_environment_fingerprint m))
         (\<lambda>_. require_measurement (lit ''authorization'') (dr_authorization_fingerprint r)
           (ms_authorization_fingerprint m)))"

definition verify_executable :: "discovery_receipt \<Rightarrow> open_session \<Rightarrow> unit result" where
  "verify_executable r request =
     (case (os_executable request, dc_executable (dr_discovery r)) of
        (Some requested, Some probed) \<Rightarrow>
          if \<not> path_eq requested probed then
            Err (HostConfiguration (lit ''a discovery receipt for the executable being launched'')
              (lit ''a receipt and request that name different executables''))
          else Ok ()
      | (Some _, None) \<Rightarrow>
          Err (HostConfiguration (lit ''a discovery receipt for the executable being launched'')
            (lit ''a receipt without an executable and a request with one''))
      | (None, Some _) \<Rightarrow>
          Err (HostConfiguration (lit ''a request naming the executable its receipt was a probe of'')
            (lit ''a receipt with an executable and a request without one''))
      | (None, None) \<Rightarrow> Ok ())"

definition wrong_harness :: error where
  "wrong_harness =
     HostConfiguration (lit ''a discovery receipt for the harness being opened'')
       (lit ''a receipt for a different harness'')"

definition bind_to_open ::
  "discovery_receipt \<Rightarrow> harness_descriptor \<Rightarrow> path \<Rightarrow> open_session \<Rightarrow> receipt_measurements \<Rightarrow>
   discovery_receipt result" where
  "bind_to_open r descriptor cwd request measurements =
     (if dr_harness r \<noteq> descriptor_id descriptor then Err wrong_harness
      else
        rbind (resolve_transport descriptor (os_transport request)) (\<lambda>transport.
        rbind (verify_executable r request) (\<lambda>_.
        rbind (verify_measurements r measurements) (\<lambda>_.
          Ok (r\<lparr>dr_binding := Some
            \<lparr>rb_identity = hd_identity descriptor, rb_transport = transport, rb_workspace = cwd,
             rb_request = context_from_open_request request\<rparr>\<rparr>)))))"

text \<open>The host is seen through its workspace and its clock.\<close>

definition verify_for ::
  "discovery_receipt \<Rightarrow> harness_descriptor \<Rightarrow> path \<Rightarrow> nat \<Rightarrow> open_session \<Rightarrow> unit result" where
  "verify_for r descriptor cwd now request =
     (if dr_harness r \<noteq> descriptor_id descriptor then Err wrong_harness
      else if \<not> is_fresh r now then
        Err (HostConfiguration (lit ''a discovery receipt inside its own freshness window'')
          ((case receipt_age r now of
              None \<Rightarrow> lit ''one taken in the future''
            | Some age \<Rightarrow> lit ''one '' @ dec (age div from_secs 1) @ lit ''s old'') @
           lit '', valid for '' @ dec (dr_max_age r div from_secs 1) @ lit ''s''))
      else
        rbind (verify_executable r request) (\<lambda>_.
          case dr_binding r of
            None \<Rightarrow>
              Err (HostConfiguration (lit ''a discovery receipt bound to this opening request'')
                (lit ''an unbound discovery receipt''))
          | Some binding \<Rightarrow>
              if rb_identity binding \<noteq> hd_identity descriptor then
                Err (HostConfiguration
                  (lit ''a discovery receipt for the protocol and profile being opened'')
                  (lit ''a receipt bound to a different protocol or profile''))
              else
                rbind (resolve_transport descriptor (os_transport request)) (\<lambda>transport.
                  if rb_transport binding \<noteq> transport then
                    Err (HostConfiguration
                      (lit ''a discovery receipt for the selected effective transport'')
                      (lit ''a receipt bound to a different transport''))
                  else if \<not> path_eq (rb_workspace binding) cwd then
                    Err (HostConfiguration (lit ''a discovery receipt for the authorised workspace'')
                      (lit ''a receipt bound to a different workspace''))
                  else if \<not> context_matches (rb_request binding) request then
                    Err (HostConfiguration (lit ''a discovery receipt for the requested session context'')
                      (lit ''a receipt bound to a different request context''))
                  else Ok ())))"

definition validate_open_session ::
  "harness_descriptor \<Rightarrow> path \<Rightarrow> nat \<Rightarrow> open_session \<Rightarrow> unit result" where
  "validate_open_session descriptor cwd now request =
     rbind (resolve_transport descriptor (os_transport request)) (\<lambda>_.
     rbind
       (if (case os_resume request of None \<Rightarrow> False | Some resume \<Rightarrow> ru_mode resume = Strict)
        then ceiling_require (hd_capabilities descriptor) ResumeCap else Ok ()) (\<lambda>_.
     if os_mcp_servers request \<noteq> [] \<and> \<not> ceiling_has (hd_capabilities descriptor) McpPassthrough then
       Err (HostConfiguration (lit ''no MCP servers for a harness without MCP passthrough'')
         (lit ''MCP server count '' @ dec (length (os_mcp_servers request))))
     else
       (case os_discovery request of
          None \<Rightarrow> Ok ()
        | Some receipt \<Rightarrow> verify_for receipt descriptor cwd now request)))"

subsection \<open>What a verified receipt says\<close>

lemma compare_fingerprint_Ok_iff:
  "compare_fingerprint subject recorded measured = Ok () \<longleftrightarrow> recorded = None \<or> measured = recorded"
  by (auto simp: compare_fingerprint_def split: option.split)

lemma require_measurement_Ok_iff:
  "require_measurement subject recorded measured = Ok () \<longleftrightarrow> recorded \<noteq> None \<and> measured = recorded"
  by (cases recorded) (simp_all add: require_measurement_def compare_fingerprint_Ok_iff)

lemma verify_measurements_Ok_iff:
  "verify_measurements r m = Ok () \<longleftrightarrow>
     dr_executable_fingerprint r \<noteq> None \<and> ms_executable_fingerprint m = dr_executable_fingerprint r \<and>
     dr_environment_fingerprint r \<noteq> None \<and> ms_environment_fingerprint m = dr_environment_fingerprint r \<and>
     dr_authorization_fingerprint r \<noteq> None \<and>
     ms_authorization_fingerprint m = dr_authorization_fingerprint r"
  by (auto simp: verify_measurements_def rbind_Inr_iff require_measurement_Ok_iff)

definition same_executable :: "path option \<Rightarrow> path option \<Rightarrow> bool" where
  "same_executable requested probed \<longleftrightarrow> rel_option path_eq requested probed"

lemma verify_executable_Ok_iff:
  "verify_executable r request = Ok () \<longleftrightarrow>
     same_executable (os_executable request) (dc_executable (dr_discovery r))"
  by (auto simp: verify_executable_def same_executable_def split: option.split)

lemma is_fresh_iff: "is_fresh r now \<longleftrightarrow> dr_observed_at r \<le> now \<and> now \<le> dr_observed_at r + dr_max_age r"
  by (auto simp: is_fresh_def receipt_age_def)

lemma verify_for_Ok_iff:
  "verify_for r descriptor cwd now request = Ok () \<longleftrightarrow>
     dr_harness r = descriptor_id descriptor \<and> is_fresh r now \<and>
     same_executable (os_executable request) (dc_executable (dr_discovery r)) \<and>
     (\<exists>b. dr_binding r = Some b \<and> rb_identity b = hd_identity descriptor \<and>
        resolve_transport descriptor (os_transport request) = Ok (rb_transport b) \<and>
        path_eq (rb_workspace b) cwd \<and> rb_request b = context_from_open_request request)"
proof -
  have "context_matches c request \<longleftrightarrow> c = context_from_open_request request" for c
    by (cases c) (auto simp: context_matches_def context_from_open_request_def)
  then show ?thesis
    by (auto simp: verify_for_def rbind_Inr_iff verify_executable_Ok_iff split: option.splits if_splits)
qed

lemma bind_to_open_Ok_iff:
  "bind_to_open r descriptor cwd request m = Ok b \<longleftrightarrow>
     dr_harness r = descriptor_id descriptor \<and> verify_executable r request = Ok () \<and>
     verify_measurements r m = Ok () \<and>
     (\<exists>t. resolve_transport descriptor (os_transport request) = Ok t \<and>
        b = r\<lparr>dr_binding := Some \<lparr>rb_identity = hd_identity descriptor, rb_transport = t,
               rb_workspace = cwd, rb_request = context_from_open_request request\<rparr>\<rparr>)"
  by (auto simp: bind_to_open_def rbind_Inr_iff)

text \<open>C34: a receipt vouches for one opening and no other. Once bound it passes exactly the openings of the
  same identity, over the same transport, in the same workspace, with the same configuration, resume
  and MCP servers, of the executable the probe found, within its freshness window, neither early nor
  late; and it can only be bound when all three fingerprints were recorded and measured again with
  the same result.\<close>

theorem bound_receipt_exact:
  assumes "bind_to_open r d cwd req m = Ok b"
  shows "(verify_for b d' cwd' now req' = Ok () \<longleftrightarrow>
      hd_identity d' = hd_identity d \<and>
      resolve_transport d' (os_transport req') = resolve_transport d (os_transport req) \<and>
      path_eq cwd cwd' \<and>
      os_configuration req' = os_configuration req \<and> os_resume req' = os_resume req \<and>
      os_mcp_servers req' = os_mcp_servers req \<and>
      same_executable (os_executable req') (dc_executable (dr_discovery r)) \<and>
      dr_observed_at r \<le> now \<and> now \<le> dr_observed_at r + dr_max_age r) \<and>
    (\<exists>x e a. dr_executable_fingerprint r = Some x \<and> dr_environment_fingerprint r = Some e \<and>
      dr_authorization_fingerprint r = Some a \<and>
      m = \<lparr>ms_executable_fingerprint = Some x, ms_environment_fingerprint = Some e,
           ms_authorization_fingerprint = Some a\<rparr>)"
proof -
  have ctx: "context_from_open_request req = context_from_open_request req' \<longleftrightarrow>
      os_configuration req' = os_configuration req \<and> os_resume req' = os_resume req \<and>
      os_mcp_servers req' = os_mcp_servers req"
    by (auto simp: context_from_open_request_def)
  have "\<exists>x e a. dr_executable_fingerprint r = Some x \<and> dr_environment_fingerprint r = Some e \<and>
      dr_authorization_fingerprint r = Some a \<and>
      m = \<lparr>ms_executable_fingerprint = Some x, ms_environment_fingerprint = Some e,
           ms_authorization_fingerprint = Some a\<rparr>"
    using assms by (cases m) (auto simp: bind_to_open_Ok_iff verify_measurements_Ok_iff)
  moreover obtain t where t: "resolve_transport d (os_transport req) = Ok t"
    and b: "b = r\<lparr>dr_binding := Some \<lparr>rb_identity = hd_identity d, rb_transport = t, rb_workspace = cwd,
      rb_request = context_from_open_request req\<rparr>\<rparr>"
    and same: "dr_harness r = descriptor_id d"
    using assms unfolding bind_to_open_Ok_iff by blast
  have "is_fresh b now \<longleftrightarrow> is_fresh r now" by (simp add: b is_fresh_iff)
  then have "verify_for b d' cwd' now req' = Ok () \<longleftrightarrow>
      hd_identity d' = hd_identity d \<and>
      resolve_transport d' (os_transport req') = resolve_transport d (os_transport req) \<and>
      path_eq cwd cwd' \<and> context_from_open_request req = context_from_open_request req' \<and>
      same_executable (os_executable req') (dc_executable (dr_discovery r)) \<and> is_fresh r now"
    using same unfolding verify_for_Ok_iff by (auto simp: b t descriptor_id_def)
  ultimately show ?thesis unfolding ctx is_fresh_iff by blast
qed

text \<open>What a harness lets through to an open. A transport it declares, a strict resume and MCP
  servers only where it claims them, and, when the host brings a receipt, only one bound to exactly
  this opening and still fresh; a receipt that was never bound opens nothing.\<close>

theorem open_needs_what_it_asks:
  "(validate_open_session d cwd now req = Ok () \<longleftrightarrow>
      (\<exists>t \<in> set (hd_transports d). resolve_transport d (os_transport req) = Ok t) \<and>
      (case os_resume req of
         None \<Rightarrow> True
       | Some resume \<Rightarrow> ru_mode resume = Fallback \<or> ceiling_has (hd_capabilities d) ResumeCap) \<and>
      (os_mcp_servers req = [] \<or> ceiling_has (hd_capabilities d) McpPassthrough) \<and>
      (case os_discovery req of
         None \<Rightarrow> True
       | Some r \<Rightarrow> verify_for r d cwd now req = Ok ())) \<and>
   verify_for (r\<lparr>dr_binding := None\<rparr>) d cwd now req \<noteq> Ok ()"
proof
  have strict: "ru_mode resume = Strict \<longleftrightarrow> ru_mode resume \<noteq> Fallback" for resume :: resume_request
    by (cases "ru_mode resume") simp_all
  have require: "ceiling_require c k = Ok () \<longleftrightarrow> ceiling_has c k" for c k
    by (simp add: ceiling_require_def ceiling_has_def cap_require_def)
  show "validate_open_session d cwd now req = Ok () \<longleftrightarrow>
      (\<exists>t \<in> set (hd_transports d). resolve_transport d (os_transport req) = Ok t) \<and>
      (case os_resume req of
         None \<Rightarrow> True
       | Some resume \<Rightarrow> ru_mode resume = Fallback \<or> ceiling_has (hd_capabilities d) ResumeCap) \<and>
      (os_mcp_servers req = [] \<or> ceiling_has (hd_capabilities d) McpPassthrough) \<and>
      (case os_discovery req of
         None \<Rightarrow> True
       | Some r \<Rightarrow> verify_for r d cwd now req = Ok ())"
    using resolve_transport_Ok_iff [of d "os_transport req"]
    by (auto simp: validate_open_session_def rbind_Inr_iff require strict split: option.split)
  show "verify_for (r\<lparr>dr_binding := None\<rparr>) d cwd now req \<noteq> Ok ()"
    by (simp add: verify_for_Ok_iff)
qed

subsection \<open>What discovery keeps\<close>

lemma model_ids_kept:
  assumes "\<forall>m \<in> set ms. valid_str (md_id m)"
  shows "map md_id (List.map_filter model_normalized ms) = filter id_ok (map md_id ms)"
  using assms
  by (induction ms) (auto simp: model_normalized_def opaque_ok_iff)

lemma is_usable_normalized:
  "is_usable (discovery_normalized_bounded_by msg ceiling declared p) = is_usable p"
proof -
  have "gate_normalized msg g = UsableGate \<longleftrightarrow> g = UsableGate" for g by (cases g) simp_all
  moreover have "(case auth_state_normalized a of LoggedOut _ \<Rightarrow> True | _ \<Rightarrow> False) =
      (case a of LoggedOut _ \<Rightarrow> True | _ \<Rightarrow> False)" for a by (cases a) simp_all
  ultimately show ?thesis
    by (simp add: is_usable_def discovery_normalized_bounded_by_def normalized_with_permissions_def)
qed

text \<open>What a probe reports is only ever narrowed. The capabilities kept are those the probe and the
  ceiling both claim, the permission pairs those the probe and the declaration both support, whether
  the build is usable is untouched, and the models are the vendor's first 256 with a usable id, each
  id as it was written.\<close>

theorem discovery_only_narrows:
  assumes "\<forall>m \<in> set (dc_models p). valid_str (md_id m)"
    and "harness_discover msg d declared (Ok p) = Ok q"
  shows "discovered_within (dc_capabilities q) (hd_capabilities d) \<and>
    (discovered_has (dc_capabilities q) k \<longleftrightarrow>
      discovered_has (dc_capabilities p) k \<and> ceiling_has (hd_capabilities d) k) \<and>
    (matrix_supports (dc_permission_matrix q) level routing \<longleftrightarrow>
      matrix_supports (dc_permission_matrix p) level routing \<and> matrix_supports declared level routing) \<and>
    is_usable q = is_usable p \<and>
    map md_id (dc_models q) = take 256 (filter id_ok (map md_id (dc_models p)))"
proof -
  have q: "q = discovery_normalized_bounded_by msg (hd_capabilities d) declared p"
    using assms(2) by (simp add: harness_discover_def)
  have caps: "dc_capabilities q = discovered_clamped_to (dc_capabilities p) (hd_capabilities d)"
    and matrix: "dc_permission_matrix q = normalized_bounded_by msg (dc_permission_matrix p) declared"
    and models: "dc_models q = take 256 (List.map_filter model_normalized (dc_models p))"
    by (simp_all add: q discovery_normalized_bounded_by_def normalized_with_permissions_def
        MODEL_CATALOG_MAX_ITEMS_def)
  have usable: "is_usable q = is_usable p" by (simp add: q is_usable_normalized)
  show ?thesis
    unfolding models take_map [symmetric] model_ids_kept [OF assms(1), symmetric]
    by (simp add: caps matrix discovery_tier.narrow_inside normalized_bounded_by_def bounded_by_inner_supports
        usable discovered_has_def ceiling_has_def has_iff discovery_tier.inner_narrow [unfolded comp_apply])
qed

subsection \<open>A receipt, bound and used\<close>

definition demo_descriptor :: harness_descriptor where
  "demo_descriptor =
     \<lparr>hd_identity = \<lparr>hi_id = lit ''codex'', hi_protocol = lit ''app-server'', hi_profile = None\<rparr>,
      hd_vendor = \<lparr>vi_company = [], vi_terms_url = [], vi_privacy_url = [], vi_skills_are_slash_commands = False\<rparr>,
      hd_capabilities = ceiling_all, hd_transports = [StdioKind], hd_vendor_environment_keys = []\<rparr>"

definition demo_open :: open_session where
  "demo_open =
     \<lparr>os_session_id = lit ''s'', os_configuration = patch_new, os_transport = None, os_resume = None,
      os_executable = None, os_discovery = None, os_mcp_servers = []\<rparr>"

definition demo_discovery :: discovery where
  "demo_discovery = not_installed\<lparr>dc_models := [model_new (lit ''m''), model_new []]\<rparr>"

definition demo_receipt :: discovery_receipt where
  "demo_receipt =
     (receipt_new (lit ''codex'') demo_discovery 10)
       \<lparr>dr_executable_fingerprint := Some (lit ''x''), dr_environment_fingerprint := Some (lit ''e''),
        dr_authorization_fingerprint := Some (lit ''a'')\<rparr>"

definition demo_measurements :: receipt_measurements where
  "demo_measurements =
     \<lparr>ms_executable_fingerprint = Some (lit ''x''), ms_environment_fingerprint = Some (lit ''e''),
      ms_authorization_fingerprint = Some (lit ''a'')\<rparr>"

lemmas demo_receipt_defs = demo_descriptor_def demo_open_def demo_discovery_def demo_receipt_def
  demo_measurements_def receipt_new_def not_installed_def DISCOVERY_RECEIPT_MAX_AGE_def from_secs_def

lemma demo_bound:
  "\<exists>b. bind_to_open demo_receipt demo_descriptor (UnicodePath (lit ''/w'')) demo_open demo_measurements = Ok b"
  by (simp add: bind_to_open_Ok_iff demo_receipt_defs descriptor_id_def verify_executable_def
      verify_measurements_Ok_iff resolve_transport_def default_transport_def)

lemma bound_receipt_exact_witness:
  "\<exists>b. verify_for b demo_descriptor (UnicodePath (lit ''/w/'')) 20 demo_open = Ok () \<and>
     verify_for b demo_descriptor (UnicodePath (lit ''/x'')) 20 demo_open \<noteq> Ok () \<and>
     verify_for b demo_descriptor (UnicodePath (lit ''/w'')) 9 demo_open \<noteq> Ok ()"
proof -
  obtain b where b: "bind_to_open demo_receipt demo_descriptor (UnicodePath (lit ''/w'')) demo_open
      demo_measurements = Ok b"
    using demo_bound by blast
  note exact = bound_receipt_exact [OF b, THEN conjunct1]
  have "path_eq (UnicodePath (lit ''/w'')) (UnicodePath (lit ''/w/''))"
    "\<not> path_eq (UnicodePath (lit ''/w'')) (UnicodePath (lit ''/x''))"
    by (simp_all add: lit_def components_def has_root_def single_component_def List.map_filter_def)
  then have "verify_for b demo_descriptor (UnicodePath (lit ''/w/'')) 20 demo_open = Ok () \<and>
     verify_for b demo_descriptor (UnicodePath (lit ''/x'')) 20 demo_open \<noteq> Ok () \<and>
     verify_for b demo_descriptor (UnicodePath (lit ''/w'')) 9 demo_open \<noteq> Ok ()"
    unfolding exact by (simp add: demo_receipt_defs same_executable_def)
  then show ?thesis by blast
qed

lemma open_needs_what_it_asks_witness:
  "validate_open_session demo_descriptor (UnicodePath []) 20 (demo_open\<lparr>os_discovery := Some demo_receipt\<rparr>) \<noteq> Ok ()"
proof -
  have "demo_receipt\<lparr>dr_binding := None\<rparr> = demo_receipt" by (simp add: demo_receipt_defs)
  then have "verify_for demo_receipt demo_descriptor (UnicodePath []) 20
      (demo_open\<lparr>os_discovery := Some demo_receipt\<rparr>) \<noteq> Ok ()"
    using open_needs_what_it_asks [of demo_descriptor "UnicodePath []" 20
        "demo_open\<lparr>os_discovery := Some demo_receipt\<rparr>" demo_receipt] by metis
  then show ?thesis
    using open_needs_what_it_asks [of demo_descriptor "UnicodePath []" 20
        "demo_open\<lparr>os_discovery := Some demo_receipt\<rparr>" demo_receipt] by simp
qed

lemma discovery_only_narrows_witness:
  "map md_id (dc_models (discovery_normalized_bounded_by id ceiling_all [] demo_discovery)) = [lit ''m'']"
proof -
  have v: "\<forall>m \<in> set (dc_models demo_discovery). valid_str (md_id m)"
    by (simp add: demo_receipt_defs model_new_def lit_def scalar_value_def)
  have q: "harness_discover id demo_descriptor [] (Ok demo_discovery) =
      Ok (discovery_normalized_bounded_by id ceiling_all [] demo_discovery)"
    by (simp add: harness_discover_def demo_descriptor_def)
  show ?thesis
    using discovery_only_narrows [OF v q]
    by (simp add: demo_receipt_defs model_new_def lit_def id_ok_def field_ok_def scalar_value_def
        is_strippable_def trim_eq_Nil_iff is_whitespace_def)
qed

end
