(* ===== verification/Session_State.thy ===== *)
theory Session_State imports Discovery begin

text \<open>
  The published picture of an open session (\<open>state.rs\<close>) and the gate its starts and closes go through
  (\<open>lifecycle.rs\<close>). The watch channel of the source is a cell with a version; every operation that
  reads before it writes is split where another thread may run, and the interleavings of any number
  of writers, of the sender's clones and of a subscriber are a step relation.
\<close>

subsection \<open>The snapshot\<close>

type_synonym session_revision = nat

definition revision_INITIAL :: session_revision where
  "revision_INITIAL = 0"

definition revision_next :: "session_revision \<Rightarrow> session_revision" where
  "revision_next r = sat_add r 1"

datatype session_status = ReadyStatus | ClosingStatus | ClosedStatus

fun status_index :: "session_status \<Rightarrow> nat" where
  "status_index ReadyStatus = 0"
| "status_index ClosingStatus = 1"
| "status_index ClosedStatus = 2"

text \<open>The derived \<open>Ord\<close> is the lifecycle ladder.\<close>

instantiation session_status :: linorder
begin

definition less_eq_session_status :: "session_status \<Rightarrow> session_status \<Rightarrow> bool" where
  "less_eq_session_status a b \<longleftrightarrow> status_index a \<le> status_index b"

definition less_session_status :: "session_status \<Rightarrow> session_status \<Rightarrow> bool" where
  "less_session_status a b \<longleftrightarrow> status_index a < status_index b"

instance
proof
  fix a b :: session_status
  show "a \<le> b \<Longrightarrow> b \<le> a \<Longrightarrow> a = b"
    by (cases a; cases b) (simp_all add: less_eq_session_status_def)
qed (auto simp: less_eq_session_status_def less_session_status_def)

end

definition status_is_usable :: "session_status \<Rightarrow> bool" where
  "status_is_usable s \<longleftrightarrow> s = ReadyStatus"

fun session_status_display :: "session_status \<Rightarrow> ustring" where
  "session_status_display ReadyStatus = lit ''ready''"
| "session_status_display ClosingStatus = lit ''closing''"
| "session_status_display ClosedStatus = lit ''closed''"

record transport_selection =
  ts_requested :: "transport_kind option"
  ts_effective :: transport_kind

definition was_substituted :: "transport_selection \<Rightarrow> bool" where
  "was_substituted t \<longleftrightarrow>
     (case ts_requested t of None \<Rightarrow> False | Some requested \<Rightarrow> requested \<noteq> ts_effective t)"

datatype resumability = UnknownResumability | Resumable | UnfinishedTurn | Unverified

definition allows_strict_resume :: "resumability \<Rightarrow> bool" where
  "allows_strict_resume r \<longleftrightarrow> r = Resumable"

definition is_tainted :: "resumability \<Rightarrow> bool" where
  "is_tainted r \<longleftrightarrow> r = UnfinishedTurn \<or> r = Unverified"

fun resumability_as_str :: "resumability \<Rightarrow> ustring" where
  "resumability_as_str UnknownResumability = lit ''unknown''"
| "resumability_as_str Resumable = lit ''resumable''"
| "resumability_as_str UnfinishedTurn = lit ''unfinished-turn''"
| "resumability_as_str Unverified = lit ''unverified''"

record session_ids =
  sid_session_id :: ustring
  sid_native_session_id :: ustring

record slash_command =
  sc_name :: ustring
  sc_description :: "ustring option"

record session_snapshot =
  sn_revision :: session_revision
  sn_ids :: session_ids
  sn_harness :: harness_identity
  sn_transport :: transport_selection
  sn_status :: session_status
  sn_capabilities :: session_capabilities
  sn_configuration :: configuration_state
  sn_catalog :: configuration_catalog
  sn_commands :: "slash_command list"
  sn_resumed :: bool
  sn_fallback_reason :: "ustring option"
  sn_resumability :: resumability
  sn_observed_at :: nat

definition snapshot_opening ::
  "session_ids \<Rightarrow> harness_identity \<Rightarrow> transport_selection \<Rightarrow> nat \<Rightarrow> session_snapshot" where
  "snapshot_opening ids harness transport observed_at =
     \<lparr>sn_revision = revision_INITIAL, sn_ids = ids, sn_harness = harness, sn_transport = transport,
      sn_status = ReadyStatus, sn_capabilities = session_none, sn_configuration = configuration_state_unknown,
      sn_catalog = [], sn_commands = [], sn_resumed = False, sn_fallback_reason = None,
      sn_resumability = UnknownResumability, sn_observed_at = observed_at\<rparr>"

subsection \<open>The watch channel\<close>

record session_cell =
  cell_snapshot :: session_snapshot
  cell_version :: nat
  cell_senders :: nat

definition state_new :: "session_snapshot \<Rightarrow> session_cell" where
  "state_new snapshot = \<lparr>cell_snapshot = snapshot, cell_version = 0, cell_senders = 1\<rparr>"

definition send_modify :: "(session_snapshot \<Rightarrow> session_snapshot) \<Rightarrow> session_cell \<Rightarrow> session_cell" where
  "send_modify f c = c\<lparr>cell_snapshot := f (cell_snapshot c), cell_version := cell_version c + 1\<rparr>"

definition send_if_modified ::
  "(session_snapshot \<Rightarrow> session_snapshot option) \<Rightarrow> session_cell \<Rightarrow> session_cell" where
  "send_if_modified f c =
     (case f (cell_snapshot c) of None \<Rightarrow> c | Some next \<Rightarrow> send_modify (\<lambda>_. next) c)"

text \<open>What every door does to the snapshot it publishes.\<close>

definition publish ::
  "(session_snapshot \<Rightarrow> session_snapshot) \<Rightarrow> nat \<Rightarrow> session_snapshot \<Rightarrow> session_snapshot" where
  "publish change now current =
     (change current)\<lparr>sn_revision := revision_next (sn_revision current), sn_observed_at := now\<rparr>"

definition state_update ::
  "(session_snapshot \<Rightarrow> session_snapshot) \<Rightarrow> nat \<Rightarrow> session_cell \<Rightarrow> session_cell" where
  "state_update change now c = send_modify (publish change now) c"

definition set_resumability :: "resumability \<Rightarrow> nat \<Rightarrow> session_cell \<Rightarrow> session_cell" where
  "set_resumability resumability now c =
     send_if_modified (\<lambda>current.
       if sn_resumability current = resumability then None
       else Some (publish (\<lambda>s. s\<lparr>sn_resumability := resumability\<rparr>) now current)) c"

definition set_status :: "session_status \<Rightarrow> nat \<Rightarrow> session_cell \<Rightarrow> session_cell" where
  "set_status status now c =
     send_if_modified (\<lambda>current.
       if status \<le> sn_status current then None
       else Some (publish (\<lambda>s. s\<lparr>sn_status := status\<rparr>) now current)) c"

text \<open>
  A write on its way: the clock has been read and, where the operation compares first, the snapshot
  it compared with; the write itself is one section of the channel's lock.
\<close>

datatype pending_write =
    PendingUpdate "session_snapshot \<Rightarrow> session_snapshot" nat
  | PendingResumability resumability nat
  | PendingStatus session_status nat

fun commit :: "pending_write \<Rightarrow> session_cell \<Rightarrow> session_cell" where
  "commit (PendingUpdate change now) c = state_update change now c"
| "commit (PendingResumability r now) c = set_resumability r now c"
| "commit (PendingStatus s now) c = set_status s now c"

definition set_native_session_id :: "ustring \<Rightarrow> nat \<Rightarrow> session_snapshot \<Rightarrow> pending_write option" where
  "set_native_session_id native now seen =
     (if sid_native_session_id (sn_ids seen) = native then None
      else Some (PendingUpdate
        (\<lambda>s. s\<lparr>sn_ids := (sn_ids s)\<lparr>sid_native_session_id := native\<rparr>\<rparr>) now))"

definition set_commands :: "slash_command list \<Rightarrow> nat \<Rightarrow> session_snapshot \<Rightarrow> pending_write option" where
  "set_commands commands now seen =
     (if sn_commands seen = commands then None
      else Some (PendingUpdate (\<lambda>s. s\<lparr>sn_commands := commands\<rparr>) now))"

definition set_configuration :: "configuration_state \<Rightarrow> nat \<Rightarrow> session_snapshot \<Rightarrow> pending_write option" where
  "set_configuration configuration now seen =
     (let configuration = configuration_state_normalized configuration
      in if sn_configuration seen = configuration then None
         else Some (PendingUpdate (\<lambda>s. s\<lparr>sn_configuration := configuration\<rparr>) now))"

record session_subscription =
  su_seen :: nat
  su_current :: session_snapshot

definition subscribe :: "session_cell \<Rightarrow> session_subscription" where
  "subscribe c = \<lparr>su_seen = cell_version c, su_current = cell_snapshot c\<rparr>"

datatype 'a polled = Waits | Answers 'a

definition changed ::
  "session_cell \<Rightarrow> session_subscription \<Rightarrow> (session_snapshot option \<times> session_subscription) polled" where
  "changed c sub =
     (if su_seen sub \<noteq> cell_version c then
        Answers (Some (cell_snapshot c), sub\<lparr>su_seen := cell_version c, su_current := cell_snapshot c\<rparr>)
      else if cell_senders c = 0 then Answers (None, sub)
      else Waits)"

subsection \<open>Interleavings\<close>

record published_state =
  pub_cell :: session_cell
  pub_pool :: "pending_write list"
  pub_sub :: session_subscription
  pub_answers :: "session_snapshot option list"

definition state_opened :: "session_snapshot \<Rightarrow> published_state" where
  "state_opened snapshot =
     \<lparr>pub_cell = state_new snapshot, pub_pool = [], pub_sub = subscribe (state_new snapshot), pub_answers = []\<rparr>"

text \<open>
  \<open>through\<close> are the closures the harnesses pass to \<open>update\<close> directly.
\<close>

inductive state_step ::
  "(session_snapshot \<Rightarrow> session_snapshot) set \<Rightarrow> published_state \<Rightarrow> published_state \<Rightarrow> bool"
  for through where
  begin_update:
    "change \<in> through \<Longrightarrow> cell_senders (pub_cell s) > 0 \<Longrightarrow>
     state_step through s (s\<lparr>pub_pool := PendingUpdate change now # pub_pool s\<rparr>)"
| begin_compare:
    "p \<in> {set_native_session_id native now seen, set_commands commands now seen,
          set_configuration configuration now seen} \<Longrightarrow>
     seen = cell_snapshot (pub_cell s) \<Longrightarrow> p = Some w \<Longrightarrow> cell_senders (pub_cell s) > 0 \<Longrightarrow>
     state_step through s (s\<lparr>pub_pool := w # pub_pool s\<rparr>)"
| begin_resumability:
    "cell_senders (pub_cell s) > 0 \<Longrightarrow>
     state_step through s (s\<lparr>pub_pool := PendingResumability r now # pub_pool s\<rparr>)"
| begin_status:
    "cell_senders (pub_cell s) > 0 \<Longrightarrow>
     state_step through s (s\<lparr>pub_pool := PendingStatus status now # pub_pool s\<rparr>)"
| commit_write:
    "pub_pool s = ws @ w # ws' \<Longrightarrow>
     state_step through s (s\<lparr>pub_cell := commit w (pub_cell s), pub_pool := ws @ ws'\<rparr>)"
| clone_sender:
    "cell_senders (pub_cell s) > 0 \<Longrightarrow>
     state_step through s (s\<lparr>pub_cell := (pub_cell s)\<lparr>cell_senders := cell_senders (pub_cell s) + 1\<rparr>\<rparr>)"
| drop_sender:
    "cell_senders (pub_cell s) > 1 \<or> pub_pool s = [] \<Longrightarrow>
     state_step through s (s\<lparr>pub_cell := (pub_cell s)\<lparr>cell_senders := cell_senders (pub_cell s) - 1\<rparr>\<rparr>)"
| subscriber:
    "changed (pub_cell s) (pub_sub s) = Answers (answer, sub) \<Longrightarrow>
     state_step through s (s\<lparr>pub_sub := sub, pub_answers := pub_answers s @ [answer]\<rparr>)"

subsection \<open>What every write does\<close>

lemmas write_defs = state_update_def set_resumability_def set_status_def send_if_modified_def
  send_modify_def publish_def

lemma commit_effect:
  "commit w c = c \<or>
   cell_version (commit w c) = Suc (cell_version c) \<and>
   sn_revision (cell_snapshot (commit w c)) = revision_next (sn_revision (cell_snapshot c)) \<and>
   cell_senders (commit w c) = cell_senders c"
proof -
  have modified: "cell_version (send_modify f c) = Suc (cell_version c) \<and>
      sn_revision (cell_snapshot (send_modify f c)) = sn_revision (f (cell_snapshot c)) \<and>
      cell_senders (send_modify f c) = cell_senders c" for f
    by (simp add: send_modify_def)
  have published: "sn_revision (publish f now x) = revision_next (sn_revision x)" for f now x
    by (simp add: publish_def)
  show ?thesis
    by (cases w) (auto simp: state_update_def set_resumability_def set_status_def send_if_modified_def
        modified published)
qed

lemma changed_answers:
  "changed c sub = Answers (Some x, sub') \<longleftrightarrow>
     su_seen sub \<noteq> cell_version c \<and> cell_snapshot c = x \<and>
     sub\<lparr>su_seen := cell_version c, su_current := cell_snapshot c\<rparr> = sub'"
  "changed c sub = Answers (None, sub') \<longleftrightarrow>
     su_seen sub = cell_version c \<and> cell_senders c = 0 \<and> sub = sub'"
  by (simp_all add: changed_def)

abbreviation delivered :: "published_state \<Rightarrow> session_snapshot list" where
  "delivered s \<equiv> List.map_filter id (pub_answers s)"

text \<open>The revision counts the writes, up to its last value.\<close>

definition newer :: "session_revision \<Rightarrow> session_revision \<Rightarrow> bool" where
  "newer a b \<longleftrightarrow> a < b \<or> b = usize_MAX"

definition published_inv :: "published_state \<Rightarrow> bool" where
  "published_inv s \<longleftrightarrow>
     (let c = pub_cell s; sub = pub_sub s in
      sn_revision (cell_snapshot c) = min (cell_version c) usize_MAX \<and>
      su_seen sub \<le> cell_version c \<and>
      (su_seen sub = cell_version c \<longrightarrow> su_current sub = cell_snapshot c) \<and>
      (\<forall>x \<in> set (delivered s). sn_revision x \<le> min (su_seen sub) usize_MAX) \<and>
      sorted_wrt newer (map sn_revision (delivered s)) \<and>
      (cell_senders c = 0 \<longrightarrow> pub_pool s = []) \<and>
      (None \<in> set (pub_answers s) \<longrightarrow> cell_senders c = 0 \<and> su_seen sub = cell_version c))"

lemma revision_next_min: "revision_next (min n usize_MAX) = min (Suc n) usize_MAX"
  by (auto simp: revision_next_def sat_add_def)

lemma published_inv_commit:
  assumes "published_inv s" "pub_pool s = ws @ w # ws'"
  shows "published_inv (s\<lparr>pub_cell := commit w (pub_cell s), pub_pool := ws @ ws'\<rparr>)"
proof -
  have "cell_senders (pub_cell s) \<noteq> 0" "None \<notin> set (pub_answers s)"
    using assms by (auto simp: published_inv_def Let_def)
  with assms(1) commit_effect [of w "pub_cell s"] show ?thesis
    by (auto simp: published_inv_def Let_def revision_next_min)
qed

lemma published_inv_answer:
  assumes "published_inv s" "changed (pub_cell s) (pub_sub s) = Answers (answer, sub)"
  shows "published_inv (s\<lparr>pub_sub := sub, pub_answers := pub_answers s @ [answer]\<rparr>)"
proof (cases answer)
  case None
  with assms show ?thesis
    by (auto simp: changed_answers published_inv_def Let_def List.map_filter_def)
next
  case (Some x)
  note facts = assms(2) [unfolded Some changed_answers(1)]
  have inv: "sn_revision (cell_snapshot (pub_cell s)) = min (cell_version (pub_cell s)) usize_MAX"
    "su_seen (pub_sub s) < cell_version (pub_cell s)" "None \<notin> set (pub_answers s)"
    "\<forall>x \<in> set (delivered s). sn_revision x \<le> min (su_seen (pub_sub s)) usize_MAX"
    "sorted_wrt newer (map sn_revision (delivered s))"
    "cell_senders (pub_cell s) = 0 \<longrightarrow> pub_pool s = []"
    using assms(1) facts by (auto simp: published_inv_def Let_def)
  have "delivered (s\<lparr>pub_sub := sub, pub_answers := pub_answers s @ [Some x]\<rparr>) = delivered s @ [x]"
    by (simp add: List.map_filter_def)
  moreover have "newer (sn_revision y) (sn_revision x)" if "y \<in> set (delivered s)" for y
    using inv(1,2,4) that facts by (fastforce simp: newer_def)
  ultimately show ?thesis
    using inv facts by (fastforce simp: published_inv_def Let_def Some sorted_wrt_append)
qed

lemma published_inv_step: "state_step through s t \<Longrightarrow> published_inv s \<Longrightarrow> published_inv t"
proof (induction rule: state_step.induct)
  case (commit_write s ws w ws')
  then show ?case using published_inv_commit by blast
next
  case (subscriber s answer sub)
  then show ?case using published_inv_answer by blast
qed (auto simp: published_inv_def Let_def)

lemma published_inv_reachable:
  assumes "(state_step through)\<^sup>*\<^sup>* (state_opened snapshot) s" "sn_revision snapshot = revision_INITIAL"
  shows "published_inv s"
  using assms(1)
proof (induction rule: rtranclp_induct)
  case base
  show ?case using assms(2)
    by (simp add: published_inv_def state_opened_def state_new_def subscribe_def revision_INITIAL_def
        List.map_filter_def)
qed (rule published_inv_step)

text \<open>C35: what a host may rely on in the pictures it is woken with, whatever the writers, the clones of
  the state and the subscriber do. The revision is the number of pictures published, so a changed
  picture never carries a revision seen before (short of the last value of the counter); the answers
  of one subscription carry strictly growing revisions; a subscription with nothing unseen holds the
  present picture, so coalescing never hides the last one; and the state is reported gone only when
  every clone was dropped, no write was under way and the last picture had been delivered.\<close>

theorem published_pictures_sound:
  assumes "(state_step through)\<^sup>*\<^sup>* (state_opened snapshot) s" "sn_revision snapshot = revision_INITIAL"
  shows "sn_revision (cell_snapshot (pub_cell s)) = min (cell_version (pub_cell s)) usize_MAX \<and>
    sorted_wrt newer (map sn_revision (delivered s)) \<and>
    (su_seen (pub_sub s) = cell_version (pub_cell s) \<longrightarrow> su_current (pub_sub s) = cell_snapshot (pub_cell s)) \<and>
    (None \<in> set (pub_answers s) \<longrightarrow>
      cell_senders (pub_cell s) = 0 \<and> pub_pool s = [] \<and> su_current (pub_sub s) = cell_snapshot (pub_cell s))"
  using published_inv_reachable [OF assms] by (auto simp: published_inv_def Let_def)

subsection \<open>The lifecycle ladder\<close>

definition climbs :: "(session_snapshot \<Rightarrow> session_snapshot) \<Rightarrow> bool" where
  "climbs change \<longleftrightarrow> (\<forall>x. sn_status x \<le> sn_status (change x))"

fun write_climbs :: "pending_write \<Rightarrow> bool" where
  "write_climbs (PendingUpdate change _) \<longleftrightarrow> climbs change"
| "write_climbs _ \<longleftrightarrow> True"

lemma commit_climbs:
  "write_climbs w \<Longrightarrow> sn_status (cell_snapshot c) \<le> sn_status (cell_snapshot (commit w c))"
  by (cases w) (auto simp: climbs_def state_update_def set_resumability_def set_status_def
      send_if_modified_def send_modify_def publish_def)

lemma compared_writes_climb:
  "set_native_session_id native now seen = Some w \<Longrightarrow> write_climbs w"
  "set_commands commands now seen = Some w \<Longrightarrow> write_climbs w"
  "set_configuration configuration now seen = Some w \<Longrightarrow> write_climbs w"
  by (auto simp: set_native_session_id_def set_commands_def set_configuration_def climbs_def Let_def
      split: if_splits)

abbreviation shown_status :: "published_state \<Rightarrow> session_status" where
  "shown_status s \<equiv> sn_status (cell_snapshot (pub_cell s))"

definition ladder_inv :: "published_state \<Rightarrow> bool" where
  "ladder_inv s \<longleftrightarrow>
     list_all write_climbs (pub_pool s) \<and>
     (\<forall>x \<in> set (delivered s). sn_status x \<le> shown_status s) \<and> sorted (map sn_status (delivered s))"

lemma ladder_step:
  assumes "state_step through s t" "\<forall>change \<in> through. climbs change" "ladder_inv s"
  shows "ladder_inv t \<and> shown_status s \<le> shown_status t"
  using assms
proof (induction rule: state_step.induct)
  case (begin_compare p native now seen commands configuration s w)
  then have "write_climbs w" using compared_writes_climb by auto
  with begin_compare show ?case by (simp add: ladder_inv_def)
next
  case (commit_write s ws w ws')
  then have "shown_status s \<le> sn_status (cell_snapshot (commit w (pub_cell s)))"
    by (intro commit_climbs) (simp add: ladder_inv_def)
  with commit_write show ?case by (fastforce simp: ladder_inv_def)
next
  case (subscriber s answer sub)
  then show ?case
    by (cases answer) (auto simp: ladder_inv_def changed_answers List.map_filter_def sorted_append)
qed (auto simp: ladder_inv_def)

lemma ladder_reachable:
  "(state_step through)\<^sup>*\<^sup>* s t \<Longrightarrow> \<forall>change \<in> through. climbs change \<Longrightarrow> ladder_inv s \<Longrightarrow>
   ladder_inv t \<and> shown_status s \<le> shown_status t"
proof (induction rule: rtranclp_induct)
  case (step t u)
  then show ?case using ladder_step [OF step.hyps(2)] order_trans by blast
qed simp

text \<open>C36: a session never reopens. As long as no harness sets the status through \<open>update\<close>, the published
  status only climbs from ready over closing to closed, whichever of several racing closes and
  watchers writes last, and a subscriber is never shown it running backwards; a closed session stays
  closed.\<close>

theorem status_never_walks_back:
  assumes "(state_step through)\<^sup>*\<^sup>* (state_opened snapshot) s" "(state_step through)\<^sup>*\<^sup>* s t"
    and "\<forall>change \<in> through. climbs change"
  shows "shown_status s \<le> shown_status t \<and> sorted (map sn_status (delivered t)) \<and>
    (shown_status s = ClosedStatus \<longrightarrow> shown_status t = ClosedStatus)"
proof -
  have "ladder_inv (state_opened snapshot)"
    by (simp add: ladder_inv_def state_opened_def List.map_filter_def)
  then have "ladder_inv s" using ladder_reachable [OF assms(1,3)] by blast
  then have t: "ladder_inv t" "shown_status s \<le> shown_status t"
    using ladder_reachable [OF assms(2,3)] by blast+
  moreover have "x = ClosedStatus" if "ClosedStatus \<le> x" for x
    using that by (cases x) (simp_all add: less_eq_session_status_def)
  ultimately show ?thesis by (auto simp: ladder_inv_def)
qed

subsection \<open>A close that lost its race\<close>

definition demo_snapshot :: session_snapshot where
  "demo_snapshot =
     snapshot_opening \<lparr>sid_session_id = lit ''s'', sid_native_session_id = []\<rparr> identity_codex
       \<lparr>ts_requested = None, ts_effective = StdioKind\<rparr> 1"

text \<open>
  A close stamps its \<open>Closing\<close>, the watcher publishes \<open>Closed\<close>, the subscriber is woken, and only then
  does the close write.
\<close>

definition demo_closed :: published_state where
  "demo_closed =
     (let s = state_opened demo_snapshot;
          c = set_status ClosedStatus 3 (pub_cell s);
          sub = \<lparr>su_seen = cell_version c, su_current = cell_snapshot c\<rparr>
      in s\<lparr>pub_cell := c, pub_pool := [PendingStatus ClosingStatus 2], pub_sub := sub,
           pub_answers := [Some (cell_snapshot c)]\<rparr>)"

definition demo_late :: published_state where
  "demo_late = demo_closed\<lparr>pub_cell := commit (PendingStatus ClosingStatus 2) (pub_cell demo_closed), pub_pool := []\<rparr>"

lemmas demo_state_defs = state_opened_def state_new_def subscribe_def set_status_def send_if_modified_def
  send_modify_def publish_def demo_snapshot_def snapshot_opening_def less_eq_session_status_def

lemma demo_closed_reachable: "(state_step {})\<^sup>*\<^sup>* (state_opened demo_snapshot) demo_closed"
proof -
  let ?s = "state_opened demo_snapshot"
  let ?closing = "PendingStatus ClosingStatus 2"
  let ?closed = "PendingStatus ClosedStatus 3"
  have "state_step {} ?s (?s\<lparr>pub_pool := [?closing]\<rparr>)"
    using begin_status [of ?s "{}" ClosingStatus 2] by (simp add: state_opened_def state_new_def)
  moreover have "state_step {} (?s\<lparr>pub_pool := [?closing]\<rparr>) (?s\<lparr>pub_pool := [?closed, ?closing]\<rparr>)"
    using begin_status [of "?s\<lparr>pub_pool := [?closing]\<rparr>" "{}" ClosedStatus 3]
    by (simp add: state_opened_def state_new_def)
  moreover have "state_step {} (?s\<lparr>pub_pool := [?closed, ?closing]\<rparr>)
      (?s\<lparr>pub_cell := set_status ClosedStatus 3 (pub_cell ?s), pub_pool := [?closing]\<rparr>)"
    using commit_write [of "?s\<lparr>pub_pool := [?closed, ?closing]\<rparr>" "[]" ?closed "[?closing]" "{}"] by simp
  moreover have "state_step {} (?s\<lparr>pub_cell := set_status ClosedStatus 3 (pub_cell ?s), pub_pool := [?closing]\<rparr>)
      demo_closed"
  proof -
    let ?t = "?s\<lparr>pub_cell := set_status ClosedStatus 3 (pub_cell ?s), pub_pool := [?closing]\<rparr>"
    have "changed (pub_cell ?t) (pub_sub ?t) = Answers (Some (cell_snapshot (pub_cell ?t)),
        (pub_sub ?t)\<lparr>su_seen := cell_version (pub_cell ?t), su_current := cell_snapshot (pub_cell ?t)\<rparr>)"
      by (simp add: changed_def demo_state_defs)
    from subscriber [OF this, of "{}"] show ?thesis by (simp add: demo_closed_def Let_def demo_state_defs)
  qed
  ultimately show ?thesis by (meson rtranclp.rtrancl_refl rtranclp.rtrancl_into_rtrancl)
qed

lemma demo_late_step: "(state_step {})\<^sup>*\<^sup>* demo_closed demo_late"
  using commit_write [of demo_closed "[]" "PendingStatus ClosingStatus 2" "[]" "{}"]
  by (intro r_into_rtranclp) (simp add: demo_late_def demo_closed_def Let_def)

lemma published_pictures_sound_witness:
  "sn_revision (cell_snapshot (pub_cell demo_closed)) = 1 \<and>
   su_current (pub_sub demo_closed) = cell_snapshot (pub_cell demo_closed)"
proof -
  have "sn_revision demo_snapshot = revision_INITIAL" by (simp add: demo_state_defs)
  from published_pictures_sound [OF demo_closed_reachable this] show ?thesis
    by (simp add: demo_closed_def Let_def demo_state_defs usize_MAX_def)
qed

lemma status_never_walks_back_witness: "shown_status demo_late = ClosedStatus"
  using status_never_walks_back [OF demo_closed_reachable demo_late_step]
  by (simp add: demo_closed_def Let_def demo_state_defs)

end
