(* ===== verification/Lifecycle.thy ===== *)
theory Lifecycle imports Prelude begin

text \<open>
  The gate a session's starts and closes go through (\<open>lifecycle.rs\<close>): a mutex over one flag. Whoever
  takes the mutex holds a guard until it drops it, and may look at the flag and set it meanwhile; a
  harness claims its vendor resource only under a guard that showed it an open session, whether it
  got that guard from \<open>begin_start\<close> or took the mutex and looked. The callers interleave in a step
  relation that records what each of them was told.
\<close>

text \<open>\<open>gt_guards\<close>: the callers whose guards are alive. That the mutex keeps this to one at a time is
  proved below and not built into the type.\<close>

record session_gate =
  gt_closed :: bool
  gt_guards :: "nat list"

definition lifecycle_default :: session_gate where
  "lifecycle_default = \<lparr>gt_closed = False, gt_guards = []\<rparr>"

text \<open>\<open>None\<close>: the mutex is taken and the caller waits.\<close>

definition lifecycle_lock :: "nat \<Rightarrow> session_gate \<Rightarrow> session_gate option" where
  "lifecycle_lock t gate =
     (if gt_guards gate = [] then Some (gate\<lparr>gt_guards := t # gt_guards gate\<rparr>) else None)"

definition guard_drop :: "nat \<Rightarrow> session_gate \<Rightarrow> session_gate" where
  "guard_drop t gate = gate\<lparr>gt_guards := remove1 t (gt_guards gate)\<rparr>"

definition guard_is_closed :: "session_gate \<Rightarrow> bool" where
  "guard_is_closed gate \<longleftrightarrow> gt_closed gate"

text \<open>The guard is a temporary: taken, read and dropped.\<close>

definition lifecycle_is_closed :: "nat \<Rightarrow> session_gate \<Rightarrow> (session_gate \<times> bool) option" where
  "lifecycle_is_closed t gate =
     map_option (\<lambda>locked. (guard_drop t locked, guard_is_closed locked)) (lifecycle_lock t gate)"

text \<open>The guard that is not handed out is dropped on the way out.\<close>

definition begin_start :: "nat \<Rightarrow> session_gate \<Rightarrow> (session_gate \<times> bool) option" where
  "begin_start t gate =
     map_option (\<lambda>locked. if \<not> guard_is_closed locked then (locked, True) else (guard_drop t locked, False))
       (lifecycle_lock t gate)"

definition guard_close :: "session_gate \<Rightarrow> session_gate \<times> bool" where
  "guard_close gate = (gate\<lparr>gt_closed := True\<rparr>, \<not> gt_closed gate)"

text \<open>What callers were told, in order: a claim of the vendor resource, the answer of a close, a start
  refused, and a look that found the session closed.\<close>

datatype gate_event = Claimed nat | RefusedStart nat | WonClose nat | LostClose nat | SawClosed nat

text \<open>The gate, what each caller knows of the flag under the guard it holds (\<open>None\<close>: nothing yet), and
  the record.\<close>

record gate_run =
  gr_gate :: session_gate
  gr_seen :: "nat \<Rightarrow> bool option"
  gr_log :: "gate_event list"

definition gate_start :: gate_run where
  "gate_start = \<lparr>gr_gate = lifecycle_default, gr_seen = (\<lambda>_. None), gr_log = []\<rparr>"

text \<open>A guard of any origin may claim, look, close and be dropped; \<open>claim\<close> asks that its holder saw the
  session open under it.\<close>

inductive gate_step :: "gate_run \<Rightarrow> gate_run \<Rightarrow> bool" where
  lock: "lifecycle_lock t (gr_gate r) = Some g \<Longrightarrow>
    gate_step r (r\<lparr>gr_gate := g, gr_seen := (gr_seen r)(t := None)\<rparr>)"
| look: "t \<in> set (gt_guards (gr_gate r)) \<Longrightarrow> guard_is_closed (gr_gate r) = c \<Longrightarrow>
    gate_step r (r\<lparr>gr_seen := (gr_seen r)(t \<mapsto> c), gr_log := gr_log r @ (if c then [SawClosed t] else [])\<rparr>)"
| peek: "lifecycle_is_closed t (gr_gate r) = Some (g, c) \<Longrightarrow>
    gate_step r (r\<lparr>gr_gate := g, gr_log := gr_log r @ (if c then [SawClosed t] else [])\<rparr>)"
| start: "begin_start t (gr_gate r) = Some (g, True) \<Longrightarrow>
    gate_step r (r\<lparr>gr_gate := g, gr_seen := (gr_seen r)(t \<mapsto> False)\<rparr>)"
| refuse: "begin_start t (gr_gate r) = Some (g, False) \<Longrightarrow>
    gate_step r (r\<lparr>gr_gate := g, gr_log := gr_log r @ [RefusedStart t]\<rparr>)"
| claim: "t \<in> set (gt_guards (gr_gate r)) \<Longrightarrow> gr_seen r t = Some False \<Longrightarrow>
    gate_step r (r\<lparr>gr_log := gr_log r @ [Claimed t]\<rparr>)"
| close: "t \<in> set (gt_guards (gr_gate r)) \<Longrightarrow> guard_close (gr_gate r) = (g, won) \<Longrightarrow>
    gate_step r (r\<lparr>gr_gate := g, gr_seen := (gr_seen r)(t \<mapsto> True),
      gr_log := gr_log r @ [if won then WonClose t else LostClose t]\<rparr>)"
| drop: "t \<in> set (gt_guards (gr_gate r)) \<Longrightarrow>
    gate_step r (r\<lparr>gr_gate := guard_drop t (gr_gate r), gr_seen := (gr_seen r)(t := None)\<rparr>)"

fun is_claim :: "gate_event \<Rightarrow> bool" where
  "is_claim (Claimed _) = True"
| "is_claim _ = False"

fun came_late :: "gate_event \<Rightarrow> bool" where
  "came_late (RefusedStart _) = True"
| "came_late (LostClose _) = True"
| "came_late (SawClosed _) = True"
| "came_late _ = False"

text \<open>Claims, then the one winning close, then only refusals.\<close>

definition log_ok :: "bool \<Rightarrow> gate_event list \<Rightarrow> bool" where
  "log_ok closed log \<longleftrightarrow> (\<exists>claims late. list_all is_claim claims \<and> list_all came_late late \<and>
     (if closed then \<exists>t. log = claims @ WonClose t # late else log = claims))"

lemma log_ok_open: "log_ok False log \<longleftrightarrow> list_all is_claim log"
  by (auto simp: log_ok_def intro: exI [of _ "[]"])

lemma log_ok_late: "log_ok True log \<Longrightarrow> list_all came_late es \<Longrightarrow> log_ok True (log @ es)"
  unfolding log_ok_def by simp (metis append.assoc append_Cons list_all_append)

lemma log_ok_won: "log_ok False log \<Longrightarrow> log_ok True (log @ [WonClose t])"
  unfolding log_ok_open unfolding log_ok_def by (intro exI [of _ log] exI [of _ "[]"]) simp

text \<open>The invariant: one guard at most, and while it is alive its holder's knowledge is not stale. The
  second half stands on the first.\<close>

definition gate_inv :: "gate_run \<Rightarrow> bool" where
  "gate_inv r \<longleftrightarrow> log_ok (gt_closed (gr_gate r)) (gr_log r) \<and> length (gt_guards (gr_gate r)) \<le> 1 \<and>
     (\<forall>t\<in>set (gt_guards (gr_gate r)). gr_seen r t = Some False \<longrightarrow> \<not> gt_closed (gr_gate r))"

lemma short_list_mem: "t \<in> set ts \<Longrightarrow> length ts \<le> 1 \<Longrightarrow> ts = [t]"
  by (cases ts) auto

lemma gate_inv_step: "gate_step r r' \<Longrightarrow> gate_inv r \<Longrightarrow> gate_inv r'"
proof (induction rule: gate_step.induct)
  case (lock t r g)
  then show ?case by (auto simp: gate_inv_def lifecycle_lock_def split: if_splits)
next
  case (look t r c)
  then show ?case by (auto simp: gate_inv_def guard_is_closed_def intro: log_ok_late)
next
  case (peek t r g c)
  then show ?case
    by (auto simp: gate_inv_def lifecycle_is_closed_def lifecycle_lock_def guard_drop_def guard_is_closed_def
        intro!: log_ok_late split: if_splits)
next
  case (start t r g)
  then show ?case
    by (auto simp: gate_inv_def begin_start_def lifecycle_lock_def guard_is_closed_def split: if_splits)
next
  case (refuse t r g)
  then show ?case
    by (auto simp: gate_inv_def begin_start_def lifecycle_lock_def guard_drop_def guard_is_closed_def
        intro!: log_ok_late split: if_splits)
next
  case (claim t r)
  then have "\<not> gt_closed (gr_gate r)" by (auto simp: gate_inv_def)
  with claim show ?case by (auto simp: gate_inv_def log_ok_open)
next
  case (close t r g won)
  then have one: "gt_guards (gr_gate r) = [t]" by (auto simp: gate_inv_def intro: short_list_mem)
  show ?case
  proof (cases won)
    case True
    with close one show ?thesis by (auto simp: gate_inv_def guard_close_def intro!: log_ok_won)
  next
    case False
    with close one show ?thesis by (auto simp: gate_inv_def guard_close_def intro!: log_ok_late)
  qed
next
  case (drop t r)
  then have "gt_guards (gr_gate r) = [t]" by (auto simp: gate_inv_def intro: short_list_mem)
  then show ?case using drop by (auto simp: gate_inv_def guard_drop_def)
qed

text \<open>C37: no work is claimed on a session that is closing. Whatever the callers of a session's gate do
  with the guards they hold, however they came by them and however they interleave, at most one guard
  is alive at a time and at most one caller is told that it closed the session; every vendor resource
  was claimed before that, also by a holder that had looked at the flag earlier under the same guard,
  and every start, close or look after it is told that it came late.\<close>

theorem close_wins_once:
  assumes "gate_step\<^sup>*\<^sup>* gate_start r"
  shows "length (gt_guards (gr_gate r)) \<le> 1 \<and>
    (\<exists>claims late. list_all is_claim claims \<and> list_all came_late late \<and>
      (if gt_closed (gr_gate r) then \<exists>t. gr_log r = claims @ WonClose t # late else gr_log r = claims))"
proof -
  have "gate_inv r"
    using assms
  proof (induction rule: rtranclp_induct)
    case base
    show ?case by (simp add: gate_inv_def log_ok_open gate_start_def lifecycle_default_def)
  qed (rule gate_inv_step)
  then show ?thesis by (auto simp: gate_inv_def log_ok_def)
qed

text \<open>One caller takes the mutex, looks and claims; another closes and wins, closes again and loses;
  the first one's next start is refused.\<close>

definition demo_gate :: gate_run where
  "demo_gate = \<lparr>gr_gate = \<lparr>gt_closed = True, gt_guards = []\<rparr>, gr_seen = (\<lambda>_. None),
     gr_log = [Claimed 1, WonClose 2, LostClose 2, RefusedStart 1]\<rparr>"

lemma demo_gate_reachable: "gate_step\<^sup>*\<^sup>* gate_start demo_gate"
proof -
  let ?r = "\<lambda>c gs seen log. \<lparr>gr_gate = \<lparr>gt_closed = c, gt_guards = gs\<rparr>, gr_seen = seen, gr_log = log\<rparr>"
  let ?no = "\<lambda>_::nat. None :: bool option"
  note defs = begin_start_def lifecycle_lock_def guard_is_closed_def guard_drop_def guard_close_def
    lifecycle_default_def gate_start_def demo_gate_def fun_upd_idem
  have "gate_step gate_start (?r False [1] ?no [])" using lock [of 1 gate_start] by (simp add: defs)
  moreover have "gate_step (?r False [1] ?no []) (?r False [1] (?no(1 \<mapsto> False)) [])"
    using look [of 1 "?r False [1] ?no []" False] by (simp add: defs)
  moreover have "gate_step (?r False [1] (?no(1 \<mapsto> False)) []) (?r False [1] (?no(1 \<mapsto> False)) [Claimed 1])"
    using claim [of 1 "?r False [1] (?no(1 \<mapsto> False)) []"] by simp
  moreover have "gate_step (?r False [1] (?no(1 \<mapsto> False)) [Claimed 1]) (?r False [] ?no [Claimed 1])"
    using drop [of 1 "?r False [1] (?no(1 \<mapsto> False)) [Claimed 1]"] by (simp add: defs)
  moreover have "gate_step (?r False [] ?no [Claimed 1]) (?r False [2] ?no [Claimed 1])"
    using lock [of 2 "?r False [] ?no [Claimed 1]"] by (simp add: defs)
  moreover have "gate_step (?r False [2] ?no [Claimed 1]) (?r True [2] (?no(2 \<mapsto> True)) [Claimed 1, WonClose 2])"
    using close [of 2 "?r False [2] ?no [Claimed 1]"] by (simp add: defs)
  moreover have "gate_step (?r True [2] (?no(2 \<mapsto> True)) [Claimed 1, WonClose 2])
      (?r True [2] (?no(2 \<mapsto> True)) [Claimed 1, WonClose 2, LostClose 2])"
    using close [of 2 "?r True [2] (?no(2 \<mapsto> True)) [Claimed 1, WonClose 2]" _ False] by (simp add: defs)
  moreover have "gate_step (?r True [2] (?no(2 \<mapsto> True)) [Claimed 1, WonClose 2, LostClose 2])
      (?r True [] ?no [Claimed 1, WonClose 2, LostClose 2])"
    using drop [of 2 "?r True [2] (?no(2 \<mapsto> True)) [Claimed 1, WonClose 2, LostClose 2]"] by (simp add: defs)
  moreover have "gate_step (?r True [] ?no [Claimed 1, WonClose 2, LostClose 2]) demo_gate"
    using refuse [of 1 "?r True [] ?no [Claimed 1, WonClose 2, LostClose 2]"] by (simp add: defs)
  ultimately show ?thesis by (meson rtranclp.rtrancl_refl rtranclp.rtrancl_into_rtrancl)
qed

lemma close_wins_once_witness:
  "\<exists>claims late t. list_all is_claim claims \<and>
     [Claimed 1, WonClose 2, LostClose 2, RefusedStart 1] = claims @ WonClose t # late"
  using close_wins_once [OF demo_gate_reachable] by (auto simp: demo_gate_def)

end
