(* ===== verification/Redact_Names.thy ===== *)
theory Redact_Names imports Text_Norm begin

text \<open>
  Where a credential's name starts in a text: the name matching of \<open>redact/rules.rs\<close> with the word
  lists of \<open>redact/structured.rs\<close> and the byte helpers of \<open>redact.rs\<close>. Every function reads bytes
  through an index, and an index past the end reads nothing. How a value is read after its name, and
  the redaction itself, are not modelled here.
\<close>

subsection \<open>Bytes\<close>

definition byte_at :: "byte list \<Rightarrow> usize \<Rightarrow> byte option" where
  "byte_at bytes at = (if at < length bytes then Some (bytes ! at) else None)"

definition ascii :: "string \<Rightarrow> byte list" where
  "ascii s = map of_char s"

definition to_ascii_lowercase :: "byte \<Rightarrow> byte" where
  "to_ascii_lowercase b = (if 0x41 \<le> b \<and> b \<le> 0x5a then b + 0x20 else b)"

definition is_ascii_alphanumeric :: "byte \<Rightarrow> bool" where
  "is_ascii_alphanumeric b \<longleftrightarrow>
     (0x30 \<le> b \<and> b \<le> 0x39) \<or> (0x41 \<le> b \<and> b \<le> 0x5a) \<or> (0x61 \<le> b \<and> b \<le> 0x7a)"

definition eq_ignore_ascii_case :: "byte list \<Rightarrow> byte list \<Rightarrow> bool" where
  "eq_ignore_ascii_case a b \<longleftrightarrow> map to_ascii_lowercase a = map to_ascii_lowercase b"

definition match_word :: "byte list \<Rightarrow> usize \<Rightarrow> byte list \<Rightarrow> usize option" where
  "match_word bytes at word =
     (if at + length word \<le> length bytes \<and>
         eq_ignore_ascii_case (take (length word) (drop at bytes)) word
      then Some (at + length word) else None)"

definition take_while_from :: "byte list \<Rightarrow> usize \<Rightarrow> (byte \<Rightarrow> bool) \<Rightarrow> usize" where
  "take_while_from bytes at kept = at + length (takeWhile kept (drop at bytes))"

definition BOUNDARY_BYTE :: byte where
  "BOUNDARY_BYTE = 0x01"

definition is_name_byte :: "byte \<Rightarrow> bool" where
  "is_name_byte b \<longleftrightarrow> is_ascii_alphanumeric b \<or> b = 0x5f \<or> b = 0x2d \<or> b = BOUNDARY_BYTE"

definition is_blank_byte :: "byte \<Rightarrow> bool" where
  "is_blank_byte b \<longleftrightarrow> b = 0x20 \<or> b = 0x09"

subsection \<open>Keywords\<close>

definition AUTHORIZATION :: "byte list" where
  "AUTHORIZATION = ascii ''authorization''"

definition CREDENTIAL_WORDS :: "byte list list" where
  "CREDENTIAL_WORDS = map ascii
     [''secret'', ''token'', ''password'', ''passwd'', ''pwd'', ''passphrase'', ''credential'',
      ''apikey'', ''privatekey'', ''authorization'', ''cookie'']"

definition CREDENTIAL_NAMES :: "byte list list" where
  "CREDENTIAL_NAMES = map ascii [''pass'', ''auth'', ''sig'']"

datatype keyword_kind = TokenKind | PhraseKind | LineKind

record keyword =
  kw_end :: usize
  kw_kind :: keyword_kind
  kw_whole :: bool
  kw_token :: bool
  kw_key_shape :: bool

definition find_map :: "('a \<Rightarrow> 'b option) \<Rightarrow> 'a list \<Rightarrow> 'b option" where
  "find_map f xs = (case List.map_filter f xs of [] \<Rightarrow> None | y # _ \<Rightarrow> Some y)"

definition match_key_shape :: "byte list \<Rightarrow> usize \<Rightarrow> usize option" where
  "match_key_shape bytes at =
     Option.bind (find_map (match_word bytes at) (map ascii [''api'', ''private'', ''secret'', ''access'']))
       (\<lambda>after_word.
         let after_separator =
           (case byte_at bytes after_word of
              None \<Rightarrow> after_word
            | Some b \<Rightarrow>
                if b = 0x5f \<or> b = 0x2d \<or> b = 0x2e then after_word + 1
                else if b = 0x20 \<or> b = 0x09 then take_while_from bytes after_word is_blank_byte
                else after_word)
         in match_word bytes after_separator (ascii ''key''))"

definition KEY_HEADER_PREFIXES :: "byte list list" where
  "KEY_HEADER_PREFIXES = map ascii [''x-functions-'', ''subscription-'']"

definition match_header_key :: "byte list \<Rightarrow> usize \<Rightarrow> usize option" where
  "match_header_key bytes at =
     Option.bind (match_word bytes at (ascii ''key'')) (\<lambda>end'.
       if (case byte_at bytes end' of None \<Rightarrow> False | Some b \<Rightarrow> is_name_byte b) then None
       else
         (let before = take at bytes
          in if list_ex (\<lambda>prefix. length prefix \<le> length before \<and>
                 eq_ignore_ascii_case (drop (length before - length prefix) before) prefix)
               KEY_HEADER_PREFIXES
             then Some end' else None))"

definition key_shaped :: "usize \<Rightarrow> keyword" where
  "key_shaped e =
     \<lparr>kw_end = e, kw_kind = TokenKind, kw_whole = False, kw_token = False, kw_key_shape = True\<rparr>"

definition word_kind :: "byte list \<Rightarrow> keyword_kind" where
  "word_kind word =
     (if word \<in> set (map ascii [''password'', ''passwd'', ''pwd'', ''passphrase'']) then PhraseKind
      else if word = ascii ''cookie'' then LineKind else TokenKind)"

text \<open>The loop over the words of the list.\<close>

fun match_words :: "byte list \<Rightarrow> usize \<Rightarrow> byte \<Rightarrow> byte list list \<Rightarrow> keyword option" where
  "match_words bytes at first [] = None"
| "match_words bytes at first (word # words) =
     (if hd word \<noteq> first \<or> word \<in> set (map ascii [''authorization'', ''apikey'', ''privatekey''])
      then match_words bytes at first words
      else case match_word bytes at word of
             Some e \<Rightarrow>
               Some \<lparr>kw_end = e, kw_kind = word_kind word, kw_whole = False,
                     kw_token = (word = ascii ''token''), kw_key_shape = False\<rparr>
           | None \<Rightarrow> match_words bytes at first words)"

definition match_keyword :: "byte list \<Rightarrow> usize \<Rightarrow> keyword option" where
  "match_keyword bytes at =
     (case byte_at bytes at of
        None \<Rightarrow> None
      | Some b \<Rightarrow>
          (let first = b OR 0x20
           in case (if first = 0x61 \<or> first = 0x70 \<or> first = 0x73 then match_key_shape bytes at else None) of
                Some e \<Rightarrow> Some (key_shaped e)
              | None \<Rightarrow>
                  (case (if first = 0x6b then match_header_key bytes at else None) of
                     Some e \<Rightarrow> Some (key_shaped e)
                   | None \<Rightarrow> match_words bytes at first CREDENTIAL_WORDS)))"

definition starts_a_parameter :: "byte list \<Rightarrow> usize \<Rightarrow> bool" where
  "starts_a_parameter bytes at \<longleftrightarrow>
     at \<noteq> 0 \<and> (byte_at bytes (at - 1) = Some 0x3f \<or> byte_at bytes (at - 1) = Some 0x26)"

text \<open>\<open>rsplit(..).next()\<close>: what follows the last separator.\<close>

definition last_part :: "(byte \<Rightarrow> bool) \<Rightarrow> byte list \<Rightarrow> byte list" where
  "last_part sep name = rev (takeWhile (\<lambda>b. \<not> sep b) (rev name))"

definition match_query_name :: "byte list \<Rightarrow> usize \<Rightarrow> keyword option" where
  "match_query_name bytes at =
     (if \<not> starts_a_parameter bytes at then None
      else
        (let e = take_while_from bytes at (\<lambda>b. is_ascii_alphanumeric b \<or> b = 0x2d \<or> b = 0x5f);
             name = drop at (take e bytes);
             whole = list_ex (\<lambda>word. eq_ignore_ascii_case name word) (ascii ''key'' # CREDENTIAL_NAMES);
             last = last_part (\<lambda>b. b = 0x2d \<or> b = 0x5f) name;
             signed = eq_ignore_ascii_case last (ascii ''signature'') \<or> eq_ignore_ascii_case last (ascii ''sig'')
         in if whole \<or> signed
            then Some \<lparr>kw_end = e, kw_kind = TokenKind, kw_whole = True, kw_token = False,
                       kw_key_shape = False\<rparr>
            else None))"

definition OPENING_LETTERS :: "32 word" where
  "OPENING_LETTERS =
     push_bit 0 1 OR push_bit 2 1 OR push_bit 10 1 OR push_bit 15 1 OR push_bit 18 1 OR push_bit 19 1"

definition opens_a_keyword :: "byte \<Rightarrow> bool" where
  "opens_a_keyword b \<longleftrightarrow>
     (let letter = (b OR 0x20) - 0x61
      in letter < 26 \<and> drop_bit (unat (letter AND 31)) OPENING_LETTERS AND 1 = 1)"

definition starts_a_keyword :: "byte list \<Rightarrow> usize \<Rightarrow> bool" where
  "starts_a_keyword bytes at \<longleftrightarrow>
     (case byte_at bytes at of
        None \<Rightarrow> False
      | Some opening \<Rightarrow>
          if \<not> opens_a_keyword opening then False
          else
            (case byte_at bytes (at + 1) of
               None \<Rightarrow> False
             | Some next \<Rightarrow>
                 (let second = next OR 0x20; first = opening OR 0x20
                  in if first = 0x73 then second = 0x65 \<or> second = 0x69
                     else if first = 0x74 then second = 0x6f
                     else if first = 0x70 then second = 0x61 \<or> second = 0x77 \<or> second = 0x72
                     else if first = 0x63 then second = 0x72 \<or> second = 0x6f
                     else if first = 0x61 then second = 0x70 \<or> second = 0x75 \<or> second = 0x63
                     else second = 0x65)))"

definition names_a_keyword :: "byte list \<Rightarrow> usize \<Rightarrow> bool" where
  "names_a_keyword bytes at \<longleftrightarrow>
     (if starts_a_parameter bytes at \<and> match_query_name bytes at \<noteq> None then True
      else starts_a_keyword bytes at \<and> match_keyword bytes at \<noteq> None)"

definition starts_credential_name :: "byte list \<Rightarrow> usize \<Rightarrow> bool" where
  "starts_credential_name bytes at \<longleftrightarrow>
     names_a_keyword bytes at \<or> match_word bytes at AUTHORIZATION \<noteq> None"

subsection \<open>Two letters decide first\<close>

lemma lowercase_or:
  assumes "to_ascii_lowercase b = c" "0x61 \<le> c" "c \<le> 0x7a"
  shows "b OR 0x20 = c"
proof -
  have upper: "b \<in> word_of_nat ` {0x41..0x5a} \<Longrightarrow> b OR 0x20 = b + 0x20"
    unfolding atLeastAtMost_upt by (simp add: upt_rec) (elim disjE; simp)
  have lower: "c \<in> word_of_nat ` {0x61..0x7a} \<Longrightarrow> c OR 0x20 = c"
    unfolding atLeastAtMost_upt by (simp add: upt_rec) (elim disjE; simp)
  have img: "w \<in> word_of_nat ` {m..n}" if "m \<le> unat w" "unat w \<le> n" for w :: byte and m n
    using that by (intro image_eqI [of _ _ "unat w"]) simp_all
  show ?thesis
  proof (cases "0x41 \<le> b \<and> b \<le> 0x5a")
    case True
    then have "b OR 0x20 = b + 0x20" by (intro upper img) (simp_all add: word_le_nat_alt)
    with True assms(1) show ?thesis by (simp add: to_ascii_lowercase_def)
  next
    case False
    then have "b = c" using assms(1) by (auto simp: to_ascii_lowercase_def split: if_splits)
    moreover have "c OR 0x20 = c" using assms(2,3) by (intro lower img) (simp_all add: word_le_nat_alt)
    ultimately show ?thesis by simp
  qed
qed

lemma match_word_two:
  assumes "match_word bytes at (x # y # w) = Some e" "0x61 \<le> x" "x \<le> 0x7a" "0x61 \<le> y" "y \<le> 0x7a"
  shows "\<exists>a b. byte_at bytes at = Some a \<and> byte_at bytes (at + 1) = Some b \<and> a OR 0x20 = x \<and> b OR 0x20 = y"
proof -
  have len: "at + length (x # y # w) \<le> length bytes"
    and eq: "map to_ascii_lowercase (take (length (x # y # w)) (drop at bytes)) = map to_ascii_lowercase (x # y # w)"
    using assms(1) by (auto simp: match_word_def eq_ignore_ascii_case_def split: if_splits)
  have "drop at bytes = bytes ! at # bytes ! Suc at # drop (Suc (Suc at)) bytes"
    using len by (simp add: Cons_nth_drop_Suc)
  then have "to_ascii_lowercase (bytes ! at) = to_ascii_lowercase x"
    "to_ascii_lowercase (bytes ! Suc at) = to_ascii_lowercase y"
    using eq by simp_all
  moreover have "to_ascii_lowercase x = x" "to_ascii_lowercase y = y"
    using assms(2-5) by (auto simp: to_ascii_lowercase_def word_le_nat_alt)
  ultimately show ?thesis
    using len lowercase_or assms(2-5) by (auto simp: byte_at_def)
qed

lemma ascii_simps [simp]: "ascii [] = []" "ascii (c # s) = of_char c # ascii s"
  by (simp_all add: ascii_def)

lemma find_map_Some: "find_map f xs = Some y \<Longrightarrow> \<exists>x \<in> set xs. f x = Some y"
proof (induction xs)
  case (Cons x xs)
  then show ?case by (cases "f x") (auto simp: find_map_def)
qed (simp add: find_map_def)

lemma match_words_Some:
  "match_words bytes at first words = Some k \<Longrightarrow>
   \<exists>w e. w \<in> set words \<and> hd w = first \<and> match_word bytes at w = Some e \<and>
     w \<notin> set (map ascii [''authorization'', ''apikey'', ''privatekey''])"
  by (induction words) (auto split: if_splits option.splits)

text \<open>The two letters of every word the matchers compare with.\<close>

lemma starts_a_keyword_two:
  assumes "byte_at bytes at = Some a" "byte_at bytes (at + 1) = Some b" "a OR 0x20 = x" "b OR 0x20 = y"
    and "(x, y) \<in> {(0x73, 0x65), (0x73, 0x69), (0x74, 0x6f), (0x70, 0x61), (0x70, 0x77), (0x70, 0x72),
      (0x63, 0x72), (0x63, 0x6f), (0x61, 0x70), (0x61, 0x75), (0x61, 0x63), (0x6b, 0x65)}"
  shows "starts_a_keyword bytes at"
  using assms by (auto simp: starts_a_keyword_def opens_a_keyword_def OPENING_LETTERS_def)

lemma matched_word_starts:
  assumes "match_word bytes at w = Some e"
    and "w \<in> set (map ascii [''api'', ''private'', ''secret'', ''access'', ''key'', ''token'', ''password'',
      ''passwd'', ''pwd'', ''passphrase'', ''credential'', ''cookie''])"
  shows "starts_a_keyword bytes at"
proof -
  obtain x y v where w: "w = x # y # v" "0x61 \<le> x" "x \<le> 0x7a" "0x61 \<le> y" "y \<le> 0x7a"
    and xy: "(x, y) \<in> {(0x73, 0x65), (0x73, 0x69), (0x74, 0x6f), (0x70, 0x61), (0x70, 0x77), (0x70, 0x72),
      (0x63, 0x72), (0x63, 0x6f), (0x61, 0x70), (0x61, 0x75), (0x61, 0x63), (0x6b, 0x65)}"
    using assms(2) by (auto simp: word_le_nat_alt)
  show ?thesis
    using match_word_two [OF assms(1) [unfolded w(1)] w(2-5)] starts_a_keyword_two xy by blast
qed

lemma match_keyword_starts:
  assumes "match_keyword bytes at = Some k"
  shows "starts_a_keyword bytes at"
proof -
  obtain b where b: "byte_at bytes at = Some b" using assms by (auto simp: match_keyword_def split: option.splits)
  consider (shape) e where "match_key_shape bytes at = Some e"
    | (header) e where "match_header_key bytes at = Some e"
    | (word) "match_words bytes at (b OR 0x20) CREDENTIAL_WORDS = Some k"
    using assms by (auto simp: match_keyword_def b Let_def split: option.splits if_splits)
  then show ?thesis
  proof cases
    case shape
    then obtain e' where "find_map (match_word bytes at) (map ascii [''api'', ''private'', ''secret'', ''access'']) = Some e'"
      unfolding match_key_shape_def bind_eq_Some_conv by blast
    from find_map_Some [OF this] obtain w where
      "w \<in> set (map ascii [''api'', ''private'', ''secret'', ''access''])" "match_word bytes at w = Some e'" by blast
    then show ?thesis by (intro matched_word_starts [of bytes at w e']) auto
  next
    case header
    then obtain e' where "match_word bytes at (ascii ''key'') = Some e'"
      unfolding match_header_key_def bind_eq_Some_conv by blast
    then show ?thesis by (rule matched_word_starts) simp
  next
    case word
    then obtain w e where "w \<in> set CREDENTIAL_WORDS" "match_word bytes at w = Some e"
      "w \<notin> set (map ascii [''authorization'', ''apikey'', ''privatekey''])"
      using match_words_Some by blast
    then show ?thesis by (intro matched_word_starts [of bytes at w e]) (auto simp: CREDENTIAL_WORDS_def)
  qed
qed

text \<open>The letter filter in front of the credential names never turns a name away. Whether a name starts
  at a place is what the full matchers say there: a query parameter that is a credential's, a key by
  its shape, a vendor's key header or one of the listed words, compared whatever their case.\<close>

theorem keyword_filter_complete:
  "names_a_keyword bytes at = (\<not> (match_query_name bytes at = None \<and> match_keyword bytes at = None))"
  using match_keyword_starts by (auto simp: names_a_keyword_def match_query_name_def)

end
