(* ===== verification/Redact_Strip.thy ===== *)
theory Redact_Strip imports Redact_Names "HOL-Library.Sublist" begin

text \<open>
  Taking terminal control text out of a diagnostic (\<open>redact/strip.rs\<close>) with the block search of
  \<open>redact/scan.rs\<close>. The stripper indexes bytes and slices strings, so a slice off a character
  boundary is a panic, \<open>None\<close> here; that there is none, and that the loop ends, is proved.
\<close>

subsection \<open>Searching blocks\<close>

definition FIRST_MATCH_BLOCK :: usize where
  "FIRST_MATCH_BLOCK = 32"

definition first_match :: "byte list \<Rightarrow> usize \<Rightarrow> (byte \<Rightarrow> bool) \<Rightarrow> usize option" where
  "first_match bytes from_at wanted =
     (if from_at > length bytes then None
      else
        (let rest = drop from_at bytes;
             blocks = fst (as_chunks FIRST_MATCH_BLOCK rest);
             clean = length (takeWhile
               (\<lambda>block. \<not> fold (\<lambda>b found. found \<or> wanted b) block False) blocks);
             skipped = clean * FIRST_MATCH_BLOCK
         in map_option (\<lambda>offset. from_at + skipped + offset) (position wanted (drop skipped rest))))"

subsection \<open>What is removed\<close>

definition BOUNDARY :: uchar where
  "BOUNDARY = 1"

definition is_unsafe_to_render :: "uchar \<Rightarrow> bool" where
  "is_unsafe_to_render c \<longleftrightarrow>
     c \<le> 0x1f \<or> (0x7f \<le> c \<and> c \<le> 0x9f) \<or> c = 0x061c \<or> c = 0x200e \<or> c = 0x200f \<or>
     (0x202a \<le> c \<and> c \<le> 0x202e) \<or> (0x2066 \<le> c \<and> c \<le> 0x2069)"

definition OSC_PAYLOAD_LIMIT :: usize where
  "OSC_PAYLOAD_LIMIT = 4096"

definition STRING_INTRODUCERS :: "byte list" where
  "STRING_INTRODUCERS = ascii ''PX^_''"

definition TWO_BYTE_FINALS :: "byte list" where
  "TWO_BYTE_FINALS = ascii ''78=>cDEHMZ'' @ [0x5c]"

definition CHARSET_INTRODUCERS :: "byte list" where
  "CHARSET_INTRODUCERS = ascii ''()*+''"

definition starts_a_removed_character :: "byte \<Rightarrow> bool" where
  "starts_a_removed_character b \<longleftrightarrow>
     (let control = b < 0x20 \<and> b \<noteq> 0x09 \<and> b \<noteq> 0x0a
      in control \<or> b = 0x7f \<or> b = 0xc2 \<or> b = 0xd8 \<or> b = 0xe2)"

definition starts_a_removed_sequence :: "byte \<Rightarrow> byte \<Rightarrow> byte \<Rightarrow> bool" where
  "starts_a_removed_sequence first second third \<longleftrightarrow>
     (let control = (first < 0x20 \<and> first \<noteq> 0x09 \<and> first \<noteq> 0x0a) \<or> first = 0x7f;
          c1 = first = 0xc2 \<and> second AND 0xe0 = 0x80;
          arabic_mark = first = 0xd8 \<and> second = 0x9c;
          marks = first = 0xe2 \<and> second = 0x80 \<and>
            (third = 0x8e \<or> third = 0x8f \<or> (0xaa \<le> third \<and> third \<le> 0xae));
          isolates = first = 0xe2 \<and> second = 0x81 \<and> (0xa6 \<le> third \<and> third \<le> 0xa9)
      in control \<or> c1 \<or> arabic_mark \<or> marks \<or> isolates)"

text \<open>\<open>windows(3)\<close>, then the last two places with zeroes past the end.\<close>

definition windows3 :: "byte list \<Rightarrow> (byte \<times> byte \<times> byte) list" where
  "windows3 bytes = zip bytes (zip (drop 1 bytes) (drop 2 bytes))"

definition may_strip :: "byte list \<Rightarrow> bool" where
  "may_strip bytes \<longleftrightarrow>
     (if \<not> fold (\<lambda>b found. found \<or> starts_a_removed_character b) bytes False then False
      else
        fold (\<lambda>(a, b, c) found. found \<or> starts_a_removed_sequence a b c) (windows3 bytes) False \<or>
        list_ex (\<lambda>place.
            let next = (\<lambda>offset. case byte_at bytes (place + offset) of None \<Rightarrow> 0 | Some b \<Rightarrow> b)
            in starts_a_removed_sequence (bytes ! place) (next 1) (next 2))
          [length bytes - 2..<length bytes])"

subsection \<open>Where an escape ends\<close>

definition pick_end :: "byte list \<Rightarrow> usize \<Rightarrow> usize \<Rightarrow> usize" where
  "pick_end bytes intro_end full_end =
     (if full_end > intro_end \<and> starts_credential_name bytes intro_end \<and>
         \<not> starts_credential_name bytes full_end
      then intro_end else full_end)"

definition final_end :: "byte list \<Rightarrow> usize \<Rightarrow> byte \<Rightarrow> byte \<Rightarrow> usize" where
  "final_end bytes at low high =
     (case byte_at bytes at of
        Some b \<Rightarrow> if low \<le> b \<and> b \<le> high then at + 1 else at
      | None \<Rightarrow> at)"

definition csi_end :: "byte list \<Rightarrow> usize \<Rightarrow> usize" where
  "csi_end bytes start =
     (let at = take_while_from bytes start (\<lambda>b. 0x20 \<le> b \<and> b \<le> 0x3f)
      in pick_end bytes at (final_end bytes at 0x40 0x7e))"

function string_scan :: "byte list \<Rightarrow> bool \<Rightarrow> usize \<Rightarrow> usize \<Rightarrow> usize option" where
  "string_scan bytes bel_ends limit at =
     (if at < limit then
        (let b = bytes ! at in
         if b = 0x07 \<and> bel_ends then Some (at + 1)
         else if b = 0x0a then None
         else if b = 0x1b then
           (if byte_at bytes (at + 1) = Some 0x5c then Some (at + 2) else None)
         else if b = 0xc2 then
           (case byte_at bytes (at + 1) of
              Some n \<Rightarrow>
                if n = 0x9c then Some (at + 2)
                else if (0x80 \<le> n \<and> n \<le> 0x9b) \<or> (0x9d \<le> n \<and> n \<le> 0x9f) then None
                else string_scan bytes bel_ends limit (at + 1)
            | None \<Rightarrow> string_scan bytes bel_ends limit (at + 1))
         else string_scan bytes bel_ends limit (at + 1))
      else None)"
  by pat_completeness auto
termination
  by (relation "measure (\<lambda>(bytes, bel_ends, limit, at). limit - at)") auto

declare string_scan.simps [simp del]

definition string_end :: "byte list \<Rightarrow> usize \<Rightarrow> bool \<Rightarrow> usize option" where
  "string_end bytes start bel_ends =
     (let limit = min (length bytes) (sat_add (sat_add start OSC_PAYLOAD_LIMIT) 1)
      in string_scan bytes bel_ends limit start)"

definition unwrap_or :: "'a option \<Rightarrow> 'a \<Rightarrow> 'a" where
  "unwrap_or x d = (case x of None \<Rightarrow> d | Some y \<Rightarrow> y)"

definition after_escape :: "byte list \<Rightarrow> usize \<Rightarrow> usize" where
  "after_escape bytes start =
     (case byte_at bytes start of
        None \<Rightarrow> start
      | Some next \<Rightarrow>
          if next = 0x5b then csi_end bytes (start + 1)
          else if next = 0x5d then unwrap_or (string_end bytes (start + 1) True) (start + 1)
          else if List.member STRING_INTRODUCERS next then
            unwrap_or (string_end bytes (start + 1) False) (pick_end bytes start (start + 1))
          else if List.member CHARSET_INTRODUCERS next then
            pick_end bytes (start + 1) (final_end bytes (start + 1) 0x30 0x7e)
          else if List.member TWO_BYTE_FINALS next then pick_end bytes start (start + 1)
          else start)"

definition escape_end :: "byte list \<Rightarrow> usize \<Rightarrow> uchar \<Rightarrow> usize option" where
  "escape_end bytes at c =
     (let after = at + char_len c in
      if c = 0x1b then Some (after_escape bytes after)
      else if c = 0x9b then Some (csi_end bytes after)
      else if c = 0x9d then Some (unwrap_or (string_end bytes after True) after)
      else if c = 0x90 \<or> c = 0x98 \<or> c = 0x9e \<or> c = 0x9f then
        Some (unwrap_or (string_end bytes after False) after)
      else None)"

subsection \<open>The stripper\<close>

definition clean_end :: "byte list \<Rightarrow> usize \<Rightarrow> usize" where
  "clean_end bytes at =
     (if (case byte_at bytes at of None \<Rightarrow> False | Some b \<Rightarrow> starts_a_removed_character b) then at
      else unwrap_or (first_match bytes at starts_a_removed_character) (length bytes))"

definition next_char :: "ustring \<Rightarrow> usize \<Rightarrow> uchar option" where
  "next_char raw at =
     (case split_at_byte raw at of
        None \<Rightarrow> None
      | Some (_, rest) \<Rightarrow> (case rest of [] \<Rightarrow> None | c # _ \<Rightarrow> Some c))"

definition str_slice :: "ustring \<Rightarrow> usize \<Rightarrow> usize \<Rightarrow> ustring option" where
  "str_slice raw a b =
     Option.bind (split_at_byte raw b) (\<lambda>(prefix, _). map_option snd (split_at_byte prefix a))"

definition is_alphanumeric_char :: "uchar \<Rightarrow> bool" where
  "is_alphanumeric_char c \<longleftrightarrow>
     (0x30 \<le> c \<and> c \<le> 0x39) \<or> (0x41 \<le> c \<and> c \<le> 0x5a) \<or> (0x61 \<le> c \<and> c \<le> 0x7a)"

definition ends_with_scheme :: "ustring \<Rightarrow> bool" where
  "ends_with_scheme t \<longleftrightarrow>
     (let bytes = utf8 t
      in list_ex (\<lambda>scheme. length scheme \<le> length bytes \<and>
             eq_ignore_ascii_case (drop (length bytes - length scheme) bytes) scheme)
           [ascii ''bearer'', ascii ''basic''])"

definition is_kept :: "uchar \<Rightarrow> bool" where
  "is_kept c \<longleftrightarrow> c = 0x09 \<or> c = 0x0a \<or> \<not> is_unsafe_to_render c"

definition needs_boundary :: "byte list \<Rightarrow> usize \<Rightarrow> bool \<Rightarrow> ustring \<Rightarrow> bool" where
  "needs_boundary bytes at removed out \<longleftrightarrow>
     removed \<and> (out \<noteq> [] \<and> is_alphanumeric_char (last out)) \<and>
     (starts_credential_name bytes at \<or> ends_with_scheme out)"

partial_function (option) strip_loop ::
  "ustring \<Rightarrow> usize \<Rightarrow> bool \<Rightarrow> bool \<Rightarrow> ustring \<Rightarrow> (ustring \<times> bool) option" where
  "strip_loop raw at removed marked out =
     Option.bind
       (if removed then Some (at, out)
        else
          (let e = clean_end (utf8 raw) at
           in map_option (\<lambda>copied. (e, out @ copied)) (str_slice raw at e)))
       (\<lambda>(at, out).
         case next_char raw at of
           None \<Rightarrow> Some (out, marked)
         | Some c \<Rightarrow>
             (case escape_end (utf8 raw) at c of
                Some e \<Rightarrow> strip_loop raw e True marked out
              | None \<Rightarrow>
                  if \<not> is_kept c then strip_loop raw (at + char_len c) True marked out
                  else if needs_boundary (utf8 raw) at removed out
                  then strip_loop raw (at + char_len c) False True (out @ [BOUNDARY, c])
                  else strip_loop raw (at + char_len c) False marked (out @ [c])))"

definition strip_marking :: "ustring \<Rightarrow> (ustring \<times> bool) option" where
  "strip_marking raw = strip_loop raw 0 False False []"

definition strip_control_characters :: "ustring \<Rightarrow> ustring option" where
  "strip_control_characters raw = map_option fst (strip_marking raw)"

definition remove_boundaries :: "ustring \<Rightarrow> ustring" where
  "remove_boundaries t =
     (if \<not> List.member t BOUNDARY then t else filter (\<lambda>c. c \<noteq> BOUNDARY) t)"

definition holds_string_terminator :: "byte list \<Rightarrow> bool" where
  "holds_string_terminator bytes \<longleftrightarrow>
     list_ex (\<lambda>at.
         bytes ! at = 0x07 \<or>
         (bytes ! at = 0x1b \<and> byte_at bytes (at + 1) = Some 0x5c) \<or>
         (bytes ! at = 0xc2 \<and> byte_at bytes (at + 1) = Some 0x9c))
       [0..<length bytes]"

subsection \<open>The block search is a search\<close>

lemma first_match_eq:
  assumes "from_at \<le> length bytes"
  shows "first_match bytes from_at P = map_option ((+) from_at) (position P (drop from_at bytes))"
  unfolding block_search [of 32 _ P "drop from_at bytes", OF _ refl, simplified]
  using assms
  by (auto simp: first_match_def FIRST_MATCH_BLOCK_def Let_def option.map_comp intro!: option.map_cong0)

subsection \<open>Character boundaries\<close>

abbreviation boundary :: "ustring \<Rightarrow> usize \<Rightarrow> bool" where
  "boundary raw at \<equiv> split_at_byte raw at \<noteq> None"

definition continuation :: "byte \<Rightarrow> bool" where
  "continuation b \<longleftrightarrow> 0x80 \<le> unat b \<and> unat b < 0xc0"

lemma boundary_iff_split: "boundary raw at \<longleftrightarrow> (\<exists>a b. raw = a @ b \<and> at = str_len a)"
  using split_at_byte_SomeD split_at_byte_append by fastforce

lemma boundary_le: "boundary raw at \<Longrightarrow> at \<le> str_len raw"
  by (auto dest!: split_at_byte_SomeD)

lemma utf8_char_nth:
  assumes "scalar_value c" "i < char_len c"
  shows "unat (utf8_char c ! i) = utf8_nums c ! i"
proof -
  have "length (utf8_nums c) = char_len c" using length_utf8_char [of c] by (simp add: utf8_char_def)
  then show ?thesis
    using assms utf8_nums_bound [OF assms(1), of "utf8_nums c ! i"] by (simp add: utf8_char_def unat_byte)
qed

lemma utf8_char_tail:
  assumes "scalar_value c" "0 < i" "i < char_len c"
  shows "continuation (utf8_char c ! i)"
proof -
  have "i = 1 \<or> i = 2 \<or> i = 3" using assms(2,3) by (auto simp: char_len_def split: if_splits)
  with assms(3) have "0x80 \<le> utf8_nums c ! i \<and> utf8_nums c ! i < 0xc0"
    by (elim disjE) (simp_all add: utf8_nums_def char_len_def split: if_splits)
  then show ?thesis by (simp add: continuation_def utf8_char_nth [OF assms(1,3)])
qed

lemma utf8_char_head:
  assumes "scalar_value c"
  shows "\<not> continuation (utf8_char c ! 0)"
    and "char_len c = 1 \<longleftrightarrow> unat (utf8_char c ! 0) < 0x80"
    and "char_len c = 1 \<Longrightarrow> unat (utf8_char c ! 0) = c"
    and "utf8_char c ! 0 = 0xc2 \<longleftrightarrow> 0x80 \<le> c \<and> c < 0xc0"
proof -
  have "unat (utf8_char c ! 0) = utf8_nums c ! 0" by (rule utf8_char_nth [OF assms]) simp
  moreover have "utf8_char c ! 0 = 0xc2 \<longleftrightarrow> unat (utf8_char c ! 0) = 0xc2"
    by (simp add: word_unat_eq_iff)
  ultimately show "\<not> continuation (utf8_char c ! 0)" "char_len c = 1 \<longleftrightarrow> unat (utf8_char c ! 0) < 0x80"
    "char_len c = 1 \<Longrightarrow> unat (utf8_char c ! 0) = c" "utf8_char c ! 0 = 0xc2 \<longleftrightarrow> 0x80 \<le> c \<and> c < 0xc0"
    using assms by (auto simp: utf8_nums_def char_len_def continuation_def scalar_value_def split: if_splits)
qed

text \<open>The character a boundary stands before, with its bytes.\<close>

lemma char_at_boundary:
  assumes "boundary raw at" "at < str_len raw"
  obtains a c b where "raw = a @ c # b" "at = str_len a" "next_char raw at = Some c"
    "\<And>i. i < char_len c \<Longrightarrow> utf8 raw ! (at + i) = utf8_char c ! i"
    "boundary raw (at + char_len c)" "at + char_len c \<le> str_len raw"
proof -
  obtain a b where ab: "raw = a @ b" "at = str_len a" using iffD1 [OF boundary_iff_split assms(1)] by blast
  with assms(2) obtain c t where t: "b = c # t" by (cases b) auto
  show thesis
  proof (rule that [of a c t])
    show "next_char raw at = Some c" by (simp add: next_char_def ab t split_at_byte_append)
    show "utf8 raw ! (at + i) = utf8_char c ! i" if "i < char_len c" for i
      using that by (simp add: ab t utf8_append utf8_Cons nth_append)
    show "boundary raw (at + char_len c)"
      unfolding boundary_iff_split by (rule exI [of _ "a @ [c]"], rule exI [of _ t]) (simp add: ab t)
  qed (simp_all add: ab t)
qed

lemma boundary_iff_byte:
  assumes "valid_str raw" "at < str_len raw"
  shows "boundary raw at \<longleftrightarrow> \<not> continuation (utf8 raw ! at)"
proof
  assume "boundary raw at"
  then obtain a c b where "raw = a @ c # b" "utf8 raw ! (at + 0) = utf8_char c ! 0"
    using char_at_boundary [OF _ assms(2)] by (metis char_len_pos)
  with assms(1) utf8_char_head(1) [of c] show "\<not> continuation (utf8 raw ! at)" by simp
next
  assume "\<not> continuation (utf8 raw ! at)"
  with assms show "boundary raw at"
  proof (induction raw arbitrary: at)
    case (Cons c raw)
    show ?case
    proof (cases "at < char_len c")
      case True
      with Cons.prems utf8_char_tail [of c at] have "at = 0"
        by (cases "at = 0") (simp_all add: utf8_Cons nth_append)
      then show ?thesis by simp
    next
      case False
      with Cons.prems have "boundary raw (at - char_len c)"
        by (intro Cons.IH) (auto simp: utf8_Cons nth_append)
      then obtain a b where "raw = a @ b" "at - char_len c = str_len a" unfolding boundary_iff_split by blast
      with False show ?thesis
        unfolding boundary_iff_split by (intro exI [of _ "c # a"] exI [of _ b]) simp
    qed
  qed simp
qed

lemma boundary_end: "boundary raw (str_len raw)"
  using boundary_iff_split by auto

lemma after_ascii:
  assumes "valid_str raw" "byte_at (utf8 raw) at = Some b" "b < 0x80"
  shows "boundary raw (at + 1)" "boundary raw at"
proof -
  have at: "at < str_len raw" "utf8 raw ! at = b" using assms(2) by (auto simp: byte_at_def split: if_splits)
  have small: "unat b < 0x80" using assms(3) by (simp add: word_less_nat_alt)
  then show "boundary raw at"
    using boundary_iff_byte [OF assms(1) at(1)] by (simp add: at continuation_def)
  then obtain a c t where c: "raw = a @ c # t" "utf8 raw ! (at + 0) = utf8_char c ! 0" "boundary raw (at + char_len c)"
    using char_at_boundary [OF _ at(1)] by (metis char_len_pos)
  then have "char_len c = 1" using assms(1) utf8_char_head(2) [of c] small at(2) by simp
  with c(3) show "boundary raw (at + 1)" by simp
qed

subsection \<open>Escapes end on a boundary\<close>

lemma pick_end_cases: "pick_end bytes a b = a \<or> pick_end bytes a b = b"
  by (simp add: pick_end_def)

lemma final_end_boundary:
  assumes "valid_str raw" "boundary raw at" "high < 0x80"
  shows "boundary raw (final_end (utf8 raw) at low high) \<and> at \<le> final_end (utf8 raw) at low high"
proof (cases "byte_at (utf8 raw) at")
  case (Some b)
  show ?thesis
  proof (cases "low \<le> b \<and> b \<le> high")
    case True
    with assms(3) have "b < 0x80" by auto
    with True Some after_ascii(1) [OF assms(1) Some] show ?thesis by (simp add: final_end_def)
  next
    case False
    then have "final_end (utf8 raw) at low high = at" using Some by (auto simp: final_end_def)
    then show ?thesis using assms(2) by simp
  qed
qed (use assms(2) in \<open>simp add: final_end_def\<close>)

lemma take_while_boundary:
  assumes "valid_str raw" "boundary raw start" "\<And>b. P b \<Longrightarrow> b < 0x80"
  shows "boundary raw (take_while_from (utf8 raw) start P) \<and> start \<le> take_while_from (utf8 raw) start P"
proof (cases "length (takeWhile P (drop start (utf8 raw)))")
  case 0
  with assms(2) show ?thesis by (simp add: take_while_from_def)
next
  case (Suc k)
  let ?taken = "takeWhile P (drop start (utf8 raw))"
  have "length ?taken \<le> str_len raw - start" using length_takeWhile_le [of P "drop start (utf8 raw)"] by simp
  then have len: "start + k < str_len raw" using Suc by simp
  have "?taken ! k = utf8 raw ! (start + k)" using Suc len by (simp add: takeWhile_nth)
  moreover have "P (?taken ! k)" using Suc set_takeWhileD [OF nth_mem, of k P "drop start (utf8 raw)"] by simp
  ultimately have "boundary raw (start + k + 1)"
    using len assms(3) by (intro after_ascii(1) [OF assms(1)]) (simp_all add: byte_at_def)
  with Suc show ?thesis by (simp add: take_while_from_def)
qed

lemma csi_end_boundary:
  assumes "valid_str raw" "boundary raw start"
  shows "boundary raw (csi_end (utf8 raw) start) \<and> start \<le> csi_end (utf8 raw) start"
proof -
  let ?at = "take_while_from (utf8 raw) start (\<lambda>b. 0x20 \<le> b \<and> b \<le> 0x3f)"
  have at: "boundary raw ?at \<and> start \<le> ?at"
    by (rule take_while_boundary [OF assms]) (auto simp: word_le_nat_alt word_less_nat_alt)
  have "boundary raw (final_end (utf8 raw) ?at 0x40 0x7e) \<and> ?at \<le> final_end (utf8 raw) ?at 0x40 0x7e"
    using at by (intro final_end_boundary [OF assms(1)]) simp_all
  moreover have "csi_end (utf8 raw) start = ?at \<or> csi_end (utf8 raw) start = final_end (utf8 raw) ?at 0x40 0x7e"
    unfolding csi_end_def Let_def by (rule pick_end_cases)
  ultimately show ?thesis using at by (elim disjE) simp_all
qed

lemma after_c1:
  assumes "valid_str raw" "at < str_len raw" "utf8 raw ! at = 0xc2"
  shows "boundary raw (at + 2)"
proof -
  have "boundary raw at" using boundary_iff_byte [OF assms(1,2)] by (simp add: assms(3) continuation_def)
  then obtain a c b where c: "raw = a @ c # b" "utf8 raw ! (at + 0) = utf8_char c ! 0" "boundary raw (at + char_len c)"
    using char_at_boundary [OF _ assms(2)] by (metis char_len_pos)
  then have "0x80 \<le> c \<and> c < 0xc0" using utf8_char_head(4) [of c] assms(1,3) by simp
  then have "char_len c = 2" by (simp add: char_len_def)
  with c(3) show ?thesis by simp
qed

lemma string_scan_boundary:
  assumes "valid_str raw" "limit \<le> str_len raw" "string_scan (utf8 raw) bel limit at = Some e"
  shows "boundary raw e \<and> at < e"
  using assms(3)
proof (induction "limit - at" arbitrary: at rule: less_induct)
  case less
  note result = less.prems [unfolded string_scan.simps [of "utf8 raw" bel limit at] Let_def]
  have at: "at < limit" using result by (auto split: if_splits)
  let ?b = "utf8 raw ! at"
  have inside: "at < str_len raw" using at assms(2) by linarith
  then have here: "byte_at (utf8 raw) at = Some ?b" by (simp add: byte_at_def)
  have ascii: "boundary raw (at + 1)" if "?b < 0x80"
    by (rule after_ascii(1) [OF assms(1) here that])
  have esc: "boundary raw (at + 2)" if "byte_at (utf8 raw) (at + 1) = Some 0x5c"
    using after_ascii(1) [OF assms(1) that] by simp
  have c1: "boundary raw (at + 2)" if "?b = 0xc2"
    by (rule after_c1 [OF assms(1) inside that])
  have more: "boundary raw e \<and> at + 1 < e" if "string_scan (utf8 raw) bel limit (at + 1) = Some e"
    using that at by (intro less.hyps) simp_all
  show ?case
    using result at ascii esc c1 more by (auto split: if_splits option.splits)
qed

lemma string_end_boundary:
  assumes "valid_str raw" "boundary raw start"
  shows "boundary raw (unwrap_or (string_end (utf8 raw) start bel) start) \<and>
    start \<le> unwrap_or (string_end (utf8 raw) start bel) start"
    and "string_end (utf8 raw) start bel = Some e \<Longrightarrow> boundary raw e \<and> start < e"
proof -
  have some: "boundary raw e \<and> start < e" if "string_end (utf8 raw) start bel = Some e" for e
    by (rule string_scan_boundary [OF assms(1) _ that [unfolded string_end_def Let_def]]) simp
  then show "string_end (utf8 raw) start bel = Some e \<Longrightarrow> boundary raw e \<and> start < e" by blast
  show "boundary raw (unwrap_or (string_end (utf8 raw) start bel) start) \<and>
      start \<le> unwrap_or (string_end (utf8 raw) start bel) start"
  proof (cases "string_end (utf8 raw) start bel")
    case None
    then show ?thesis using assms(2) by (simp add: unwrap_or_def)
  next
    case (Some e)
    then show ?thesis using some [OF Some] by (simp add: unwrap_or_def)
  qed
qed

lemma after_escape_boundary:
  assumes "valid_str raw" "boundary raw start"
  shows "boundary raw (after_escape (utf8 raw) start) \<and> start \<le> after_escape (utf8 raw) start"
proof (cases "byte_at (utf8 raw) start")
  case None
  then show ?thesis using assms(2) by (simp add: after_escape_def)
next
  case (Some b)
  have step1: "boundary raw (start + 1)" if "b < 0x80" by (rule after_ascii(1) [OF assms(1) Some that])
  have picked: "boundary raw (pick_end (utf8 raw) x y) \<and> start \<le> pick_end (utf8 raw) x y"
    if "boundary raw x" "boundary raw y" "start \<le> x" "start \<le> y" for x y
    using that pick_end_cases [of "utf8 raw" x y] by (elim disjE) simp_all
  let ?r = "after_escape (utf8 raw) start"
  consider "b = 0x5b" | "b = 0x5d" | "b \<in> set STRING_INTRODUCERS" "b \<noteq> 0x5b" "b \<noteq> 0x5d"
    | "b \<in> set CHARSET_INTRODUCERS" "b \<noteq> 0x5b" "b \<noteq> 0x5d" "b \<notin> set STRING_INTRODUCERS"
    | "b \<in> set TWO_BYTE_FINALS" "b \<noteq> 0x5b" "b \<noteq> 0x5d" "b \<notin> set STRING_INTRODUCERS" "b \<notin> set CHARSET_INTRODUCERS"
    | "?r = start"
    using Some
    by (cases "b = 0x5b"; cases "b = 0x5d"; cases "b \<in> set STRING_INTRODUCERS";
        cases "b \<in> set CHARSET_INTRODUCERS"; cases "b \<in> set TWO_BYTE_FINALS")
      (simp_all add: after_escape_def List.member_iff)
  then show ?thesis
  proof cases
    case 1
    then have r: "?r = csi_end (utf8 raw) (start + 1)" using Some by (simp add: after_escape_def)
    have "boundary raw (start + 1)" using step1 1 by simp
    from csi_end_boundary [OF assms(1) this] show ?thesis unfolding r by simp
  next
    case 2
    then have r: "?r = unwrap_or (string_end (utf8 raw) (start + 1) True) (start + 1)"
      using Some by (simp add: after_escape_def)
    have "boundary raw (start + 1)" using step1 2 by simp
    from string_end_boundary(1) [OF assms(1) this, of True] show ?thesis unfolding r by simp
  next
    case 3
    then have r: "?r = unwrap_or (string_end (utf8 raw) (start + 1) False) (pick_end (utf8 raw) start (start + 1))"
      using Some by (simp add: after_escape_def List.member_iff)
    have n: "boundary raw (start + 1)" using step1 3 by (auto simp: STRING_INTRODUCERS_def)
    show ?thesis
    proof (cases "string_end (utf8 raw) (start + 1) False")
      case None
      then show ?thesis unfolding r unwrap_or_def using picked [OF assms(2) n] by simp
    next
      case (Some e)
      then show ?thesis unfolding r unwrap_or_def using string_end_boundary(2) [OF assms(1) n Some] by simp
    qed
  next
    case 4
    then have r: "?r = pick_end (utf8 raw) (start + 1) (final_end (utf8 raw) (start + 1) 0x30 0x7e)"
      using Some by (simp add: after_escape_def List.member_iff)
    have n: "boundary raw (start + 1)" using step1 4 by (auto simp: CHARSET_INTRODUCERS_def)
    have "boundary raw (final_end (utf8 raw) (start + 1) 0x30 0x7e) \<and>
        start + 1 \<le> final_end (utf8 raw) (start + 1) 0x30 0x7e"
      by (rule final_end_boundary [OF assms(1) n]) simp
    with n show ?thesis unfolding r by (intro picked) simp_all
  next
    case 5
    then have r: "?r = pick_end (utf8 raw) start (start + 1)"
      using Some by (simp add: after_escape_def List.member_iff)
    have "boundary raw (start + 1)" using step1 5 by (auto simp: TWO_BYTE_FINALS_def)
    with assms(2) show ?thesis unfolding r by (intro picked) simp_all
  next
    case 6
    with assms(2) show ?thesis by simp
  qed
qed

lemma escape_end_boundary:
  assumes "valid_str raw" "boundary raw (at + char_len c)" "escape_end (utf8 raw) at c = Some e"
  shows "boundary raw e \<and> at < e"
proof -
  have "boundary raw e \<and> at + char_len c \<le> e"
    using assms(3) after_escape_boundary [OF assms(1,2)] csi_end_boundary [OF assms(1,2)]
      string_end_boundary(1) [OF assms(1,2)]
    by (auto simp: escape_end_def Let_def split: if_splits)
  then show ?thesis using char_len_pos [of c] by linarith
qed

lemma escape_end_unsafe: "escape_end bytes at c = Some e \<Longrightarrow> \<not> is_kept c"
  by (auto simp: escape_end_def is_kept_def is_unsafe_to_render_def Let_def split: if_splits)

subsection \<open>What may be copied whole\<close>

lemma removed_byte_flagged:
  assumes "scalar_value c" "\<not> is_kept c"
  shows "starts_a_removed_character (utf8_char c ! 0)"
proof -
  have n: "unat (utf8_char c ! 0) = utf8_nums c ! 0" by (rule utf8_char_nth [OF assms(1)]) simp
  have "c < 0x20 \<and> c \<noteq> 9 \<and> c \<noteq> 10 \<or> c = 0x7f \<or> 0x80 \<le> c \<and> c < 0xa0 \<or> c = 0x61c \<or>
      0x200e \<le> c \<and> c < 0x2070"
    using assms(2) by (auto simp: is_kept_def is_unsafe_to_render_def)
  moreover have "0x80 \<le> c \<Longrightarrow> c < 0xa0 \<Longrightarrow> c div 64 = 2" "0x200e \<le> c \<Longrightarrow> c < 0x2070 \<Longrightarrow> c div 4096 = 2"
    by (auto intro: div_nat_eqI)
  ultimately have "utf8_nums c ! 0 < 0x20 \<and> utf8_nums c ! 0 \<noteq> 9 \<and> utf8_nums c ! 0 \<noteq> 10 \<or>
      utf8_nums c ! 0 \<in> {0x7f, 0xc2, 0xd8, 0xe2}"
    by (elim disjE conjE) (simp_all add: utf8_nums_def)
  then show ?thesis
    by (auto simp: starts_a_removed_character_def word_less_nat_alt word_unat_eq_iff n)
qed

lemma clean_end_bytes:
  assumes "at \<le> length bytes"
  shows "at \<le> clean_end bytes at \<and> clean_end bytes at \<le> length bytes \<and>
    (\<forall>i. at \<le> i \<and> i < clean_end bytes at \<longrightarrow> \<not> starts_a_removed_character (bytes ! i)) \<and>
    (clean_end bytes at < length bytes \<longrightarrow> starts_a_removed_character (bytes ! clean_end bytes at))"
proof (cases "\<exists>b. byte_at bytes at = Some b \<and> starts_a_removed_character b")
  case True
  then have "clean_end bytes at = at" by (auto simp: clean_end_def)
  with True assms show ?thesis by (auto simp: byte_at_def split: if_splits)
next
  case False
  then have e: "clean_end bytes at =
      unwrap_or (map_option ((+) at) (position starts_a_removed_character (drop at bytes))) (length bytes)"
    using first_match_eq [OF assms] by (auto simp: clean_end_def split: option.split)
  show ?thesis
  proof (cases "position starts_a_removed_character (drop at bytes)")
    case None
    then have "\<not> starts_a_removed_character (bytes ! i)" if "at \<le> i" "i < length bytes" for i
      using position_cases(1) [OF None] that nth_mem [of "i - at" "drop at bytes"] by auto
    with None assms show ?thesis by (simp add: e unwrap_or_def)
  next
    case (Some k)
    note k = position_cases(2) [OF Some]
    have "\<not> starts_a_removed_character (bytes ! i)" if "at \<le> i" "i < at + k" for i
      using k that assms by (metis add_diff_inverse_nat less_diff_conv2 not_less nth_drop add.commute)
    moreover have "at + k < length bytes" using k by (auto simp: less_diff_conv)
    ultimately show ?thesis using Some k by (simp add: e unwrap_or_def)
  qed
qed

lemma flagged_not_continuation: "starts_a_removed_character b \<Longrightarrow> \<not> continuation b"
  by (auto simp: starts_a_removed_character_def continuation_def word_less_nat_alt Let_def)

lemma clean_end_copies:
  assumes "valid_str raw" "boundary raw at"
  obtains a s b where "raw = a @ s @ b" "at = str_len a" "clean_end (utf8 raw) at = str_len a + str_len s"
    "list_all is_kept s"
proof -
  let ?e = "clean_end (utf8 raw) at"
  have len: "at \<le> length (utf8 raw)" using boundary_le [OF assms(2)] by simp
  note e = clean_end_bytes [OF len]
  have "boundary raw ?e"
  proof (cases "?e < str_len raw")
    case True
    with e flagged_not_continuation boundary_iff_byte [OF assms(1) True] show ?thesis by simp
  next
    case False
    with e boundary_end show ?thesis by simp
  qed
  then obtain a' b where ab: "raw = a' @ b" "?e = str_len a'" unfolding boundary_iff_split by blast
  obtain a t where a: "raw = a @ t" "at = str_len a" using iffD1 [OF boundary_iff_split assms(2)] by blast
  have "\<exists>s. a' = a @ s"
  proof -
    from ab(1) a(1) consider us where "a' = a @ us" | us where "a = a' @ us"
      by (auto simp: append_eq_append_conv2)
    then show ?thesis
    proof cases
      case 2
      with e ab(2) a(2) have "us = []" by simp
      with 2 show ?thesis by simp
    qed blast
  qed
  then obtain s where s: "a' = a @ s" by blast
  have "is_kept c" if mem: "c \<in> set s" for c
  proof (rule ccontr)
    assume c: "\<not> is_kept c"
    obtain s1 s2 where split: "s = s1 @ c # s2" using split_list [OF mem] by blast
    let ?i = "str_len (a @ s1)"
    have "utf8 raw ! ?i = utf8_char c ! 0"
      by (simp add: ab(1) s split utf8_append utf8_Cons nth_append)
    moreover have "scalar_value c" using assms(1) ab(1) s split by simp
    ultimately have "starts_a_removed_character (utf8 raw ! ?i)" using removed_byte_flagged c by simp
    moreover have "at \<le> ?i" "?i < ?e" using ab(2) a(2) s split char_len_pos [of c] by simp_all
    ultimately show False using e by blast
  qed
  with that [of a s b] ab a(2) s show thesis by (simp add: list_all_iff)
qed

subsection \<open>One character at a time\<close>

text \<open>The stripper without the copying: every character read and pushed on its own.\<close>

partial_function (option) strip_each ::
  "ustring \<Rightarrow> usize \<Rightarrow> bool \<Rightarrow> bool \<Rightarrow> ustring \<Rightarrow> (ustring \<times> bool) option" where
  "strip_each raw at removed marked out =
     (case next_char raw at of
        None \<Rightarrow> Some (out, marked)
      | Some c \<Rightarrow>
          (case escape_end (utf8 raw) at c of
             Some e \<Rightarrow> strip_each raw e True marked out
           | None \<Rightarrow>
               if \<not> is_kept c then strip_each raw (at + char_len c) True marked out
               else if needs_boundary (utf8 raw) at removed out
               then strip_each raw (at + char_len c) False True (out @ [BOUNDARY, c])
               else strip_each raw (at + char_len c) False marked (out @ [c])))"

lemma next_char_append: "next_char (a @ c # b) (str_len a) = Some c"
  by (simp add: next_char_def split_at_byte_append)

lemma next_char_None:
  assumes "boundary raw at" "\<not> at < str_len raw"
  shows "next_char raw at = None"
proof -
  obtain a b where "raw = a @ b" "at = str_len a" using iffD1 [OF boundary_iff_split assms(1)] by blast
  with assms(2) split_at_byte_append [of a "[]"] show ?thesis by (cases b) (simp_all add: next_char_def)
qed

lemma each_copies:
  "raw = a @ s @ b \<Longrightarrow> list_all is_kept s \<Longrightarrow>
   strip_each raw (str_len a) False marked out = strip_each raw (str_len a + str_len s) False marked (out @ s)"
proof (induction s arbitrary: a out)
  case (Cons c s)
  have "escape_end (utf8 raw) (str_len a) c = None"
    using Cons.prems(2) escape_end_unsafe by (cases "escape_end (utf8 raw) (str_len a) c") auto
  moreover have "next_char raw (str_len a) = Some c" using next_char_append [of a c "s @ b"] Cons.prems(1) by simp
  ultimately have "strip_each raw (str_len a) False marked out =
      strip_each raw (str_len a + char_len c) False marked (out @ [c])"
    using Cons.prems(2) by (simp add: strip_each.simps [of raw "str_len a"] needs_boundary_def)
  also have "\<dots> = strip_each raw (str_len a + str_len (c # s)) False marked (out @ c # s)"
    using Cons.IH [of "a @ [c]" "out @ [c]"] Cons.prems by (simp add: add.assoc)
  finally show ?case .
qed simp

subsection \<open>The whole run\<close>

text \<open>The character a boundary inside the text stands before, and where reading goes on after it.\<close>

lemma char_step:
  assumes "valid_str raw" "boundary raw at"
  shows "next_char raw at = None \<and> at = str_len raw \<or>
    (\<exists>c. next_char raw at = Some c \<and> boundary raw (at + char_len c) \<and> at < str_len raw \<and>
      (\<forall>e. escape_end (utf8 raw) at c = Some e \<longrightarrow> boundary raw e \<and> at < e))"
proof (cases "at < str_len raw")
  case True
  then obtain c where "next_char raw at = Some c" "boundary raw (at + char_len c)"
    using char_at_boundary [OF assms(2)] by metis
  with True escape_end_boundary [OF assms(1)] show ?thesis by blast
next
  case False
  with next_char_None [OF assms(2)] boundary_le [OF assms(2)] show ?thesis by simp
qed

lemma strip_loop_eq_each:
  assumes "valid_str raw"
  shows "boundary raw at \<Longrightarrow> strip_loop raw at removed marked out = strip_each raw at removed marked out"
proof (induction "str_len raw - at" arbitrary: at removed marked out rule: less_induct)
  case less
  have body: "(case next_char raw p of
          None \<Rightarrow> Some (out', marked)
        | Some c \<Rightarrow>
            (case escape_end (utf8 raw) p c of
               Some e \<Rightarrow> strip_loop raw e True marked out'
             | None \<Rightarrow>
                 if \<not> is_kept c then strip_loop raw (p + char_len c) True marked out'
                 else if needs_boundary (utf8 raw) p removed out'
                 then strip_loop raw (p + char_len c) False True (out' @ [BOUNDARY, c])
                 else strip_loop raw (p + char_len c) False marked (out' @ [c]))) =
      strip_each raw p removed marked out'"
    if p: "boundary raw p" "at \<le> p" for p out'
  proof -
    have IH: "strip_loop raw q r m o' = strip_each raw q r m o'" if "boundary raw q" "p < q" "p < str_len raw"
      for q r m o'
      using that p(2) by (intro less.hyps) auto
    show ?thesis
      using char_step [OF assms p(1)] char_len_pos
      by (subst strip_each.simps) (auto simp: IH split: option.split)
  qed
  show ?case
  proof (cases removed)
    case True
    then have yes: "removed = True" by simp
    show ?thesis
      using body [OF less.prems order_refl, of out] unfolding yes by (simp add: strip_loop.simps [of raw at])
  next
    case False
    then have no: "removed = False" by simp
    obtain a s b where copy: "raw = a @ s @ b" "at = str_len a" "clean_end (utf8 raw) at = str_len a + str_len s"
        "list_all is_kept s"
      using clean_end_copies [OF assms less.prems] .
    let ?e = "str_len a + str_len s"
    have "split_at_byte raw ?e = Some (a @ s, b)" using split_at_byte_append [of "a @ s" b] by (simp add: copy(1))
    then have "str_slice raw at ?e = Some s" "boundary raw ?e" "at \<le> ?e"
      by (simp_all add: str_slice_def copy(2) split_at_byte_append)
    then have "strip_loop raw at removed marked out = strip_each raw ?e removed marked (out @ s)"
      using body [of ?e "out @ s"] unfolding no by (simp add: strip_loop.simps [of raw at] copy(3))
    also have "\<dots> = strip_each raw at removed marked out"
      using False each_copies [OF copy(1,4), of marked out] by (simp add: copy(2))
    finally show ?thesis .
  qed
qed

definition unread :: "ustring \<Rightarrow> usize \<Rightarrow> ustring" where
  "unread raw at = (case split_at_byte raw at of None \<Rightarrow> [] | Some (_, rest) \<Rightarrow> rest)"

lemma unread_later:
  assumes "boundary raw at" "boundary raw p" "at \<le> p"
  shows "\<exists>skipped. unread raw at = skipped @ unread raw p"
proof -
  obtain a b c d where ab: "raw = a @ b" "at = str_len a" and cd: "raw = c @ d" "p = str_len c"
    using iffD1 [OF boundary_iff_split assms(1)] iffD1 [OF boundary_iff_split assms(2)] by blast
  have "unread raw at = b" "unread raw p = d"
    using split_at_byte_append [of a b] split_at_byte_append [of c d] ab cd by (simp_all add: unread_def)
  moreover have "\<exists>us. b = us @ d"
  proof -
    from ab(1) cd(1) consider us where "c = a @ us" "b = us @ d" | us where "a = c @ us" "d = us @ b"
      by (auto simp: append_eq_append_conv2)
    then show ?thesis
    proof cases
      case 2
      with assms(3) ab(2) cd(2) have "us = []" by simp
      with 2 show ?thesis by simp
    qed blast
  qed
  ultimately show ?thesis by simp
qed

lemma unread_char:
  assumes "next_char raw at = Some c"
  shows "unread raw at = c # unread raw (at + char_len c)"
proof -
  obtain a b where "split_at_byte raw at = Some (a, c # b)"
    using assms by (auto simp: next_char_def split: option.splits list.splits)
  then have "raw = a @ c # b" "at = str_len a" "unread raw at = c # b"
    using split_at_byte_SomeD by (auto simp: unread_def)
  then show ?thesis using split_at_byte_append [of "a @ [c]" b] by (simp add: unread_def)
qed

lemma strip_each_run:
  assumes "valid_str raw"
  shows "boundary raw at \<Longrightarrow>
    \<exists>more. strip_each raw at removed marked out = Some (out @ more, marked \<or> BOUNDARY \<in> set more) \<and>
      list_all (\<lambda>c. is_kept c \<or> c = BOUNDARY) more \<and>
      subseq (filter (\<lambda>c. c \<noteq> BOUNDARY) more) (unread raw at)"
proof (induction "str_len raw - at" arbitrary: at removed marked out rule: less_induct)
  case less
  have boundary_removed: "is_kept c \<Longrightarrow> c \<noteq> BOUNDARY" for c
    by (auto simp: is_kept_def is_unsafe_to_render_def BOUNDARY_def)
  consider (finished) "next_char raw at = None"
    | (char) c where "next_char raw at = Some c" "boundary raw (at + char_len c)" "at < str_len raw"
        "\<forall>e. escape_end (utf8 raw) at c = Some e \<longrightarrow> boundary raw e \<and> at < e"
    using char_step [OF assms less.prems] by metis
  then show ?case
  proof cases
    case finished
    then show ?thesis by (simp add: strip_each.simps [of raw at])
  next
    case char
    note unread = unread_char [OF char(1)]
    have IH: "\<exists>more. strip_each raw p r m o' = Some (o' @ more, m \<or> BOUNDARY \<in> set more) \<and>
        list_all (\<lambda>c. is_kept c \<or> c = BOUNDARY) more \<and>
        subseq (filter (\<lambda>c. c \<noteq> BOUNDARY) more) (unread raw at) \<and>
        (at + char_len c \<le> p \<longrightarrow> subseq (filter (\<lambda>c. c \<noteq> BOUNDARY) more) (unread raw (at + char_len c)))"
      if p: "boundary raw p" "at < p" for p r m o'
    proof -
      have "str_len raw - p < str_len raw - at" using p(2) char(3) by linarith
      from less.hyps [OF this p(1)] obtain more where
        more: "strip_each raw p r m o' = Some (o' @ more, m \<or> BOUNDARY \<in> set more)"
          "list_all (\<lambda>c. is_kept c \<or> c = BOUNDARY) more"
          "subseq (filter (\<lambda>c. c \<noteq> BOUNDARY) more) (unread raw p)" by blast
      have "subseq (filter (\<lambda>c. c \<noteq> BOUNDARY) more) (unread raw at)"
        using unread_later [OF less.prems p(1)] p(2) more(3) by (auto intro: list_emb_append2)
      moreover have "subseq (filter (\<lambda>c. c \<noteq> BOUNDARY) more) (unread raw (at + char_len c))"
        if "at + char_len c \<le> p"
        using unread_later [OF char(2) p(1) that] more(3) by (auto intro: list_emb_append2)
      ultimately show ?thesis using more by blast
    qed
    have after: "at < at + char_len c" using char_len_pos [of c] by simp
    show ?thesis
    proof (cases "escape_end (utf8 raw) at c")
      case (Some e)
      then have "strip_each raw at removed marked out = strip_each raw e True marked out"
        by (simp add: strip_each.simps [of raw at] char(1))
      with IH [of e True marked out] char(4) Some show ?thesis by auto
    next
      case None
      show ?thesis
      proof (cases "is_kept c")
        case False
        then have "strip_each raw at removed marked out = strip_each raw (at + char_len c) True marked out"
          using None by (simp add: strip_each.simps [of raw at] char(1))
        with IH [OF char(2) after, of True marked out] show ?thesis by auto
      next
        case True
        let ?mark = "needs_boundary (utf8 raw) at removed out"
        let ?new = "if ?mark then [BOUNDARY, c] else [c]"
        have "strip_each raw at removed marked out =
            strip_each raw (at + char_len c) False (marked \<or> ?mark) (out @ ?new)"
          using None True by (simp add: strip_each.simps [of raw at] char(1))
        moreover obtain more where
          "strip_each raw (at + char_len c) False (marked \<or> ?mark) (out @ ?new) =
            Some ((out @ ?new) @ more, (marked \<or> ?mark) \<or> BOUNDARY \<in> set more)"
          "list_all (\<lambda>c. is_kept c \<or> c = BOUNDARY) more"
          "subseq (filter (\<lambda>c. c \<noteq> BOUNDARY) more) (unread raw (at + char_len c))"
          using IH [OF char(2) after, of False "marked \<or> ?mark" "out @ ?new"] by blast
        ultimately show ?thesis
          using True boundary_removed [OF True] by (intro exI [of _ "?new @ more"]) (auto simp: unread)
      qed
    qed
  qed
qed

subsection \<open>Text that needs no stripping\<close>

lemma high_bits: "(w :: byte) AND 0xe0 = 0x80 \<longleftrightarrow> 0x80 \<le> unat w \<and> unat w < 0xa0"
proof -
  have cases8: "n = 0 \<or> n = 1 \<or> n = 2 \<or> n = 3 \<or> n = 4 \<or> n = 5 \<or> n = 6 \<or> n = 7"
    if "possible_bit TYPE(byte) n" for n using that by simp linarith
  have masked: "w AND 0xe0 = push_bit 5 (drop_bit 5 w)"
  proof (rule bit_eqI)
    fix n assume "possible_bit TYPE(byte) n"
    from cases8 [OF this] show "bit (w AND 0xe0) n = bit (push_bit 5 (drop_bit 5 w)) n"
      by (elim disjE) (simp_all add: bit_simps)
  qed
  have "drop_bit 5 (push_bit 5 (drop_bit 5 w)) = drop_bit 5 w"
    by (rule bit_eqI) (auto simp: bit_simps dest: bit_imp_le_length)
  note shifted = this
  have "w AND 0xe0 = 0x80 \<longleftrightarrow> drop_bit 5 w = 4"
  proof
    assume "w AND 0xe0 = 0x80"
    then have "drop_bit 5 (push_bit 5 (drop_bit 5 w)) = (drop_bit 5 0x80 :: byte)" by (simp only: masked)
    then show "drop_bit 5 w = 4" by (simp only: shifted) simp
  next
    assume "drop_bit 5 w = 4"
    then show "w AND 0xe0 = 0x80" unfolding masked by simp
  qed
  also have "\<dots> \<longleftrightarrow> unat w div 32 = 4"
    by (simp add: word_unat_eq_iff drop_bit_eq_div unat_div)
  also have "\<dots> \<longleftrightarrow> 0x80 \<le> unat w \<and> unat w < 0xa0" by auto
  finally show ?thesis .
qed
text \<open>The bytes of a character decide whether it is removed, whatever follows a short one.\<close>

lemma removed_sequence_iff:
  assumes "scalar_value c" "b0 = utf8_char c ! 0" "1 < char_len c \<Longrightarrow> b1 = utf8_char c ! 1"
    "2 < char_len c \<Longrightarrow> b2 = utf8_char c ! 2"
  shows "starts_a_removed_sequence b0 b1 b2 \<longleftrightarrow> \<not> is_kept c"
proof -
  have n: "unat b0 = utf8_nums c ! 0" "1 < char_len c \<Longrightarrow> unat b1 = utf8_nums c ! 1"
    "2 < char_len c \<Longrightarrow> unat b2 = utf8_nums c ! 2"
    using assms(2-4) utf8_char_nth [OF assms(1)] by simp_all
  have seq: "starts_a_removed_sequence b0 b1 b2 \<longleftrightarrow>
      (unat b0 < 0x20 \<and> unat b0 \<noteq> 9 \<and> unat b0 \<noteq> 10) \<or> unat b0 = 0x7f \<or>
      unat b0 = 0xc2 \<and> 0x80 \<le> unat b1 \<and> unat b1 < 0xa0 \<or> unat b0 = 0xd8 \<and> unat b1 = 0x9c \<or>
      unat b0 = 0xe2 \<and> unat b1 = 0x80 \<and> (unat b2 = 0x8e \<or> unat b2 = 0x8f \<or> 0xaa \<le> unat b2 \<and> unat b2 \<le> 0xae) \<or>
      unat b0 = 0xe2 \<and> unat b1 = 0x81 \<and> 0xa6 \<le> unat b2 \<and> unat b2 \<le> 0xa9"
    unfolding starts_a_removed_sequence_def high_bits Let_def
    by (simp add: word_less_nat_alt word_le_nat_alt word_unat_eq_iff)
  consider "c < 0x80" | "0x80 \<le> c" "c < 0x800" | "0x800 \<le> c" "c < 0x10000" | "0x10000 \<le> c" by linarith
  then show ?thesis
  proof cases
    case 1
    then show ?thesis
      by (auto simp: seq n utf8_nums_def is_kept_def is_unsafe_to_render_def)
  next
    case 2
    then have b: "unat b0 = 0xc0 + c div 64" "unat b1 = 0x80 + c mod 64"
      using n by (simp_all add: utf8_nums_def char_len_def)
    define x y where "x = c div 64" "y = c mod 64"
    have c: "c = 64 * x + y" "y < 64" unfolding x_y_def by simp_all
    show ?thesis
      unfolding seq b x_y_def [symmetric] using 2 c
      by (auto simp: is_kept_def is_unsafe_to_render_def) presburger+
  next
    case 3
    then have b: "unat b0 = 0xe0 + c div 4096" "unat b1 = 0x80 + c div 64 mod 64" "unat b2 = 0x80 + c mod 64"
      using n by (simp_all add: utf8_nums_def char_len_def)
    define x y z where "x = c div 4096" "y = c div 64 mod 64" "z = c mod 64"
    have "c = 64 * (c div 64) + c mod 64" by simp
    moreover have "c div 64 = 64 * (c div 4096) + c div 64 mod 64"
      using mult_div_mod_eq [of 64 "c div 64"] by (simp add: div_mult2_eq [of c 64 64, simplified])
    ultimately have c: "c = 4096 * x + 64 * y + z" unfolding x_y_z_def by linarith
    have "y < 64" "z < 64" unfolding x_y_z_def by simp_all
    note c = c this
    consider "x = 2" "y = 0" | "x = 2" "y = 1" | "x = 2" "2 \<le> y" | "x \<le> 1" | "3 \<le> x" by linarith
    then show ?thesis
      unfolding seq b x_y_z_def [symmetric] using 3 c
      by cases (auto simp: is_kept_def is_unsafe_to_render_def)
  next
    case 4
    then have b: "0xf0 \<le> unat b0"
      using n by (simp add: utf8_nums_def)
    with 4 show ?thesis unfolding seq by (auto simp: is_kept_def is_unsafe_to_render_def)
  qed
qed

lemma starts_sequence_starts:
  "starts_a_removed_sequence a b c \<Longrightarrow> starts_a_removed_character a"
  by (auto simp: starts_a_removed_sequence_def starts_a_removed_character_def)

lemma fold_windows: "fold (\<lambda>(a, b, c) found. found \<or> P a b c) xs acc \<longleftrightarrow> acc \<or> (\<exists>(a, b, c) \<in> set xs. P a b c)"
  by (induction xs arbitrary: acc) auto

definition byte_or_0 :: "byte list \<Rightarrow> usize \<Rightarrow> byte" where
  "byte_or_0 bytes at = (if at < length bytes then bytes ! at else 0)"

lemma may_strip_iff_place:
  "may_strip bytes \<longleftrightarrow> (\<exists>i < length bytes.
     starts_a_removed_sequence (bytes ! i) (byte_or_0 bytes (i + 1)) (byte_or_0 bytes (i + 2)))"
proof -
  let ?at = "\<lambda>i. starts_a_removed_sequence (bytes ! i) (byte_or_0 bytes (i + 1)) (byte_or_0 bytes (i + 2))"
  have "set (windows3 bytes) = (\<lambda>i. (bytes ! i, bytes ! (i + 1), bytes ! (i + 2))) ` {..<length bytes - 2}"
    by (auto simp: windows3_def set_zip image_def)
  then have windows: "fold (\<lambda>(a, b, c) found. found \<or> starts_a_removed_sequence a b c) (windows3 bytes) False \<longleftrightarrow>
      (\<exists>i < length bytes - 2. ?at i)"
    unfolding fold_windows by (auto simp: byte_or_0_def)
  have "list_ex (\<lambda>place.
        let next = (\<lambda>offset. case byte_at bytes (place + offset) of None \<Rightarrow> 0 | Some b \<Rightarrow> b)
        in starts_a_removed_sequence (bytes ! place) (next 1) (next 2)) [length bytes - 2..<length bytes] \<longleftrightarrow>
      (\<exists>i \<in> {length bytes - 2..<length bytes}. ?at i)"
    by (auto simp: list_ex_iff byte_at_def byte_or_0_def Let_def)
  note tail = this
  have places: "(\<exists>i < length bytes. ?at i) \<longleftrightarrow>
      (\<exists>i < length bytes - 2. ?at i) \<or> (\<exists>i \<in> {length bytes - 2..<length bytes}. ?at i)"
  proof (intro iffI)
    assume "\<exists>i < length bytes. ?at i"
    then obtain i where "i < length bytes" "?at i" by blast
    then show "(\<exists>i < length bytes - 2. ?at i) \<or> (\<exists>i \<in> {length bytes - 2..<length bytes}. ?at i)"
      by (cases "i < length bytes - 2") auto
  next
    assume "(\<exists>i < length bytes - 2. ?at i) \<or> (\<exists>i \<in> {length bytes - 2..<length bytes}. ?at i)"
    then show "\<exists>i < length bytes. ?at i"
    proof (elim disjE bexE exE conjE)
      fix i assume "i < length bytes - 2" "?at i"
      then show ?thesis by (intro exI [of _ i]) simp
    next
      fix i assume "i \<in> {length bytes - 2..<length bytes}" "?at i"
      then show ?thesis by (intro exI [of _ i]) simp
    qed
  qed
  have first: "fold (\<lambda>b found. found \<or> starts_a_removed_character b) bytes False" if "i < length bytes" "?at i" for i
    using that starts_sequence_starts nth_mem unfolding fold_or list_ex_iff by blast
  show ?thesis
  proof (cases "fold (\<lambda>b found. found \<or> starts_a_removed_character b) bytes False")
    case True
    then show ?thesis unfolding may_strip_def windows tail places by (simp only: if_False not_True_eq_False)
  next
    case False
    with first have "\<not> (\<exists>i < length bytes. ?at i)" by blast
    with False show ?thesis unfolding may_strip_def by (simp only: if_True not_False_eq_True)
  qed
qed

lemma may_strip_iff:
  assumes "valid_str raw"
  shows "may_strip (utf8 raw) \<longleftrightarrow> \<not> list_all is_kept raw"
proof
  assume "\<not> list_all is_kept raw"
  then obtain c where c: "c \<in> set raw" "\<not> is_kept c" by (auto simp: list_all_iff)
  obtain a b where raw: "raw = a @ c # b" using split_list [OF c(1)] by blast
  let ?i = "str_len a"
  have at: "utf8 raw ! (?i + k) = utf8_char c ! k" "?i + k < length (utf8 raw)" if "k < char_len c" for k
    using that by (simp_all add: raw utf8_append utf8_Cons nth_append)
  have "starts_a_removed_sequence (utf8 raw ! ?i) (byte_or_0 (utf8 raw) (?i + 1)) (byte_or_0 (utf8 raw) (?i + 2))
      \<longleftrightarrow> \<not> is_kept c"
    using assms at [of 0] at [of 1] at [of 2]
    by (intro removed_sequence_iff) (simp_all add: raw byte_or_0_def)
  with c(2) at(2) [of 0] show "may_strip (utf8 raw)" unfolding may_strip_iff_place by auto
next
  assume "may_strip (utf8 raw)"
  then obtain i where i: "i < str_len raw"
    "starts_a_removed_sequence (utf8 raw ! i) (byte_or_0 (utf8 raw) (i + 1)) (byte_or_0 (utf8 raw) (i + 2))"
    unfolding may_strip_iff_place by auto
  then have "\<not> continuation (utf8 raw ! i)" using starts_sequence_starts flagged_not_continuation by blast
  then have "boundary raw i" using boundary_iff_byte [OF assms i(1)] by blast
  then obtain a c b where c: "raw = a @ c # b" "\<And>k. k < char_len c \<Longrightarrow> utf8 raw ! (i + k) = utf8_char c ! k"
    "i + char_len c \<le> str_len raw"
    using char_at_boundary [OF _ i(1)] by metis
  have "starts_a_removed_sequence (utf8 raw ! i) (byte_or_0 (utf8 raw) (i + 1)) (byte_or_0 (utf8 raw) (i + 2))
      \<longleftrightarrow> \<not> is_kept c"
    using assms c(1,3) c(2) [of 0] c(2) [of 1] c(2) [of 2]
    by (intro removed_sequence_iff) (simp_all add: byte_or_0_def)
  with i(2) c(1) show "\<not> list_all is_kept raw" by auto
qed

text \<open>C33: the stripper ends on every text, never slices off a character boundary, and loses nothing it
  does not mean to. For every text it returns: what it returns is the same as when every character is
  read and pushed on its own, so the copying of clean stretches is only faster; no control character,
  C1 control or bidirectional mark is left in it except its own markers, and once those are taken out
  it is made of kept characters of the text, in their order. The byte scan that lets a caller skip
  the stripper is exact: it holds precisely for the texts with a character to remove, and every other
  text comes back as it is.\<close>

theorem strip_marking_total:
  assumes "valid_str raw"
  shows "\<exists>plain marked. strip_marking raw = Some (plain, marked) \<and>
    strip_marking raw = strip_each raw 0 False False [] \<and>
    (marked \<longleftrightarrow> BOUNDARY \<in> set plain) \<and>
    list_all is_kept (remove_boundaries plain) \<and>
    subseq (remove_boundaries plain) raw \<and>
    (may_strip (utf8 raw) \<longleftrightarrow> \<not> list_all is_kept raw) \<and>
    (may_strip (utf8 raw) \<or> plain = raw)"
proof -
  have start: "boundary raw 0" by simp
  have eq: "strip_marking raw = strip_each raw 0 False False []"
    unfolding strip_marking_def by (rule strip_loop_eq_each [OF assms start])
  obtain more where more: "strip_each raw 0 False False [] = Some ([] @ more, False \<or> BOUNDARY \<in> set more)"
      "list_all (\<lambda>c. is_kept c \<or> c = BOUNDARY) more" "subseq (filter (\<lambda>c. c \<noteq> BOUNDARY) more) (unread raw 0)"
    using strip_each_run [OF assms start, of False False "[]"] by blast
  have removed: "remove_boundaries more = filter (\<lambda>c. c \<noteq> BOUNDARY) more"
  proof (cases "BOUNDARY \<in> set more")
    case False
    then have "filter (\<lambda>c. c \<noteq> BOUNDARY) more = more" by (intro filter_True) auto
    with False show ?thesis by (simp add: remove_boundaries_def List.member_iff)
  qed (simp add: remove_boundaries_def List.member_iff)
  have "strip_each raw 0 False False [] = Some (raw, False)" if "list_all is_kept raw"
    using each_copies [of raw "[]" raw "[]" False "[]"] that boundary_end [of raw] next_char_None [of raw "str_len raw"]
    by (simp add: strip_each.simps [of raw "str_len raw"])
  then have "may_strip (utf8 raw) \<or> more = raw" using more(1) may_strip_iff [OF assms] by auto
  moreover have "unread raw 0 = raw" by (simp add: unread_def)
  moreover have "list_all is_kept (filter (\<lambda>c. c \<noteq> BOUNDARY) more)" using more(2) by (auto simp: list_all_iff)
  ultimately show ?thesis
    unfolding eq using more by (intro exI [of _ more] exI [of _ "BOUNDARY \<in> set more"])
      (simp add: removed may_strip_iff [OF assms])
qed

text \<open>A letter, a lone escape and another letter: the escape goes and the letters are joined.\<close>

lemma strip_marking_total_witness:
  "\<exists>plain. strip_marking [0x61, 0x1b, 0x62] = Some (plain, BOUNDARY \<in> set plain) \<and>
     list_all is_kept (remove_boundaries plain) \<and> subseq (remove_boundaries plain) [0x61, 0x1b, 0x62] \<and>
     may_strip (utf8 [0x61, 0x1b, 0x62])"
proof -
  have "valid_str [0x61, 0x1b, 0x62]" by (simp add: scalar_value_def)
  from strip_marking_total [OF this] show ?thesis by (auto simp: is_kept_def is_unsafe_to_render_def)
qed

end
