(* ===== verification/Utf8_Lossy.thy ===== *)
theory Utf8_Lossy imports Utf8 begin

text \<open>
  Bytes that need not be UTF-8, as the standard library reads them: \<open>String::from_utf8\<close>, which gives the
  string or the length of the valid prefix, \<open>utf8_chunks\<close>, which splits into valid runs each followed
  by one undecodable sequence, and \<open>String::from_utf8_lossy\<close>, which puts one replacement character
  in the place of each such sequence.
\<close>

definition REPLACEMENT :: uchar where
  "REPLACEMENT = 0xFFFD"

subsection \<open>One character\<close>

definition peek :: "byte list \<Rightarrow> nat" where
  "peek bs = (case bs of [] \<Rightarrow> 0 | b # _ \<Rightarrow> unat b)"

definition continues :: "nat \<Rightarrow> bool" where
  "continues b \<longleftrightarrow> 0x80 \<le> b \<and> b \<le> 0xBF"

definition second_of_three :: "nat \<Rightarrow> nat \<Rightarrow> bool" where
  "second_of_three a b \<longleftrightarrow>
     (if a = 0xE0 then 0xA0 \<le> b \<and> b \<le> 0xBF
      else if a = 0xED then 0x80 \<le> b \<and> b \<le> 0x9F
      else continues b)"

definition second_of_four :: "nat \<Rightarrow> nat \<Rightarrow> bool" where
  "second_of_four a b \<longleftrightarrow>
     (if a = 0xF0 then 0x90 \<le> b \<and> b \<le> 0xBF
      else if a = 0xF4 then 0x80 \<le> b \<and> b \<le> 0x8F
      else continues b)"

text \<open>
  The next character and the bytes after it, or the number of bytes the decoder gives up on: the
  longest prefix that could still have become a character, and at least one byte.
\<close>

fun utf8_read :: "byte list \<Rightarrow> nat + (uchar \<times> byte list)" where
  "utf8_read [] = Inl 0"
| "utf8_read (b # s) =
     (let a = unat b; b1 = peek s; b2 = peek (drop 1 s); b3 = peek (drop 2 s)
      in if a < 0x80 then Inr (a, s)
         else if 0xC2 \<le> a \<and> a \<le> 0xDF then
           (if \<not> continues b1 then Inl 1
            else Inr ((a - 0xC0) * 64 + (b1 - 0x80), drop 1 s))
         else if 0xE0 \<le> a \<and> a \<le> 0xEF then
           (if \<not> second_of_three a b1 then Inl 1
            else if \<not> continues b2 then Inl 2
            else Inr (((a - 0xE0) * 64 + (b1 - 0x80)) * 64 + (b2 - 0x80), drop 2 s))
         else if 0xF0 \<le> a \<and> a \<le> 0xF4 then
           (if \<not> second_of_four a b1 then Inl 1
            else if \<not> continues b2 then Inl 2
            else if \<not> continues b3 then Inl 3
            else Inr ((((a - 0xF0) * 64 + (b1 - 0x80)) * 64 + (b2 - 0x80)) * 64 + (b3 - 0x80), drop 3 s))
         else Inl 1)"

lemma peek_continues: "0 < peek s \<Longrightarrow> \<exists>b s'. s = b # s' \<and> peek s = unat b"
  by (cases s) (auto simp: peek_def)

lemma peek_simps [simp]: "peek [] = 0" "peek (b # s) = unat b"
  by (simp_all add: peek_def)

lemma utf8_read_shorter:
  "utf8_read bs = Inr (c, rest) \<Longrightarrow> length rest < length bs"
  by (cases bs) (auto simp: Let_def split: if_splits)

lemma utf8_read_gives_up:
  assumes "utf8_read bs = Inl k" "bs \<noteq> []"
  shows "0 < k \<and> k \<le> 3 \<and> k \<le> length bs"
proof -
  obtain b s where bs: "bs = b # s" using assms(2) by (cases bs) auto
  have "s \<noteq> []" if "second_of_three a (peek s) \<or> second_of_four a (peek s)" for a
    using that by (auto simp: second_of_three_def second_of_four_def continues_def split: if_splits)
  moreover have "drop 1 s \<noteq> []" if "continues (peek (drop 1 s))"
    using that by (auto simp: continues_def simp del: drop_eq_Nil)
  ultimately show ?thesis
    using assms(1) unfolding bs
    by (auto simp: Let_def Suc_le_eq split: if_splits)
qed

lemma nums_unat:
  assumes "scalar_value c"
  shows "map unat (utf8_char c) = utf8_nums c"
  using utf8_nums_bound [OF assms] by (auto simp: utf8_char_def unat_byte intro!: map_idI)

text \<open>The encoding by digits of six bits.\<close>

lemma six_bit_digits:
  obtains w x y z :: nat where "x < 64" "y < 64" "z < 64" "c = ((w * 64 + x) * 64 + y) * 64 + z"
proof
  show "c = ((c div 64 div 64 div 64 * 64 + c div 64 div 64 mod 64) * 64 + c div 64 mod 64) * 64 + c mod 64"
    by simp
qed simp_all

lemma digits_less:
  fixes w x y z :: nat
  assumes "x < 64" "y < 64" "z < 64"
  shows "((w * 64 + x) * 64 + y) * 64 + z < 0x80 \<longleftrightarrow> w = 0 \<and> x = 0 \<and> y < 2"
    and "((w * 64 + x) * 64 + y) * 64 + z < 0x800 \<longleftrightarrow> w = 0 \<and> x = 0 \<and> y < 32"
    and "((w * 64 + x) * 64 + y) * 64 + z < 0x10000 \<longleftrightarrow> w = 0 \<and> x < 16"
proof -
  have n: "((w * 64 + x) * 64 + y) * 64 + z = w * 262144 + x * 4096 + y * 64 + z"
    by (simp add: distrib_right)
  have big: "0 < w \<Longrightarrow> 0x10000 \<le> w * 262144 + x * 4096 + y * 64 + z" by simp
  have mid: "0 < x \<Longrightarrow> 0x800 \<le> w * 262144 + x * 4096 + y * 64 + z" by simp
  show "((w * 64 + x) * 64 + y) * 64 + z < 0x80 \<longleftrightarrow> w = 0 \<and> x = 0 \<and> y < 2"
    using assms mid big unfolding n by (cases "w = 0"; cases "x = 0") auto
  show "((w * 64 + x) * 64 + y) * 64 + z < 0x800 \<longleftrightarrow> w = 0 \<and> x = 0 \<and> y < 32"
    using assms mid big unfolding n by (cases "w = 0"; cases "x = 0") auto
  show "((w * 64 + x) * 64 + y) * 64 + z < 0x10000 \<longleftrightarrow> w = 0 \<and> x < 16"
    using assms mid big unfolding n by (cases "w = 0") auto
qed

lemma utf8_nums_digits:
  assumes "x < 64" "y < 64" "z < 64"
  shows "utf8_nums (((w * 64 + x) * 64 + y) * 64 + z) =
     (if w = 0 \<and> x = 0 \<and> y < 2 then [y * 64 + z]
      else if w = 0 \<and> x = 0 \<and> y < 32 then [0xC0 + y, 0x80 + z]
      else if w = 0 \<and> x < 16 then [0xE0 + x, 0x80 + y, 0x80 + z]
      else [0xF0 + w, 0x80 + x, 0x80 + y, 0x80 + z])"
proof -
  let ?c = "((w * 64 + x) * 64 + y) * 64 + z"
  have split: "(a * 64 + b) div 64 = a" "(a * 64 + b) mod 64 = b" if "b < 64" for a b :: nat
    using that div_mult_self3 [of 64 a b] mod_mult_self3 [of a 64 b] by simp_all
  have e: "?c div 64 = (w * 64 + x) * 64 + y" "?c mod 64 = z" by (rule split, rule assms)+
  have m: "((w * 64 + x) * 64 + y) div 64 = w * 64 + x" "((w * 64 + x) * 64 + y) mod 64 = y"
    by (rule split, rule assms)+
  have n: "(w * 64 + x) div 64 = w" "(w * 64 + x) mod 64 = x" by (rule split, rule assms)+
  have shifts: "c div 4096 = c div 64 div 64" "c div 262144 = c div 64 div 64 div 64" for c :: nat
    by (simp_all add: div_mult2_eq [symmetric])
  have d: "?c div 64 = (w * 64 + x) * 64 + y" "?c div 4096 = w * 64 + x" "?c div 262144 = w"
    "?c mod 64 = z" "?c div 64 mod 64 = y" "?c div 4096 mod 64 = x"
    by (simp_all only: shifts e m n)
  note lt = digits_less [OF assms, of w]
  show ?thesis unfolding utf8_nums_def lt d m n by auto
qed

text \<open>The reader is the inverse of the encoder, in both directions.\<close>

lemma utf8_read_char:
  assumes "scalar_value c"
  shows "utf8_read (utf8_char c @ s) = Inr (c, s)"
proof -
  obtain w x y z where d: "x < 64" "y < 64" "z < 64" "((w * 64 + x) * 64 + y) * 64 + z = c"
    using six_bit_digits [of c] by metis
  note nd = utf8_nums_digits [OF d(1-3), of w, unfolded d(4)]
  have c: "c < 0xD800 \<or> 0xE000 \<le> c \<and> c < 0x110000" using assms by (simp add: scalar_value_def)
  have bytes: "map unat (utf8_char c) = utf8_nums c" by (rule nums_unat [OF assms])
  consider "w = 0" "x = 0" "y < 2" | "w = 0" "x = 0" "2 \<le> y" "y < 32"
    | "w = 0" "x < 16" "x = 0 \<longrightarrow> 32 \<le> y" | "0 < w \<or> 16 \<le> x"
    by linarith
  then show ?thesis
  proof cases
    case 1
    then have "c < 0x80" using d by simp
    then have "map unat (utf8_char c) = [c]" using bytes by (simp add: utf8_nums_def)
    with \<open>c < 0x80\<close> show ?thesis by (auto simp: map_eq_Cons_conv)
  next
    case 2
    then have "map unat (utf8_char c) = [0xC0 + y, 0x80 + z]" using bytes unfolding nd by simp
    then obtain b1 b2 where b: "utf8_char c = [b1, b2]" "unat b1 = 0xC0 + y" "unat b2 = 0x80 + z"
      by (auto simp: map_eq_Cons_conv)
    have "y * 64 + z = c" using 2 d(4) by simp
    then show ?thesis using 2 d(1-3) by (simp add: b Let_def continues_def)
  next
    case 3
    then have "map unat (utf8_char c) = [0xE0 + x, 0x80 + y, 0x80 + z]" using bytes unfolding nd by auto
    then obtain b1 b2 b3 where b: "utf8_char c = [b1, b2, b3]"
        "unat b1 = 0xE0 + x" "unat b2 = 0x80 + y" "unat b3 = 0x80 + z"
      by (auto simp: map_eq_Cons_conv)
    have "x = 13 \<longrightarrow> y < 32" using c d 3 by auto
    moreover have "(x * 64 + y) * 64 + z = c" using 3 d(4) by simp
    ultimately show ?thesis
      using 3 d(1-3) by (auto simp: b Let_def continues_def second_of_three_def)
  next
    case 4
    then have "map unat (utf8_char c) = [0xF0 + w, 0x80 + x, 0x80 + y, 0x80 + z]"
      using bytes unfolding nd by auto
    then obtain b1 b2 b3 b4 where b: "utf8_char c = [b1, b2, b3, b4]"
        "unat b1 = 0xF0 + w" "unat b2 = 0x80 + x" "unat b3 = 0x80 + y" "unat b4 = 0x80 + z"
      by (auto simp: map_eq_Cons_conv)
    have "w \<le> 4" "w = 4 \<longrightarrow> x < 16" using c d by auto
    then show ?thesis
      using 4 d by (auto simp: b Let_def continues_def second_of_four_def)
  qed
qed

lemma utf8_read_Inr:
  assumes "utf8_read bs = Inr (c, rest)"
  shows "scalar_value c \<and> bs = utf8_char c @ rest"
proof -
  obtain b s where bs: "bs = b # s" using assms by (cases bs) auto
  let ?a = "unat b" and ?x = "peek s" and ?y = "peek (drop 1 s)" and ?z = "peek (drop 2 s)"
  have whole: "bs = utf8_char c @ rest"
    if "map unat bs = utf8_nums c @ map unat rest"
  proof -
    have "map of_nat (map unat bs) = map (of_nat :: nat \<Rightarrow> byte) (utf8_nums c @ map unat rest)" using that by simp
    then show ?thesis by (simp add: utf8_char_def comp_def)
  qed
  consider (one) "?a < 0x80"
    | (two) "0xC2 \<le> ?a" "?a \<le> 0xDF" | (three) "0xE0 \<le> ?a" "?a \<le> 0xEF" | (four) "0xF0 \<le> ?a" "?a \<le> 0xF4"
    using assms unfolding bs by (fastforce simp: Let_def split: if_splits)
  then show ?thesis
  proof cases
    case one
    then show ?thesis using assms whole unfolding bs
      by (auto simp: scalar_value_def utf8_nums_def)
  next
    case two
    then have x: "continues ?x" and c: "c = (?a - 0xC0) * 64 + (?x - 0x80)" and r: "rest = drop 1 s"
      using assms unfolding bs by (auto simp: Let_def split: if_splits)
    then have s: "map unat s = ?x # map unat rest" by (cases s) (auto simp: continues_def)
    have x': "0x80 \<le> ?x" "?x \<le> 0xBF" using x by (simp_all add: continues_def)
    obtain p q where v: "?a = 0xC0 + p" "?x = 0x80 + q"
      using le_Suc_ex [of "0xC0" ?a] le_Suc_ex [OF x'(1)] two(1) that by fastforce
    have bounds: "2 \<le> p" "p < 32" "q < 64" using two x' unfolding v by auto
    have c': "c = ((0 * 64 + 0) * 64 + p) * 64 + q" unfolding c v by simp
    have "utf8_nums c = [?a, ?x]"
      unfolding c' v using utf8_nums_digits [of 0 p q 0] bounds by simp
    moreover have "scalar_value c" using bounds unfolding c' scalar_value_def by simp
    ultimately show ?thesis using whole s unfolding bs by simp
  next
    case three
    then have x: "second_of_three ?a ?x" "continues ?y" and r: "rest = drop 2 s"
      and c: "c = ((?a - 0xE0) * 64 + (?x - 0x80)) * 64 + (?y - 0x80)"
      using assms unfolding bs by (auto simp: Let_def split: if_splits)
    then have x': "0x80 \<le> ?x" "?x \<le> 0xBF" "?a = 0xE0 \<longrightarrow> 0xA0 \<le> ?x" "?a = 0xED \<longrightarrow> ?x \<le> 0x9F"
      "0x80 \<le> ?y" "?y \<le> 0xBF"
      by (auto simp: second_of_three_def continues_def split: if_splits)
    then have s: "map unat s = ?x # ?y # map unat rest"
      unfolding r by (cases s; cases "tl s") auto
    obtain p q t where v: "?a = 0xE0 + p" "?x = 0x80 + q" "?y = 0x80 + t"
      using le_Suc_ex [OF three(1)] le_Suc_ex [OF x'(1)] le_Suc_ex [OF x'(5)] that by blast
    have bounds: "p < 16" "q < 64" "t < 64" "p = 0 \<longrightarrow> 32 \<le> q" "p = 13 \<longrightarrow> q < 32"
      using three x' unfolding v by auto
    have c': "c = ((0 * 64 + p) * 64 + q) * 64 + t" unfolding c v by simp
    have "utf8_nums c = [?a, ?x, ?y]"
      unfolding c' v using utf8_nums_digits [of p q t 0] bounds by auto
    moreover have "scalar_value c"
      using bounds by (cases p "13 :: nat" rule: linorder_cases) (auto simp: c' scalar_value_def)
    ultimately show ?thesis using whole s unfolding bs by simp
  next
    case four
    then have x: "second_of_four ?a ?x" "continues ?y" "continues ?z" and r: "rest = drop 3 s"
      and c: "c = (((?a - 0xF0) * 64 + (?x - 0x80)) * 64 + (?y - 0x80)) * 64 + (?z - 0x80)"
      using assms unfolding bs by (auto simp: Let_def split: if_splits)
    then have x': "0x80 \<le> ?x" "?x \<le> 0xBF" "?a = 0xF0 \<longrightarrow> 0x90 \<le> ?x" "?a = 0xF4 \<longrightarrow> ?x \<le> 0x8F"
      "0x80 \<le> ?y" "?y \<le> 0xBF" "0x80 \<le> ?z" "?z \<le> 0xBF"
      by (auto simp: second_of_four_def continues_def split: if_splits)
    then have s: "map unat s = ?x # ?y # ?z # map unat rest"
      unfolding r by (cases s; cases "tl s"; cases "tl (tl s)") auto
    obtain p q t u where v: "?a = 0xF0 + p" "?x = 0x80 + q" "?y = 0x80 + t" "?z = 0x80 + u"
      using le_Suc_ex [OF four(1)] le_Suc_ex [OF x'(1)] le_Suc_ex [OF x'(5)] le_Suc_ex [OF x'(7)] that by blast
    have bounds: "q < 64" "t < 64" "u < 64" "p \<le> 4" "p = 0 \<longrightarrow> 16 \<le> q" "p = 4 \<longrightarrow> q < 16"
      using four x' unfolding v by auto
    have c': "c = ((p * 64 + q) * 64 + t) * 64 + u" unfolding c v by simp
    have "utf8_nums c = [?a, ?x, ?y, ?z]"
      unfolding c' v using utf8_nums_digits [OF bounds(1-3), of p] bounds by auto
    moreover have "scalar_value c"
      using bounds by (cases "p = 0"; cases "p = 4") (auto simp: c' scalar_value_def)
    ultimately show ?thesis using whole s unfolding bs by simp
  qed
qed

lemma utf8_read_utf8: "valid_str s \<Longrightarrow> s = c # t \<Longrightarrow> utf8_read (utf8 s @ r) = Inr (c, utf8 t @ r)"
  by (simp add: utf8_Cons utf8_read_char)

subsection \<open>Whole texts\<close>

text \<open>\<open>String::from_utf8\<close>; an error carries \<open>valid_up_to\<close>.\<close>

function from_utf8 :: "byte list \<Rightarrow> nat + ustring" where
  "from_utf8 bs =
     (if bs = [] then Inr []
      else case utf8_read bs of
        Inl _ \<Rightarrow> Inl 0
      | Inr (c, rest) \<Rightarrow>
          (case from_utf8 rest of
             Inl n \<Rightarrow> Inl (length bs - length rest + n)
           | Inr s \<Rightarrow> Inr (c # s)))"
  by pat_completeness auto
termination
  by (relation "measure length") (auto dest: utf8_read_shorter)

function valid_run :: "byte list \<Rightarrow> ustring \<times> byte list" where
  "valid_run bs =
     (if bs = [] then ([], [])
      else case utf8_read bs of
        Inl _ \<Rightarrow> ([], bs)
      | Inr (c, rest) \<Rightarrow> (case valid_run rest of (v, r) \<Rightarrow> (c # v, r)))"
  by pat_completeness auto
termination
  by (relation "measure length") (auto dest: utf8_read_shorter)

declare from_utf8.simps [simp del] valid_run.simps [simp del]

lemma valid_run_read:
  "utf8_read bs = Inl k \<Longrightarrow> valid_run bs = ([], bs)"
  "utf8_read bs = Inr (c, rest) \<Longrightarrow> valid_run bs = (c # fst (valid_run rest), snd (valid_run rest))"
  by (auto simp: valid_run.simps [of bs] split: prod.split)

lemma from_utf8_read:
  "from_utf8 [] = Inr []"
  "utf8_read bs = Inl k \<Longrightarrow> bs \<noteq> [] \<Longrightarrow> from_utf8 bs = Inl 0"
  "utf8_read bs = Inr (c, rest) \<Longrightarrow> from_utf8 bs =
     (case from_utf8 rest of Inl n \<Rightarrow> Inl (length bs - length rest + n) | Inr s \<Rightarrow> Inr (c # s))"
  by (auto simp: from_utf8.simps [of bs] from_utf8.simps [of "[]"] split: sum.split)

text \<open>Character by character: what is left to read is empty, stuck, or starts with a character.\<close>

lemma utf8_read_induct [case_names empty stuck char]:
  assumes "P []"
    and "\<And>bs k. utf8_read bs = Inl k \<Longrightarrow> bs \<noteq> [] \<Longrightarrow> 0 < k \<Longrightarrow> k \<le> length bs \<Longrightarrow> P (drop k bs) \<Longrightarrow> P bs"
    and "\<And>c rest. scalar_value c \<Longrightarrow> utf8_read (utf8_char c @ rest) = Inr (c, rest) \<Longrightarrow> P rest \<Longrightarrow>
      P (utf8_char c @ rest)"
  shows "P bs"
proof (induction bs rule: length_induct)
  case (1 bs)
  show ?case
  proof (cases "utf8_read bs")
    case (Inl k)
    show ?thesis
    proof (cases "bs = []")
      case False
      then have "0 < k" "k \<le> length bs" using utf8_read_gives_up [OF Inl] by auto
      then show ?thesis using assms(2) [OF Inl False] 1 False by simp
    qed (simp add: assms(1))
  next
    case (Inr r)
    obtain c rest where r: "r = (c, rest)" by (cases r)
    with Inr have "scalar_value c" "bs = utf8_char c @ rest" "length rest < length bs"
      using utf8_read_Inr utf8_read_shorter by blast+
    then show ?thesis using assms(3) [of c rest] 1 Inr r by simp
  qed
qed

lemma valid_run_split:
  "bs = utf8 (fst (valid_run bs)) @ snd (valid_run bs) \<and> valid_str (fst (valid_run bs)) \<and>
   (\<forall>c r. utf8_read (snd (valid_run bs)) \<noteq> Inr (c, r))"
proof (induction bs rule: utf8_read_induct)
  case empty
  then show ?case by (simp add: valid_run.simps)
next
  case (stuck bs k)
  then show ?case by (simp add: valid_run_read(1))
next
  case (char c rest)
  then show ?case by (simp add: valid_run_read(2) utf8_Cons)
qed

text \<open>\<open>utf8_chunks\<close>: a valid run and the undecodable bytes after it, none at the end of the text.\<close>

definition given_up :: "byte list \<Rightarrow> nat" where
  "given_up bs = (case utf8_read bs of Inl k \<Rightarrow> k | Inr _ \<Rightarrow> 0)"

lemma chunk_shorter:
  assumes "bs \<noteq> []"
  shows "length (drop (given_up (snd (valid_run bs))) (snd (valid_run bs))) < length bs"
proof (cases "snd (valid_run bs) = []")
  case False
  then obtain k where "utf8_read (snd (valid_run bs)) = Inl k" "0 < k"
    using valid_run_split [of bs] utf8_read_gives_up
    by (cases "utf8_read (snd (valid_run bs))") fastforce+
  moreover have "length bs = str_len (fst (valid_run bs)) + length (snd (valid_run bs))"
    using valid_run_split [of bs] by (metis length_append length_utf8)
  ultimately show ?thesis using False by (cases "snd (valid_run bs)") (auto simp: given_up_def)
qed (use assms in simp)

function utf8_chunks :: "byte list \<Rightarrow> (ustring \<times> byte list) list" where
  "utf8_chunks bs =
     (if bs = [] then []
      else let rest = snd (valid_run bs); k = given_up rest
           in (fst (valid_run bs), take k rest) # utf8_chunks (drop k rest))"
  by pat_completeness auto
termination
  by (relation "measure length") (use chunk_shorter in auto)

declare utf8_chunks.simps [simp del]

definition repaired :: "ustring \<times> byte list \<Rightarrow> ustring" where
  "repaired chunk = fst chunk @ (if snd chunk = [] then [] else [REPLACEMENT])"

definition from_utf8_lossy :: "byte list \<Rightarrow> ustring" where
  "from_utf8_lossy bs = concat (map repaired (utf8_chunks bs))"

subsection \<open>One character at a time\<close>

text \<open>What the repaired text should be: each character as it is, each undecodable sequence replaced.\<close>

function lossy_each :: "byte list \<Rightarrow> ustring" where
  "lossy_each bs =
     (if bs = [] then []
      else case utf8_read bs of
        Inl k \<Rightarrow> REPLACEMENT # lossy_each (drop k bs)
      | Inr (c, rest) \<Rightarrow> c # lossy_each rest)"
  by pat_completeness auto
termination
  by (relation "measure length") (auto dest: utf8_read_shorter utf8_read_gives_up)

declare lossy_each.simps [simp del]

lemma lossy_each_read [simp]:
  "lossy_each [] = []"
  "scalar_value c \<Longrightarrow> lossy_each (utf8_char c @ rest) = c # lossy_each rest"
  using utf8_read_char [of c rest]
  by (auto simp: lossy_each.simps [of "[]"] lossy_each.simps [of "utf8_char c @ rest"] utf8_char_not_Nil)

lemma lossy_each_stuck:
  "utf8_read bs = Inl k \<Longrightarrow> bs \<noteq> [] \<Longrightarrow> lossy_each bs = REPLACEMENT # lossy_each (drop k bs)"
  by (simp add: lossy_each.simps [of bs])

lemma lossy_each_utf8: "valid_str s \<Longrightarrow> lossy_each (utf8 s @ rest) = s @ lossy_each rest"
  by (induction s) (simp_all add: utf8_Cons)

lemma from_utf8_Inr_iff: "from_utf8 bs = Inr s \<longleftrightarrow> valid_str s \<and> bs = utf8 s"
proof (induction bs arbitrary: s rule: utf8_read_induct)
  case empty
  have "[] = utf8 s \<longleftrightarrow> s = []" by (metis length_utf8 list.size(3) str_len_0_iff utf8_Nil)
  then show ?case by (auto simp: from_utf8_read(1))
next
  case (stuck bs k)
  moreover have "\<not> (valid_str s \<and> bs = utf8 s)"
    using stuck(1,2) utf8_read_char by (cases s) (auto simp: utf8_Cons)
  ultimately show ?case by (simp add: from_utf8_read(2))
next
  case (char c rest)
  have "valid_str s \<and> utf8_char c @ rest = utf8 s \<longleftrightarrow> (\<exists>t. s = c # t \<and> valid_str t \<and> rest = utf8 t)"
  proof (cases s)
    case Nil
    then show ?thesis by (simp add: utf8_char_not_Nil)
  next
    case (Cons d t)
    show ?thesis unfolding Cons
    proof
      assume *: "valid_str (d # t) \<and> utf8_char c @ rest = utf8 (d # t)"
      then have "scalar_value d" "valid_str t" by simp_all
      moreover have "utf8_char c @ rest = utf8_char d @ utf8 t" using * by (simp only: utf8_Cons)
      ultimately show "\<exists>t'. d # t = c # t' \<and> valid_str t' \<and> rest = utf8 t'"
        using utf8_char_prefix_free [OF char(1)] by blast
    next
      assume "\<exists>t'. d # t = c # t' \<and> valid_str t' \<and> rest = utf8 t'"
      then show "valid_str (d # t) \<and> utf8_char c @ rest = utf8 (d # t)"
        using char(1) by (elim exE conjE) (simp only: utf8_Cons list.inject list.pred_inject simp_thms)
    qed
  qed
  moreover have "from_utf8 (utf8_char c @ rest) = Inr s \<longleftrightarrow> (\<exists>t. s = c # t \<and> from_utf8 rest = Inr t)"
    unfolding from_utf8_read(3) [OF char(2)] by (cases "from_utf8 rest") auto
  ultimately show ?case unfolding char(3) by blast
qed

text \<open>The error names the end of the longest run of whole characters.\<close>

lemma from_utf8_error:
  "from_utf8 bs = Inl n \<Longrightarrow> n = str_len (fst (valid_run bs)) \<and> snd (valid_run bs) \<noteq> []"
proof (induction bs arbitrary: n rule: utf8_read_induct)
  case empty
  then show ?case by (simp add: from_utf8_read(1))
next
  case (stuck bs k)
  then show ?case by (simp add: from_utf8_read(2) valid_run_read(1))
next
  case (char c rest)
  then show ?case by (auto simp: from_utf8_read(3) valid_run_read(2) split: sum.splits)
qed

lemma chunks_lossy: "from_utf8_lossy bs = lossy_each bs"
proof (induction bs rule: utf8_chunks.induct)
  case (1 bs)
  show ?case
  proof (cases "bs = []")
    case True
    then show ?thesis by (simp add: from_utf8_lossy_def utf8_chunks.simps)
  next
    case False
    let ?v = "fst (valid_run bs)" and ?r = "snd (valid_run bs)"
    have IH: "from_utf8_lossy (drop (given_up ?r) ?r) = lossy_each (drop (given_up ?r) ?r)"
      using 1 [OF False refl refl] .
    have "from_utf8_lossy bs = repaired (?v, take (given_up ?r) ?r) @ lossy_each (drop (given_up ?r) ?r)"
      unfolding IH [symmetric] from_utf8_lossy_def utf8_chunks.simps [of bs]
      using False by (simp only: if_False Let_def list.map concat.simps)
    also have "\<dots> = ?v @ lossy_each ?r"
    proof (cases "?r = []")
      case True
      then show ?thesis by (simp add: repaired_def)
    next
      case False
      then obtain k where "utf8_read ?r = Inl k" "0 < k"
        using valid_run_split [of bs] utf8_read_gives_up by (cases "utf8_read ?r") fastforce+
      then show ?thesis using False
        by (simp add: repaired_def given_up_def lossy_each_stuck)
    qed
    also have "\<dots> = lossy_each bs"
      using valid_run_split [of bs] lossy_each_utf8 by metis
    finally show ?thesis .
  qed
qed

lemma lossy_utf8: "valid_str s \<Longrightarrow> from_utf8_lossy (utf8 s) = s"
  using lossy_each_utf8 [of s "[]"] by (simp add: chunks_lossy)

lemma char_len_REPLACEMENT: "char_len REPLACEMENT = 3" "scalar_value REPLACEMENT"
  by (simp_all add: char_len_def REPLACEMENT_def scalar_value_def)

lemma lossy_valid_bounded: "valid_str (lossy_each bs) \<and> str_len (lossy_each bs) \<le> 3 * length bs"
proof (induction bs rule: utf8_read_induct)
  case (stuck bs k)
  then show ?case by (auto simp: lossy_each_stuck char_len_REPLACEMENT)
next
  case (char c rest)
  then show ?case by (auto simp: char_len_REPLACEMENT)
qed simp

end
