(* ===== verification/Line_Stream.thy ===== *)
theory Line_Stream imports Host_Limits Utf8_Lossy Text_Norm begin

text \<open>
  A vendor's standard output as lines (\<open>LineStream\<close> of \<open>process.rs\<close>, the search of
  \<open>process/line_break.rs\<close>): chunks of bytes in, whole lines of text out, under a cap on one line and
  a cap on everything held unread. The byte source is the list of what it will answer: a chunk, its
  end, or an error; where the list stops the source has not answered yet. A sum of lengths does not
  wrap: every term is the size of bytes held in memory at the same time.
\<close>

subsection \<open>Finding a line feed\<close>

definition LINE_SCAN_BLOCK :: usize where
  "LINE_SCAN_BLOCK = 32"

definition holds_line_feed :: "byte list \<Rightarrow> bool" where
  "holds_line_feed bytes = fold (\<lambda>b found. found \<or> b = 0x0a) bytes False"

definition first_line_feed :: "byte list \<Rightarrow> usize option" where
  "first_line_feed bytes =
     (let blocks = fst (as_chunks LINE_SCAN_BLOCK bytes);
          clean = length (takeWhile (\<lambda>block. \<not> holds_line_feed block) blocks);
          from_at = clean * LINE_SCAN_BLOCK
      in map_option (\<lambda>offset. from_at + offset) (position (\<lambda>b. b = 0x0a) (drop from_at bytes)))"

subsection \<open>Reading a record\<close>

definition repair :: "byte list \<Rightarrow> usize \<Rightarrow> ustring" where
  "repair raw valid_up_to =
     (case from_utf8 (take valid_up_to raw) of
        Inl _ \<Rightarrow> from_utf8_lossy raw
      | Inr prefix \<Rightarrow>
          prefix @ concat (map (\<lambda>(valid, invalid).
            valid @ (if invalid \<noteq> [] then [REPLACEMENT] else [])) (utf8_chunks (drop valid_up_to raw))))"

definition decode_record :: "byte list \<Rightarrow> ustring" where
  "decode_record raw =
     (case from_utf8 raw of
        Inr valid \<Rightarrow> valid
      | Inl valid_up_to \<Rightarrow> repair raw valid_up_to)"

subsection \<open>The stream\<close>

record line_stream =
  ls_limits :: line_limits
  ls_buffer :: "byte list"
  ls_pending :: "ustring list"
  ls_queued :: usize
  ls_ended :: bool

definition line_stream_new :: "line_limits \<Rightarrow> line_stream" where
  "line_stream_new l = \<lparr>ls_limits = l, ls_buffer = [], ls_pending = [], ls_queued = 0, ls_ended = False\<rparr>"

definition line_too_long :: "line_stream \<Rightarrow> usize \<Rightarrow> error" where
  "line_too_long ls received =
     LimitExceeded (lit ''bytes of one vendor output line'') (max_line_bytes (ls_limits ls)) received"

definition too_much_unread :: "line_stream \<Rightarrow> usize \<Rightarrow> error" where
  "too_much_unread ls received =
     LimitExceeded (lit ''bytes of unread vendor output'') (max_buffered_bytes (ls_limits ls)) received"

definition check_line_length :: "line_stream \<Rightarrow> usize \<Rightarrow> unit result" where
  "check_line_length ls raw_len =
     (if raw_len > max_line_bytes (ls_limits ls) then Err (line_too_long ls raw_len) else Ok ())"

definition enqueue_line :: "line_stream \<Rightarrow> ustring \<Rightarrow> usize \<Rightarrow> line_stream result" where
  "enqueue_line ls read remaining =
     (let unread = ls_queued ls + str_len read + remaining
      in if unread > max_buffered_bytes (ls_limits ls) then Err (too_much_unread ls unread)
         else Ok (ls\<lparr>ls_queued := ls_queued ls + str_len read, ls_pending := ls_pending ls @ [read]\<rparr>))"

definition next_newline :: "line_stream \<Rightarrow> usize \<Rightarrow> usize option" where
  "next_newline ls from_at =
     map_option (\<lambda>offset. from_at + offset) (first_line_feed (drop from_at (ls_buffer ls)))"

definition strip_return :: "byte list \<Rightarrow> byte list" where
  "strip_return record = (if record \<noteq> [] \<and> last record = 0x0d then butlast record else record)"

lemma first_line_feed_eq: "first_line_feed bytes = position (\<lambda>b. b = 0x0a) bytes"
  using block_search [of 32 _ "\<lambda>b. b = 0x0a" bytes, OF _ refl]
  by (simp add: first_line_feed_def LINE_SCAN_BLOCK_def holds_line_feed_def Let_def)

lemma next_newline_bounds:
  "next_newline ls from_at = Some newline \<Longrightarrow> from_at \<le> newline \<and> newline < length (ls_buffer ls)"
  by (auto simp: next_newline_def first_line_feed_eq dest: position_cases(2))

lemma enqueue_line_frame:
  "enqueue_line ls read remaining = Ok ls' \<Longrightarrow>
   ls' = ls\<lparr>ls_queued := ls_queued ls + str_len read, ls_pending := ls_pending ls @ [read]\<rparr>"
  by (auto simp: enqueue_line_def Let_def split: if_splits)

text \<open>The loop of \<open>absorb\<close>; the search starts past what an earlier chunk was already searched for.\<close>

function absorb_loop :: "usize \<Rightarrow> line_stream \<Rightarrow> usize \<Rightarrow> (line_stream \<times> usize) result" where
  "absorb_loop tail ls consumed =
     (case next_newline ls (max consumed tail) of
        None \<Rightarrow> Ok (ls, consumed)
      | Some newline \<Rightarrow>
          (let record = strip_return (take (newline - consumed) (drop consumed (ls_buffer ls)))
           in rbind (check_line_length ls (length record)) (\<lambda>_.
              rbind (enqueue_line ls (decode_record record) (length (ls_buffer ls) - (newline + 1)))
                (\<lambda>ls'. absorb_loop tail ls' (newline + 1)))))"
  by pat_completeness auto
termination
  by (relation "measure (\<lambda>(tail, ls, consumed). length (ls_buffer ls) - consumed)")
    (auto dest!: next_newline_bounds enqueue_line_frame)

declare absorb_loop.simps [simp del]

definition absorb :: "line_stream \<Rightarrow> byte list \<Rightarrow> line_stream result" where
  "absorb ls chunk =
     (let tail = length (ls_buffer ls);
          ls = ls\<lparr>ls_buffer := (if tail = 0 then chunk else ls_buffer ls @ chunk)\<rparr>;
          buffered = length (ls_buffer ls) + ls_queued ls
      in if buffered > max_buffered_bytes (ls_limits ls) then Err (too_much_unread ls buffered)
         else rbind (absorb_loop tail ls 0) (\<lambda>(ls, consumed).
           let ls = ls\<lparr>ls_buffer := drop consumed (ls_buffer ls)\<rparr>
           in if length (ls_buffer ls) > max_line_bytes (ls_limits ls)
              then Err (line_too_long ls (length (ls_buffer ls)))
              else Ok ls))"

definition finish_lines :: "line_stream \<Rightarrow> line_stream result" where
  "finish_lines ls =
     (let ls = ls\<lparr>ls_ended := True\<rparr>
      in if ls_buffer ls = [] then Ok ls
         else
           (let record = ls_buffer ls; ls = ls\<lparr>ls_buffer := []\<rparr>
            in rbind (check_line_length ls (length record)) (\<lambda>_. enqueue_line ls (decode_record record) 0)))"

definition abandon_lines :: "line_stream \<Rightarrow> line_stream" where
  "abandon_lines ls = ls\<lparr>ls_ended := True, ls_buffer := [], ls_pending := [], ls_queued := 0\<rparr>"

text \<open>
  One call of \<open>next_line\<close> against a source: the stream, what the source has left, and the answer;
  \<open>None\<close> while the call still waits for the source.
\<close>

fun next_line ::
  "line_stream \<Rightarrow> (byte list option) result list \<Rightarrow>
   (line_stream \<times> (byte list option) result list \<times> (ustring option) result) option" where
  "next_line ls source =
     (case ls_pending ls of
        read # rest \<Rightarrow>
          Some (ls\<lparr>ls_pending := rest, ls_queued := ls_queued ls - str_len read\<rparr>, source, Ok (Some read))
      | [] \<Rightarrow>
          if ls_ended ls then Some (ls, source, Ok None)
          else case source of
            [] \<Rightarrow> None
          | Inl e # source' \<Rightarrow> Some (ls, source', Err e)
          | Inr answer # source' \<Rightarrow>
              (case (case answer of Some chunk \<Rightarrow> absorb ls chunk | None \<Rightarrow> finish_lines ls) of
                 Inl e \<Rightarrow> Some (abandon_lines ls, source', Err e)
               | Inr ls' \<Rightarrow> next_line ls' source'))"

declare next_line.simps [simp del]

subsection \<open>The records of a byte sequence\<close>

text \<open>What framing means, one byte at a time: the records a line feed ended and the bytes after the last.\<close>

fun feed_records :: "byte list \<Rightarrow> byte list \<Rightarrow> byte list list \<times> byte list" where
  "feed_records acc [] = ([], acc)"
| "feed_records acc (b # bs) =
     (if b = 0x0a then (case feed_records [] bs of (records, tail) \<Rightarrow> (acc # records, tail))
      else feed_records (acc @ [b]) bs)"

fun chomp :: "byte list \<Rightarrow> byte list" where
  "chomp [] = []"
| "chomp [b] = (if b = 0x0d then [] else [b])"
| "chomp (b # c # bs) = b # chomp (c # bs)"

lemma strip_return_chomp: "strip_return bs = chomp bs"
  by (induction bs rule: chomp.induct) (auto simp: strip_return_def)

definition whole_lines :: "byte list \<Rightarrow> ustring list" where
  "whole_lines bs = map (\<lambda>record. lossy_each (chomp record)) (fst (feed_records [] bs))"

definition open_line :: "byte list \<Rightarrow> byte list" where
  "open_line bs = snd (feed_records [] bs)"

definition all_lines :: "byte list \<Rightarrow> ustring list" where
  "all_lines bs = whole_lines bs @ (if open_line bs = [] then [] else [lossy_each (open_line bs)])"

lemma feed_records_append:
  "feed_records acc (xs @ ys) =
     (fst (feed_records acc xs) @ fst (feed_records (snd (feed_records acc xs)) ys),
      snd (feed_records (snd (feed_records acc xs)) ys))"
  by (induction acc xs rule: feed_records.induct) (auto split: prod.split)

lemma feed_records_clean: "0x0a \<notin> set xs \<Longrightarrow> feed_records acc xs = ([], acc @ xs)"
  by (induction xs arbitrary: acc) auto

lemma open_line_clean: "0x0a \<notin> set acc \<Longrightarrow> 0x0a \<notin> set (snd (feed_records acc bs))"
  by (induction acc bs rule: feed_records.induct) (auto split: prod.split)

lemma framing_append:
  "whole_lines (xs @ ys) = whole_lines xs @ whole_lines (open_line xs @ ys)"
  "open_line (xs @ ys) = open_line (open_line xs @ ys)"
proof -
  have "feed_records [] (open_line xs) = ([], open_line xs)"
    using feed_records_clean [OF open_line_clean [of "[]"]] by (simp add: open_line_def)
  then have "feed_records [] (open_line xs @ ys) = feed_records (open_line xs) ys"
    by (simp add: feed_records_append)
  then show "whole_lines (xs @ ys) = whole_lines xs @ whole_lines (open_line xs @ ys)"
    "open_line (xs @ ys) = open_line (open_line xs @ ys)"
    by (simp_all add: whole_lines_def feed_records_append [of "[]" xs ys] flip: open_line_def)
      (simp add: open_line_def feed_records_append [of "[]" xs ys])
qed

lemma framing_line:
  assumes "0x0a \<notin> set record"
  shows "whole_lines (record @ 0x0a # rest) = lossy_each (chomp record) # whole_lines rest"
    "open_line (record @ 0x0a # rest) = open_line rest"
  using feed_records_clean [OF assms, of "[]"]
  by (simp_all add: whole_lines_def open_line_def feed_records_append split: prod.split)

lemma framing_clean:
  assumes "0x0a \<notin> set bs"
  shows "whole_lines bs = []" "open_line bs = bs"
  using feed_records_clean [OF assms, of "[]"] by (simp_all add: whole_lines_def open_line_def)

text \<open>The decoder of the source is the one that reads a character at a time.\<close>

lemma decode_record_eq: "decode_record raw = lossy_each raw"
proof (cases "from_utf8 raw")
  case (Inr s)
  then have "raw = utf8 s" "valid_str s" by (simp_all add: from_utf8_Inr_iff)
  then show ?thesis using Inr lossy_each_utf8 [of s "[]"] by (simp add: decode_record_def)
next
  case (Inl n)
  let ?v = "fst (valid_run raw)" and ?r = "snd (valid_run raw)"
  have n: "n = str_len ?v" using from_utf8_error [OF Inl] by simp
  have raw: "raw = utf8 ?v @ ?r" "valid_str ?v" using valid_run_split [of raw] by simp_all
  then have "take n raw = utf8 ?v" "drop n raw = ?r"
    by (metis n append_eq_conv_conj length_utf8)+
  moreover have "from_utf8 (utf8 ?v) = Inr ?v" using raw(2) by (simp add: from_utf8_Inr_iff)
  moreover have "concat (map (\<lambda>(valid, invalid). valid @ (if invalid \<noteq> [] then [REPLACEMENT] else []))
      (utf8_chunks ?r)) = lossy_each ?r"
    unfolding chunks_lossy [symmetric] from_utf8_lossy_def repaired_def
    by (intro arg_cong [where f = concat] map_cong) auto
  ultimately have "decode_record raw = ?v @ lossy_each ?r"
    by (simp add: decode_record_def repair_def Inl)
  then show ?thesis using lossy_each_utf8 [OF raw(2), of ?r] raw(1) by simp
qed

subsection \<open>Absorbing a chunk\<close>

definition sizes :: "ustring list \<Rightarrow> nat" where
  "sizes ls = sum_list (map str_len ls)"

lemma sizes_simps [simp]:
  "sizes [] = 0" "sizes (x # xs) = str_len x + sizes xs" "sizes (xs @ ys) = sizes xs + sizes ys"
  by (simp_all add: sizes_def)

text \<open>A line queued: it goes last and is counted.\<close>

lemma absorb_loop_correct:
  assumes "absorb_loop tail ls consumed = Ok (ls', n)" "consumed \<le> length (ls_buffer ls)"
    "\<forall>i. consumed \<le> i \<and> i < tail \<longrightarrow> ls_buffer ls ! i \<noteq> 0x0a" "tail \<le> length (ls_buffer ls)"
  shows "ls' = ls\<lparr>ls_queued := ls_queued ls + sizes (whole_lines (drop consumed (ls_buffer ls))),
      ls_pending := ls_pending ls @ whole_lines (drop consumed (ls_buffer ls))\<rparr> \<and>
    drop n (ls_buffer ls) = open_line (drop consumed (ls_buffer ls)) \<and> n \<le> length (ls_buffer ls) \<and>
    (ls_queued ls + (length (ls_buffer ls) - consumed) \<le> max_buffered_bytes (ls_limits ls) \<longrightarrow>
       ls_queued ls' + (length (ls_buffer ls) - n) \<le> max_buffered_bytes (ls_limits ls))"
  using assms
proof (induction tail ls consumed rule: absorb_loop.induct)
  case (1 tail ls consumed)
  let ?at = "max consumed tail" and ?buf = "ls_buffer ls"
  have at: "?at \<le> length ?buf" using 1(3,5) by simp
  have skipped: "0x0a \<notin> set (take (?at - consumed) (drop consumed ?buf))"
    using 1(4) at by (auto simp: in_set_conv_nth max_def split: if_splits)
  show ?case
  proof (cases "next_newline ls ?at")
    case None
    then have "0x0a \<notin> set (drop ?at ?buf)"
      using position_cases(1) [of "\<lambda>b. b = 0x0a" "drop ?at ?buf"]
      by (auto simp: next_newline_def first_line_feed_eq)
    moreover have "drop consumed ?buf = take (?at - consumed) (drop consumed ?buf) @ drop ?at ?buf"
      by (metis append_take_drop_id drop_drop le_add_diff_inverse2 max.cobounded1)
    ultimately have "0x0a \<notin> set (drop consumed ?buf)" using skipped by (metis Un_iff set_append)
    then show ?thesis using 1(2,3) None
      by (auto simp: absorb_loop.simps [of tail ls] framing_clean)
  next
    case (Some newline)
    let ?raw = "take (newline - consumed) (drop consumed ?buf)" and ?rest = "drop (newline + 1) ?buf"
    obtain i where i: "position (\<lambda>b. b = 0x0a) (drop ?at ?buf) = Some i" "newline = ?at + i"
      using Some by (auto simp: next_newline_def first_line_feed_eq)
    have nl: "newline < length ?buf" "?at \<le> newline" using next_newline_bounds [OF Some] by auto
    have feed: "?buf ! newline = 0x0a" and before: "0x0a \<notin> set (take i (drop ?at ?buf))"
      using position_cases(2) [OF i(1)] i(2) nl at by (auto simp: in_set_conv_nth)
    have len: "newline - consumed = (?at - consumed) + i" using i(2) by simp
    have past: "drop (?at - consumed) (drop consumed ?buf) = drop ?at ?buf" by simp
    have "?raw = take (?at - consumed) (drop consumed ?buf) @ take i (drop ?at ?buf)"
      unfolding len take_add by (simp only: past)
    then have clean: "0x0a \<notin> set ?raw" using skipped before by (metis Un_iff set_append)
    have split: "drop consumed ?buf = ?raw @ 0x0a # ?rest"
    proof -
      have "drop (newline - consumed) (drop consumed ?buf) = drop newline ?buf" using nl by simp
      also have "\<dots> = 0x0a # ?rest" using Cons_nth_drop_Suc [OF nl(1)] feed by simp
      finally show ?thesis by (metis append_take_drop_id)
    qed
    obtain ls1 where ls1: "check_line_length ls (length (strip_return ?raw)) = Ok ()"
        "enqueue_line ls (decode_record (strip_return ?raw)) (length ?buf - (newline + 1)) = Ok ls1"
        "absorb_loop tail ls1 (newline + 1) = Ok (ls', n)"
      using 1(2) Some by (auto simp: absorb_loop.simps [of tail ls] Let_def rbind_Inr_iff)
    note frame = enqueue_line_frame [OF ls1(2)]
    have "ls_queued ls1 + (length ?buf - (newline + 1)) \<le> max_buffered_bytes (ls_limits ls)"
      using ls1(2) by (auto simp: enqueue_line_def Let_def split: if_splits)
    moreover note IH = 1(1) [OF Some refl ls1]
    moreover have "whole_lines (drop consumed ?buf) = decode_record (strip_return ?raw) # whole_lines ?rest"
      "open_line (drop consumed ?buf) = open_line ?rest"
      using framing_line [OF clean, of ?rest] unfolding split [symmetric]
      by (simp_all add: decode_record_eq strip_return_chomp)
    moreover have "\<forall>i. newline + 1 \<le> i \<and> i < tail \<longrightarrow> ls_buffer ls1 ! i \<noteq> 0x0a" using nl(2) by auto
    ultimately show ?thesis
      using nl(1) 1(5) by (auto simp: frame)
  qed
qed


text \<open>The whole of \<open>absorb\<close>, and why it refuses.\<close>

definition stream_ok :: "line_stream \<Rightarrow> bool" where
  "stream_ok ls \<longleftrightarrow>
     ls_queued ls = sizes (ls_pending ls) \<and> 0x0a \<notin> set (ls_buffer ls) \<and>
     length (ls_buffer ls) \<le> max_line_bytes (ls_limits ls) \<and>
     ls_queued ls + length (ls_buffer ls) \<le> max_buffered_bytes (ls_limits ls) \<and>
     (ls_ended ls \<longrightarrow> ls_buffer ls = [])"

lemma absorb_correct:
  assumes "absorb ls chunk = Ok ls'" "stream_ok ls" "\<not> ls_ended ls"
  shows "stream_ok ls' \<and> \<not> ls_ended ls' \<and> ls_limits ls' = ls_limits ls \<and>
    ls_pending ls' = ls_pending ls @ whole_lines (ls_buffer ls @ chunk) \<and>
    ls_buffer ls' = open_line (ls_buffer ls @ chunk)"
proof -
  let ?buf = "ls_buffer ls @ chunk" and ?t = "length (ls_buffer ls)"
  let ?ls = "ls\<lparr>ls_buffer := ?buf\<rparr>"
  have buf: "(if ?t = 0 then chunk else ?buf) = ?buf" by simp
  obtain ls1 n where loop: "absorb_loop ?t ?ls 0 = Ok (ls1, n)"
      and fits: "length ?buf + ls_queued ls \<le> max_buffered_bytes (ls_limits ls)"
      and cap: "length (drop n (ls_buffer ls1)) \<le> max_line_bytes (ls_limits ls1)"
      and ls': "ls' = ls1\<lparr>ls_buffer := drop n (ls_buffer ls1)\<rparr>"
    using assms(1) unfolding absorb_def buf by (auto simp: Let_def rbind_Inr_iff split: if_splits)
  have clean: "\<forall>i. 0 \<le> i \<and> i < ?t \<longrightarrow> ls_buffer ?ls ! i \<noteq> 0x0a"
    using assms(2) by (auto simp: stream_ok_def nth_append in_set_conv_nth)
  note correct = absorb_loop_correct [OF loop _ clean]
  have ls1: "ls1 = ?ls\<lparr>ls_queued := ls_queued ls + sizes (whole_lines ?buf),
      ls_pending := ls_pending ls @ whole_lines ?buf\<rparr>"
    and rest: "drop n ?buf = open_line ?buf" and n: "n \<le> length ?buf"
    and held: "ls_queued ls1 + (length ?buf - n) \<le> max_buffered_bytes (ls_limits ls)"
    using correct fits by auto
  have "length ?buf - n = length (open_line ?buf)" using rest by (metis length_drop)
  moreover have "0x0a \<notin> set (open_line ?buf)" by (simp add: open_line_def open_line_clean)
  ultimately show ?thesis
    using assms(2,3) cap held rest by (simp add: ls' ls1 stream_ok_def)
qed

lemma finish_correct:
  assumes "finish_lines ls = Ok ls'" "stream_ok ls"
  shows "stream_ok ls' \<and> ls_ended ls' \<and> ls_buffer ls' = [] \<and> ls_limits ls' = ls_limits ls \<and>
    ls_pending ls' = ls_pending ls @ (if ls_buffer ls = [] then [] else [lossy_each (ls_buffer ls)])"
  using assms
  by (auto simp: finish_lines_def stream_ok_def Let_def rbind_Inr_iff enqueue_line_def decode_record_eq
      split: if_splits)

lemma abandon_ok [simp]: "stream_ok (abandon_lines ls)"
  by (simp add: abandon_lines_def stream_ok_def)

subsection \<open>Reading lines\<close>

text \<open>
  What the stream has of the bytes \<open>got\<close> it was sent: the lines it handed out, the ones it holds, and the
  open line, or every line once the source ended.
\<close>

definition framing :: "byte list \<Rightarrow> ustring list \<Rightarrow> line_stream \<Rightarrow> bool" where
  "framing got handed ls \<longleftrightarrow>
     (if ls_ended ls then handed @ ls_pending ls = all_lines got
      else handed @ ls_pending ls = whole_lines got \<and> ls_buffer ls = open_line got)"

definition answers :: "byte list list \<Rightarrow> bool \<Rightarrow> (byte list option) result list" where
  "answers chunks over = map (\<lambda>c. Ok (Some c)) chunks @ (if over then [Ok None] else [])"

lemma framing_absorb:
  assumes "framing got handed ls" "absorb ls chunk = Ok ls'" "stream_ok ls" "\<not> ls_ended ls"
  shows "framing (got @ chunk) handed ls'"
  using absorb_correct [OF assms(2-4)] assms(1,4) framing_append [of got chunk]
  by (simp add: framing_def)

lemma framing_finish:
  assumes "framing got handed ls" "finish_lines ls = Ok ls'" "stream_ok ls" "\<not> ls_ended ls"
  shows "framing got handed ls'"
  using finish_correct [OF assms(2,3)] assms(1,4) by (auto simp: framing_def all_lines_def)

definition answered :: "line_stream \<Rightarrow> byte list option \<Rightarrow> line_stream result" where
  "answered ls answer = (case answer of Some chunk \<Rightarrow> absorb ls chunk | None \<Rightarrow> finish_lines ls)"

lemma next_line_cases [consumes 1, case_names handed over failed refused more]:
  assumes "next_line ls source = Some (ls', source', r)"
  obtains
    l rest where "ls_pending ls = l # rest"
      "ls' = ls\<lparr>ls_pending := rest, ls_queued := ls_queued ls - str_len l\<rparr>" "source' = source"
      "r = Ok (Some l)"
  | "ls_pending ls = []" "ls_ended ls" "ls' = ls" "source' = source" "r = Ok None"
  | e where "ls_pending ls = []" "\<not> ls_ended ls" "source = Inl e # source'" "ls' = ls" "r = Err e"
  | answer e where "ls_pending ls = []" "\<not> ls_ended ls" "source = Inr answer # source'"
      "answered ls answer = Err e" "ls' = abandon_lines ls" "r = Err e"
  | answer source1 ls1 where "ls_pending ls = []" "\<not> ls_ended ls" "source = Inr answer # source1"
      "answered ls answer = Ok ls1" "next_line ls1 source1 = Some (ls', source', r)"
proof (cases "ls_pending ls")
  case (Cons l rest)
  then show ?thesis using assms that(1) by (simp add: next_line.simps [of ls source])
next
  case Nil
  show ?thesis
  proof (cases "ls_ended ls")
    case True
    then have "ls' = ls \<and> source' = source \<and> r = Ok None"
      using assms Nil by (simp add: next_line.simps [of ls source])
    then show ?thesis using that(2) [OF Nil True] by blast
  next
    case False
    have "source \<noteq> []" using assms Nil False by (auto simp: next_line.simps [of ls "[]"])
    then obtain a source1 where src: "source = a # source1" by (cases source) auto
    show ?thesis
    proof (cases a)
      case (Inl e)
      then have "ls' = ls \<and> source' = source1 \<and> r = Err e"
        using assms Nil False src by (simp add: next_line.simps [of ls "Inl e # source1"])
      then show ?thesis using that(3) [OF Nil False] src Inl by blast
    next
      case (Inr answer)
      have step: "Some (ls', source', r) = (case answered ls answer of
          Inl e \<Rightarrow> Some (abandon_lines ls, source1, Err e) | Inr ls1 \<Rightarrow> next_line ls1 source1)"
        using assms Nil False Inr src
        by (simp add: next_line.simps [of ls "Inr answer # source1"] answered_def)
      show ?thesis
      proof (cases "answered ls answer")
        case (Inl e)
        with step show ?thesis using that(4) [OF Nil False _ Inl] Inr src by simp
      next
        case (Inr ls1)
        with step show ?thesis using that(5) [OF Nil False _ Inr] \<open>a = Inr answer\<close> src by simp
      qed
    qed
  qed
qed

lemma answered_ok:
  assumes "answered ls answer = Ok ls'" "stream_ok ls" "\<not> ls_ended ls"
  shows "stream_ok ls' \<and> ls_limits ls' = ls_limits ls \<and> (ls_ended ls' \<longleftrightarrow> answer = None)"
  using assms absorb_correct [of ls _ ls'] finish_correct [of ls ls']
  by (auto simp: answered_def split: option.splits)

text \<open>One call keeps the invariant, takes a prefix of the source's answers, and keeps the framing.\<close>

lemma next_line_ok:
  assumes "next_line ls source = Some (ls', source', r)" "stream_ok ls"
  shows "stream_ok ls' \<and> ls_limits ls' = ls_limits ls \<and> (r = Ok None \<longrightarrow> ls_ended ls' \<and> ls_pending ls' = [])"
  using assms
proof (induction "length source" arbitrary: ls source rule: less_induct)
  case less
  from less.prems(1) show ?case
  proof (cases rule: next_line_cases)
    case (more answer source1 ls1)
    then show ?thesis using less answered_ok [OF more(4) less.prems(2) more(2)] by fastforce
  qed (use less.prems(2) in \<open>auto simp: stream_ok_def abandon_lines_def\<close>)
qed

lemma next_line_framing:
  assumes "next_line ls source = Some (ls', source', Ok r)" "stream_ok ls" "framing got handed ls"
  shows "\<exists>chunks over. source = answers chunks over @ source' \<and>
    framing (got @ concat chunks) (handed @ (case r of None \<Rightarrow> [] | Some l \<Rightarrow> [l])) ls' \<and>
    (ls_ended ls' \<longleftrightarrow> ls_ended ls \<or> over) \<and> (ls_ended ls \<longrightarrow> chunks = [] \<and> \<not> over)"
  using assms
proof (induction "length source" arbitrary: ls source got rule: less_induct)
  case less
  from less.prems(1) show ?case
  proof (cases rule: next_line_cases)
    case (handed l rest)
    then show ?thesis using less.prems(3)
      by (intro exI [of _ "[]"] exI [of _ False]) (auto simp: answers_def framing_def)
  next
    case over
    then show ?thesis using less.prems(3)
      by (intro exI [of _ "[]"] exI [of _ False]) (auto simp: answers_def framing_def)
  next
    case (more answer source1 ls1)
    note ok = answered_ok [OF more(4) less.prems(2) more(2)]
    show ?thesis
    proof (cases answer)
      case None
      then have "framing got handed ls1"
        using framing_finish [OF less.prems(3)] more(2,4) less.prems(2) by (simp add: answered_def)
      with less.hyps [of source1 ls1 got] more(3,5) ok None obtain chunks fin where
        "source1 = answers chunks fin @ source'" "chunks = [] \<and> \<not> fin" "ls_ended ls'"
        "framing (got @ concat chunks) (handed @ (case r of None \<Rightarrow> [] | Some l \<Rightarrow> [l])) ls'"
        by auto
      then show ?thesis using more(2,3) None
        by (intro exI [of _ "[]"] exI [of _ True]) (auto simp: answers_def)
    next
      case (Some chunk)
      then have "framing (got @ chunk) handed ls1"
        using framing_absorb [OF less.prems(3)] more(2,4) less.prems(2) by (simp add: answered_def)
      with less.hyps [of source1 ls1 "got @ chunk"] more(3,5) ok Some obtain chunks fin where
        "source1 = answers chunks fin @ source'"
        "framing ((got @ chunk) @ concat chunks) (handed @ (case r of None \<Rightarrow> [] | Some l \<Rightarrow> [l])) ls'"
        "ls_ended ls' \<longleftrightarrow> fin" by auto
      then show ?thesis using more(2,3) Some
        by (intro exI [of _ "chunk # chunks"] exI [of _ fin]) (auto simp: answers_def)
    qed
  qed auto
qed

text \<open>A host that reads until something else than a line comes.\<close>

inductive line_run ::
  "line_stream \<Rightarrow> (byte list option) result list \<Rightarrow> ustring list \<Rightarrow>
   line_stream \<Rightarrow> (byte list option) result list \<Rightarrow> bool" where
  start: "line_run ls source [] ls source"
| again: "line_run ls source ls_read ls1 source1 \<Longrightarrow>
    next_line ls1 source1 = Some (ls2, source2, Ok (Some l)) \<Longrightarrow>
    line_run ls source (ls_read @ [l]) ls2 source2"

lemma line_run_framing:
  assumes "line_run ls source ls_read ls' source'" "ls = line_stream_new l"
  shows "stream_ok ls' \<and> ls_limits ls' = l \<and>
    (\<exists>chunks over. source = answers chunks over @ source' \<and> framing (concat chunks) ls_read ls' \<and>
      (ls_ended ls' \<longleftrightarrow> over))"
  using assms
proof (induction rule: line_run.induct)
  case (start ls source)
  then show ?case
    by (auto simp: line_stream_new_def stream_ok_def framing_def whole_lines_def open_line_def answers_def)
next
  case (again ls source ls_read ls1 source1 ls2 source2 x)
  then obtain chunks fin where 1: "source = answers chunks fin @ source1" "stream_ok ls1" "ls_limits ls1 = l"
      "framing (concat chunks) ls_read ls1" "ls_ended ls1 \<longleftrightarrow> fin"
    by auto
  obtain more fin' where 2: "source1 = answers more fin' @ source2"
      "framing (concat chunks @ concat more) (ls_read @ [x]) ls2" "ls_ended ls2 \<longleftrightarrow> ls_ended ls1 \<or> fin'"
      "ls_ended ls1 \<longrightarrow> more = [] \<and> \<not> fin'"
    using next_line_framing [OF again.hyps(2) 1(2,4)] by auto
  have "source = answers (chunks @ more) (fin \<or> fin') @ source2"
    using 1(1,5) 2(1,4) by (cases fin; cases fin') (auto simp: answers_def)
  then show ?case
    using next_line_ok [OF again.hyps(2) 1(2)] 1(3,5) 2(2,3)
    by (intro conjI exI [of _ "chunks @ more"] exI [of _ "fin \<or> fin'"]) auto
qed

subsection \<open>Refusals\<close>

definition over_a_cap :: "line_limits \<Rightarrow> error \<Rightarrow> bool" where
  "over_a_cap l e \<longleftrightarrow>
     (\<exists>n. e = LimitExceeded (lit ''bytes of one vendor output line'') (max_line_bytes l) n \<and>
        n > max_line_bytes l) \<or>
     (\<exists>n. e = LimitExceeded (lit ''bytes of unread vendor output'') (max_buffered_bytes l) n \<and>
        n > max_buffered_bytes l)"

lemma check_enqueue_refusals:
  "check_line_length ls n = Err e \<Longrightarrow> over_a_cap (ls_limits ls) e"
  "enqueue_line ls l n = Err e \<Longrightarrow> over_a_cap (ls_limits ls) e"
  by (auto simp: check_line_length_def enqueue_line_def over_a_cap_def line_too_long_def
      too_much_unread_def Let_def split: if_splits)

lemma absorb_loop_outcome:
  "case absorb_loop tail ls consumed of
     Inl e \<Rightarrow> over_a_cap (ls_limits ls) e | Inr r \<Rightarrow> ls_limits (fst r) = ls_limits ls"
proof (induction tail ls consumed rule: absorb_loop.induct)
  case (1 tail ls consumed)
  show ?case
  proof (cases "next_newline ls (max consumed tail)")
    case None
    then show ?thesis by (simp add: absorb_loop.simps [of tail ls consumed])
  next
    case (Some newline)
    let ?raw = "strip_return (take (newline - consumed) (drop consumed (ls_buffer ls)))"
    let ?left = "length (ls_buffer ls) - (newline + 1)"
    have step: "absorb_loop tail ls consumed = rbind (check_line_length ls (length ?raw)) (\<lambda>_.
        rbind (enqueue_line ls (decode_record ?raw) ?left) (\<lambda>ls'. absorb_loop tail ls' (newline + 1)))"
      using Some by (simp add: absorb_loop.simps [of tail ls consumed] Let_def)
    show ?thesis
    proof (cases "check_line_length ls (length ?raw)")
      case (Inl e)
      then show ?thesis unfolding step by (simp add: check_enqueue_refusals(1))
    next
      case checked: (Inr u)
      show ?thesis
      proof (cases "enqueue_line ls (decode_record ?raw) ?left")
        case (Inl e)
        then show ?thesis unfolding step using checked by (simp add: check_enqueue_refusals(2))
      next
        case (Inr ls1)
        then have "ls_limits ls1 = ls_limits ls" using enqueue_line_frame [OF Inr] by simp
        then show ?thesis unfolding step checked Inr
          using 1 [OF Some refl checked Inr] by (cases "absorb_loop tail ls1 (newline + 1)") simp_all
      qed
    qed
  qed
qed

lemma answered_outcome:
  "case answered ls answer of Inl e \<Rightarrow> over_a_cap (ls_limits ls) e | Inr ls' \<Rightarrow> ls_limits ls' = ls_limits ls"
proof (cases answer)
  case None
  let ?ls = "ls\<lparr>ls_ended := True, ls_buffer := []\<rparr>"
  show ?thesis
    using None check_enqueue_refusals(1) [of ?ls "length (ls_buffer ls)"]
      check_enqueue_refusals(2) [of ?ls "decode_record (ls_buffer ls)" 0]
    by (auto simp: answered_def finish_lines_def Let_def rbind_Inl_iff rbind_Inr_iff
        split: sum.split dest!: enqueue_line_frame)
next
  case (Some chunk)
  let ?ls = "ls\<lparr>ls_buffer := ls_buffer ls @ chunk\<rparr>"
  let ?loop = "absorb_loop (length (ls_buffer ls)) ?ls 0"
  have buf: "(if length (ls_buffer ls) = 0 then chunk else ls_buffer ls @ chunk) = ls_buffer ls @ chunk" by simp
  have loop: "case ?loop of Inl e \<Rightarrow> over_a_cap (ls_limits ls) e | Inr r \<Rightarrow> ls_limits (fst r) = ls_limits ls"
    using absorb_loop_outcome [where tail = "length (ls_buffer ls)" and ls = ?ls and consumed = 0]
    by (cases ?loop) simp_all
  have step: "answered ls answer = absorb ls chunk" using Some by (simp add: answered_def)
  show ?thesis
  proof (cases ?loop)
    case (Inl e)
    then show ?thesis using loop unfolding step absorb_def Let_def buf
      by (simp add: over_a_cap_def too_much_unread_def)
  next
    case (Inr r)
    then show ?thesis using loop unfolding step absorb_def Let_def buf
      by (cases r) (simp add: over_a_cap_def too_much_unread_def line_too_long_def)
  qed
qed

lemma abandoned_says_end: "next_line (abandon_lines ls) source = Some (abandon_lines ls, source, Ok None)"
  unfolding next_line.simps [of "abandon_lines ls" source] by (simp add: abandon_lines_def)

subsection \<open>Properties\<close>

text \<open>C10: where the source cuts its output into chunks does not matter. Whenever a host has read some
  lines, those and the ones the stream still holds are exactly the lines of all the bytes received so
  far: each ended by a line feed, with one carriage return before it taken off, and what follows the
  last line feed is kept for later. Once the source has ended, that last piece is a line too, and a
  host that is told there is no more has read every line.\<close>

theorem framing_exact:
  assumes "line_run (line_stream_new l) source ls_read ls rest"
  shows "\<exists>chunks over. source = answers chunks over @ rest \<and>
    (if over then ls_read @ ls_pending ls = all_lines (concat chunks)
     else ls_read @ ls_pending ls = whole_lines (concat chunks) \<and> ls_buffer ls = open_line (concat chunks)) \<and>
    (\<forall>ls' rest'. next_line ls rest = Some (ls', rest', Ok None) \<longrightarrow>
       (\<exists>more. rest = answers more (\<not> over) @ rest' \<and> ls_read = all_lines (concat chunks @ concat more)))"
proof -
  obtain chunks over where run: "stream_ok ls" "source = answers chunks over @ rest"
      "framing (concat chunks) ls_read ls" "ls_ended ls \<longleftrightarrow> over"
    using line_run_framing [OF assms refl] by blast
  have "\<exists>more. rest = answers more (\<not> over) @ rest' \<and> ls_read = all_lines (concat chunks @ concat more)"
    if last: "next_line ls rest = Some (ls', rest', Ok None)" for ls' rest'
  proof -
    obtain more fin where "rest = answers more fin @ rest'" "framing (concat chunks @ concat more) ls_read ls'"
        "ls_ended ls' \<longleftrightarrow> ls_ended ls \<or> fin" "ls_ended ls \<longrightarrow> more = [] \<and> \<not> fin"
      using next_line_framing [OF last run(1,3)] by auto
    moreover have "ls_ended ls'" "ls_pending ls' = []" using next_line_ok [OF last run(1)] by auto
    ultimately show ?thesis using run(4) by (intro exI [of _ more]) (auto simp: framing_def)
  qed
  with run show ?thesis
    by (intro exI [of _ chunks] exI [of _ over]) (auto simp: framing_def)
qed

text \<open>C11: what a stream holds for a host that does not read never passes the caps, whatever the source
  sends and whatever a repair makes of it: the lines queued, counted exactly, and the bytes of the open
  line together stay within the unread budget, and the open line within the cap on one line. This is
  true after every call, a refused one included.\<close>

theorem unread_bounded:
  assumes "line_run (line_stream_new l) source ls_read ls rest" "next_line ls rest = Some (ls', rest', r)"
  shows "list_all (\<lambda>s. ls_queued s = sizes (ls_pending s) \<and>
      sizes (ls_pending s) + length (ls_buffer s) \<le> max_buffered_bytes l \<and>
      length (ls_buffer s) \<le> max_line_bytes l) [ls, ls']"
proof -
  have ls: "stream_ok ls" "ls_limits ls = l" using line_run_framing [OF assms(1) refl] by auto
  moreover have "stream_ok ls'" "ls_limits ls' = l" using next_line_ok [OF assms(2) ls(1)] ls(2) by auto
  ultimately show ?thesis by (auto simp: stream_ok_def)
qed

text \<open>C12: a call that fails either passes on an error of the source, leaving the stream as it was, or names
  a cap and a received amount above it, and then nothing is held any more and every later call says the
  stream is over, without asking the source again.\<close>

theorem refusal_ends_the_stream:
  assumes "next_line ls source = Some (ls', source', Err e)"
  shows "(\<exists>before. source = before @ Inl e # source' \<and> \<not> ls_ended ls') \<noteq>
    (over_a_cap (ls_limits ls) e \<and> ls_pending ls' = [] \<and> ls_buffer ls' = [] \<and> ls_queued ls' = 0 \<and>
     ls_ended ls' \<and> (\<forall>later. next_line ls' later = Some (ls', later, Ok None)))"
  using assms
proof (induction "length source" arbitrary: ls source rule: less_induct)
  case less
  from less.prems show ?case
  proof (cases rule: next_line_cases)
    case (failed e')
    then show ?thesis by auto
  next
    case (refused answer e')
    then show ?thesis
      using answered_outcome [of ls answer] abandoned_says_end [of ls] by (auto simp: abandon_lines_def)
  next
    case (more answer source1 ls1)
    have "ls_limits ls1 = ls_limits ls" using answered_outcome [of ls answer] more(4) by simp
    moreover have "(\<exists>before. source1 = before @ Inl e # source') \<longleftrightarrow> (\<exists>before. source = before @ Inl e # source')"
      using more(3) by (auto simp: Cons_eq_append_conv)
    ultimately show ?thesis using less.hyps [OF _ more(5)] more(3) by simp
  qed auto
qed

text \<open>A record is read the way the lossy decoder reads it, character by character: text that is UTF-8
  comes out as it is, and text that is not keeps its longest valid prefix, followed by a replacement
  character. The result is always a string, and at most three times as long as the bytes.\<close>

theorem decode_record_correct:
  "decode_record raw = from_utf8_lossy raw \<and> decode_record raw = lossy_each raw \<and>
   valid_str (decode_record raw) \<and> str_len (decode_record raw) \<le> 3 * length raw \<and>
   (case from_utf8 raw of
      Inr s \<Rightarrow> utf8 s = raw \<and> decode_record raw = s
    | Inl n \<Rightarrow> \<exists>prefix rest. utf8 prefix = take n raw \<and> decode_record raw = prefix @ REPLACEMENT # rest)"
proof -
  have "case from_utf8 raw of
      Inr s \<Rightarrow> utf8 s = raw \<and> decode_record raw = s
    | Inl n \<Rightarrow> \<exists>prefix rest. utf8 prefix = take n raw \<and> decode_record raw = prefix @ REPLACEMENT # rest"
  proof (cases "from_utf8 raw")
    case (Inr s)
    then have "utf8 s = raw" by (simp add: from_utf8_Inr_iff)
    with Inr show ?thesis by (simp add: decode_record_def)
  next
    case (Inl n)
    let ?v = "fst (valid_run raw)" and ?r = "snd (valid_run raw)"
    have n: "n = str_len ?v" "?r \<noteq> []" using from_utf8_error [OF Inl] by auto
    have raw: "raw = utf8 ?v @ ?r" "valid_str ?v" "\<forall>c r. utf8_read ?r \<noteq> Inr (c, r)"
      using valid_run_split [of raw] by auto
    obtain k where "utf8_read ?r = Inl k" using raw(3) by (cases "utf8_read ?r") auto
    then have "lossy_each raw = ?v @ REPLACEMENT # lossy_each (drop k ?r)"
      using raw(1) lossy_each_utf8 [OF raw(2), of ?r] lossy_each_stuck n(2) by metis
    moreover have "utf8 ?v = take n raw" using raw(1) n(1) by (metis append_eq_conv_conj length_utf8)
    ultimately show ?thesis using Inl by (auto simp: decode_record_eq)
  qed
  then show ?thesis using lossy_valid_bounded [of raw] by (simp add: decode_record_eq chunks_lossy)
qed

text \<open>Two chunks cut inside a line: \<open>a\<close>, a carriage return, a line feed and \<open>b\<close>, then the rest of that line.\<close>

definition demo_caps :: line_limits where
  "demo_caps = \<lparr>max_line_bytes = 4, max_buffered_bytes = 8\<rparr>"

definition demo_source :: "(byte list option) result list" where
  "demo_source = [Ok (Some [0x61, 0x0d, 0x0a, 0x62]), Ok (Some [0x63, 0x0a]), Ok None]"

definition demo_open :: line_stream where
  "demo_open = \<lparr>ls_limits = demo_caps, ls_buffer = [0x62], ls_pending = [], ls_queued = 0, ls_ended = False\<rparr>"

lemma demo_absorbed:
  "res_ok (absorb (line_stream_new demo_caps) [0x61, 0x0d, 0x0a, 0x62]) =
     Some (demo_open\<lparr>ls_pending := [[0x61]], ls_queued := 1\<rparr>)"
  "res_ok (absorb demo_open [0x63, 0x0a]) =
     Some (demo_open\<lparr>ls_buffer := [], ls_pending := [[0x62, 0x63]], ls_queued := 2\<rparr>)"
  "is_ok (absorb (line_stream_new demo_caps) [0x61, 0x61, 0x61, 0x61, 0x61]) = False"
  by code_simp+

lemma next_line_asks:
  "ls_pending ls = [] \<Longrightarrow> \<not> ls_ended ls \<Longrightarrow>
   next_line ls (Inr answer # source) = (case answered ls answer of
     Inl e \<Rightarrow> Some (abandon_lines ls, source, Err e) | Inr ls' \<Rightarrow> next_line ls' source)"
  "ls_pending ls = l # rest \<Longrightarrow> next_line ls source =
     Some (ls\<lparr>ls_pending := rest, ls_queued := ls_queued ls - str_len l\<rparr>, source, Ok (Some l))"
  unfolding next_line.simps [of ls] by (simp_all add: answered_def)

lemma demo_first_line:
  "next_line (line_stream_new demo_caps) demo_source = Some (demo_open, drop 1 demo_source, Ok (Some [0x61]))"
  using demo_absorbed(1)
  by (simp add: demo_source_def res_ok_Some_iff next_line_asks answered_def line_stream_new_def demo_open_def
      char_len_def)

lemma demo_run: "line_run (line_stream_new demo_caps) demo_source [[0x61]] demo_open (drop 1 demo_source)"
  using line_run.again [OF line_run.start demo_first_line] by simp

lemma demo_second_line:
  "\<exists>ls'. next_line demo_open (drop 1 demo_source) = Some (ls', drop 2 demo_source, Ok (Some [0x62, 0x63]))"
  using demo_absorbed(2)
  by (simp add: demo_source_def res_ok_Some_iff next_line_asks answered_def demo_open_def)

lemma framing_exact_witness:
  "\<exists>chunks over. demo_source = answers chunks over @ drop 1 demo_source \<and>
    (if over then [[0x61]] @ ls_pending demo_open = all_lines (concat chunks)
     else [[0x61]] @ ls_pending demo_open = whole_lines (concat chunks) \<and>
       ls_buffer demo_open = open_line (concat chunks))"
  using framing_exact [OF demo_run] by blast

lemma unread_bounded_witness:
  "sizes (ls_pending demo_open) + length (ls_buffer demo_open) \<le> max_buffered_bytes demo_caps"
  using demo_second_line unread_bounded [OF demo_run] by auto

text \<open>A line longer than the cap.\<close>

lemma demo_refused:
  "\<exists>e. next_line (line_stream_new demo_caps) [Ok (Some [0x61, 0x61, 0x61, 0x61, 0x61])] =
     Some (abandon_lines (line_stream_new demo_caps), [], Err e)"
  using demo_absorbed(3) by (auto simp: next_line_asks answered_def is_ok_def line_stream_new_def split: sum.splits)

lemma refusal_ends_the_stream_witness: "\<exists>e. over_a_cap demo_caps e"
proof -
  obtain e where "next_line (line_stream_new demo_caps) [Ok (Some [0x61, 0x61, 0x61, 0x61, 0x61])] =
     Some (abandon_lines (line_stream_new demo_caps), [], Err e)"
    using demo_refused by blast
  from refusal_ends_the_stream [OF this] have "over_a_cap demo_caps e"
    by (simp add: line_stream_new_def Cons_eq_append_conv)
  then show ?thesis ..
qed

end
