(* ===== verification/Activity_Content.thy ===== *)
theory Activity_Content imports Permission Btree "HOL-Library.Sublist" begin

text \<open>
  What an activity carries (\<open>content.rs\<close>, \<open>extension.rs\<close>, the activity records of \<open>event.rs\<close>): plans,
  diffs and output, a vendor's flat extension values, and the bounding each goes through before a
  host sees it. A 32-bit line count is its number. What \<open>redact::message_text\<close> hides in an extension
  text is the argument \<open>msg\<close>, and a float is a parameter with its finiteness test.
\<close>

subsection \<open>Plans and diffs\<close>

definition PLAN_MAX_STEPS :: usize where
  "PLAN_MAX_STEPS = 128"

definition DIFF_MAX_FILES :: usize where
  "DIFF_MAX_FILES = 256"

definition DIFF_MAX_CONTENT_LENGTH :: usize where
  "DIFF_MAX_CONTENT_LENGTH = 256 * 1024"

datatype plan_step_status = PendingStep | InProgressStep | CompletedStep | DroppedStep

fun plan_step_status_display :: "plan_step_status \<Rightarrow> ustring" where
  "plan_step_status_display PendingStep = lit ''pending''"
| "plan_step_status_display InProgressStep = lit ''in progress''"
| "plan_step_status_display CompletedStep = lit ''completed''"
| "plan_step_status_display DroppedStep = lit ''dropped''"

datatype plan_step_priority = HighPriority | MediumPriority | LowPriority

record plan_step =
  pl_id :: "ustring option"
  pl_title :: ustring
  pl_status :: plan_step_status
  pl_priority :: "plan_step_priority option"

definition plan_step_new :: "ustring \<Rightarrow> plan_step" where
  "plan_step_new title = \<lparr>pl_id = None, pl_title = title, pl_status = PendingStep, pl_priority = None\<rparr>"

definition plan_step_with_truncation :: "plan_step \<Rightarrow> plan_step \<times> bool" where
  "plan_step_with_truncation s =
     (let title = bound (pl_title s) Title;
          had_id = pl_id s \<noteq> None;
          i = Option.bind (pl_id s) (\<lambda>i. res_ok (opaque_id i (lit ''plan step id'')));
          truncated = bt_truncated title \<or> (had_id \<and> i = None)
      in (\<lparr>pl_id = i, pl_title = bt_text title, pl_status = pl_status s, pl_priority = pl_priority s\<rparr>,
          truncated))"

datatype file_change_kind = CreatedFile | ModifiedFile | DeletedFile | RenamedFile

fun file_change_kind_display :: "file_change_kind \<Rightarrow> ustring" where
  "file_change_kind_display CreatedFile = lit ''created''"
| "file_change_kind_display ModifiedFile = lit ''modified''"
| "file_change_kind_display DeletedFile = lit ''deleted''"
| "file_change_kind_display RenamedFile = lit ''renamed''"

record file_change =
  fi_path :: ustring
  fi_kind :: "file_change_kind option"
  fi_previous_path :: "ustring option"
  fi_added_lines :: "nat option"
  fi_removed_lines :: "nat option"
  fi_unified_diff :: "ustring option"
  fi_old_text :: "ustring option"
  fi_new_text :: "ustring option"

definition file_change_new :: "ustring \<Rightarrow> file_change" where
  "file_change_new path =
     \<lparr>fi_path = path, fi_kind = None, fi_previous_path = None, fi_added_lines = None,
      fi_removed_lines = None, fi_unified_diff = None, fi_old_text = None, fi_new_text = None\<rparr>"

definition moved_from :: "file_change \<Rightarrow> ustring \<Rightarrow> file_change" where
  "moved_from f previous = f\<lparr>fi_previous_path := Some previous, fi_kind := Some RenamedFile\<rparr>"

definition with_texts :: "file_change \<Rightarrow> ustring option \<Rightarrow> ustring \<Rightarrow> file_change" where
  "with_texts f old new =
     f\<lparr>fi_kind := Some (case old of Some _ \<Rightarrow> ModifiedFile | None \<Rightarrow> CreatedFile), fi_old_text := old,
       fi_new_text := Some new\<rparr>"

definition with_unified_diff :: "file_change \<Rightarrow> ustring \<Rightarrow> file_change" where
  "with_unified_diff f d = f\<lparr>fi_unified_diff := Some d\<rparr>"

definition without_contents :: "file_change \<Rightarrow> file_change" where
  "without_contents f = f\<lparr>fi_unified_diff := None, fi_old_text := None, fi_new_text := None\<rparr>"

definition bodies :: "file_change \<Rightarrow> ustring option list" where
  "bodies f = [fi_unified_diff f, fi_old_text f, fi_new_text f]"

definition content_length :: "file_change \<Rightarrow> usize" where
  "content_length f = sum_list (map length (List.map_filter (\<lambda>b. b) (bodies f)))"

definition file_change_with_truncation :: "file_change \<Rightarrow> file_change option \<times> bool" where
  "file_change_with_truncation f =
     (let unified_diff = bound_opt Detail (fi_unified_diff f);
          old_text = bound_opt Detail (fi_old_text f);
          new_text = bound_opt Detail (fi_new_text f);
          truncated = list_ex cut_opt [unified_diff, old_text, new_text]
      in case vendor_path (fi_path f) of
           None \<Rightarrow> (None, truncated)
         | Some path \<Rightarrow>
             (let had_previous_path = fi_previous_path f \<noteq> None;
                  previous_path = Option.bind (fi_previous_path f) vendor_path;
                  truncated = truncated \<or> (had_previous_path \<and> previous_path = None)
              in (Some (f\<lparr>fi_path := path, fi_previous_path := previous_path,
                    fi_unified_diff := map_option bt_text unified_diff,
                    fi_old_text := map_option bt_text old_text,
                    fi_new_text := map_option bt_text new_text\<rparr>), truncated)))"

datatype activity_content =
    EmptyContent
  | PlanContent "plan_step list"
  | DiffContent "file_change list"
  | OutputContent ustring

text \<open>The loop over the files of a diff: what is carried, the shared budget spent, and whether anything was cut.\<close>

fun diff_loop ::
  "file_change list \<Rightarrow> usize \<Rightarrow> bool \<Rightarrow> file_change list \<Rightarrow> file_change list \<times> bool" where
  "diff_loop carried spent truncated [] = (carried, truncated)"
| "diff_loop carried spent truncated (file # files) =
     (if length carried = DIFF_MAX_FILES then (carried, truncated)
      else
        (let (file, cut) = file_change_with_truncation file; truncated = truncated \<or> cut
         in case file of
              None \<Rightarrow> diff_loop carried spent truncated files
            | Some file \<Rightarrow>
                (let total = sat_add spent (content_length file)
                 in if total \<le> DIFF_MAX_CONTENT_LENGTH
                    then diff_loop (carried @ [file]) total truncated files
                    else diff_loop (carried @ [without_contents file]) spent True files)))"

fun content_with_truncation :: "activity_content \<Rightarrow> activity_content \<times> bool" where
  "content_with_truncation EmptyContent = (EmptyContent, False)"
| "content_with_truncation (PlanContent steps) =
     (let rows = map plan_step_with_truncation (take PLAN_MAX_STEPS steps)
      in (PlanContent (map fst rows), length steps > PLAN_MAX_STEPS \<or> list_ex snd rows))"
| "content_with_truncation (DiffContent files) =
     (let (carried, truncated) = diff_loop [] 0 False files
      in (DiffContent carried, truncated \<or> length carried < length files))"
| "content_with_truncation (OutputContent out) =
     (let bounded = bound out Detail in (OutputContent (bt_text bounded), bt_truncated bounded))"

definition content_normalized :: "activity_content \<Rightarrow> activity_content" where
  "content_normalized c = fst (content_with_truncation c)"

subsection \<open>Bounded content\<close>

text \<open>Content as Rust can hold it, and content a host may be given.\<close>

definition path_ok :: "ustring \<Rightarrow> bool" where
  "path_ok p \<longleftrightarrow> valid_str p \<and> vendor_path p = Some p"

definition step_ok :: "plan_step \<Rightarrow> bool" where
  "step_ok s \<longleftrightarrow> field_ok Title (pl_title s) \<and> (\<forall>i \<in> set_option (pl_id s). id_ok i)"

definition file_ok :: "file_change \<Rightarrow> bool" where
  "file_ok f \<longleftrightarrow> path_ok (fi_path f) \<and> (\<forall>p \<in> set_option (fi_previous_path f). path_ok p) \<and>
     (\<forall>b \<in> set (bodies f). opt_field_ok Detail b)"

fun valid_content :: "activity_content \<Rightarrow> bool" where
  "valid_content EmptyContent = True"
| "valid_content (PlanContent steps) = (\<forall>s \<in> set steps. valid_str (pl_title s) \<and> valid_opt (pl_id s))"
| "valid_content (DiffContent files) =
     (\<forall>f \<in> set files. valid_str (fi_path f) \<and> valid_opt (fi_previous_path f) \<and> (\<forall>b \<in> set (bodies f). valid_opt b))"
| "valid_content (OutputContent out) = valid_str out"

fun content_ok :: "activity_content \<Rightarrow> bool" where
  "content_ok EmptyContent = True"
| "content_ok (PlanContent steps) = (length steps \<le> PLAN_MAX_STEPS \<and> (\<forall>s \<in> set steps. step_ok s))"
| "content_ok (DiffContent files) =
     (length files \<le> DIFF_MAX_FILES \<and> (\<forall>f \<in> set files. file_ok f) \<and>
      sum_list (map content_length files) \<le> DIFF_MAX_CONTENT_LENGTH)"
| "content_ok (OutputContent out) = field_ok Detail out"

lemma bound_uncut: "valid_str raw \<Longrightarrow> \<not> bt_truncated (bound raw limit) \<Longrightarrow> bt_text (bound raw limit) = raw"
  by (simp add: bound_simps)

lemma bound_opt_uncut:
  "valid_opt t \<Longrightarrow> \<not> cut_opt (bound_opt limit t) \<Longrightarrow> map_option bt_text (bound_opt limit t) = t"
  by (cases t) (simp_all add: bound_uncut)

lemma vendor_path_Some: "valid_str raw \<Longrightarrow> vendor_path raw = Some p \<Longrightarrow> p = raw \<and> path_ok p"
  using opaque_values_kept_whole [of raw "[]" "[]"] by (simp add: path_ok_def)

lemma path_ok_vendor: "path_ok p \<Longrightarrow> vendor_path p = Some p"
  by (simp add: path_ok_def)

lemma plan_step_bounded:
  assumes "valid_str (pl_title s)" "valid_opt (pl_id s)" "plan_step_with_truncation s = (s', lost)"
  shows "step_ok s' \<and> (\<not> lost \<longrightarrow> s' = s)"
proof -
  have "\<forall>i \<in> set_option (pl_id s'). id_ok i \<and> pl_id s = Some i"
    using assms
    by (cases "pl_id s")
      (auto simp: plan_step_with_truncation_def Let_def res_ok_Some_iff dest: opaque_id_Ok)
  then show ?thesis
    using assms bound_field_ok [OF assms(1), of Title] bound_uncut [OF assms(1), of Title]
    by (cases "pl_id s") (auto simp: plan_step_with_truncation_def Let_def step_ok_def)
qed

lemma plan_step_idem: "step_ok s \<Longrightarrow> plan_step_with_truncation s = (s, False)"
  by (cases "pl_id s")
    (auto simp: step_ok_def plan_step_with_truncation_def Let_def bound_idem opaque_id_idem)

lemma file_bounded:
  assumes "valid_str (fi_path f)" "valid_opt (fi_previous_path f)" "\<forall>b \<in> set (bodies f). valid_opt b"
    and "file_change_with_truncation f = (Some f', lost)"
  shows "file_ok f' \<and> fi_path f' = fi_path f \<and> (\<not> lost \<longrightarrow> f' = f)"
proof -
  obtain path where path: "vendor_path (fi_path f) = Some path"
    using assms(4) by (cases "vendor_path (fi_path f)") (auto simp: file_change_with_truncation_def Let_def)
  note p = vendor_path_Some [OF assms(1) path]
  have prev: "\<forall>q \<in> set_option (Option.bind (fi_previous_path f) vendor_path). path_ok q \<and> fi_previous_path f = Some q"
    using vendor_path_Some assms(2) by (cases "fi_previous_path f") auto
  have b: "valid_opt (fi_unified_diff f)" "valid_opt (fi_old_text f)" "valid_opt (fi_new_text f)"
    using assms(3) by (simp_all add: bodies_def)
  note ok = b [THEN bound_opt_ok, of Detail]
  note uncut = b [THEN bound_opt_uncut, of Detail]
  let ?prev = "Option.bind (fi_previous_path f) vendor_path"
  let ?d = "bound_opt Detail (fi_unified_diff f)" and ?o = "bound_opt Detail (fi_old_text f)"
    and ?n = "bound_opt Detail (fi_new_text f)"
  let ?f = "f\<lparr>fi_path := path, fi_previous_path := ?prev, fi_unified_diff := map_option bt_text ?d,
      fi_old_text := map_option bt_text ?o, fi_new_text := map_option bt_text ?n\<rparr>"
  have whole: "file_change_with_truncation f =
      (Some ?f, list_ex cut_opt [?d, ?o, ?n] \<or> (fi_previous_path f \<noteq> None \<and> ?prev = None))"
    unfolding file_change_with_truncation_def Let_def path by (simp only: option.case)
  have f': "f' = ?f" using arg_cong [where f = fst, OF trans [OF assms(4) [symmetric] whole]]
    unfolding fst_conv by (rule option.inject [THEN iffD1])
  have lost: "lost \<longleftrightarrow> list_ex cut_opt [?d, ?o, ?n] \<or> (fi_previous_path f \<noteq> None \<and> ?prev = None)"
    using arg_cong [where f = snd, OF trans [OF assms(4) [symmetric] whole]] unfolding snd_conv .
  have "\<forall>q \<in> set_option ?prev. path_ok q" using prev by blast
  then have "file_ok f'" using conjunct2 [OF p] ok by (simp add: f' file_ok_def bodies_def)
  moreover have "f' = f" if "\<not> lost"
  proof -
    have "?prev = fi_previous_path f"
    proof (cases ?prev)
      case None
      then show ?thesis using that lost by simp
    next
      case (Some q)
      then show ?thesis using prev by (metis option.set_intros)
    qed
    moreover have "map_option bt_text ?d = fi_unified_diff f" "map_option bt_text ?o = fi_old_text f"
      "map_option bt_text ?n = fi_new_text f"
      using that lost by (auto intro: uncut)
    ultimately show ?thesis using p unfolding f' by (intro file_change.equality) simp_all
  qed
  ultimately show ?thesis using p by (simp add: f')
qed

lemma file_idem: "file_ok f \<Longrightarrow> file_change_with_truncation f = (Some f, False)"
  by (cases "fi_previous_path f")
    (auto simp: file_ok_def file_change_with_truncation_def Let_def bodies_def path_ok_vendor bound_opt_idem)

lemma without_contents_ok: "file_ok f \<Longrightarrow> file_ok (without_contents f) \<and> content_length (without_contents f) = 0"
  by (simp add: file_ok_def without_contents_def bodies_def opt_field_ok_def content_length_def map_filter_def)

abbreviation spent_on :: "file_change list \<Rightarrow> nat" where
  "spent_on files \<equiv> sum_list (map content_length files)"

lemma file_content_length: "file_ok f \<Longrightarrow> content_length f \<le> 3 * 4096"
  by (auto simp: file_ok_def bodies_def content_length_def map_filter_def opt_field_ok_def field_ok_def
      split: option.splits)

lemma budget_exact:
  "spent \<le> DIFF_MAX_CONTENT_LENGTH \<Longrightarrow> file_ok f \<Longrightarrow> sat_add spent (content_length f) = spent + content_length f"
  using file_content_length [of f] by (intro sat_add_exact) (simp add: DIFF_MAX_CONTENT_LENGTH_def usize_MAX_def)

lemma diff_loop_bounded:
  assumes "valid_content (DiffContent files)" "content_ok (DiffContent carried)" "spent = spent_on carried"
    and "diff_loop carried spent truncated files = (out, lost)"
  shows "content_ok (DiffContent out) \<and> (truncated \<longrightarrow> lost) \<and>
    (\<exists>rows. out = carried @ rows \<and> length rows \<le> length files \<and> subseq (map fi_path rows) (map fi_path files) \<and>
      (\<not> lost \<and> length rows = length files \<longrightarrow> rows = files))"
  using assms
proof (induction files arbitrary: carried spent truncated)
  case Nil
  then show ?case by auto
next
  case (Cons f files)
  show ?case
  proof (cases "length carried = DIFF_MAX_FILES")
    case True
    then show ?thesis using Cons.prems by auto
  next
    case room: False
    obtain r c where fc: "file_change_with_truncation f = (r, c)" by (cases "file_change_with_truncation f")
    have valid: "valid_content (DiffContent files)" using Cons.prems(1) by simp
    show ?thesis
    proof (cases r)
      case None
      then have "diff_loop carried spent (truncated \<or> c) files = (out, lost)"
        using Cons.prems(4) room fc by (simp add: Let_def)
      from Cons.IH [OF valid Cons.prems(2,3) this] show ?thesis
        by (auto simp: le_Suc_eq)
    next
      case (Some g)
      have g: "file_ok g" "fi_path g = fi_path f" "\<not> c \<longrightarrow> g = f"
        using file_bounded [of f g c] Cons.prems(1) fc Some by auto
      have spent: "spent \<le> DIFF_MAX_CONTENT_LENGTH" using Cons.prems(2,3) by simp
      let ?fits = "spent + content_length g \<le> DIFF_MAX_CONTENT_LENGTH"
      let ?row = "if ?fits then g else without_contents g"
      have step: "diff_loop (carried @ [?row]) (spent_on (carried @ [?row])) (truncated \<or> c \<or> \<not> ?fits) files = (out, lost)"
        using Cons.prems(3,4) room fc Some budget_exact [OF spent g(1)] without_contents_ok [OF g(1)]
        by (cases ?fits) (simp_all add: Let_def)
      have "content_ok (DiffContent (carried @ [?row]))"
        using Cons.prems(2,3) room g(1) without_contents_ok [OF g(1)] by auto
      from Cons.IH [OF valid this refl step] obtain rows where
        rows: "content_ok (DiffContent out)" "truncated \<or> c \<or> \<not> ?fits \<longrightarrow> lost" "out = (carried @ [?row]) @ rows"
          "length rows \<le> length files" "subseq (map fi_path rows) (map fi_path files)"
          "\<not> lost \<and> length rows = length files \<longrightarrow> rows = files"
        by blast
      have "fi_path ?row = fi_path f" using g(2) by (simp add: without_contents_def)
      then show ?thesis using rows g(3) by (intro conjI exI [of _ "?row # rows"]) auto
    qed
  qed
qed

lemma diff_loop_idem:
  assumes "content_ok (DiffContent (carried @ files))"
  shows "diff_loop carried (spent_on carried) truncated files = (carried @ files, truncated)"
  using assms
proof (induction files arbitrary: carried)
  case (Cons f files)
  have "file_ok f" "length carried \<noteq> DIFF_MAX_FILES" "spent_on carried + content_length f \<le> DIFF_MAX_CONTENT_LENGTH"
    using Cons.prems by auto
  moreover from this have "sat_add (spent_on carried) (content_length f) = spent_on (carried @ [f])"
    using budget_exact [of "spent_on carried" f] by simp
  ultimately show ?case using Cons.IH [of "carried @ [f]"] Cons.prems by (simp add: file_idem Let_def)
qed simp

lemma plan_rows_bounded:
  assumes "\<forall>s \<in> set steps. valid_str (pl_title s) \<and> valid_opt (pl_id s)"
  shows "(\<forall>r \<in> set (map fst (map plan_step_with_truncation steps)). step_ok r) \<and>
    (list_ex snd (map plan_step_with_truncation steps) \<or> map fst (map plan_step_with_truncation steps) = steps)"
  using assms
proof (induction steps)
  case (Cons s steps)
  then show ?case
    using plan_step_bounded [of s "fst (plan_step_with_truncation s)" "snd (plan_step_with_truncation s)"]
    by auto
qed simp

lemma content_ok_idem:
  assumes "content_ok c"
  shows "content_with_truncation c = (c, False)"
proof (cases c)
  case (PlanContent steps)
  then have "\<forall>s \<in> set steps. plan_step_with_truncation s = (s, False)" using assms plan_step_idem by simp
  then have "map (fst \<circ> plan_step_with_truncation) steps = steps" "\<not> list_ex (snd \<circ> plan_step_with_truncation) steps"
    by (simp_all add: map_idI list_ex_iff)
  then show ?thesis using PlanContent assms by (simp add: list_ex_iff)
next
  case (DiffContent files)
  then show ?thesis using diff_loop_idem [of "[]" files False] assms by simp
qed (use assms bound_idem in auto)

lemma content_bounded:
  assumes "valid_content c" "content_with_truncation c = (d, lost)"
  shows "content_ok d \<and> (lost \<or> d = c)"
proof (cases c)
  case EmptyContent
  then show ?thesis using assms(2) by simp
next
  case (PlanContent steps)
  then have "\<forall>s \<in> set (take PLAN_MAX_STEPS steps). valid_str (pl_title s) \<and> valid_opt (pl_id s)"
    using assms(1) by (auto dest: in_set_takeD)
  note rows = plan_rows_bounded [OF this]
  have "d = PlanContent (map fst (map plan_step_with_truncation (take PLAN_MAX_STEPS steps)))"
    "lost \<longleftrightarrow> length steps > PLAN_MAX_STEPS \<or> list_ex snd (map plan_step_with_truncation (take PLAN_MAX_STEPS steps))"
    using assms(2) PlanContent by (auto simp: Let_def)
  with rows show ?thesis using PlanContent by auto
next
  case (DiffContent files)
  obtain out loss where loop: "diff_loop [] 0 False files = (out, loss)" by (cases "diff_loop [] 0 False files")
  have d: "d = DiffContent out" "lost \<longleftrightarrow> loss \<or> length out < length files"
    using assms(2) DiffContent loop by auto
  then show ?thesis
    using diff_loop_bounded [OF _ _ _ loop] assms(1) DiffContent by fastforce
next
  case (OutputContent out)
  then show ?thesis
    using assms bound_field_ok [of out Detail] bound_uncut [of out Detail] by (auto simp: Let_def)
qed

lemma diff_rows_in_order:
  assumes "valid_content (DiffContent files)"
  shows "\<exists>rows. content_normalized (DiffContent files) = DiffContent rows \<and> subseq (map fi_path rows) (map fi_path files)"
proof -
  obtain out loss where loop: "diff_loop [] 0 False files = (out, loss)" by (cases "diff_loop [] 0 False files")
  then have "subseq (map fi_path out) (map fi_path files)"
    using diff_loop_bounded [OF assms _ _ loop] by auto
  with loop show ?thesis by (simp add: content_normalized_def)
qed

text \<open>C38: bounding what an activity carries keeps a plan at 128 steps, a diff at 256 files whose bodies
  together fit 256 Ki characters, and every text within its field's limit; a path or an id is kept
  whole or dropped, the files of a diff stay in their order, and it is honest: content not marked as
  cut is what the vendor sent. Bounding again changes nothing.\<close>

theorem bounded_content_sound:
  assumes "valid_content c" "content_with_truncation c = (d, lost)"
  shows "content_ok d \<and> (lost \<or> d = c) \<and> content_with_truncation d = (d, False) \<and>
    (case c of DiffContent files \<Rightarrow> \<exists>rows. d = DiffContent rows \<and> subseq (map fi_path rows) (map fi_path files)
     | _ \<Rightarrow> True)"
proof -
  note bounded = content_bounded [OF assms]
  have "content_with_truncation d = (d, False)" using bounded by (simp add: content_ok_idem)
  moreover have "content_normalized c = d" using assms(2) by (simp add: content_normalized_def)
  then have "case c of DiffContent files \<Rightarrow> \<exists>rows. d = DiffContent rows \<and> subseq (map fi_path rows) (map fi_path files)
     | _ \<Rightarrow> True"
    using diff_rows_in_order assms(1) by (cases c) (auto simp only: activity_content.case)
  ultimately show ?thesis using bounded by blast
qed

text \<open>A diff whose second path cannot be carried and whose third body is longer than a field.\<close>

definition demo_diff :: activity_content where
  "demo_diff = DiffContent [with_unified_diff (file_change_new (lit ''a'')) (lit ''x''), file_change_new [0x1b],
     with_unified_diff (file_change_new (lit ''b'')) (replicate 5000 0x79)]"

lemma bounded_content_sound_witness:
  "snd (content_with_truncation demo_diff) \<and> content_ok (fst (content_with_truncation demo_diff))"
proof -
  have "valid_content demo_diff"
    by (simp add: demo_diff_def with_unified_diff_def file_change_new_def bodies_def lit_def scalar_value_def
        list_all_iff)
  from bounded_content_sound [OF this surjective_pairing [of "content_with_truncation demo_diff"]]
  have "content_ok (fst (content_with_truncation demo_diff))"
    and "snd (content_with_truncation demo_diff) \<or> fst (content_with_truncation demo_diff) = demo_diff" by blast+
  moreover have "\<not> content_ok demo_diff"
    by (simp add: demo_diff_def with_unified_diff_def file_change_new_def bodies_def file_ok_def opt_field_ok_def
        field_ok_def)
  ultimately show ?thesis by metis
qed

subsection \<open>Extensions\<close>

definition EXTENSIONS_MAX_ENTRIES :: usize where
  "EXTENSIONS_MAX_ENTRIES = 32"

definition EXTENSION_KEY_MAX_LENGTH :: usize where
  "EXTENSION_KEY_MAX_LENGTH = 64"

definition EXTENSION_VALUE_LIMIT :: text_limit where
  "EXTENSION_VALUE_LIMIT = ApprovalOptionLabel"

datatype 'f extension_value = TextExt ustring | IntegerExt "64 word" | FloatExt 'f | BooleanExt bool

fun extension_value_normalized ::
  "(ustring \<Rightarrow> ustring) \<Rightarrow> ('f \<Rightarrow> bool) \<Rightarrow> 'f extension_value \<Rightarrow> 'f extension_value option" where
  "extension_value_normalized msg is_finite (TextExt v) =
     (let bounded = bound (msg v) EXTENSION_VALUE_LIMIT
      in if bt_text bounded \<noteq> [] then Some (TextExt (bt_text bounded)) else None)"
| "extension_value_normalized msg is_finite (FloatExt v) = (if is_finite v then Some (FloatExt v) else None)"
| "extension_value_normalized msg is_finite v = Some v"

type_synonym 'f extensions = "(ustring, 'f extension_value) btree"

fun extensions_loop ::
  "(ustring \<Rightarrow> ustring) \<Rightarrow> ('f \<Rightarrow> bool) \<Rightarrow> 'f extensions \<Rightarrow> (ustring \<times> 'f extension_value) list \<Rightarrow> 'f extensions" where
  "extensions_loop msg is_finite kept [] = kept"
| "extensions_loop msg is_finite kept ((key, v) # entries) =
     (if length kept \<ge> EXTENSIONS_MAX_ENTRIES then kept
      else
        (let key = bt_text (sanitize_owned key)
         in if key = [] \<or> length key > EXTENSION_KEY_MAX_LENGTH then extensions_loop msg is_finite kept entries
            else case extension_value_normalized msg is_finite v of
                   None \<Rightarrow> extensions_loop msg is_finite kept entries
                 | Some v \<Rightarrow> extensions_loop msg is_finite (bt_insert key v kept) entries))"

definition extensions_normalized ::
  "(ustring \<Rightarrow> ustring) \<Rightarrow> ('f \<Rightarrow> bool) \<Rightarrow> 'f extensions \<Rightarrow> 'f extensions" where
  "extensions_normalized msg is_finite e = extensions_loop msg is_finite [] e"

subsection \<open>Activities\<close>

datatype activity_status = CompletedActivity | FailedActivity | CancelledActivity

record 'f activity =
  ac_name :: ustring
  ac_kind :: activity_kind
  ac_title :: ustring
  ac_detail :: "ustring option"
  ac_item_id :: "ustring option"
  ac_parent_id :: "ustring option"
  ac_subagent_id :: "ustring option"
  ac_content :: "activity_content option"
  ac_extensions :: "'f extensions"
  ac_truncated :: bool

definition activity_new :: "ustring \<Rightarrow> activity_kind \<Rightarrow> ustring \<Rightarrow> 'f activity" where
  "activity_new name kind title =
     \<lparr>ac_name = name, ac_kind = kind, ac_title = title, ac_detail = None, ac_item_id = None,
      ac_parent_id = None, ac_subagent_id = None, ac_content = None, ac_extensions = [],
      ac_truncated = False\<rparr>"

definition opt_content :: "activity_content option \<Rightarrow> activity_content option \<times> bool" where
  "opt_content c =
     (case c of
        None \<Rightarrow> (None, False)
      | Some c \<Rightarrow> (let (d, truncated) = content_with_truncation c in (Some d, truncated)))"

definition opt_id :: "string \<Rightarrow> ustring option \<Rightarrow> ustring option" where
  "opt_id field i = Option.bind i (\<lambda>i. res_ok (opaque_id i (lit field)))"

definition activity_normalized ::
  "(ustring \<Rightarrow> ustring) \<Rightarrow> ('f \<Rightarrow> bool) \<Rightarrow> 'f activity \<Rightarrow> 'f activity" where
  "activity_normalized msg is_finite a =
     (let name = bound (ac_name a) ActivityName;
          title = bound (ac_title a) Title;
          detail = bound_opt Detail (ac_detail a);
          (content, content_truncated) = opt_content (ac_content a)
      in \<lparr>ac_name = bt_text name, ac_kind = ac_kind a, ac_title = bt_text title,
          ac_detail = map_option bt_text detail,
          ac_item_id = opt_id ''activity item id'' (ac_item_id a),
          ac_parent_id = opt_id ''activity parent id'' (ac_parent_id a),
          ac_subagent_id = opt_id ''activity subagent id'' (ac_subagent_id a),
          ac_content = content, ac_extensions = extensions_normalized msg is_finite (ac_extensions a),
          ac_truncated = (ac_truncated a \<or> bt_truncated name \<or> bt_truncated title \<or> content_truncated \<or>
            cut_opt detail)\<rparr>)"

record activity_update =
  au_title :: "ustring option"
  au_detail :: "ustring option"
  au_content :: "activity_content option"
  au_truncated :: bool

definition activity_update_new :: activity_update where
  "activity_update_new = \<lparr>au_title = None, au_detail = None, au_content = None, au_truncated = False\<rparr>"

definition activity_update_is_empty :: "activity_update \<Rightarrow> bool" where
  "activity_update_is_empty u \<longleftrightarrow> au_title u = None \<and> au_detail u = None \<and> au_content u = None"

definition activity_update_normalized :: "activity_update \<Rightarrow> activity_update" where
  "activity_update_normalized u =
     (let title = bound_opt Title (au_title u);
          detail = bound_opt Detail (au_detail u);
          (content, content_truncated) = opt_content (au_content u)
      in \<lparr>au_title = map_option bt_text title, au_detail = map_option bt_text detail, au_content = content,
          au_truncated = (au_truncated u \<or> content_truncated \<or> cut_opt title \<or> cut_opt detail)\<rparr>)"

record activity_result =
  ar_status :: activity_status
  ar_detail :: "ustring option"
  ar_content :: "activity_content option"
  ar_truncated :: bool

definition activity_result_new :: "activity_status \<Rightarrow> activity_result" where
  "activity_result_new status = \<lparr>ar_status = status, ar_detail = None, ar_content = None, ar_truncated = False\<rparr>"

definition activity_result_normalized :: "activity_result \<Rightarrow> activity_result" where
  "activity_result_normalized r =
     (let detail = bound_opt Detail (ar_detail r);
          (content, content_truncated) = opt_content (ar_content r)
      in \<lparr>ar_status = ar_status r, ar_detail = map_option bt_text detail, ar_content = content,
          ar_truncated = (ar_truncated r \<or> content_truncated \<or> cut_opt detail)\<rparr>)"

subsection \<open>Bounded activities\<close>

definition valid_opt_content :: "activity_content option \<Rightarrow> bool" where
  "valid_opt_content c \<longleftrightarrow> (\<forall>d \<in> set_option c. valid_content d)"

definition opt_content_ok :: "activity_content option \<Rightarrow> bool" where
  "opt_content_ok c \<longleftrightarrow> (\<forall>d \<in> set_option c. content_ok d)"

lemma opt_content_idem: "opt_content_ok c \<Longrightarrow> opt_content c = (c, False)"
  by (cases c) (simp_all add: opt_content_def opt_content_ok_def content_ok_idem)

lemma opt_id_ok:
  "valid_opt i \<Longrightarrow> (\<forall>j \<in> set_option (opt_id field i). id_ok j \<and> i = Some j) \<and> opt_id field' (opt_id field i) = opt_id field i"
  by (cases i) (auto simp: opt_id_def res_ok_Some_iff opaque_id_idem split: sum.splits
      dest: opaque_id_Ok simp: res_ok_def)

lemma opt_content_bounded:
  assumes "valid_opt_content c" "opt_content c = (d, lost)"
  shows "opt_content_ok d \<and> (lost \<or> d = c)"
proof (cases c)
  case None
  then show ?thesis using assms(2) by (simp add: opt_content_def opt_content_ok_def)
next
  case (Some e)
  obtain e' l where "content_with_truncation e = (e', l)" by (cases "content_with_truncation e")
  then show ?thesis
    using content_bounded [of e e' l] assms Some by (auto simp: opt_content_def opt_content_ok_def valid_opt_content_def)
qed

definition update_ok :: "activity_update \<Rightarrow> bool" where
  "update_ok u \<longleftrightarrow> opt_field_ok Title (au_title u) \<and> opt_field_ok Detail (au_detail u) \<and> opt_content_ok (au_content u)"

definition result_ok :: "activity_result \<Rightarrow> bool" where
  "result_ok r \<longleftrightarrow> opt_field_ok Detail (ar_detail r) \<and> opt_content_ok (ar_content r)"

lemma update_bounded:
  assumes "valid_opt (au_title u)" "valid_opt (au_detail u)" "valid_opt_content (au_content u)"
  shows "update_ok (activity_update_normalized u) \<and>
    (au_truncated (activity_update_normalized u) \<or> activity_update_normalized u = u)"
proof -
  obtain d l where c: "opt_content (au_content u) = (d, l)" by (cases "opt_content (au_content u)")
  note b = opt_content_bounded [OF assms(3) c] bound_opt_ok [OF assms(1)] bound_opt_ok [OF assms(2)]
  have n: "activity_update_normalized u = \<lparr>au_title = map_option bt_text (bound_opt Title (au_title u)),
      au_detail = map_option bt_text (bound_opt Detail (au_detail u)), au_content = d,
      au_truncated = (au_truncated u \<or> l \<or> cut_opt (bound_opt Title (au_title u)) \<or> cut_opt (bound_opt Detail (au_detail u)))\<rparr>"
    by (simp add: activity_update_normalized_def Let_def c)
  have "activity_update_normalized u = u" if "\<not> au_truncated (activity_update_normalized u)"
    using that b(1) bound_opt_uncut [OF assms(1), of Title] bound_opt_uncut [OF assms(2), of Detail]
    unfolding n by (intro activity_update.equality) auto
  moreover have "update_ok (activity_update_normalized u)" using b unfolding n update_ok_def by simp
  ultimately show ?thesis by blast
qed

lemma result_bounded:
  assumes "valid_opt (ar_detail r)" "valid_opt_content (ar_content r)"
  shows "result_ok (activity_result_normalized r) \<and> ar_status (activity_result_normalized r) = ar_status r \<and>
    (ar_truncated (activity_result_normalized r) \<or> activity_result_normalized r = r)"
proof -
  obtain d l where c: "opt_content (ar_content r) = (d, l)" by (cases "opt_content (ar_content r)")
  note b = opt_content_bounded [OF assms(2) c] bound_opt_ok [OF assms(1)]
  have n: "activity_result_normalized r = \<lparr>ar_status = ar_status r,
      ar_detail = map_option bt_text (bound_opt Detail (ar_detail r)), ar_content = d,
      ar_truncated = (ar_truncated r \<or> l \<or> cut_opt (bound_opt Detail (ar_detail r)))\<rparr>"
    by (simp add: activity_result_normalized_def Let_def c)
  have "activity_result_normalized r = r" if "\<not> ar_truncated (activity_result_normalized r)"
    using that b(1) bound_opt_uncut [OF assms(1), of Detail]
    unfolding n by (intro activity_result.equality) auto
  moreover have "result_ok (activity_result_normalized r)" using b unfolding n result_ok_def by simp
  moreover have "ar_status (activity_result_normalized r) = ar_status r" unfolding n by simp
  ultimately show ?thesis by blast
qed

lemma update_result_idem:
  "update_ok u \<Longrightarrow> activity_update_normalized u = u"
  "result_ok r \<Longrightarrow> activity_result_normalized r = r"
  by (simp_all add: update_ok_def result_ok_def activity_update_normalized_def activity_result_normalized_def
      Let_def opt_content_idem bound_opt_idem)

fun entry_ok :: "ustring \<times> 'f extension_value \<Rightarrow> bool" where
  "entry_ok (k, v) \<longleftrightarrow> k \<noteq> [] \<and> length k \<le> EXTENSION_KEY_MAX_LENGTH \<and>
     (case v of TextExt s \<Rightarrow> s \<noteq> [] \<and> field_ok EXTENSION_VALUE_LIMIT s | _ \<Rightarrow> True)"

definition extensions_ok :: "'f extensions \<Rightarrow> bool" where
  "extensions_ok e \<longleftrightarrow> bt_invar e \<and> length e \<le> EXTENSIONS_MAX_ENTRIES \<and> (\<forall>x \<in> set e. entry_ok x)"

definition valid_entry :: "ustring \<times> 'f extension_value \<Rightarrow> bool" where
  "valid_entry x \<longleftrightarrow> (case snd x of TextExt s \<Rightarrow> valid_str s | _ \<Rightarrow> True)"

lemma bt_insert_bounds:
  "set (bt_insert k v m) \<subseteq> insert (k, v) (set m)" "length (bt_insert k v m) \<le> Suc (length m)"
  by (induction k v m rule: bt_insert.induct) auto

lemma extension_value_ok:
  assumes "\<And>s. valid_str s \<Longrightarrow> valid_str (msg s)" "valid_entry (k, v)"
    "extension_value_normalized msg is_finite v = Some w" "k' \<noteq> []" "length k' \<le> EXTENSION_KEY_MAX_LENGTH"
  shows "entry_ok (k', w)"
  using assms bound_field_ok by (cases v) (auto simp: Let_def valid_entry_def split: if_splits)

lemma extensions_loop_bounded:
  assumes "\<And>s. valid_str s \<Longrightarrow> valid_str (msg s)" "\<forall>x \<in> set entries. valid_entry x" "extensions_ok kept"
  shows "extensions_ok (extensions_loop msg is_finite kept entries)"
  using assms(2,3)
proof (induction entries arbitrary: kept)
  case (Cons e entries)
  obtain key v where e: "e = (key, v)" by (cases e)
  let ?key = "bt_text (sanitize_owned key)"
  have IH: "extensions_ok m \<Longrightarrow> extensions_ok (extensions_loop msg is_finite m entries)" for m
    using Cons.IH [of m] Cons.prems(1) by simp
  show ?case
  proof (cases "length kept \<ge> EXTENSIONS_MAX_ENTRIES \<or> ?key = [] \<or> length ?key > EXTENSION_KEY_MAX_LENGTH \<or>
      extension_value_normalized msg is_finite v = None")
    case True
    then have "extensions_loop msg is_finite kept (e # entries) = extensions_loop msg is_finite kept entries \<or>
        extensions_loop msg is_finite kept (e # entries) = kept"
      by (auto simp: e Let_def)
    then show ?thesis using IH [OF Cons.prems(2)] Cons.prems(2) by metis
  next
    case False
    then obtain w where w: "extension_value_normalized msg is_finite v = Some w" by auto
    then have step: "extensions_loop msg is_finite kept (e # entries) =
        extensions_loop msg is_finite (bt_insert ?key w kept) entries"
      using False by (simp add: e Let_def)
    have "valid_entry (key, v)" using Cons.prems(1) e by simp
    then have "entry_ok (?key, w)" using extension_value_ok [OF assms(1) _ w, of key ?key] False by (simp add: not_less)
    then have "extensions_ok (bt_insert ?key w kept)"
      using Cons.prems(2) False bt_insert_bounds [of ?key w kept] bt_invar_insert [of kept ?key w]
      unfolding extensions_ok_def by auto
    then show ?thesis using IH step by simp
  qed
qed simp

text \<open>What a host is given of an activity is bounded, in its announcement, its updates and its result:
  every text within its field's limit, content within its bounds, at most 32 extension entries under
  distinct non-empty keys of at most 64 characters. The status and the kind are never changed, an id is
  the vendor's own or absent, and a result or an update not marked as cut is exactly what was reported.\<close>

theorem activity_records_bounded:
  assumes "\<And>s. valid_str s \<Longrightarrow> valid_str (msg s)"
    and "valid_str (ac_name a)" "valid_str (ac_title a)" "valid_opt (ac_detail a)" "valid_opt (ac_item_id a)"
      "valid_opt_content (ac_content a)" "\<forall>x \<in> set (ac_extensions a). valid_entry x"
    and "valid_opt (au_title u)" "valid_opt (au_detail u)" "valid_opt_content (au_content u)"
    and "valid_opt (ar_detail r)" "valid_opt_content (ar_content r)"
  shows "(let b = activity_normalized msg is_finite a
      in field_ok ActivityName (ac_name b) \<and> field_ok Title (ac_title b) \<and> opt_field_ok Detail (ac_detail b) \<and>
         opt_content_ok (ac_content b) \<and> extensions_ok (ac_extensions b) \<and> ac_kind b = ac_kind a \<and>
         (\<forall>i \<in> set_option (ac_item_id b). id_ok i \<and> ac_item_id a = Some i)) \<and>
    update_ok (activity_update_normalized u) \<and>
    (au_truncated (activity_update_normalized u) \<or> activity_update_normalized u = u) \<and>
    activity_update_normalized (activity_update_normalized u) = activity_update_normalized u \<and>
    result_ok (activity_result_normalized r) \<and> ar_status (activity_result_normalized r) = ar_status r \<and>
    (ar_truncated (activity_result_normalized r) \<or> activity_result_normalized r = r) \<and>
    activity_result_normalized (activity_result_normalized r) = activity_result_normalized r"
proof -
  obtain d l where c: "opt_content (ac_content a) = (d, l)" by (cases "opt_content (ac_content a)")
  have empty: "extensions_ok []" by (simp add: extensions_ok_def bt_invar_def)
  note facts = extensions_loop_bounded [of msg "ac_extensions a" "[]" is_finite, OF assms(1,7) empty]
    opt_content_bounded [OF assms(6) c] opt_id_ok [OF assms(5), of "''activity item id''"]
    bound_opt_ok [OF assms(4), of Detail] bound_field_ok [OF assms(2), of ActivityName]
    bound_field_ok [OF assms(3), of Title]
  have "let b = activity_normalized msg is_finite a
      in field_ok ActivityName (ac_name b) \<and> field_ok Title (ac_title b) \<and> opt_field_ok Detail (ac_detail b) \<and>
         opt_content_ok (ac_content b) \<and> extensions_ok (ac_extensions b) \<and> ac_kind b = ac_kind a \<and>
         (\<forall>i \<in> set_option (ac_item_id b). id_ok i \<and> ac_item_id a = Some i)"
    unfolding activity_normalized_def Let_def c case_prod_conv activity.select_convs extensions_normalized_def
    using facts by blast
  moreover note u = update_bounded [OF assms(8-10)] and r = result_bounded [OF assms(11,12)]
  moreover note update_result_idem(1) [OF conjunct1 [OF u]] update_result_idem(2) [OF conjunct1 [OF r]]
  ultimately show ?thesis by blast
qed

text \<open>A shell activity whose title is cut, an update and a failed result.\<close>

definition demo_activity :: "nat activity" where
  "demo_activity = (activity_new (lit ''shell'') CommandActivity (replicate 300 0x78))
     \<lparr>ac_item_id := Some (lit ''i1''), ac_extensions := [(lit ''k'', BooleanExt True)]\<rparr>"

lemma activity_records_bounded_witness:
  "field_ok Title (ac_title (activity_normalized (\<lambda>s. s) (\<lambda>_. True) demo_activity)) \<and>
   update_ok (activity_update_normalized activity_update_new) \<and>
   ar_status (activity_result_normalized (activity_result_new FailedActivity)) = FailedActivity"
  using activity_records_bounded [of "\<lambda>s. s" demo_activity activity_update_new "activity_result_new FailedActivity" "\<lambda>_. True"]
  by (simp add: demo_activity_def activity_new_def activity_update_new_def activity_result_new_def lit_def
      scalar_value_def valid_entry_def valid_opt_content_def Let_def list_all_iff)

end
