(* ===== verification/Json_Value.thy ===== *)
theory Json_Value imports Utf8 begin

text \<open>
  A decoded JSON value (\<open>serde_json::Value\<close>): a number is its own text, an object its members in
  iteration order. Lookups are those of \<open>Value::get\<close> and \<open>Value::as_str\<close>, and \<open>json_text\<close> is the
  compact text \<open>to_string\<close> writes.
\<close>

datatype json =
    JNull | JBool bool | JNumber ustring | JString ustring | JArray "json list"
  | JObject "(ustring \<times> json) list"

fun json_get :: "json \<Rightarrow> ustring \<Rightarrow> json option" where
  "json_get (JObject members) key = map_of members key"
| "json_get _ _ = None"

fun json_str :: "json \<Rightarrow> ustring option" where
  "json_str (JString s) = Some s"
| "json_str _ = None"

fun json_type :: "json \<Rightarrow> ustring" where
  "json_type JNull = lit ''null''"
| "json_type (JBool _) = lit ''boolean''"
| "json_type (JNumber _) = lit ''number''"
| "json_type (JString _) = lit ''string''"
| "json_type (JArray _) = lit ''array''"
| "json_type (JObject _) = lit ''object''"

definition hex_digit_char :: "nat \<Rightarrow> uchar" where
  "hex_digit_char n = (if n < 10 then 0x30 + n else 0x57 + n)"

definition json_escape :: "uchar \<Rightarrow> ustring" where
  "json_escape c =
     (if c = 0x22 then [0x5c, 0x22] else if c = 0x5c then [0x5c, 0x5c]
      else if c = 0x08 then [0x5c, 0x62] else if c = 0x09 then [0x5c, 0x74]
      else if c = 0x0a then [0x5c, 0x6e] else if c = 0x0c then [0x5c, 0x66]
      else if c = 0x0d then [0x5c, 0x72]
      else if c < 0x20 then [0x5c, 0x75, 0x30, 0x30, hex_digit_char (c div 16), hex_digit_char (c mod 16)]
      else [c])"

definition json_quote :: "ustring \<Rightarrow> ustring" where
  "json_quote s = [0x22] @ concat (map json_escape s) @ [0x22]"

fun json_text :: "json \<Rightarrow> ustring" and json_items :: "bool \<Rightarrow> json list \<Rightarrow> ustring"
  and json_members :: "bool \<Rightarrow> (ustring \<times> json) list \<Rightarrow> ustring" where
  "json_text JNull = lit ''null''"
| "json_text (JBool b) = (if b then lit ''true'' else lit ''false'')"
| "json_text (JNumber n) = n"
| "json_text (JString s) = json_quote s"
| "json_text (JArray vs) = [0x5b] @ json_items True vs @ [0x5d]"
| "json_text (JObject ms) = [0x7b] @ json_members True ms @ [0x7d]"
| "json_items first [] = []"
| "json_items first (v # vs) = (if first then [] else [0x2c]) @ json_text v @ json_items False vs"
| "json_members first [] = []"
| "json_members first ((k, v) # ms) =
     (if first then [] else [0x2c]) @ json_quote k @ [0x3a] @ json_text v @ json_members False ms"

end
