(* ===== verification/Codex_Reducer.thy ===== *)
theory Codex_Reducer imports Turn_Stream Activity_Content Identity Json_Value begin

text \<open>
  The Codex app-server's notifications and what a turn makes of each one alone
  (\<open>mango-agent-codex\<close>: \<open>protocol/items.rs\<close>, \<open>protocol/notifications.rs\<close>, \<open>activity.rs\<close>, \<open>reducer.rs\<close>).
  Decoding JSON into these types is serde's. The account snapshot is a parameter with its conversion
  (\<open>rate_limits.rs\<close>), and a JSON value keeps its object members in iteration order.
\<close>

subsection \<open>Thread items\<close>

datatype item_status = ItemInProgress | ItemCompletedStatus | ItemFailed | ItemDeclined | ItemUnknown

record file_update_change =
  fu_path :: ustring
  fu_diff :: ustring

datatype thread_item =
    AgentMessageItem ustring ustring
  | ReasoningItem ustring "ustring list" "ustring list"
  | CommandExecutionItem ustring ustring "ustring option" item_status "ustring option" "64 word option"
  | FileChangeItem ustring "file_update_change list" item_status
  | McpToolCallItem ustring ustring ustring item_status
  | WebSearchItem ustring ustring
  | PlanItem ustring ustring
  | SubAgentItem ustring "ustring option" "ustring option"
  | EnteredReviewItem ustring ustring
  | ExitedReviewItem ustring ustring
  | ContextCompactionItem ustring
  | OtherItem ustring "ustring option" "item_status option"

definition MODELLED_FAMILIES :: "ustring list" where
  "MODELLED_FAMILIES = map lit
     [''agentMessage'', ''reasoning'', ''commandExecution'', ''fileChange'', ''mcpToolCall'', ''webSearch'',
      ''plan'', ''subAgentActivity'', ''enteredReviewMode'', ''exitedReviewMode'', ''contextCompaction'']"

definition CLIENT_ECHO_FAMILIES :: "ustring list" where
  "CLIENT_ECHO_FAMILIES = map lit [''userMessage'', ''hookPrompt'', ''functionCallOutput'']"

fun item_id_of :: "thread_item \<Rightarrow> ustring option" where
  "item_id_of (AgentMessageItem i _) = Some i"
| "item_id_of (ReasoningItem i _ _) = Some i"
| "item_id_of (CommandExecutionItem i _ _ _ _ _) = Some i"
| "item_id_of (FileChangeItem i _ _) = Some i"
| "item_id_of (McpToolCallItem i _ _ _) = Some i"
| "item_id_of (WebSearchItem i _) = Some i"
| "item_id_of (PlanItem i _) = Some i"
| "item_id_of (SubAgentItem i _ _) = Some i"
| "item_id_of (EnteredReviewItem i _) = Some i"
| "item_id_of (ExitedReviewItem i _) = Some i"
| "item_id_of (ContextCompactionItem i) = Some i"
| "item_id_of (OtherItem _ i _) = i"

fun is_unmodelled_family :: "thread_item \<Rightarrow> bool" where
  "is_unmodelled_family (OtherItem item_type _ _) \<longleftrightarrow>
     \<not> List.member MODELLED_FAMILIES item_type \<and> \<not> List.member CLIENT_ECHO_FAMILIES item_type"
| "is_unmodelled_family _ \<longleftrightarrow> False"

fun is_streamed_text :: "thread_item \<Rightarrow> bool" where
  "is_streamed_text (AgentMessageItem _ _) = True"
| "is_streamed_text (ReasoningItem _ _ _) = True"
| "is_streamed_text _ = False"

subsection \<open>Activities of an item\<close>

fun is_rendered :: "thread_item \<Rightarrow> bool" where
  "is_rendered (OtherItem t i s) \<longleftrightarrow> i \<noteq> None \<and> is_unmodelled_family (OtherItem t i s)"
| "is_rendered item \<longleftrightarrow> \<not> is_streamed_text item"

definition dec_i64 :: "64 word \<Rightarrow> ustring" where
  "dec_i64 w = (if sint w < 0 then lit ''-'' @ dec (nat (- sint w)) else dec (nat (sint w)))"

fun command_detail :: "ustring option \<Rightarrow> 64 word option \<Rightarrow> ustring option" where
  "command_detail (Some output) (Some code) = Some (lit ''exit '' @ dec_i64 code @ [0x0a] @ output)"
| "command_detail (Some output) None = Some output"
| "command_detail None (Some code) = Some (lit ''exit '' @ dec_i64 code)"
| "command_detail None None = None"

fun join_lines :: "ustring list \<Rightarrow> ustring" where
  "join_lines [] = []"
| "join_lines [l] = l"
| "join_lines (l # m # ls) = l @ [0x0a] @ join_lines (m # ls)"

definition file_change_detail :: "file_update_change list \<Rightarrow> ustring option" where
  "file_change_detail changes = (if changes = [] then None else Some (join_lines (map fu_path changes)))"

definition file_change_content :: "file_update_change list \<Rightarrow> activity_content option" where
  "file_change_content changes =
     (if changes = [] then None
      else Some (DiffContent (map (\<lambda>c.
        let file = file_change_new (fu_path c)
        in if fu_diff c = [] then file else with_unified_diff file (fu_diff c)) changes)))"

fun started_parts ::
  "thread_item \<Rightarrow> (ustring \<times> activity_kind \<times> ustring \<times> ustring option \<times> activity_content option) option" where
  "started_parts (OtherItem item_type _ _) = Some (item_type, OtherActivity, item_type, None, None)"
| "started_parts (CommandExecutionItem _ command cwd _ _ _) =
     Some (lit ''shell'', CommandActivity, command, map_option (\<lambda>c. lit ''in '' @ c) cwd, None)"
| "started_parts (FileChangeItem _ changes _) =
     Some (lit ''apply_patch'', FileChange,
       (case changes of [c] \<Rightarrow> fu_path c | _ \<Rightarrow> dec (length changes) @ lit '' files''),
       file_change_detail changes, file_change_content changes)"
| "started_parts (McpToolCallItem _ server tool _) = Some (lit ''mcp'', Mcp, server @ lit '': '' @ tool, None, None)"
| "started_parts (WebSearchItem _ query) = Some (lit ''web_search'', WebSearch, query, None, None)"
| "started_parts (PlanItem _ plan) = Some (lit ''update_plan'', Plan, lit ''Plan'', Some plan, None)"
| "started_parts (SubAgentItem _ _ kind) =
     Some (lit ''subagent'', Subagent, (case kind of Some k \<Rightarrow> k | None \<Rightarrow> lit ''Subagent''), None, None)"
| "started_parts (EnteredReviewItem _ review) = Some (lit ''review'', Review, review, None, None)"
| "started_parts (ExitedReviewItem _ review) = Some (lit ''review'', Review, review, None, None)"
| "started_parts (ContextCompactionItem _) =
     Some (lit ''compact'', Compaction, lit ''Compacting the conversation'', None, None)"
| "started_parts _ = None"

fun acting_subagent :: "thread_item \<Rightarrow> ustring option" where
  "acting_subagent (SubAgentItem _ (Some i) _) = (if i \<noteq> [] then Some i else None)"
| "acting_subagent _ = None"

definition activity_started :: "thread_item \<Rightarrow> 'f activity option" where
  "activity_started item =
     (if \<not> is_rendered item then None
      else case started_parts item of
        None \<Rightarrow> None
      | Some (name, kind, title, detail, content) \<Rightarrow>
          Some ((activity_new name kind title)
            \<lparr>ac_subagent_id := acting_subagent item, ac_detail := detail, ac_content := content,
             ac_item_id := item_id_of item\<rparr>))"

fun activity_outcome :: "item_status \<Rightarrow> activity_status" where
  "activity_outcome ItemCompletedStatus = CompletedActivity"
| "activity_outcome ItemFailed = FailedActivity"
| "activity_outcome ItemDeclined = CancelledActivity"
| "activity_outcome ItemInProgress = FailedActivity"
| "activity_outcome ItemUnknown = FailedActivity"

fun completed_parts :: "thread_item \<Rightarrow> item_status \<times> ustring option \<times> activity_content option" where
  "completed_parts (CommandExecutionItem _ _ _ status output exit_code) =
     (status, command_detail output exit_code, map_option OutputContent output)"
| "completed_parts (FileChangeItem _ changes status) = (status, file_change_detail changes, file_change_content changes)"
| "completed_parts (McpToolCallItem _ _ _ status) = (status, None, None)"
| "completed_parts (OtherItem _ _ status) = ((case status of Some s \<Rightarrow> s | None \<Rightarrow> ItemCompletedStatus), None, None)"
| "completed_parts _ = (ItemCompletedStatus, None, None)"

definition activity_completed :: "thread_item \<Rightarrow> activity_result option" where
  "activity_completed item =
     (if \<not> is_rendered item then None
      else let (status, detail, content) = completed_parts item
           in Some ((activity_result_new (activity_outcome status))\<lparr>ar_detail := detail, ar_content := content\<rparr>))"

subsection \<open>Turns and their errors\<close>

datatype turn_status = TurnInProgress | TurnCompletedStatus | TurnInterrupted | TurnFailed | TurnUnknown

record turn_error =
  te_message :: ustring
  te_additional_details :: "ustring option"
  te_codex_error_info :: "json option"

definition turn_error_default :: turn_error where
  "turn_error_default = \<lparr>te_message = [], te_additional_details = None, te_codex_error_info = None\<rparr>"

fun codex_error_code :: "json \<Rightarrow> ustring" where
  "codex_error_code (JString code) = (if code \<noteq> [] then code else lit ''other'')"
| "codex_error_code (JObject members) = (case members of [] \<Rightarrow> lit ''other'' | (k, _) # _ \<Rightarrow> k)"
| "codex_error_code _ = lit ''other''"

definition turn_vendor_code :: "turn_error \<Rightarrow> ustring option" where
  "turn_vendor_code e = map_option codex_error_code (te_codex_error_info e)"

record turn_handle =
  th_id :: ustring
  th_status :: "turn_status option"
  th_error :: "turn_error option"

subsection \<open>Token usage\<close>

record token_usage_breakdown =
  tk_input :: "64 word option"
  tk_cached_input :: "64 word option"
  tk_cache_write_input :: "64 word option"
  tk_output :: "64 word option"
  tk_reasoning_output :: "64 word option"
  tk_total :: "64 word option"

record thread_token_usage =
  tt_total :: "token_usage_breakdown option"
  tt_last :: "token_usage_breakdown option"
  tt_model_context_window :: "64 word option"

record usage =
  us_input :: "64 word option"
  us_output :: "64 word option"
  us_cache_read :: "64 word option"
  us_cache_write :: "64 word option"
  us_reasoning :: "64 word option"
  us_total :: "64 word option"

record thread_usage =
  tu_last :: "usage option"
  tu_total :: "usage option"
  tu_context_window :: "64 word option"

definition to_usage :: "token_usage_breakdown \<Rightarrow> usage" where
  "to_usage b =
     \<lparr>us_input = tk_input b, us_output = tk_output b, us_cache_read = tk_cached_input b,
      us_cache_write = tk_cache_write_input b, us_reasoning = tk_reasoning_output b, us_total = tk_total b\<rparr>"

subsection \<open>Notifications\<close>

text \<open>
  Each constructor has the fields of its params record in order; of a thread summary only the id is
  read. \<open>'s\<close> is the account's rate-limit snapshot.
\<close>

datatype 's notification =
    ThreadStartedN ustring
  | TurnStartedN ustring turn_handle
  | TurnCompletedN ustring turn_handle
  | ItemStartedN ustring ustring thread_item
  | ItemCompletedN ustring ustring thread_item
  | AgentMessageDeltaN ustring ustring ustring ustring
  | ReasoningDeltaN ustring ustring ustring ustring
  | CommandOutputDeltaN ustring ustring ustring ustring
  | McpToolCallProgressN ustring ustring ustring ustring
  | FileChangePatchUpdatedN ustring ustring ustring "file_update_change list"
  | ThreadTokenUsageN ustring ustring thread_token_usage
  | RateLimitsN 's
  | ServerRequestResolvedN ustring json
  | ErrorN ustring ustring turn_error bool
  | MalformedN ustring "ustring option" "ustring option"
  | OtherN ustring

fun note_thread_id :: "'s notification \<Rightarrow> ustring option" where
  "note_thread_id (ThreadStartedN t) = Some t"
| "note_thread_id (TurnStartedN t _) = Some t"
| "note_thread_id (TurnCompletedN t _) = Some t"
| "note_thread_id (ItemStartedN t _ _) = Some t"
| "note_thread_id (ItemCompletedN t _ _) = Some t"
| "note_thread_id (AgentMessageDeltaN t _ _ _) = Some t"
| "note_thread_id (ReasoningDeltaN t _ _ _) = Some t"
| "note_thread_id (CommandOutputDeltaN t _ _ _) = Some t"
| "note_thread_id (McpToolCallProgressN t _ _ _) = Some t"
| "note_thread_id (FileChangePatchUpdatedN t _ _ _) = Some t"
| "note_thread_id (ThreadTokenUsageN t _ _) = Some t"
| "note_thread_id (ServerRequestResolvedN t _) = Some t"
| "note_thread_id (ErrorN t _ _ _) = Some t"
| "note_thread_id (MalformedN _ t _) = t"
| "note_thread_id (RateLimitsN _) = None"
| "note_thread_id (OtherN _) = None"

fun note_turn_id :: "'s notification \<Rightarrow> ustring option" where
  "note_turn_id (TurnStartedN _ turn) = Some (th_id turn)"
| "note_turn_id (TurnCompletedN _ turn) = Some (th_id turn)"
| "note_turn_id (ItemStartedN _ u _) = Some u"
| "note_turn_id (ItemCompletedN _ u _) = Some u"
| "note_turn_id (AgentMessageDeltaN _ u _ _) = Some u"
| "note_turn_id (ReasoningDeltaN _ u _ _) = Some u"
| "note_turn_id (CommandOutputDeltaN _ u _ _) = Some u"
| "note_turn_id (McpToolCallProgressN _ u _ _) = Some u"
| "note_turn_id (FileChangePatchUpdatedN _ u _ _) = Some u"
| "note_turn_id (ThreadTokenUsageN _ u _) = Some u"
| "note_turn_id (ErrorN _ u _ _) = Some u"
| "note_turn_id (MalformedN _ _ u) = u"
| "note_turn_id _ = None"

definition TURN_COMPLETED :: ustring where
  "TURN_COMPLETED = lit ''turn/completed''"

fun is_malformed_terminal :: "'s notification \<Rightarrow> bool" where
  "is_malformed_terminal (MalformedN m _ _) \<longleftrightarrow> m = TURN_COMPLETED"
| "is_malformed_terminal _ \<longleftrightarrow> False"

fun named_family :: "'s notification \<Rightarrow> bool" where
  "named_family (TurnCompletedN _ _) = True"
| "named_family (ItemStartedN _ _ _) = True"
| "named_family (ItemCompletedN _ _ _) = True"
| "named_family (AgentMessageDeltaN _ _ _ _) = True"
| "named_family (ReasoningDeltaN _ _ _ _) = True"
| "named_family (CommandOutputDeltaN _ _ _ _) = True"
| "named_family (McpToolCallProgressN _ _ _ _) = True"
| "named_family (FileChangePatchUpdatedN _ _ _ _) = True"
| "named_family (ThreadTokenUsageN _ _ _) = True"
| "named_family (ErrorN _ _ _ _) = True"
| "named_family _ = False"

definition requires_native_turn_match :: "'s notification \<Rightarrow> bool" where
  "requires_native_turn_match n \<longleftrightarrow> named_family n \<or> is_malformed_terminal n"

subsection \<open>Decoding a notification\<close>

text \<open>
  \<open>Notification::parse\<close>. What serde derives for each params type is an argument: one partial
  function per type, \<open>None\<close> where \<open>T::deserialize\<close> fails. An unreadable frame keeps its method and
  whatever routing strings its params hold.
\<close>

record 's decoders =
  d_thread_started :: "json \<Rightarrow> ustring option"
  d_turn :: "json \<Rightarrow> (ustring \<times> turn_handle) option"
  d_item :: "json \<Rightarrow> (ustring \<times> ustring \<times> thread_item) option"
  d_message_delta :: "json \<Rightarrow> (ustring \<times> ustring \<times> ustring \<times> ustring) option"
  d_reasoning_delta :: "json \<Rightarrow> (ustring \<times> ustring \<times> ustring \<times> ustring) option"
  d_output_delta :: "json \<Rightarrow> (ustring \<times> ustring \<times> ustring \<times> ustring) option"
  d_progress :: "json \<Rightarrow> (ustring \<times> ustring \<times> ustring \<times> ustring) option"
  d_patch :: "json \<Rightarrow> (ustring \<times> ustring \<times> ustring \<times> file_update_change list) option"
  d_usage :: "json \<Rightarrow> (ustring \<times> ustring \<times> thread_token_usage) option"
  d_limits :: "json \<Rightarrow> 's option"
  d_resolved :: "json \<Rightarrow> (ustring \<times> json) option"
  d_error :: "json \<Rightarrow> (ustring \<times> ustring \<times> turn_error \<times> bool) option"

definition routing_string :: "json \<Rightarrow> ustring \<Rightarrow> ustring option" where
  "routing_string params key = Option.bind (json_get params key) json_str"

definition read_note ::
  "('a \<Rightarrow> 's notification) \<Rightarrow> 'a option \<Rightarrow> json \<Rightarrow> ustring \<Rightarrow> 's notification" where
  "read_note wrap decoded params meth =
     (case decoded of
        Some v \<Rightarrow> wrap v
      | None \<Rightarrow>
          MalformedN meth (routing_string params (lit ''threadId''))
            (case routing_string params (lit ''turnId'') of
               Some u \<Rightarrow> Some u
             | None \<Rightarrow> Option.bind (Option.bind (json_get params (lit ''turn'')) (\<lambda>t. json_get t (lit ''id''))) json_str))"

definition parse_notification :: "'s decoders \<Rightarrow> ustring \<Rightarrow> json \<Rightarrow> 's notification" where
  "parse_notification d m params =
     (if m = lit ''thread/started'' then read_note ThreadStartedN (d_thread_started d params) params m
      else if m = lit ''turn/started'' then read_note (\<lambda>(t, u). TurnStartedN t u) (d_turn d params) params m
      else if m = TURN_COMPLETED then read_note (\<lambda>(t, u). TurnCompletedN t u) (d_turn d params) params m
      else if m = lit ''item/started'' then read_note (\<lambda>(t, u, i). ItemStartedN t u i) (d_item d params) params m
      else if m = lit ''item/completed'' then read_note (\<lambda>(t, u, i). ItemCompletedN t u i) (d_item d params) params m
      else if m = lit ''item/agentMessage/delta'' then
        read_note (\<lambda>(t, u, i, x). AgentMessageDeltaN t u i x) (d_message_delta d params) params m
      else if m = lit ''item/reasoning/textDelta'' \<or> m = lit ''item/reasoning/summaryTextDelta'' then
        read_note (\<lambda>(t, u, i, x). ReasoningDeltaN t u i x) (d_reasoning_delta d params) params m
      else if m = lit ''item/commandExecution/outputDelta'' then
        read_note (\<lambda>(t, u, i, x). CommandOutputDeltaN t u i x) (d_output_delta d params) params m
      else if m = lit ''item/mcpToolCall/progress'' then
        read_note (\<lambda>(t, u, i, x). McpToolCallProgressN t u i x) (d_progress d params) params m
      else if m = lit ''item/fileChange/patchUpdated'' then
        read_note (\<lambda>(t, u, i, c). FileChangePatchUpdatedN t u i c) (d_patch d params) params m
      else if m = lit ''thread/tokenUsage/updated'' then
        read_note (\<lambda>(t, u, x). ThreadTokenUsageN t u x) (d_usage d params) params m
      else if m = lit ''account/rateLimits/updated'' then read_note RateLimitsN (d_limits d params) params m
      else if m = lit ''serverRequest/resolved'' then
        read_note (\<lambda>(t, r). ServerRequestResolvedN t r) (d_resolved d params) params m
      else if m = lit ''error'' then read_note (\<lambda>(t, u, e, r). ErrorN t u e r) (d_error d params) params m
      else OtherN m)"

subsection \<open>Reducing one notification\<close>

datatype notice_severity = InfoSeverity | WarningSeverity | ErrorSeverity | OtherSeverity ustring

text \<open>What the event kinds of every harness carry; this one reports no notice.\<close>

record command =
  cm_name :: ustring
  cm_description :: "ustring option"

datatype ('f, 'l) payload =
    ActivityPayload "'f activity"
  | UpdatePayload activity_update
  | ResultPayload activity_result
  | UsagePayload usage
  | ThreadUsagePayload thread_usage
  | LimitsPayload 'l
  | SeverityPayload notice_severity

datatype ('f, 'l) outcome =
    Emit "('f, 'l) payload event_kind list"
  | Finish "('f, 'l) payload event_kind list" "cancel_reason option" "vendor_error option"
  | Poison vendor_error
  | Ignore

definition item_started :: "thread_item \<Rightarrow> ('f, 'l) outcome" where
  "item_started item =
     (case item of
        ReasoningItem _ _ _ \<Rightarrow> Emit [ReasoningStarted]
      | _ \<Rightarrow>
          (case (item_id_of item, activity_started item) of
             (Some call_id, Some activity) \<Rightarrow> Emit [ActivityStarted call_id (ActivityPayload activity)]
           | _ \<Rightarrow> Ignore))"

definition item_completed :: "thread_item \<Rightarrow> ('f, 'l) outcome" where
  "item_completed item =
     (case item of
        ReasoningItem _ _ _ \<Rightarrow> Emit [ReasoningEnded]
      | _ \<Rightarrow>
          (case (item_id_of item, activity_completed item) of
             (Some call_id, Some result) \<Rightarrow> Emit [ActivityCompleted call_id (ResultPayload result)]
           | _ \<Rightarrow> Ignore))"

definition usage_events :: "thread_token_usage \<Rightarrow> ('f, 'l) outcome" where
  "usage_events u =
     (let per_turn = (case tt_last u of Some l \<Rightarrow> [UsageEvent (UsagePayload (to_usage l))] | None \<Rightarrow> []);
          thread = (if tt_total u \<noteq> None \<or> tt_model_context_window u \<noteq> None
            then [ThreadUsage (ThreadUsagePayload
              \<lparr>tu_last = map_option to_usage (tt_last u), tu_total = map_option to_usage (tt_total u),
               tu_context_window = tt_model_context_window u\<rparr>)]
            else []);
          events = per_turn @ thread
      in if events = [] then Ignore else Emit events)"

definition TURN_FAILED :: error_code where
  "TURN_FAILED = ErrorCode (lit ''codex-turn-failed'')"

definition PROTOCOL_ERROR :: error_code where
  "PROTOCOL_ERROR = ErrorCode (lit ''codex-protocol-error'')"

definition malformed_terminal_failure :: vendor_error where
  "malformed_terminal_failure =
     with_vendor_code (lit ''malformed-turn-completed'') False
       (vendor_error_new PROTOCOL_ERROR
         (lit ''expected turn/completed params with a string threadId and turn.id, received malformed params''))"

definition turn_failure :: "turn_error \<Rightarrow> vendor_error" where
  "turn_failure e =
     (let message = (case te_additional_details e of
            Some details \<Rightarrow> if details \<noteq> [] then te_message e @ lit '': '' @ details else te_message e
          | None \<Rightarrow> te_message e);
          failure = vendor_error_new TURN_FAILED
            (if message = [] then lit ''the turn failed without saying why'' else message)
      in case turn_vendor_code e of
           Some code \<Rightarrow> with_vendor_code code False failure
         | None \<Rightarrow> failure)"

definition finish_turn :: "turn_status option \<Rightarrow> turn_handle \<Rightarrow> ('f, 'l) outcome" where
  "finish_turn status turn =
     (case status of
        Some TurnInterrupted \<Rightarrow> Finish [] (Some Requested) None
      | Some TurnFailed \<Rightarrow>
          Finish [] None (Some (turn_failure (case th_error turn of Some e \<Rightarrow> e | None \<Rightarrow> turn_error_default)))
      | _ \<Rightarrow> Finish [] None None)"

fun reduce_note :: "('s \<Rightarrow> nat \<Rightarrow> 'l) \<Rightarrow> 's notification \<Rightarrow> nat \<Rightarrow> ('f, 'l) outcome" where
  "reduce_note to_limits (AgentMessageDeltaN _ _ _ delta) now = (if delta \<noteq> [] then Emit [TextDelta delta] else Ignore)"
| "reduce_note to_limits (ReasoningDeltaN _ _ _ delta) now = (if delta \<noteq> [] then Emit [ReasoningDelta delta] else Ignore)"
| "reduce_note to_limits (ItemStartedN _ _ item) now = item_started item"
| "reduce_note to_limits (ItemCompletedN _ _ item) now = item_completed item"
| "reduce_note to_limits (ThreadTokenUsageN _ _ u) now = usage_events u"
| "reduce_note to_limits (RateLimitsN s) now = Emit [AccountLimits (LimitsPayload (to_limits s now))]"
| "reduce_note to_limits (TurnCompletedN _ turn) now = finish_turn (th_status turn) turn"
| "reduce_note to_limits _ now = Ignore"

definition reduce :: "('s \<Rightarrow> nat \<Rightarrow> 'l) \<Rightarrow> 's notification \<Rightarrow> ustring \<Rightarrow> nat \<Rightarrow> ('f, 'l) outcome" where
  "reduce to_limits n thread_id now =
     (if note_thread_id n \<noteq> None \<and> note_thread_id n \<noteq> Some thread_id then Ignore
      else if is_malformed_terminal n then
        (if note_thread_id n \<noteq> None then Finish [] None (Some malformed_terminal_failure)
         else Poison malformed_terminal_failure)
      else reduce_note to_limits n now)"

definition matches_active_turn :: "'s notification \<Rightarrow> ustring \<Rightarrow> bool" where
  "matches_active_turn n active \<longleftrightarrow>
     active = [] \<or> \<not> requires_native_turn_match n \<or> (case note_turn_id n of None \<Rightarrow> True | Some u \<Rightarrow> u = active)"

definition routes_to_active_turn :: "'s notification \<Rightarrow> ustring \<Rightarrow> ustring option \<Rightarrow> bool" where
  "routes_to_active_turn n thread_id active =
     (case active of
        None \<Rightarrow> False
      | Some active \<Rightarrow> note_thread_id n = Some thread_id \<and> matches_active_turn n active)"

definition reduce_for_active_turn ::
  "('s \<Rightarrow> nat \<Rightarrow> 'l) \<Rightarrow> 's notification \<Rightarrow> ustring \<Rightarrow> ustring option \<Rightarrow> nat \<Rightarrow> ('f, 'l) outcome" where
  "reduce_for_active_turn to_limits n thread_id active now =
     (case active of
        None \<Rightarrow> Ignore
      | Some active \<Rightarrow>
          if \<not> matches_active_turn n active then Ignore else reduce to_limits n thread_id now)"

subsection \<open>What one notification can do\<close>

named_theorems codex_reduce \<open>reducing one notification, unfolded\<close>

lemmas [codex_reduce] = reduce_for_active_turn_def reduce_def matches_active_turn_def
  requires_native_turn_match_def routes_to_active_turn_def

lemma started_parts_None: "started_parts item = None \<longleftrightarrow> is_streamed_text item"
  by (cases item) simp_all

lemma streamed_text_not_rendered: "is_streamed_text item \<Longrightarrow> \<not> is_rendered item"
  by (cases item) simp_all

lemma activity_started_None: "activity_started item = None \<longleftrightarrow> \<not> is_rendered item"
proof (cases "started_parts item")
  case None
  then show ?thesis
    using started_parts_None [of item] streamed_text_not_rendered [of item] by (simp add: activity_started_def)
qed (simp add: activity_started_def split: prod.splits)

lemma activity_completed_None: "activity_completed item = None \<longleftrightarrow> \<not> is_rendered item"
  by (simp add: activity_completed_def split: prod.splits)

fun is_reasoning :: "thread_item \<Rightarrow> bool" where
  "is_reasoning (ReasoningItem _ _ _) = True"
| "is_reasoning _ = False"

lemma activity_started_eq:
  "activity_started item = (if is_rendered item then Some (the (activity_started item)) else None)"
  using activity_started_None by (metis option.collapse)

lemma activity_completed_eq:
  "activity_completed item = (if is_rendered item then Some (the (activity_completed item)) else None)"
  using activity_completed_None by (metis option.collapse)

lemma item_started_eq:
  "item_started item =
     (if is_reasoning item then Emit [ReasoningStarted]
      else case item_id_of item of None \<Rightarrow> Ignore
      | Some c \<Rightarrow>
          if is_rendered item then Emit [ActivityStarted c (ActivityPayload (the (activity_started item)))] else Ignore)"
  by (cases item; simp add: item_started_def; subst activity_started_eq; simp split: option.split)

lemma item_completed_eq:
  "item_completed item =
     (if is_reasoning item then Emit [ReasoningEnded]
      else case item_id_of item of None \<Rightarrow> Ignore
      | Some c \<Rightarrow>
          if is_rendered item then Emit [ActivityCompleted c (ResultPayload (the (activity_completed item)))] else Ignore)"
  by (cases item; simp add: item_completed_def; subst activity_completed_eq; simp split: option.split)

lemmas item_eqs = item_started_eq item_completed_eq

lemma reasoning_not_rendered: "is_reasoning item \<Longrightarrow> \<not> is_rendered item"
  by (cases item) simp_all

text \<open>The two halves of an item agree. An item's announcement opens an activity exactly when its
  completion closes one, and under the same call id, so a host never sees a bracket opened by a family
  whose completion says nothing.\<close>

theorem item_brackets_agree:
  "((\<exists>p. item_started item = Emit [ActivityStarted c p]) \<longleftrightarrow>
     (\<exists>r. item_completed item = Emit [ActivityCompleted c r])) \<and>
   (item_started item = Emit [ReasoningStarted] \<longleftrightarrow> item_completed item = Emit [ReasoningEnded])"
  by (auto simp: item_eqs reasoning_not_rendered split: option.splits)

lemma usage_events_not_ending: "usage_events u \<noteq> Finish es c e" "usage_events u \<noteq> Poison v"
  by (simp_all add: usage_events_def Let_def)

lemma items_not_ending:
  "item_started item \<noteq> Finish es c e" "item_completed item \<noteq> Finish es c e"
  "item_started item \<noteq> Poison v" "item_completed item \<noteq> Poison v"
  by (simp_all add: item_eqs split: option.split)

lemma finish_turn_ends: "\<exists>c e. finish_turn st turn = Finish [] c e"
  by (simp add: finish_turn_def split: option.splits turn_status.splits)

lemma finish_turn_not_poison: "finish_turn st turn \<noteq> Poison v"
  by (simp add: finish_turn_def split: option.splits turn_status.splits)

lemma turn_ends_iff:
  "(\<exists>es c e. reduce_for_active_turn f n thread active now = Finish es c e) \<longleftrightarrow>
     (\<exists>own. active = Some own \<and> note_thread_id n = Some thread \<and>
        ((\<exists>t turn. n = TurnCompletedN t turn \<and> (own = [] \<or> th_id turn = own)) \<or>
         (\<exists>t turn. n = MalformedN TURN_COMPLETED t turn \<and> (own = [] \<or> turn \<in> {None, Some own}))))"
proof (cases n)
  case (TurnCompletedN t u)
  then show ?thesis using finish_turn_ends [of "th_status u" u] by (cases active) (auto simp: codex_reduce)
next
  case (MalformedN m t u)
  then show ?thesis by (cases active; cases u) (auto simp: codex_reduce)
qed (auto simp: codex_reduce usage_events_not_ending items_not_ending split: option.splits)

lemma turn_poisons_iff:
  "(\<exists>v. reduce_for_active_turn f n thread active now = Poison v) \<longleftrightarrow>
     (\<exists>own turn. active = Some own \<and> n = MalformedN TURN_COMPLETED None turn \<and>
        (own = [] \<or> turn \<in> {None, Some own}))"
proof (cases n)
  case (MalformedN m t u)
  then show ?thesis by (cases active; cases u) (auto simp: codex_reduce)
qed (auto simp: codex_reduce usage_events_not_ending items_not_ending finish_turn_not_poison split: option.splits)

text \<open>What ends a native turn. A notification ends the open turn exactly when a turn is open, the
  notification names this session's thread, it is a \<open>turn/completed\<close> (readable or not), and the turn it
  names, where it names one and the session knows its own, is that turn. In particular an \<open>error\<close>
  notification, a completion of another turn of the thread and a notification of another thread never
  end it. An unreadable completion with no thread at all ends nothing quietly: it poisons the session.\<close>

theorem codex_turn_end:
  "((\<exists>es c e. reduce_for_active_turn f n thread active now = Finish es c e) \<longleftrightarrow>
     (\<exists>own. active = Some own \<and> note_thread_id n = Some thread \<and>
        ((\<exists>t turn. n = TurnCompletedN t turn \<and> (own = [] \<or> th_id turn = own)) \<or>
         (\<exists>t turn. n = MalformedN TURN_COMPLETED t turn \<and> (own = [] \<or> turn \<in> {None, Some own}))))) \<and>
   ((\<exists>v. reduce_for_active_turn f n thread active now = Poison v) \<longleftrightarrow>
     (\<exists>own turn. active = Some own \<and> n = MalformedN TURN_COMPLETED None turn \<and>
        (own = [] \<or> turn \<in> {None, Some own})))"
  by (rule conjI [OF turn_ends_iff turn_poisons_iff])

lemma parse_turn_completed:
  "parse_notification d TURN_COMPLETED params = read_note (\<lambda>(t, u). TurnCompletedN t u) (d_turn d params) params TURN_COMPLETED"
  by (simp add: parse_notification_def TURN_COMPLETED_def lit_def)

fun is_completion :: "'s notification \<Rightarrow> bool" where
  "is_completion (TurnCompletedN _ _) \<longleftrightarrow> True"
| "is_completion n \<longleftrightarrow> is_malformed_terminal n"

lemma is_completion_iff:
  "is_completion n \<longleftrightarrow> (\<exists>t u. n = TurnCompletedN t u) \<or> (\<exists>t u. n = MalformedN TURN_COMPLETED t u)"
  by (cases n) auto

lemma completion_read:
  "(\<And>v. \<not> is_completion (wrap v)) \<Longrightarrow> m \<noteq> TURN_COMPLETED \<Longrightarrow> \<not> is_completion (read_note wrap decoded params m)"
  by (simp add: read_note_def split: option.split)

lemma completion_if: "\<not> is_completion a \<Longrightarrow> \<not> is_completion b \<Longrightarrow> \<not> is_completion (if P then a else b)"
  by simp

lemma parse_completed_only: "is_completion (parse_notification d m params) \<longleftrightarrow> m = TURN_COMPLETED"
proof (cases "m = TURN_COMPLETED")
  case True
  then show ?thesis by (auto simp: parse_turn_completed read_note_def split: option.split)
next
  case False
  then have "\<not> is_completion (parse_notification d m params)"
    unfolding parse_notification_def if_not_P [OF False]
    by (intro completion_if completion_read) (auto split: prod.split)
  then show ?thesis using False by simp
qed

text \<open>C24: no ending is lost, whatever the frame holds. While a turn is open, a \<open>turn/completed\<close> frame ends
  it, or poisons the session, unless a thread or a turn it legibly names is someone else's; a frame
  with any other method does neither, however malformed it is.\<close>

theorem codex_terminal_never_lost:
  "(let n = parse_notification d m params;
        o' = reduce_for_active_turn f n thread (Some own) now
    in (\<exists>es c e. o' = Finish es c e) \<or> (\<exists>v. o' = Poison v)) \<longleftrightarrow>
   m = TURN_COMPLETED \<and>
   (let n = parse_notification d m params
    in note_thread_id n \<in> {None, Some thread} \<and> (own = [] \<or> note_turn_id n \<in> {None, Some own}))"
proof -
  let ?n = "parse_notification d m params"
  have ends: "m = TURN_COMPLETED \<longleftrightarrow> (\<exists>t u. ?n = TurnCompletedN t u) \<or> (\<exists>t u. ?n = MalformedN TURN_COMPLETED t u)"
    using parse_completed_only [of d m params] by (simp add: is_completion_iff)
  show ?thesis unfolding Let_def turn_ends_iff turn_poisons_iff ends by auto
qed

end
