(* ===== verification/Codex_Turn.thy ===== *)
theory Codex_Turn imports Codex_Reducer begin

text \<open>
  What one Codex turn remembers between notifications (\<open>mango-agent-codex/src/turn_reducer.rs\<close>): the
  activities it announced with the tail of their output, the text each message already streamed, and
  the last failure code. A \<open>HashMap\<close> is a partial map, an instant a number of nanoseconds.
\<close>

definition ACTIVITY_UPDATE_INTERVAL :: nat where
  "ACTIVITY_UPDATE_INTERVAL = 5 * 10 ^ 9"

definition ACTIVITY_UPDATE_DETAIL_MAX_CHARS :: usize where
  "ACTIVITY_UPDATE_DETAIL_MAX_CHARS = 2000"

subsection \<open>Streamed text\<close>

datatype streamed = StreamedText ustring | Overflowed

fun streamed_push :: "streamed \<Rightarrow> ustring \<Rightarrow> usize option \<Rightarrow> streamed" where
  "streamed_push Overflowed delta most = Overflowed"
| "streamed_push (StreamedText streamed) delta most =
     (if case most of None \<Rightarrow> False | Some b \<Rightarrow> b < sat_add (str_len streamed) (str_len delta) then Overflowed
      else StreamedText (streamed @ delta))"

subsection \<open>The tail of an activity\<close>

record open_activity =
  oa_tail :: ustring
  oa_truncated :: bool
  oa_last_update :: "nat option"

definition open_activity_default :: open_activity where
  "open_activity_default = \<lparr>oa_tail = [], oa_truncated = False, oa_last_update = None\<rparr>"

text \<open>\<open>char_indices\<close>: each character with the byte offset it starts at.\<close>

fun char_indices_from :: "nat \<Rightarrow> ustring \<Rightarrow> (nat \<times> uchar) list" where
  "char_indices_from n [] = []"
| "char_indices_from n (c # s) = (n, c) # char_indices_from (n + char_len c) s"

definition nth_opt :: "'a list \<Rightarrow> nat \<Rightarrow> 'a option" where
  "nth_opt xs n = (if n < length xs then Some (xs ! n) else None)"

definition last_window_start :: "ustring \<Rightarrow> usize option" where
  "last_window_start s =
     map_option fst (nth_opt (rev (char_indices_from 0 s)) (ACTIVITY_UPDATE_DETAIL_MAX_CHARS - 1))"

text \<open>
  \<open>append\<close>. The slices \<open>chunk[start..]\<close> and \<open>drain(..cut)\<close> are byte offsets of characters, so they do
  not panic; \<open>None\<close> would be the panic.
\<close>

definition activity_append :: "open_activity \<Rightarrow> ustring \<Rightarrow> open_activity option" where
  "activity_append a chunk =
     (case (if ACTIVITY_UPDATE_DETAIL_MAX_CHARS < str_len chunk then last_window_start chunk else None) of
        Some start \<Rightarrow>
          map_option (\<lambda>(dropped, tail).
            a\<lparr>oa_truncated := oa_truncated a \<or> 0 < start \<or> oa_tail a \<noteq> [], oa_tail := tail\<rparr>)
            (split_at_byte chunk start)
      | None \<Rightarrow>
          (let tail = oa_tail a @ chunk;
               n = length tail
           in if n \<le> ACTIVITY_UPDATE_DETAIL_MAX_CHARS then Some (a\<lparr>oa_tail := tail\<rparr>)
              else
                let cut_at = (case nth_opt (char_indices_from 0 tail) (n - ACTIVITY_UPDATE_DETAIL_MAX_CHARS) of
                       Some (i, _) \<Rightarrow> i | None \<Rightarrow> 0)
                in map_option (\<lambda>(dropped, rest). a\<lparr>oa_tail := rest, oa_truncated := True\<rparr>)
                     (split_at_byte tail cut_at)))"

definition holds_back :: "open_activity \<Rightarrow> nat \<Rightarrow> bool" where
  "holds_back a instant =
     (case oa_last_update a of None \<Rightarrow> False | Some l \<Rightarrow> instant - l < ACTIVITY_UPDATE_INTERVAL)"

subsection \<open>The turn's state and its operations\<close>

record turn_reducer =
  tr_activities :: "ustring \<Rightarrow> open_activity option"
  tr_streamed :: "ustring \<Rightarrow> streamed option"
  tr_max_message_bytes :: "usize option"
  tr_reported_code :: "ustring option"

definition turn_reducer_new :: turn_reducer where
  "turn_reducer_new =
     \<lparr>tr_activities = Map.empty, tr_streamed = Map.empty, tr_max_message_bytes = None, tr_reported_code = None\<rparr>"

definition turn_reducer_for_limits :: "limits \<Rightarrow> turn_reducer" where
  "turn_reducer_for_limits l =
     turn_reducer_new\<lparr>tr_max_message_bytes :=
       Some (min (sat_mul (max_line_bytes (line l)) 3) (max_buffered_bytes (line l)))\<rparr>"

definition completed_message ::
  "turn_reducer \<Rightarrow> ustring \<Rightarrow> ustring \<Rightarrow> turn_reducer \<times> ('f, 'l) outcome" where
  "completed_message r item whole =
     (let remainder = (case tr_streamed r item of
            Some (StreamedText streamed) \<Rightarrow>
              (case strip_prefix whole streamed of Some rest \<Rightarrow> rest | None \<Rightarrow> whole)
          | _ \<Rightarrow> whole)
      in (r\<lparr>tr_streamed := (tr_streamed r)(item := None)\<rparr>,
          if remainder = [] then Ignore else Emit [TextDelta remainder]))"

definition remember_streamed :: "turn_reducer \<Rightarrow> ustring \<Rightarrow> ustring \<Rightarrow> turn_reducer" where
  "remember_streamed r item delta =
     (let streamed = (case tr_streamed r item of Some s \<Rightarrow> s | None \<Rightarrow> StreamedText [])
      in r\<lparr>tr_streamed := (tr_streamed r)(item \<mapsto> streamed_push streamed delta (tr_max_message_bytes r))\<rparr>)"

fun observe_event ::
  "(ustring \<Rightarrow> open_activity option) \<Rightarrow> ('f, 'l) payload event_kind \<Rightarrow> (ustring \<Rightarrow> open_activity option)" where
  "observe_event m (ActivityStarted c _) = m(c \<mapsto> open_activity_default)"
| "observe_event m (ActivityCompleted c _) = m(c := None)"
| "observe_event m _ = m"

fun observe :: "turn_reducer \<Rightarrow> ('f, 'l) outcome \<Rightarrow> turn_reducer" where
  "observe r (Emit events) = r\<lparr>tr_activities := foldl observe_event (tr_activities r) events\<rparr>"
| "observe r (Finish _ _ _) = r\<lparr>tr_activities := Map.empty\<rparr>"
| "observe r (Poison _) = r\<lparr>tr_activities := Map.empty\<rparr>"
| "observe r Ignore = r"

datatype progress = OutputProgress ustring | PatchProgress "file_update_change list"

definition patch_update :: "file_update_change list \<Rightarrow> activity_update" where
  "patch_update changes =
     activity_update_new\<lparr>au_detail := file_change_detail changes, au_content := file_change_content changes\<rparr>"

definition emit_update ::
  "turn_reducer \<Rightarrow> ustring \<Rightarrow> open_activity \<Rightarrow> activity_update \<Rightarrow> nat \<Rightarrow> turn_reducer \<times> ('f, 'l) outcome" where
  "emit_update r item a u instant =
     (r\<lparr>tr_activities := (tr_activities r)(item \<mapsto> a\<lparr>oa_last_update := Some instant\<rparr>)\<rparr>,
      Emit [ActivityUpdated item (UpdatePayload u)])"

text \<open>\<open>progress\<close>; \<open>None\<close> is a slice that panics.\<close>

definition turn_progress ::
  "turn_reducer \<Rightarrow> ustring \<Rightarrow> progress \<Rightarrow> nat \<Rightarrow> (turn_reducer \<times> ('f, 'l) outcome) option" where
  "turn_progress r item p instant =
     (case tr_activities r item of
        None \<Rightarrow> Some (r, Ignore)
      | Some a \<Rightarrow>
          (case p of
             OutputProgress chunk \<Rightarrow>
               (if chunk = [] then Some (r, Ignore)
                else Option.bind (activity_append a chunk) (\<lambda>a'. Some
                  (if holds_back a' instant
                   then (r\<lparr>tr_activities := (tr_activities r)(item \<mapsto> a')\<rparr>, Ignore)
                   else emit_update r item a'
                     (activity_update_new\<lparr>au_detail := Some (oa_tail a'), au_truncated := oa_truncated a'\<rparr>)
                     instant)))
           | PatchProgress changes \<Rightarrow>
               Some (if changes = [] \<or> holds_back a instant then (r, Ignore)
                     else emit_update r item a (patch_update changes) instant)))"

fun progress_of :: "'s notification \<Rightarrow> (ustring \<times> progress) option" where
  "progress_of (CommandOutputDeltaN _ _ item delta) = Some (item, OutputProgress delta)"
| "progress_of (McpToolCallProgressN _ _ item message) =
     Some (item, OutputProgress (if message = [] then [] else message @ [0x0a]))"
| "progress_of (FileChangePatchUpdatedN _ _ item changes) = Some (item, PatchProgress changes)"
| "progress_of _ = None"

fun message_of :: "'s notification \<Rightarrow> (ustring \<times> ustring) option" where
  "message_of (ItemCompletedN _ _ (AgentMessageItem i whole)) = Some (i, whole)"
| "message_of _ = None"

definition note_error_code ::
  "turn_reducer \<Rightarrow> 's notification \<Rightarrow> ustring \<Rightarrow> ustring option \<Rightarrow> turn_reducer" where
  "note_error_code r n thread active =
     (case n of
        ErrorN _ _ e will_retry \<Rightarrow>
          (if \<not> will_retry \<and> routes_to_active_turn n thread active \<and> turn_vendor_code e \<noteq> None
           then r\<lparr>tr_reported_code := turn_vendor_code e\<rparr> else r)
      | _ \<Rightarrow> r)"

fun attach_code :: "turn_reducer \<Rightarrow> ('f, 'l) outcome \<Rightarrow> turn_reducer \<times> ('f, 'l) outcome" where
  "attach_code r (Finish events cancelled (Some failure)) =
     (if ve_vendor_code failure = None then
        (case tr_reported_code r of
           Some code \<Rightarrow>
             (r\<lparr>tr_reported_code := None\<rparr>, Finish events cancelled (Some (with_vendor_code code False failure)))
         | None \<Rightarrow> (r, Finish events cancelled (Some failure)))
      else (r, Finish events cancelled (Some failure)))"
| "attach_code r result = (r, result)"

fun streamed_by :: "'s notification \<Rightarrow> ('f, 'l) outcome \<Rightarrow> (ustring \<times> ustring) option" where
  "streamed_by (AgentMessageDeltaN _ _ item delta) (Emit _) = Some (item, delta)"
| "streamed_by _ _ = None"

definition turn_reduce ::
  "('s \<Rightarrow> nat \<Rightarrow> 'l) \<Rightarrow> turn_reducer \<Rightarrow> 's notification \<Rightarrow> ustring \<Rightarrow> ustring option \<Rightarrow> nat \<Rightarrow> nat \<Rightarrow>
   (turn_reducer \<times> ('f, 'l) outcome) option" where
  "turn_reduce to_limits r n thread active observed_at instant =
     (case progress_of n of
        Some (item, p) \<Rightarrow>
          if routes_to_active_turn n thread active then turn_progress r item p instant else Some (r, Ignore)
      | None \<Rightarrow>
          (case message_of n of
             Some (item, whole) \<Rightarrow>
               Some (if routes_to_active_turn n thread active then completed_message r item whole else (r, Ignore))
           | None \<Rightarrow>
               (let reduced = reduce_for_active_turn to_limits n thread active observed_at;
                    (r1, result) = attach_code (note_error_code r n thread active) reduced;
                    r2 = (case streamed_by n result of Some (item, delta) \<Rightarrow> remember_streamed r1 item delta | None \<Rightarrow> r1)
                in Some (observe r2 result, result))))"

subsection \<open>Structures left open\<close>

record open_structures =
  os_activities :: "ustring list"
  os_reasoning :: usize

definition open_structures_default :: open_structures where
  "open_structures_default = \<lparr>os_activities = [], os_reasoning = 0\<rparr>"

datatype mark = ActivityOpened ustring | ActivityClosed ustring | ReasoningOpened | ReasoningClosed

fun mark_of :: "'p event_kind \<Rightarrow> mark option" where
  "mark_of (ActivityStarted c _) = Some (ActivityOpened c)"
| "mark_of (ActivityCompleted c _) = Some (ActivityClosed c)"
| "mark_of ReasoningStarted = Some ReasoningOpened"
| "mark_of ReasoningEnded = Some ReasoningClosed"
| "mark_of _ = None"

fun os_apply :: "open_structures \<Rightarrow> mark \<Rightarrow> open_structures" where
  "os_apply s (ActivityOpened c) =
     (if c \<in> set (os_activities s) then s else s\<lparr>os_activities := os_activities s @ [c]\<rparr>)"
| "os_apply s (ActivityClosed c) = s\<lparr>os_activities := filter (\<lambda>a. a \<noteq> c) (os_activities s)\<rparr>"
| "os_apply s ReasoningOpened = s\<lparr>os_reasoning := wrap_add (os_reasoning s) 1\<rparr>"
| "os_apply s ReasoningClosed = s\<lparr>os_reasoning := os_reasoning s - 1\<rparr>"

definition close_all ::
  "open_structures \<Rightarrow> activity_status \<Rightarrow> open_structures \<times> ('f, 'l) payload structure_close list" where
  "close_all s status =
     (open_structures_default,
      map (\<lambda>c. ActivityClose c (ResultPayload (activity_result_new status))) (os_activities s) @
      replicate (os_reasoning s) ReasoningClose)"

subsection \<open>The tail is the end of everything the activity said\<close>

named_theorems codex_turn \<open>one step of a turn, unfolded\<close>

lemma window_pos [simp]: "0 < ACTIVITY_UPDATE_DETAIL_MAX_CHARS"
  by (simp add: ACTIVITY_UPDATE_DETAIL_MAX_CHARS_def)

abbreviation window :: usize where
  "window \<equiv> ACTIVITY_UPDATE_DETAIL_MAX_CHARS"

definition last_window :: "ustring \<Rightarrow> ustring" where
  "last_window s = drop (length s - window) s"

lemma length_char_indices [simp]: "length (char_indices_from n s) = length s"
  by (induction s arbitrary: n) simp_all

lemma char_indices_nth: "i < length s \<Longrightarrow> char_indices_from n s ! i = (n + str_len (take i s), s ! i)"
  by (induction s arbitrary: n i) (auto simp: nth_Cons split: nat.split)

lemma last_window_start_eq:
  "last_window_start s = (if window \<le> length s then Some (str_len (take (length s - window) s)) else None)"
  using window_pos
  by (auto simp: last_window_start_def nth_opt_def rev_nth char_indices_nth simp del: window_pos)

lemma split_at_byte_take: "split_at_byte s (str_len (take k s)) = Some (take k s, drop k s)"
  using split_at_byte_append [of "take k s" "drop k s"] by simp

lemma activity_append_whole:
  assumes "window < str_len chunk" "window \<le> length chunk"
  shows "activity_append a chunk = Some
     (a\<lparr>oa_truncated := oa_truncated a \<or> window < length chunk \<or> oa_tail a \<noteq> [], oa_tail := last_window chunk\<rparr>)"
proof -
  have "0 < str_len (take (length chunk - window) chunk) \<longleftrightarrow> window < length chunk"
    using assms(2) by (metis diff_is_0_eq le_neq_implies_less less_irrefl_nat neq0_conv str_len_0_iff take0
      take_eq_Nil zero_less_diff list.size(3) le_zero_eq)
  then show ?thesis
    using assms by (simp add: activity_append_def last_window_start_eq split_at_byte_take last_window_def)
qed

lemma activity_append_grow:
  assumes "\<not> (window < str_len chunk \<and> window \<le> length chunk)"
  shows "activity_append a chunk = Some
     (if length (oa_tail a @ chunk) \<le> window then a\<lparr>oa_tail := oa_tail a @ chunk\<rparr>
      else a\<lparr>oa_tail := last_window (oa_tail a @ chunk), oa_truncated := True\<rparr>)"
proof -
  have none: "(if window < str_len chunk then last_window_start chunk else None) = None"
    using assms by (auto simp: last_window_start_eq)
  let ?t = "oa_tail a @ chunk"
  show ?thesis
  proof (cases "length ?t \<le> window")
    case False
    then have "nth_opt (char_indices_from 0 ?t) (length ?t - window) =
        Some (str_len (take (length ?t - window) ?t), ?t ! (length ?t - window))"
      using window_pos by (simp add: nth_opt_def char_indices_nth del: window_pos length_append take_append)
    then show ?thesis
      using False unfolding activity_append_def none
      by (simp add: Let_def split_at_byte_take last_window_def del: length_append take_append drop_append)
  qed (simp add: activity_append_def none Let_def del: length_append)
qed

lemma activity_append_total:
  obtains a' where "activity_append a chunk = Some a'" "oa_last_update a' = oa_last_update a"
  by (cases "window < str_len chunk \<and> window \<le> length chunk")
    (auto simp: activity_append_whole activity_append_grow split: if_splits)

definition tail_ok :: "open_activity \<Rightarrow> ustring \<Rightarrow> bool" where
  "tail_ok a s \<longleftrightarrow> oa_tail a = last_window s \<and> (oa_truncated a \<longleftrightarrow> window < length s)"

lemma last_window_all: "length s \<le> window \<Longrightarrow> last_window s = s"
  by (simp add: last_window_def)

lemma last_window_append: "last_window (last_window s @ t) = last_window (s @ t)"
  by (cases "window \<le> length s") (simp_all add: last_window_def add.commute)

lemma last_window_append2: "window \<le> length t \<Longrightarrow> last_window (s @ t) = last_window t"
  by (simp add: last_window_def)

lemma last_window_Nil: "last_window s = [] \<longleftrightarrow> s = []"
  using window_pos by (auto simp: last_window_def simp del: window_pos) (metis diff_less leD length_greater_0_conv)

lemma length_last_window: "length (last_window s) = min window (length s)"
  by (simp add: last_window_def)

lemma tail_ok_default: "tail_ok open_activity_default []"
  by (simp add: tail_ok_def open_activity_default_def last_window_def)

lemma activity_append_ok:
  assumes "tail_ok a s"
  obtains a' where "activity_append a chunk = Some a'" "tail_ok a' (s @ chunk)" "oa_last_update a' = oa_last_update a"
proof -
  show thesis
  proof (cases "window < str_len chunk \<and> window \<le> length chunk")
    case True
    then show thesis
      using assms length_greater_0_conv [of s] by (cases "s = []"; intro that [OF activity_append_whole])
        (auto simp: tail_ok_def last_window_append2 last_window_Nil simp del: length_greater_0_conv)
  next
    case False
    show thesis
      using assms by (intro that [OF activity_append_grow [OF False]])
        (auto simp: tail_ok_def last_window_append length_last_window last_window_all min_def split: if_splits)
  qed
qed

subsection \<open>The shapes of a step\<close>

fun events_of :: "('f, 'l) outcome \<Rightarrow> ('f, 'l) payload event_kind list" where
  "events_of (Emit es) = es"
| "events_of (Finish es _ _) = es"
| "events_of _ = []"

fun is_text :: "'p event_kind \<Rightarrow> bool" where
  "is_text (TextDelta _) = True"
| "is_text _ = False"

fun is_update :: "'p event_kind \<Rightarrow> bool" where
  "is_update (ActivityUpdated _ _) = True"
| "is_update _ = False"

definition plain :: "('f, 'l) outcome \<Rightarrow> bool" where
  "plain out \<longleftrightarrow> list_all (\<lambda>e. \<not> is_text e \<and> \<not> is_update e) (events_of out)"

lemma plain_items: "plain (item_started item)" "plain (item_completed item)" "plain (usage_events u)"
    "plain (finish_turn st turn)"
  by (simp_all add: plain_def item_eqs usage_events_def Let_def finish_turn_def
    split: option.split turn_status.split)

lemma plain_reduce:
  assumes "\<And>t u i d. n \<noteq> AgentMessageDeltaN t u i d"
  shows "plain (reduce_for_active_turn f n thread active now)"
  using assms
  by (cases n) (auto simp: codex_reduce plain_items split: option.splits, simp_all add: plain_def)

lemma attach_code_plain: "attach_code r out = (r', out') \<Longrightarrow> plain out \<Longrightarrow> plain out'"
  and attach_code_keeps: "attach_code r out = (r', out') \<Longrightarrow>
    tr_streamed r' = tr_streamed r \<and> tr_activities r' = tr_activities r \<and> tr_max_message_bytes r' = tr_max_message_bytes r"
  by (induction r out rule: attach_code.induct) (auto simp: plain_def split: if_splits option.splits)

lemma note_error_code_keeps:
  "tr_streamed (note_error_code r n thread active) = tr_streamed r"
  "tr_activities (note_error_code r n thread active) = tr_activities r"
  "tr_max_message_bytes (note_error_code r n thread active) = tr_max_message_bytes r"
  by (simp_all add: note_error_code_def split: notification.split)

lemma observe_keeps [simp]:
  "tr_streamed (observe r out) = tr_streamed r" "tr_max_message_bytes (observe r out) = tr_max_message_bytes r"
  by (cases out; simp)+

lemma observe_cong: "tr_activities r1 = tr_activities r \<Longrightarrow> tr_activities (observe r1 out) = tr_activities (observe r out)"
  by (cases out) simp_all

lemma reduce_delta:
  "n = AgentMessageDeltaN t u i d \<Longrightarrow>
   reduce_for_active_turn f n thread active now =
     (if routes_to_active_turn n thread active \<and> d \<noteq> [] then Emit [TextDelta d] else Ignore)"
  by (auto simp: codex_reduce split: option.splits)

lemma turn_reduce_cases [consumes 1, case_names progress message delta other]:
  assumes "turn_reduce f r n thread active at now = Some (r', out :: ('f, 'l) outcome)"
  obtains c p where "progress_of n = Some (c, p)" "message_of n = None" "routes_to_active_turn n thread active"
      "turn_progress r c p now = Some (r', out)"
  | i w where "progress_of n = None" "message_of n = Some (i, w)" "routes_to_active_turn n thread active"
      "completed_message r i w = (r', out)"
  | t u i d where "n = AgentMessageDeltaN t u i d" "routes_to_active_turn n thread active" "d \<noteq> []"
      "out = Emit [TextDelta d]" "r' = remember_streamed r i d"
  | "routes_to_active_turn n thread active \<Longrightarrow> progress_of n = None \<and> message_of n = None" "plain out"
      "tr_streamed r' = tr_streamed r" "tr_max_message_bytes r' = tr_max_message_bytes r"
      "tr_activities r' = tr_activities (observe r out)"
      "\<not> routes_to_active_turn n thread active \<Longrightarrow> progress_of n \<noteq> None \<Longrightarrow> out = Ignore"
proof (cases "progress_of n")
  case (Some cp)
  then obtain c p where cp: "progress_of n = Some (c, p)" by (cases cp) auto
  then have "message_of n = None" by (cases n rule: progress_of.cases) auto
  then show thesis
    using assms cp that(1) [of c p] that(4)
    by (cases "routes_to_active_turn n thread active") (auto simp: turn_reduce_def plain_def)
next
  case no_progress: None
  show thesis
  proof (cases "message_of n")
    case (Some iw)
    then show thesis
      using assms no_progress that(2) that(4)
      by (cases iw; cases "routes_to_active_turn n thread active") (auto simp: turn_reduce_def plain_def)
  next
    case no_message: None
    show thesis
    proof (cases "\<exists>t u i d. n = AgentMessageDeltaN t u i d")
      case True
      then obtain t u i d where n: "n = AgentMessageDeltaN t u i d" by auto
      have "Some (r', out) = Some
        (if routes_to_active_turn n thread active \<and> d \<noteq> [] then (remember_streamed r i d, Emit [TextDelta d])
         else (r, Ignore))"
        using assms [symmetric] unfolding turn_reduce_def reduce_delta [OF n] using n by (simp add: note_error_code_def)
      then show thesis
        using that(3) [OF n] that(4) n by (auto simp: plain_def split: if_splits)
    next
      case False
      obtain r1 and out1 :: "('f, 'l) outcome" where code: "attach_code (note_error_code r n thread active) (reduce_for_active_turn f n thread active at) = (r1, out1)"
        by fastforce
      have "streamed_by n out1 = None" using False by (cases n; cases out1) auto
      then have "r' = observe r1 out1" "out = out1"
        using assms no_progress no_message code by (auto simp: turn_reduce_def)
      moreover have "plain out1" using attach_code_plain [OF code] plain_reduce False by blast
      moreover have "tr_activities (observe r1 out1) = tr_activities (observe r out1)"
        using attach_code_keeps [OF code] by (intro observe_cong) (simp add: note_error_code_keeps)
      ultimately show thesis
        using attach_code_keeps [OF code] no_progress no_message that(4) by (auto simp: note_error_code_keeps)
    qed
  qed
qed

subsection \<open>A turn, notification by notification\<close>

text \<open>
  \<open>turn_run f thread r steps\<close> reduces the notifications in order, each with the native turn the
  session has open, the wall clock and the monotonic instant; it returns the reducer and the outcomes.
\<close>

type_synonym 's turn_step = "'s notification \<times> ustring option \<times> nat \<times> nat"

fun turn_run ::
  "('s \<Rightarrow> nat \<Rightarrow> 'l) \<Rightarrow> ustring \<Rightarrow> turn_reducer \<Rightarrow> 's turn_step list \<Rightarrow> (turn_reducer \<times> ('f, 'l) outcome list) option" where
  "turn_run f thread r [] = Some (r, [])"
| "turn_run f thread r ((n, active, at, now) # steps) =
     Option.bind (turn_reduce f r n thread active at now) (\<lambda>(r', out).
       map_option (\<lambda>(r'', outs). (r'', out # outs)) (turn_run f thread r' steps))"

lemma turn_run_Cons:
  assumes "turn_run f thread r ((n, active, at, now) # steps) = Some (r'', outs)"
  obtains r' out outs' where "turn_reduce f r n thread active at now = Some (r', out)"
    "turn_run f thread r' steps = Some (r'', outs')" "outs = out # outs'"
  using assms by (auto split: bind_splits)

subsection \<open>Refinement: the reducer against the whole output of each activity\<close>

text \<open>
  The specification remembers everything an open activity said. \<open>spec_step\<close> is what one notification
  and its outcome do to it.
\<close>

type_synonym outputs = "ustring \<Rightarrow> ustring option"

fun spec_event :: "outputs \<Rightarrow> 'p event_kind \<Rightarrow> outputs" where
  "spec_event m (ActivityStarted c _) = m(c \<mapsto> [])"
| "spec_event m (ActivityCompleted c _) = m(c := None)"
| "spec_event m _ = m"

fun spec_observe :: "outputs \<Rightarrow> ('f, 'l) outcome \<Rightarrow> outputs" where
  "spec_observe m (Emit events) = foldl spec_event m events"
| "spec_observe m (Finish _ _ _) = Map.empty"
| "spec_observe m (Poison _) = Map.empty"
| "spec_observe m Ignore = m"

definition spec_step :: "bool \<Rightarrow> 's notification \<Rightarrow> ('f, 'l) outcome \<Rightarrow> outputs \<Rightarrow> outputs" where
  "spec_step routed n out m =
     (case progress_of n of
        Some (c, OutputProgress chunk) \<Rightarrow> if routed then m(c := map_option (\<lambda>s. s @ chunk) (m c)) else m
      | Some (c, PatchProgress _) \<Rightarrow> m
      | None \<Rightarrow> spec_observe m out)"

fun spec_run :: "ustring \<Rightarrow> outputs \<Rightarrow> 's turn_step list \<Rightarrow> ('f, 'l) outcome list \<Rightarrow> outputs" where
  "spec_run thread m ((n, active, _, _) # steps) (out # outs) =
     spec_run thread (spec_step (routes_to_active_turn n thread active) n out m) steps outs"
| "spec_run thread m _ _ = m"

definition tails_match :: "turn_reducer \<Rightarrow> outputs \<Rightarrow> bool" where
  "tails_match r m \<longleftrightarrow> (\<forall>c. rel_option tail_ok (tr_activities r c) (m c))"

lemma tails_match_new: "tails_match (turn_reducer_for_limits l) Map.empty"
  by (simp add: tails_match_def turn_reducer_for_limits_def turn_reducer_new_def)

lemma tails_match_upd:
  "tails_match r m \<Longrightarrow> rel_option tail_ok a s \<Longrightarrow> tr_activities r' = (tr_activities r)(c := a) \<Longrightarrow> tails_match r' (m(c := s))"
  by (simp add: tails_match_def)

lemma observe_events_match:
  "\<forall>c. rel_option tail_ok (m c) (s c) \<Longrightarrow> rel_option tail_ok (foldl observe_event m es c) (foldl spec_event s es c)"
proof (induction es arbitrary: m s)
  case (Cons e es)
  then have "\<forall>c. rel_option tail_ok (observe_event m e c) (spec_event s e c)"
    by (cases e) (auto simp: tail_ok_default)
  then show ?case by (simp add: Cons.IH)
qed simp

lemma observe_match: "tails_match r m \<Longrightarrow> tr_activities r' = tr_activities (observe r out) \<Longrightarrow> tails_match r' (spec_observe m out)"
  by (cases out) (simp_all add: tails_match_def observe_events_match)

definition said :: "open_activity \<Rightarrow> progress \<Rightarrow> open_activity \<Rightarrow> bool" where
  "said a p a' =
     (case p of
        OutputProgress chunk \<Rightarrow> if chunk = [] then a' = a else activity_append a chunk = Some a'
      | PatchProgress _ \<Rightarrow> a' = a)"

definition said_more :: "progress \<Rightarrow> ustring \<Rightarrow> ustring" where
  "said_more p s = (case p of OutputProgress chunk \<Rightarrow> s @ chunk | PatchProgress _ \<Rightarrow> s)"

lemma activity_append_last_update: "activity_append a chunk = Some a' \<Longrightarrow> oa_last_update a' = oa_last_update a"
  by (rule activity_append_total [of a chunk]) simp

lemma said_last_update: "said a p a' \<Longrightarrow> oa_last_update a' = oa_last_update a"
  by (auto simp: said_def activity_append_last_update split: progress.splits if_splits)

lemma said_tail: "said a p a' \<Longrightarrow> tail_ok a s \<Longrightarrow> tail_ok a' (said_more p s)"
  by (auto simp: said_def said_more_def split: progress.splits if_splits)
    (metis activity_append_ok option.inject)

lemma turn_progress_total: "\<exists>r' out. turn_progress r c p now = Some (r', out)"
proof -
  obtain a' where "activity_append (the (tr_activities r c)) (case p of OutputProgress chunk \<Rightarrow> chunk | _ \<Rightarrow> []) = Some a'"
    by (rule activity_append_total)
  then show ?thesis
    by (cases "tr_activities r c"; cases p) (simp_all add: turn_progress_def emit_update_def)
qed

lemma turn_progress_shape [consumes 1, case_names closed held sent]:
  assumes "turn_progress r c p now = Some (r', out)"
  obtains "tr_activities r c = None" "r' = r" "out = Ignore"
  | a a' where "tr_activities r c = Some a" "said a p a'"
      "r' = r\<lparr>tr_activities := (tr_activities r)(c \<mapsto> a')\<rparr>" "out = Ignore"
  | a a' u where "tr_activities r c = Some a" "said a p a'" "\<not> holds_back a now"
      "r' = r\<lparr>tr_activities := (tr_activities r)(c \<mapsto> a'\<lparr>oa_last_update := Some now\<rparr>)\<rparr>"
      "out = Emit [ActivityUpdated c (UpdatePayload u)]"
      "\<And>chunk. p = OutputProgress chunk \<Longrightarrow> au_detail u = Some (oa_tail a') \<and> au_truncated u = oa_truncated a'"
proof (cases "tr_activities r c")
  case (Some a)
  have same: "r\<lparr>tr_activities := (tr_activities r)(c \<mapsto> a)\<rparr> = r" using Some by (simp add: fun_upd_idem)
  show thesis
  proof (cases p)
    case (OutputProgress chunk)
    obtain a' where a': "activity_append a chunk = Some a'" "oa_last_update a' = oa_last_update a"
      by (rule activity_append_total)
    then have holds: "holds_back a' now = holds_back a now" by (simp add: holds_back_def)
    show thesis
    proof (cases "chunk = []")
      case True
      then have "r' = r" "out = Ignore" using assms Some OutputProgress by (simp_all add: turn_progress_def)
      then show thesis by (intro that(2) [of a a]) (simp_all add: Some same said_def OutputProgress True)
    next
      case False
      then show thesis
        using assms Some OutputProgress a' holds that(2) [of a a']
          that(3) [of a a' "activity_update_new\<lparr>au_detail := Some (oa_tail a'), au_truncated := oa_truncated a'\<rparr>"]
        by (cases "holds_back a now") (simp_all add: turn_progress_def said_def emit_update_def)
    qed
  next
    case (PatchProgress changes)
    show thesis
    proof (cases "changes = [] \<or> holds_back a now")
      case True
      then have "r' = r" "out = Ignore" using assms Some PatchProgress by (simp_all add: turn_progress_def)
      then show thesis by (intro that(2) [of a a]) (simp_all add: Some same said_def PatchProgress)
    next
      case False
      then show thesis
        using assms Some PatchProgress
        by (intro that(3) [of a a "patch_update changes"]) (simp_all add: turn_progress_def said_def emit_update_def)
    qed
  qed
next
  case None
  then have "r' = r" "out = Ignore" using assms by (simp_all add: turn_progress_def)
  then show thesis by (intro that(1)) (simp_all add: None)
qed

lemma spec_step_progress:
  "progress_of n = Some (c, p) \<Longrightarrow> spec_step True n out m = m(c := map_option (said_more p) (m c))"
  by (auto simp: spec_step_def said_more_def fun_eq_iff map_option_case split: progress.split option.split)

definition update_ok :: "outputs \<Rightarrow> 's notification \<Rightarrow> ('f, 'l) outcome \<Rightarrow> bool" where
  "update_ok m n out =
     (case (progress_of n, out) of
        (Some (c, OutputProgress _), Emit es) \<Rightarrow>
          (case (m c, es) of
             (Some s, [ActivityUpdated c' (UpdatePayload u)]) \<Rightarrow>
               c' = c \<and> au_detail u = Some (last_window s) \<and> (au_truncated u \<longleftrightarrow> window < length s)
           | _ \<Rightarrow> False)
      | _ \<Rightarrow> True)"

fun updates_ok :: "ustring \<Rightarrow> outputs \<Rightarrow> 's turn_step list \<Rightarrow> ('f, 'l) outcome list \<Rightarrow> bool" where
  "updates_ok thread m ((n, active, _, _) # steps) (out # outs) \<longleftrightarrow>
     (let m' = spec_step (routes_to_active_turn n thread active) n out m
      in update_ok m' n out \<and> updates_ok thread m' steps outs)"
| "updates_ok thread m _ _ \<longleftrightarrow> True"

lemma turn_reduce_total: "\<exists>r' out. turn_reduce f r n thread active at now = Some (r', out)"
proof (cases "progress_of n")
  case (Some cp)
  then obtain c p where cp: "progress_of n = Some (c, p)" by (cases cp) auto
  then show ?thesis using turn_progress_total [of r c p now] by (auto simp: turn_reduce_def)
next
  case None
  then show ?thesis by (auto simp: turn_reduce_def Let_def split: option.split prod.split)
qed

lemma step_refines:
  assumes "turn_reduce f r n thread active at now = Some (r', out)" "tails_match r m"
  defines "m' \<equiv> spec_step (routes_to_active_turn n thread active) n out m"
  shows "tails_match r' m' \<and> update_ok m' n out"
  using assms(1)
proof (cases rule: turn_reduce_cases)
  case (progress c p)
  note m' = spec_step_progress [OF progress(1), of out m]
  have related: "rel_option tail_ok (tr_activities r c) (m c)" using assms(2) by (simp add: tails_match_def)
  from progress(4) show ?thesis
  proof (cases rule: turn_progress_shape)
    case closed
    then show ?thesis
      using progress m' assms(2) related
      by (simp add: m'_def update_ok_def fun_upd_idem split: progress.split)
  next
    case (held a a')
    then obtain s where "m c = Some s" "tail_ok a' (said_more p s)"
      using related said_tail by (auto simp: option_rel_Some1)
    then show ?thesis
      using progress m' held assms(2)
      by (auto simp: m'_def update_ok_def tails_match_def split: progress.split)
  next
    case (sent a a' u)
    then obtain s where "m c = Some s" "tail_ok a' (said_more p s)"
      using related said_tail by (auto simp: option_rel_Some1)
    then show ?thesis
      using progress m' sent assms(2)
      by (auto simp: m'_def update_ok_def tails_match_def tail_ok_def split: progress.split)
  qed
next
  case (message i w)
  then show ?thesis
    using assms(2)
    by (auto simp: m'_def spec_step_def update_ok_def completed_message_def Let_def tails_match_def split: if_splits)
next
  case (delta t u i d)
  then show ?thesis
    using assms(2) by (simp add: m'_def spec_step_def update_ok_def tails_match_def remember_streamed_def Let_def)
next
  case other
  show ?thesis
  proof (cases "progress_of n")
    case None
    then show ?thesis
      using other assms(2) by (simp add: m'_def spec_step_def update_ok_def observe_match)
  next
    case (Some cp)
    then have "out = Ignore" "\<not> routes_to_active_turn n thread active" using other by auto
    then show ?thesis
      using Some other assms(2)
      by (cases cp) (auto simp: m'_def spec_step_def update_ok_def tails_match_def split: progress.split)
  qed
qed

lemma run_refines:
  "tails_match r m \<Longrightarrow> \<exists>r' (outs :: ('g, 'l) outcome list). turn_run (f :: 's \<Rightarrow> nat \<Rightarrow> 'l) thread r steps = Some (r', outs) \<and>
     tails_match r' (spec_run thread m steps outs) \<and> updates_ok thread m steps outs"
proof (induction steps arbitrary: r m)
  case (Cons st steps)
  obtain n active at now where st: "st = (n, active, at, now)" by (cases st)
  obtain r1 and out :: "('g, 'l) outcome" where step: "turn_reduce f r n thread active at now = Some (r1, out)"
    using turn_reduce_total by blast
  let ?m = "spec_step (routes_to_active_turn n thread active) n out m"
  have ok: "tails_match r1 ?m" "update_ok ?m n out" using step_refines [OF step Cons.prems] by auto
  obtain r2 and outs :: "('g, 'l) outcome list" where
    "turn_run f thread r1 steps = Some (r2, outs)" "tails_match r2 (spec_run thread ?m steps outs)" "updates_ok thread ?m steps outs"
    using Cons.IH [OF ok(1)] by blast
  then have "turn_run f thread r (st # steps) = Some (r2, out # outs) \<and>
      tails_match r2 (spec_run thread m (st # steps) (out # outs)) \<and> updates_ok thread m (st # steps) (out # outs)"
    using st step ok(2) by (simp add: Let_def)
  then show ?case by blast
qed simp

text \<open>C13: the reducer refines its specification. From a fresh reducer every sequence of notifications runs
  to the end, no byte slice ever panicking, and at each point the activities it holds are those
  announced and not yet completed in this turn, each with exactly the last 2000 characters of all its
  routed output since its announcement, marked truncated exactly when there was more; every output
  update it emits carries that tail and that mark.\<close>

theorem tails_refine:
  "\<exists>r outs. turn_run f thread (turn_reducer_for_limits l) steps = Some (r, outs) \<and>
     (\<forall>c. rel_option (\<lambda>a s. oa_tail a = drop (length s - 2000) s \<and> (oa_truncated a \<longleftrightarrow> 2000 < length s))
        (tr_activities r c) (spec_run thread Map.empty steps outs c)) \<and>
     updates_ok thread Map.empty steps outs"
proof -
  have "tail_ok = (\<lambda>a s. oa_tail a = drop (length s - 2000) s \<and> (oa_truncated a \<longleftrightarrow> 2000 < length s))"
    by (simp add: fun_eq_iff tail_ok_def last_window_def ACTIVITY_UPDATE_DETAIL_MAX_CHARS_def)
  then show ?thesis using run_refines [OF tails_match_new [of l], of f thread steps] by (simp add: tails_match_def)
qed

subsection \<open>The text of a message\<close>

text \<open>What the steps about one message emitted as text, in order.\<close>

fun text_of :: "'p event_kind \<Rightarrow> ustring" where
  "text_of (TextDelta s) = s"
| "text_of _ = []"

fun about_message :: "ustring \<Rightarrow> 's notification \<Rightarrow> bool" where
  "about_message i (AgentMessageDeltaN _ _ j _) \<longleftrightarrow> j = i"
| "about_message i n \<longleftrightarrow> (case message_of n of Some (j, _) \<Rightarrow> j = i | None \<Rightarrow> False)"

fun message_text :: "ustring \<Rightarrow> 's turn_step list \<Rightarrow> ('f, 'l) outcome list \<Rightarrow> ustring" where
  "message_text i ((n, _, _, _) # steps) (out # outs) =
     (if about_message i n then concat (map text_of (events_of out)) else []) @ message_text i steps outs"
| "message_text i _ _ = []"

lemma text_of_no_text: "\<not> is_text e \<Longrightarrow> text_of e = []"
  by (cases e) simp_all

definition completes_message :: "ustring \<Rightarrow> 's turn_step \<Rightarrow> bool" where
  "completes_message i st \<longleftrightarrow> (case message_of (fst st) of Some (j, _) \<Rightarrow> j = i | None \<Rightarrow> False)"

definition streamed_is :: "turn_reducer \<Rightarrow> ustring \<Rightarrow> ustring \<Rightarrow> bool" where
  "streamed_is r i s \<longleftrightarrow>
     (case tr_streamed r i of
        None \<Rightarrow> s = []
      | Some (StreamedText t) \<Rightarrow> t = s
      | Some Overflowed \<Rightarrow> (case tr_max_message_bytes r of Some b \<Rightarrow> b < str_len s | None \<Rightarrow> False))"

lemma streamed_is_cong:
  "tr_streamed r' i = tr_streamed r i \<Longrightarrow> tr_max_message_bytes r' = tr_max_message_bytes r \<Longrightarrow>
   streamed_is r' i s \<longleftrightarrow> streamed_is r i s"
  by (simp add: streamed_is_def split: option.split streamed.split)

lemma streamed_push_is:
  "streamed_is r i s \<Longrightarrow> streamed_is (remember_streamed r i d) i (s @ d)"
  by (auto simp: streamed_is_def remember_streamed_def Let_def sat_add_def split: option.splits streamed.splits if_splits)

lemma step_streams:
  assumes "turn_reduce f r n thread active at now = Some (r', out)" "streamed_is r i s"
    and "\<not> completes_message i (n, active, at, now)"
  shows "streamed_is r' i (s @ message_text i [(n, active, at, now)] [out]) \<and>
    tr_max_message_bytes r' = tr_max_message_bytes r"
  using assms(1)
proof (cases rule: turn_reduce_cases)
  case (progress c p)
  then have "\<not> about_message i n" by (cases n rule: progress_of.cases) auto
  moreover from progress(4) have "tr_streamed r' = tr_streamed r \<and> tr_max_message_bytes r' = tr_max_message_bytes r"
    by (cases rule: turn_progress_shape) simp_all
  ultimately show ?thesis using assms(2) streamed_is_cong [of r' i r] by simp
next
  case (message j w)
  then have "j \<noteq> i" using assms(3) by (simp add: completes_message_def)
  moreover have "\<not> about_message i n" using message \<open>j \<noteq> i\<close> by (cases n) auto
  ultimately show ?thesis
    using message assms(2) streamed_is_cong [of r' i r] by (auto simp: completed_message_def Let_def)
next
  case (delta t u j d)
  then show ?thesis
  proof (cases "j = i")
    case True
    then show ?thesis using delta streamed_push_is [OF assms(2), of d] by (simp add: remember_streamed_def Let_def)
  next
    case False
    then show ?thesis
      using delta assms(2) streamed_is_cong [of r' i r] by (simp add: remember_streamed_def Let_def)
  qed
next
  case other
  then have "message_text i [(n, active, at, now)] [out] = []"
    by (auto simp: plain_def list_all_iff intro: text_of_no_text)
  then show ?thesis using other(3,4) assms(2) streamed_is_cong [of r' i r] by (simp del: message_text.simps)
qed

lemma run_streams:
  "turn_run f thread r steps = Some (r', outs) \<Longrightarrow> streamed_is r i s \<Longrightarrow> \<forall>st \<in> set steps. \<not> completes_message i st \<Longrightarrow>
   streamed_is r' i (s @ message_text i steps outs) \<and> tr_max_message_bytes r' = tr_max_message_bytes r"
proof (induction steps arbitrary: r s outs)
  case (Cons st steps)
  obtain n active at now where st: "st = (n, active, at, now)" by (cases st)
  from Cons.prems(1) [unfolded st] obtain r1 out outs' where
    step: "turn_reduce f r n thread active at now = Some (r1, out)" and run: "turn_run f thread r1 steps = Some (r', outs')"
      and outs: "outs = out # outs'" by (rule turn_run_Cons)
  have one: "streamed_is r1 i (s @ message_text i [st] [out])" "tr_max_message_bytes r1 = tr_max_message_bytes r"
    using step_streams [OF step Cons.prems(2)] Cons.prems(3) st by auto
  show ?case using Cons.IH [OF run one(1)] one(2) Cons.prems(3) st outs by simp
qed simp

lemma strip_prefix_append: "strip_prefix (s @ t) s = Some t"
  by (simp add: strip_prefix_iff)

lemma completed_message_text:
  assumes "completed_message r i whole = (r', out)" "streamed_is r i sent"
  shows "tr_streamed r' i = None"
    and "\<not> prefix sent whole \<Longrightarrow> concat (map text_of (events_of out)) = whole"
    and "prefix sent whole \<Longrightarrow> concat (map text_of (events_of out)) \<in> {whole, drop (length sent) whole}"
    and "prefix sent whole \<Longrightarrow> tr_max_message_bytes r = Some b \<Longrightarrow> str_len sent \<le> b \<Longrightarrow>
      sent @ concat (map text_of (events_of out)) = whole"
  using assms
  by (auto simp: completed_message_def Let_def streamed_is_def strip_prefix_iff strip_prefix_append prefix_def
    split: option.splits streamed.splits if_splits)

text \<open>C14: a message's text reaches the host whole and, as far as the reducer can tell, once. When the
  completed item of a message arrives on the turn, what its deltas already emitted followed by what the
  completion emits is exactly the message's text, provided the text begins with what streamed and that
  fits the retained bound; a text that does not begin with it is emitted whole, and past the bound the
  completion emits the whole text or its remainder, never less. Nothing is left remembered for the
  message.\<close>

theorem message_text_delivered:
  assumes "turn_run f thread (turn_reducer_for_limits l) steps = Some (r, outs)"
    and "\<forall>st \<in> set steps. \<not> completes_message i st"
    and "message_of n = Some (i, whole)" "routes_to_active_turn n thread active"
    and "turn_reduce f r n thread active at now = Some (r', out)"
  shows "tr_streamed r' i = None \<and>
    (let sent = message_text i steps outs; rest = concat (map text_of (events_of out))
     in if \<not> prefix sent whole then rest = whole
        else if str_len sent \<le> min (sat_mul (max_line_bytes (line l)) 3) (max_buffered_bytes (line l))
        then sent @ rest = whole
        else rest = whole \<or> sent @ rest = whole)"
proof -
  have "streamed_is (turn_reducer_for_limits l) i []"
    by (simp add: streamed_is_def turn_reducer_for_limits_def turn_reducer_new_def)
  then have sent: "streamed_is r i (message_text i steps outs)"
      and most: "tr_max_message_bytes r = Some (min (sat_mul (max_line_bytes (line l)) 3) (max_buffered_bytes (line l)))"
    using run_streams [OF assms(1) _ assms(2), of "[]"] by (simp_all add: turn_reducer_for_limits_def)
  have "completed_message r i whole = (r', out)" using assms(3-5) by (cases n rule: message_of.cases) (simp_all add: turn_reduce_def)
  note facts = completed_message_text [OF this sent]
  show ?thesis using facts(1,2,3) facts(4) [OF _ most] by (auto simp: Let_def prefix_def)
qed

text \<open>A message of item \<open>i\<close>: the delta \<open>a\<close>, then the whole text \<open>ab\<close>.\<close>

definition demo_thread :: ustring where
  "demo_thread = [0x74]"

definition demo_delta :: "unit turn_step" where
  "demo_delta = (AgentMessageDeltaN demo_thread [0x75] [0x69] [0x61], Some [0x75], 0, 0)"

definition demo_message :: "unit notification" where
  "demo_message = ItemCompletedN demo_thread [0x75] (AgentMessageItem [0x69] [0x61, 0x62])"

lemma demo_message_run:
  "turn_run (\<lambda>_ _. ()) demo_thread (turn_reducer_for_limits limits_default) [demo_delta] =
     Some (remember_streamed (turn_reducer_for_limits limits_default) [0x69] [0x61], [Emit [TextDelta [0x61]]])"
  by (simp add: demo_delta_def turn_reduce_def codex_reduce note_error_code_def)

lemma demo_message_reduce:
  "turn_reduce (\<lambda>_ _. ()) (remember_streamed (turn_reducer_for_limits limits_default) [0x69] [0x61])
     demo_message demo_thread (Some [0x75]) 0 0 =
   Some (turn_reducer_for_limits limits_default, Emit [TextDelta [0x62]])"
  by (simp add: demo_message_def turn_reduce_def codex_reduce completed_message_def remember_streamed_def
    turn_reducer_for_limits_def turn_reducer_new_def Let_def strip_prefix_def sat_add_def sat_mul_def usize_MAX_def
    limits_default_def line_limits_default_def char_len_def fun_upd_idem)

lemma message_text_delivered_witness:
  "\<exists>out :: (unit, unit) outcome. \<exists>r r'. turn_reduce (\<lambda>_ _. ()) r demo_message demo_thread (Some [0x75]) 0 0 = Some (r', out) \<and>
     [0x61] @ concat (map text_of (events_of out)) = [0x61, 0x62]"
proof -
  have "message_of demo_message = Some ([0x69], [0x61, 0x62])"
      "routes_to_active_turn demo_message demo_thread (Some [0x75])"
      "\<forall>st \<in> set [demo_delta]. \<not> completes_message [0x69] st"
    by (simp_all add: demo_message_def demo_delta_def completes_message_def codex_reduce)
  from message_text_delivered [OF demo_message_run this(3,1,2) demo_message_reduce]
  have "message_text [0x69] [demo_delta] [Emit [TextDelta [0x61]] :: (unit, unit) outcome] @
      concat (map text_of (events_of (Emit [TextDelta [0x62]] :: (unit, unit) outcome))) = [0x61, 0x62]"
    by (simp add: Let_def demo_delta_def sat_mul_def usize_MAX_def limits_default_def line_limits_default_def char_len_def
      split: if_splits)
  then show ?thesis using demo_message_reduce by (fastforce simp: demo_delta_def)
qed

subsection \<open>Pacing\<close>

lemma interval_pos: "0 < ACTIVITY_UPDATE_INTERVAL"
  by (simp add: ACTIVITY_UPDATE_INTERVAL_def)

definition updates_of :: "ustring \<Rightarrow> ('f, 'l) outcome \<Rightarrow> nat" where
  "updates_of c out = length (filter (\<lambda>e. case e of ActivityUpdated c' _ \<Rightarrow> c' = c | _ \<Rightarrow> False) (events_of out))"

definition announces :: "ustring \<Rightarrow> ('f, 'l) outcome \<Rightarrow> bool" where
  "announces c out \<longleftrightarrow> list_ex (\<lambda>e. case e of ActivityStarted c' _ \<Rightarrow> c' = c | _ \<Rightarrow> False) (events_of out)"

fun update_times :: "ustring \<Rightarrow> 's turn_step list \<Rightarrow> ('f, 'l) outcome list \<Rightarrow> nat list" where
  "update_times c ((_, _, _, now) # steps) (out # outs) = replicate (updates_of c out) now @ update_times c steps outs"
| "update_times c _ _ = []"

definition paced_from :: "turn_reducer \<Rightarrow> ustring \<Rightarrow> nat list \<Rightarrow> bool" where
  "paced_from r c ts \<longleftrightarrow>
     (case tr_activities r c of
        None \<Rightarrow> ts = []
      | Some a \<Rightarrow> list_all (\<lambda>t. case oa_last_update a of None \<Rightarrow> True | Some l \<Rightarrow> l + ACTIVITY_UPDATE_INTERVAL \<le> t) ts)"

lemma observe_events_other:
  "list_all (\<lambda>e. case e of ActivityStarted c' _ \<Rightarrow> c' \<noteq> c | _ \<Rightarrow> True) es \<Longrightarrow> foldl observe_event m es c \<in> {m c, None}"
proof (induction es arbitrary: m)
  case (Cons e es)
  then have "observe_event m e c \<in> {m c, None}" by (cases e) auto
  then show ?case using Cons.IH [of "observe_event m e"] Cons.prems by auto
qed simp

lemma observe_activities: "\<not> announces c out \<Longrightarrow> tr_activities (observe r out) c \<in> {tr_activities r c, None}"
proof (cases out)
  case (Emit es)
  moreover assume "\<not> announces c out"
  ultimately show ?thesis
    using observe_events_other [of c es "tr_activities r"]
    by (force simp: announces_def list_ex_iff list_all_iff split: event_kind.splits)
qed simp_all

lemma spaced: "\<not> now - l < ACTIVITY_UPDATE_INTERVAL \<Longrightarrow> l + ACTIVITY_UPDATE_INTERVAL \<le> now"
  using interval_pos by linarith

lemma step_paced:
  assumes "turn_reduce f r n thread active at now = Some (r', out)" "\<not> announces c out"
    and "paced_from r' c ts" "sorted_wrt (\<lambda>t t'. t + ACTIVITY_UPDATE_INTERVAL \<le> t') ts"
  shows "paced_from r c (replicate (updates_of c out) now @ ts) \<and>
    sorted_wrt (\<lambda>t t'. t + ACTIVITY_UPDATE_INTERVAL \<le> t') (replicate (updates_of c out) now @ ts)"
  using assms(1)
proof (cases rule: turn_reduce_cases)
  case (progress c' p)
  from progress(4) show ?thesis
  proof (cases rule: turn_progress_shape)
    case closed
    then show ?thesis using assms(3,4) by (simp add: updates_of_def)
  next
    case (held a a')
    then show ?thesis
      using assms(3,4) said_last_update [of a p a'] by (auto simp: updates_of_def paced_from_def split: if_splits)
  next
    case (sent a a' u)
    show ?thesis
    proof (cases "c' = c")
      case True
      then have later: "list_all (\<lambda>t. now + ACTIVITY_UPDATE_INTERVAL \<le> t) ts"
        using sent assms(3) by (simp add: paced_from_def)
      have "case oa_last_update a of None \<Rightarrow> True | Some l \<Rightarrow> l + ACTIVITY_UPDATE_INTERVAL \<le> now"
        using sent(3) spaced by (auto simp: holds_back_def split: option.splits)
      then have "paced_from r c (now # ts)"
        using sent(1) True later by (auto simp: paced_from_def list_all_iff split: option.splits)
      then show ?thesis
        using True sent later assms(4) by (auto simp: updates_of_def list_all_iff)
    next
      case False
      then show ?thesis using sent assms(3,4) by (simp add: updates_of_def paced_from_def)
    qed
  qed
next
  case (message i w)
  then have "updates_of c out = 0" "tr_activities r' = tr_activities r"
    by (auto simp: completed_message_def Let_def updates_of_def split: if_splits)
  then show ?thesis using assms(3,4) by (simp add: paced_from_def)
next
  case (delta t u i d)
  then show ?thesis
    using assms(3,4) by (simp add: updates_of_def paced_from_def remember_streamed_def Let_def)
next
  case other
  then have "updates_of c out = 0"
    by (auto simp: updates_of_def plain_def list_all_iff filter_empty_conv split: event_kind.splits)
  moreover have "tr_activities r' c \<in> {tr_activities r c, None}"
    using other(5) observe_activities [OF assms(2), of r] by simp
  ultimately show ?thesis
    using assms(3,4) by (auto simp: paced_from_def split: option.splits)
qed

lemma run_paced:
  "turn_run f thread r steps = Some (r', outs) \<Longrightarrow> \<forall>out \<in> set outs. \<not> announces c out \<Longrightarrow>
   paced_from r c (update_times c steps outs) \<and>
   sorted_wrt (\<lambda>t t'. t + ACTIVITY_UPDATE_INTERVAL \<le> t') (update_times c steps outs)"
proof (induction steps arbitrary: r outs)
  case Nil
  then show ?case by (simp add: paced_from_def split: option.split)
next
  case (Cons st steps)
  obtain n active at now where st: "st = (n, active, at, now)" by (cases st)
  from Cons.prems(1) [unfolded st] obtain r1 out outs' where
    step: "turn_reduce f r n thread active at now = Some (r1, out)" and run: "turn_run f thread r1 steps = Some (r', outs')"
      and outs: "outs = out # outs'" by (rule turn_run_Cons)
  show ?case
    using step_paced [OF step] Cons.IH [OF run] Cons.prems(2) st outs by simp
qed

text \<open>Updates are paced and stay inside their activity. Over any stretch of a turn in which an activity
  is not announced again, its updates are at least five seconds apart and at least five seconds after
  the last one before the stretch, and an activity that is not open at the start of the stretch gets
  none at all.\<close>

theorem updates_paced:
  assumes "turn_run f thread r steps = Some (r', outs)" "\<forall>out \<in> set outs. \<not> announces c out"
  shows "sorted_wrt (\<lambda>t t'. t + 5 * 10 ^ 9 \<le> t') (update_times c steps outs) \<and>
    (case tr_activities r c of
       None \<Rightarrow> update_times c steps outs = []
     | Some a \<Rightarrow>
         list_all (\<lambda>t. case oa_last_update a of None \<Rightarrow> True | Some l \<Rightarrow> l + 5 * 10 ^ 9 \<le> t)
           (update_times c steps outs))"
  using run_paced [OF assms] unfolding paced_from_def ACTIVITY_UPDATE_INTERVAL_def by blast

definition demo_open :: turn_reducer where
  "demo_open = turn_reducer_new\<lparr>tr_activities := [[0x69] \<mapsto> open_activity_default]\<rparr>"

definition demo_output :: "nat \<Rightarrow> unit turn_step" where
  "demo_output now = (CommandOutputDeltaN demo_thread [0x75] [0x69] [0x61], Some [0x75], 0, now)"

lemma demo_paced_run:
  "\<exists>r' u v. turn_run (\<lambda>_ _. ()) demo_thread demo_open (map demo_output [0, 1, 6 * 10 ^ 9]) =
     Some (r', [Emit [ActivityUpdated [0x69] u], Ignore, Emit [ActivityUpdated [0x69] v]] :: (unit, unit) outcome list)"
  by (simp add: demo_output_def turn_reduce_def codex_reduce turn_progress_def demo_open_def turn_reducer_new_def
    open_activity_default_def activity_append_def ACTIVITY_UPDATE_DETAIL_MAX_CHARS_def char_len_def holds_back_def
    ACTIVITY_UPDATE_INTERVAL_def emit_update_def Let_def)

lemma updates_paced_witness:
  "\<exists>outs :: (unit, unit) outcome list. update_times [0x69] (map demo_output [0, 1, 6 * 10 ^ 9]) outs = [0, 6 * 10 ^ 9] \<and>
     sorted_wrt (\<lambda>t t'. t + 5 * 10 ^ 9 \<le> t') (update_times [0x69] (map demo_output [0, 1, 6 * 10 ^ 9]) outs)"
proof -
  obtain r' and outs :: "(unit, unit) outcome list" and u v where
    run: "turn_run (\<lambda>_ _. ()) demo_thread demo_open (map demo_output [0, 1, 6 * 10 ^ 9]) = Some (r', outs)"
      and outs: "outs = [Emit [ActivityUpdated [0x69] u], Ignore, Emit [ActivityUpdated [0x69] v]]"
    using demo_paced_run by blast
  have "\<forall>out \<in> set outs. \<not> announces [0x69] out" by (simp add: outs announces_def)
  from updates_paced [OF run this]
  have "sorted_wrt (\<lambda>t t'. t + 5 * 10 ^ 9 \<le> t') (update_times [0x69] (map demo_output [0, 1, 6 * 10 ^ 9]) outs)"
    by (rule conjunct1)
  moreover have "update_times [0x69] (map demo_output [0, 1, 6 * 10 ^ 9]) outs = [0, 6 * 10 ^ 9]"
    by (simp add: outs demo_output_def updates_of_def)
  ultimately show ?thesis by blast
qed

subsection \<open>What is still open\<close>

text \<open>The specification of \<open>OpenStructures\<close>: an activity is open when the last mark about it opened it.\<close>

fun last_opened :: "ustring \<Rightarrow> bool \<Rightarrow> mark list \<Rightarrow> bool" where
  "last_opened c b [] = b"
| "last_opened c b (ActivityOpened d # ms) = last_opened c (c = d \<or> b) ms"
| "last_opened c b (ActivityClosed d # ms) = last_opened c (b \<and> c \<noteq> d) ms"
| "last_opened c b (_ # ms) = last_opened c b ms"

lemma os_apply_distinct: "distinct (os_activities s) \<Longrightarrow> distinct (os_activities (foldl os_apply s ms))"
proof (induction ms arbitrary: s)
  case (Cons a ms)
  then have "distinct (os_activities (os_apply s a))" by (cases a) auto
  then show ?case by (simp add: Cons.IH)
qed simp

lemma set_os_apply:
  "set (os_activities (os_apply s (ActivityOpened d))) = insert d (set (os_activities s))"
  "set (os_activities (os_apply s (ActivityClosed d))) = set (os_activities s) - {d}"
  by auto

lemma os_apply_open:
  "c \<in> set (os_activities (foldl os_apply s ms)) \<longleftrightarrow> last_opened c (c \<in> set (os_activities s)) ms"
proof (induction ms arbitrary: s)
  case (Cons a ms)
  then show ?case
    by (cases a) (simp_all only: foldl.simps Cons.IH set_os_apply last_opened.simps insert_iff Diff_iff empty_iff, simp_all)
qed simp

lemma close_reasoning: "foldl os_apply s (replicate n ReasoningClosed) = s\<lparr>os_reasoning := os_reasoning s - n\<rparr>"
  by (induction n arbitrary: s) simp_all

lemma close_activities:
  "foldl os_apply s (map ActivityClosed cs) = s\<lparr>os_activities := filter (\<lambda>a. a \<notin> set cs) (os_activities s)\<rparr>"
  by (induction cs arbitrary: s) (auto intro: filter_cong)

text \<open>Closing what is open closes each structure once. Whatever marks were applied, the tracker holds
  exactly the activities whose last mark opened them, each once; \<open>close_all\<close> empties it and returns one
  close per open activity and one per open reasoning phase, and applying those closes' own events to
  the tracker would leave nothing open.\<close>

theorem close_all_closes_each_once:
  "let s = foldl os_apply open_structures_default marks;
       (s', closes) = close_all s status;
       closed = List.map_filter (\<lambda>e. case mark_of e of Some (ActivityClosed c) \<Rightarrow> Some c | _ \<Rightarrow> None) (map close_event closes)
   in s' = open_structures_default \<and> distinct closed \<and> (\<forall>c. c \<in> set closed \<longleftrightarrow> last_opened c False marks) \<and>
      length closes = length closed + os_reasoning s \<and>
      foldl os_apply s (List.map_filter (mark_of \<circ> close_event) closes) = open_structures_default"
proof -
  let ?s = "foldl os_apply open_structures_default marks"
  have marks_of: "List.map_filter (mark_of \<circ> close_event) (snd (close_all s status)) =
      map ActivityClosed (os_activities s) @ replicate (os_reasoning s) ReasoningClosed" for s
    by (simp add: close_all_def map_filter_def comp_def)
  have closed_of: "List.map_filter (\<lambda>e. case mark_of e of Some (ActivityClosed c) \<Rightarrow> Some c | _ \<Rightarrow> None)
      (map close_event (snd (close_all s status))) = os_activities s" for s
    by (simp add: close_all_def map_filter_def comp_def)
  show ?thesis
    using os_apply_distinct [of open_structures_default marks] os_apply_open [of _ open_structures_default marks]
    by (simp add: Let_def split_def marks_of closed_of)
      (simp add: close_all_def open_structures_default_def close_reasoning close_activities)
qed

end
