(* ===== verification/Rpc_Calls.thy ===== *)
theory Rpc_Calls imports Outbox Json_Value Text_Norm Host_Limits "HOL-Library.Multiset" begin

text \<open>
  The JSON-RPC client's correlation of calls (\<open>jsonrpc.rs\<close>): which frames a peer sent, which call a
  response answers, the queue its work and the ordered answers share, and what becomes of a call its
  caller or the connection gives up.

  The connection's state is one record. An operation holds the pending map's lock, or is one atomic
  operation, and is one function here; the tasks that call them interleave as the step relation below.
  A semaphore is its number of free permits, and a permit goes back where the source drops it. The
  answers sent, the work let go and the calls cancelled are kept as lists in order. Decoding a line
  into JSON and reading an error object are serde's, and are arguments.
\<close>

subsection \<open>Errors and ends\<close>

record rpc_error =
  re_code :: int
  re_message :: ustring
  re_data :: "json option"

datatype peer_termination =
    Exited
  | LinkFailed ustring
  | NotificationByteBackpressure usize usize
  | NotificationBackpressure usize usize
  | OutboundBackpressure ustring usize usize

datatype connection_end = ClosedEnd | PeerEnd peer_termination

datatype failed_cause = PeerCause | PeerUnreadable | EndedCause connection_end | HandlerStopped | UnwrittenCause

record failed =
  fl_body :: rpc_error
  fl_cause :: failed_cause

type_synonym rpc_answer = "failed + json"

definition failed_termination :: "failed \<Rightarrow> peer_termination \<Rightarrow> peer_termination" where
  "failed_termination f found =
     (case fl_cause f of EndedCause (PeerEnd recorded) \<Rightarrow> recorded | _ \<Rightarrow> found)"

definition unreadable_error_message :: "json \<Rightarrow> ustring" where
  "unreadable_error_message e = lit ''an error member that is a JSON '' @ json_type e @ lit '', not an error object''"

subsection \<open>Options\<close>

record client_options =
  op_peer_name :: ustring
  op_code_prefix :: ustring
  op_include_version_header :: bool
  op_request_timeout :: duration
  op_max_in_flight_requests :: usize
  op_max_pending_notifications :: usize
  op_max_pending_requests :: usize
  op_max_pending_bytes :: usize
  op_shutdown_timeout :: duration

definition client_options_default :: client_options where
  "client_options_default =
     \<lparr>op_peer_name = lit ''external agent'', op_code_prefix = lit ''peer'', op_include_version_header = True,
      op_request_timeout = 120 * 10 ^ 9, op_max_in_flight_requests = 256, op_max_pending_notifications = 256,
      op_max_pending_requests = 64, op_max_pending_bytes = 8 * 1024 * 1024, op_shutdown_timeout = 200 * 10 ^ 6\<rparr>"

definition client_with_limits :: "client_options \<Rightarrow> limits \<Rightarrow> client_options" where
  "client_with_limits o' l =
     o'\<lparr>op_request_timeout := request_timeout l, op_max_pending_requests := max_pending_requests l,
       op_max_in_flight_requests := max_pending_requests l,
       op_max_pending_notifications := turn_channel_capacity l, op_max_pending_bytes := turn_buffer_bytes l,
       op_shutdown_timeout := shutdown_timeout l\<rparr>"

text \<open>\<open>Semaphore::MAX_PERMITS\<close> of tokio on a 64-bit target.\<close>

definition MAX_PERMITS :: usize where
  "MAX_PERMITS = usize_MAX div 8"

definition handoff_capacity :: "usize \<Rightarrow> usize \<Rightarrow> usize" where
  "handoff_capacity notifications ordered = min (sat_add (sat_add notifications ordered) 1) MAX_PERMITS"

definition peer_share :: "usize \<Rightarrow> usize \<Rightarrow> usize" where
  "peer_share len responses = len - responses"

definition notification_capacity :: "client_options \<Rightarrow> usize" where
  "notification_capacity o' = min (max (op_max_pending_notifications o') 1) MAX_PERMITS"

definition ordered_capacity :: "client_options \<Rightarrow> usize" where
  "ordered_capacity o' = min (op_max_pending_requests o') MAX_PERMITS"

definition byte_capacity :: "client_options \<Rightarrow> usize" where
  "byte_capacity o' = min (op_max_pending_bytes o') MAX_PERMITS"

subsection \<open>The state of a connection\<close>

datatype delivery = Immediate | Ordered

record pending_answer =
  pa_delivery :: delivery
  pa_counted :: bool

text \<open>
  A registration waits in the outbox with its frame. \<open>rg_place\<close> says whether the place in the ordered
  reserve, shared with the caller, is still in its slot.
\<close>

record registration =
  rg_call :: ustring
  rg_place :: bool
  rg_counted :: bool

datatype peer_work = PeerNotification ustring json | PeerRequest ustring json json

datatype queued_work = QPeer peer_work usize | QResponse ustring rpc_answer

record rpc =
  rc_options :: client_options
  rc_wire :: wire_options
  rc_next :: nat
  rc_issued :: "ustring list"
  rc_unsent :: "registration list"
  rc_pending :: "(ustring \<times> pending_answer) list"
  rc_claims :: "ustring \<Rightarrow> bool option"
  rc_gone :: "ustring list"
  rc_sealed :: bool
  rc_closed :: bool
  rc_poisoned :: bool
  rc_ended :: "failed option"
  rc_queue :: "queued_work list"
  rc_taken :: "queued_work option"
  rc_worker :: bool
  rc_queued_answers :: usize
  rc_places :: usize
  rc_bytes :: usize
  rc_out :: "usize list"
  rc_invalid :: "bool list"
  rc_unparsed :: "bool list"
  rc_replies :: "(json \<times> int) list"
  rc_answers :: "(ustring \<times> rpc_answer) list"
  rc_dropped :: "ustring list"
  rc_cancelled :: "ustring list"
  rc_read :: "queued_work list"
  rc_handled :: "queued_work list"

definition rpc_new :: "client_options \<Rightarrow> wire_options \<Rightarrow> rpc" where
  "rpc_new o' w =
     \<lparr>rc_options = o', rc_wire = w, rc_next = 1, rc_issued = [], rc_unsent = [], rc_pending = [],
      rc_claims = Map.empty, rc_gone = [], rc_sealed = False, rc_closed = False, rc_poisoned = False,
      rc_ended = None, rc_queue = [], rc_taken = None, rc_worker = True, rc_queued_answers = 0,
      rc_places = ordered_capacity o', rc_bytes = byte_capacity o', rc_out = [], rc_invalid = [],
      rc_unparsed = [], rc_replies = [], rc_answers = [], rc_dropped = [], rc_cancelled = [],
      rc_read = [], rc_handled = []\<rparr>"

definition queue_capacity :: "rpc \<Rightarrow> usize" where
  "queue_capacity r =
     handoff_capacity (notification_capacity (rc_options r)) (ordered_capacity (rc_options r))"

definition send_answer :: "ustring \<Rightarrow> rpc_answer \<Rightarrow> rpc \<Rightarrow> rpc" where
  "send_answer i a r = r\<lparr>rc_answers := rc_answers r @ [(i, a)]\<rparr>"

text \<open>A pending entry let go with its sender: its place, if it holds one, goes back.\<close>

definition place_of :: "pending_answer \<Rightarrow> nat" where
  "place_of p = (case pa_delivery p of Ordered \<Rightarrow> 1 | Immediate \<Rightarrow> 0)"

definition remove_pending :: "ustring \<Rightarrow> rpc \<Rightarrow> rpc" where
  "remove_pending i r = r\<lparr>rc_pending := filter (\<lambda>e. fst e \<noteq> i) (rc_pending r)\<rparr>"

definition drop_pending :: "ustring \<Rightarrow> rpc \<Rightarrow> rpc" where
  "drop_pending i r =
     (case map_of (rc_pending r) i of
        None \<Rightarrow> r
      | Some p \<Rightarrow>
          (remove_pending i r)\<lparr>rc_places := rc_places r + place_of p, rc_dropped := rc_dropped r @ [i]\<rparr>)"

subsection \<open>Claims\<close>

text \<open>\<open>take_claim\<close> swaps the shared flag and says whether it was this caller that raised it.\<close>

definition take_claim :: "ustring \<Rightarrow> rpc \<Rightarrow> rpc \<times> bool" where
  "take_claim i r =
     (case rc_claims r i of
        None \<Rightarrow> (r, False)
      | Some taken \<Rightarrow> (r\<lparr>rc_claims := (rc_claims r)(i \<mapsto> True)\<rparr>, \<not> taken))"

definition given_up :: "ustring \<Rightarrow> rpc \<Rightarrow> rpc \<times> bool" where
  "given_up i r =
     (let (r', took) = take_claim i r in (r', rc_claims r i \<noteq> None \<and> \<not> took))"

definition call_claim :: "rpc \<Rightarrow> bool option" where
  "call_claim r = map_option (\<lambda>_. False) (cancel_on_abandon (rc_wire r))"

subsection \<open>Failures\<close>

definition unwritten :: "rpc \<Rightarrow> failed" where
  "unwritten r =
     \<lparr>fl_body = \<lparr>re_code = -32000,
        re_message = lit ''the '' @ op_peer_name (rc_options r) @ lit '' request frame was not written'', re_data = None\<rparr>,
      fl_cause = UnwrittenCause\<rparr>"

definition undelivered_failure :: "rpc \<Rightarrow> failed" where
  "undelivered_failure r =
     (case rc_ended r of
        Some f \<Rightarrow> f
      | None \<Rightarrow>
          \<lparr>fl_body = \<lparr>re_code = -32000,
             re_message = lit ''the '' @ op_peer_name (rc_options r) @
               lit '' notification handler stopped before the answer was delivered'', re_data = None\<rparr>,
           fl_cause = HandlerStopped\<rparr>)"

definition overflow_failure :: "rpc \<Rightarrow> rpc_error" where
  "overflow_failure r =
     \<lparr>re_code = -32000,
      re_message = lit ''the '' @ op_peer_name (rc_options r) @ lit '' notification queue reached its limit'', re_data = None\<rparr>"

definition queue_overrun :: "rpc \<Rightarrow> usize \<Rightarrow> peer_termination" where
  "queue_overrun r received = NotificationBackpressure (max (op_max_pending_notifications (rc_options r)) 1) received"

definition queue_full :: "rpc \<Rightarrow> peer_termination" where
  "queue_full r = queue_overrun r (sat_add (max (op_max_pending_notifications (rc_options r)) 1) 1)"

definition ended_with :: "connection_end \<Rightarrow> rpc_error \<Rightarrow> rpc \<Rightarrow> rpc \<times> failed" where
  "ended_with e body r =
     (case rc_ended r of
        Some f \<Rightarrow> (r, f)
      | None \<Rightarrow> let f = \<lparr>fl_body = body, fl_cause = EndedCause e\<rparr> in (r\<lparr>rc_ended := Some f\<rparr>, f))"

definition fail_entries :: "failed \<Rightarrow> (ustring \<times> pending_answer) list \<Rightarrow> rpc \<Rightarrow> rpc" where
  "fail_entries f es r =
     r\<lparr>rc_answers := rc_answers r @ map (\<lambda>(i, _). (i, Inl f)) es,
       rc_places := rc_places r + sum_list (map (place_of \<circ> snd) es)\<rparr>"

definition fail_pending :: "failed \<Rightarrow> rpc \<Rightarrow> rpc" where
  "fail_pending f r = fail_entries f (rc_pending r) (r\<lparr>rc_pending := []\<rparr>)"

definition fail_unordered :: "failed \<Rightarrow> rpc \<Rightarrow> rpc" where
  "fail_unordered f r =
     (let (failing, waiting) = partition (\<lambda>(_, p). pa_delivery p = Immediate) (rc_pending r)
      in fail_entries f failing (r\<lparr>rc_pending := waiting\<rparr>))"

subsection \<open>Entering a call\<close>

definition is_live :: "rpc \<Rightarrow> ustring \<times> pending_answer \<Rightarrow> bool" where
  "is_live r e \<longleftrightarrow> fst e \<notin> set (rc_gone r)"

text \<open>\<open>counted_pending\<close> lets go of the entries whose caller stopped listening and counts the others.\<close>

definition counted_pending :: "rpc \<Rightarrow> rpc \<times> nat" where
  "counted_pending r =
     (let dead = filter (\<lambda>e. \<not> is_live r e) (rc_pending r);
          live = filter (is_live r) (rc_pending r)
      in (r\<lparr>rc_pending := live, rc_places := rc_places r + sum_list (map (place_of \<circ> snd) dead),
            rc_dropped := rc_dropped r @ map fst dead\<rparr>,
          length (filter (pa_counted \<circ> snd) live)))"

definition ordered_place :: "rpc \<Rightarrow> rpc result" where
  "ordered_place r =
     (if rc_places r = 0 then
        Err (LimitExceeded (lit ''ordered JSON-RPC responses awaiting delivery'')
          (op_max_pending_requests (rc_options r)) (sat_add (op_max_pending_requests (rc_options r)) 1))
      else Ok (r\<lparr>rc_places := rc_places r - 1\<rparr>))"

definition pending_refused :: "rpc \<Rightarrow> nat \<Rightarrow> error" where
  "pending_refused r holding =
     LimitExceeded (lit ''pending JSON-RPC requests'') (op_max_pending_requests (rc_options r)) (sat_add holding 1)"

definition reentrant_ordered_request :: error where
  "reentrant_ordered_request =
     HostConfiguration
       (lit ''an ordered JSON-RPC request made outside this client's on_notification and on_request_handoff'')
       (lit ''one made inside on_notification or on_request_handoff, whose return its answer would wait for'')"

definition next_call :: "rpc \<Rightarrow> rpc \<times> ustring" where
  "next_call r = (r\<lparr>rc_next := rc_next r + 1\<rparr>, dec (rc_next r))"

text \<open>
  \<open>queue_request\<close>: the frame and the outbox's admission are arguments (\<open>built\<close>, \<open>admitted\<close>), and so is
  whether the caller is the connection's own worker.
\<close>

definition queue_request ::
  "bool \<Rightarrow> bool \<Rightarrow> bool \<Rightarrow> unit result \<Rightarrow> unit result \<Rightarrow> rpc \<Rightarrow> rpc \<times> ustring result" where
  "queue_request ordered counted own_worker built admitted r =
     (if rc_sealed r then (r, Err (Closed (lit ''link'')))
      else if ordered \<and> own_worker then (r, Err reentrant_ordered_request)
      else
        let (r1, i) = next_call r
        in case built of
             Inl e \<Rightarrow> (r1, Err e)
           | Inr _ \<Rightarrow>
               (case (if ordered then ordered_place r1 else Ok r1) of
                  Inl e \<Rightarrow> (r1, Err e)
                | Inr r2 \<Rightarrow>
                    (case admitted of
                       Inl e \<Rightarrow> (r1, Err e)
                     | Inr _ \<Rightarrow>
                         (r2\<lparr>rc_unsent := rc_unsent r2 @ [\<lparr>rg_call = i, rg_place = ordered, rg_counted = counted\<rparr>],
                            rc_claims := (rc_claims r2)(i := call_claim r2), rc_issued := rc_issued r2 @ [i]\<rparr>,
                          Ok i))))"

text \<open>\<open>register\<close>, by the writer, for the registration whose frame it reached.\<close>

definition register_call :: "registration \<Rightarrow> rpc \<Rightarrow> rpc \<times> ustring result" where
  "register_call g r =
     (let i = rg_call g;
          r1 = r\<lparr>rc_unsent := filter (\<lambda>h. rg_call h \<noteq> i) (rc_unsent r)\<rparr>;
          p = \<lparr>pa_delivery = (if rg_place g then Ordered else Immediate), pa_counted = rg_counted g\<rparr>
      in if rc_closed r1 then
           (send_answer i (Inl (undelivered_failure r1)) (r1\<lparr>rc_places := rc_places r1 + place_of p\<rparr>),
            Err (Closed (lit ''link'')))
         else
           let (r2, holding) = counted_pending r1
           in if rg_counted g \<and> op_max_pending_requests (rc_options r2) \<le> holding then
                (send_answer i (Inl (unwritten r2)) (r2\<lparr>rc_places := rc_places r2 + place_of p\<rparr>),
                 Err (with_dispatch (pending_refused r2 holding) NotSubmitted))
              else (r2\<lparr>rc_pending := (i, p) # rc_pending r2\<rparr>, Ok i))"

text \<open>The locked part of \<open>call_unbounded\<close>, with the id it asked for just before.\<close>

definition call_enter :: "bool \<Rightarrow> bool \<Rightarrow> rpc \<Rightarrow> rpc \<times> ustring result" where
  "call_enter ordered counted r =
     (let (r0, i) = next_call r
      in if rc_closed r0 then (r0, Err (Closed (lit ''link'')))
         else
           let (r1, holding) = counted_pending r0
           in if counted \<and> op_max_pending_requests (rc_options r1) \<le> holding then (r1, Err (pending_refused r1 holding))
              else
                (case (if ordered then ordered_place r1 else Ok r1) of
                   Inl e \<Rightarrow> (r1, Err e)
                 | Inr r2 \<Rightarrow>
                     (r2\<lparr>rc_pending := (i, \<lparr>pa_delivery = (if ordered then Ordered else Immediate), pa_counted = counted\<rparr>)
                          # rc_pending r2,
                        rc_claims := (rc_claims r2)(i := call_claim r2), rc_issued := rc_issued r2 @ [i]\<rparr>, Ok i)))"

subsection \<open>Delivering a response\<close>

datatype 'a send_result = Sent 'a | QueueClosed | QueueFull

definition try_send :: "queued_work \<Rightarrow> rpc \<Rightarrow> rpc send_result" where
  "try_send w r =
     (if \<not> rc_worker r then QueueClosed
      else if queue_capacity r \<le> length (rc_queue r) then QueueFull
      else Sent (r\<lparr>rc_queue := rc_queue r @ [w], rc_read := rc_read r @ [w]\<rparr>))"

text \<open>Work let go unserved: a queued answer fails its caller, a peer's bytes go back.\<close>

fun drop_work :: "queued_work \<Rightarrow> rpc \<Rightarrow> rpc" where
  "drop_work (QResponse i a) r =
     (send_answer i (Inl (undelivered_failure r)) r)
       \<lparr>rc_queued_answers := wrap_sub (rc_queued_answers r) 1, rc_places := rc_places r + 1\<rparr>"
| "drop_work (QPeer w n) r = r\<lparr>rc_bytes := rc_bytes r + n\<rparr>"

definition deliver :: "ustring \<Rightarrow> rpc_answer \<Rightarrow> rpc \<Rightarrow> rpc \<times> peer_termination option" where
  "deliver i a r =
     (case map_of (rc_pending r) i of
        None \<Rightarrow> (r, None)
      | Some p \<Rightarrow>
          let (r1, late) = given_up i (remove_pending i r)
          in if late then
               (r1\<lparr>rc_places := rc_places r1 + place_of p, rc_dropped := rc_dropped r1 @ [i]\<rparr>, None)
             else
               (case pa_delivery p of
                  Immediate \<Rightarrow> (send_answer i a r1, None)
                | Ordered \<Rightarrow>
                    let r2 = r1\<lparr>rc_queued_answers := wrap_add (rc_queued_answers r1) 1\<rparr>
                    in (case try_send (QResponse i a) r2 of
                          Sent r3 \<Rightarrow> (r3, None)
                        | QueueClosed \<Rightarrow> (drop_work (QResponse i a) r2, None)
                        | QueueFull \<Rightarrow>
                            let (r3, _) = ended_with (PeerEnd (queue_full r2)) (overflow_failure r2) r2
                            in (drop_work (QResponse i a) r3, Some (queue_full r3)))))"

subsection \<open>Reading a frame\<close>

type_synonym frame = "(ustring \<times> json) list"

definition ECHOED_ID_BYTES :: usize where
  "ECHOED_ID_BYTES = 128"

fun echoed_id :: "json option \<Rightarrow> json" where
  "echoed_id (Some (JString s)) =
     (if str_len (json_text (JString s)) \<le> ECHOED_ID_BYTES then JString s else JNull)"
| "echoed_id (Some (JNumber n)) =
     (if str_len (json_text (JNumber n)) \<le> ECHOED_ID_BYTES then JNumber n else JNull)"
| "echoed_id _ = JNull"

definition invalid_request :: "frame \<Rightarrow> json option" where
  "invalid_request fr =
     (if map_of fr (lit ''result'') \<noteq> None \<or> map_of fr (lit ''error'') \<noteq> None then None
      else
        let i = map_of fr (lit ''id'');
            invalid = (case map_of fr (lit ''method'') of
                Some (JString _) \<Rightarrow>
                  (case i of None \<Rightarrow> False | Some (JString _) \<Rightarrow> False | Some (JNumber _) \<Rightarrow> False
                   | Some JNull \<Rightarrow> False | _ \<Rightarrow> True)
              | Some _ \<Rightarrow> True
              | None \<Rightarrow> (case i of Some (JString _) \<Rightarrow> False | Some (JNumber _) \<Rightarrow> False | _ \<Rightarrow> True))
        in if invalid then Some (echoed_id i) else None)"

definition answerable_request :: "rpc \<Rightarrow> frame \<Rightarrow> json option" where
  "answerable_request r fr =
     (case invalid_request_replies (rc_wire r) of
        None \<Rightarrow> None
      | Some n \<Rightarrow> if n = 0 then None else invalid_request fr)"

text \<open>The id's key among the calls: a string is its own text, anything else its JSON.\<close>

fun request_key :: "json \<Rightarrow> ustring" where
  "request_key (JString s) = s"
| "request_key v = json_text v"

text \<open>
  \<open>UnaskedReplies\<close>: of each reply still tracked, whether its frame waits in the outbox. Those the
  writer began are let go from the front; a full list takes no more.
\<close>

definition queue_within :: "usize \<Rightarrow> bool list \<Rightarrow> (bool list \<times> bool)" where
  "queue_within most waiting =
     (let waiting' = dropWhile (\<lambda>queued. \<not> queued) waiting
      in if most \<le> length waiting' then (waiting', False) else (waiting' @ [True], True))"

definition answer_invalid_request :: "json \<Rightarrow> rpc \<Rightarrow> rpc" where
  "answer_invalid_request i r =
     (case invalid_request_replies (rc_wire r) of
        None \<Rightarrow> r
      | Some n \<Rightarrow>
          if rc_closed r \<or> rc_poisoned r then r
          else let (waiting, queued) = queue_within n (rc_invalid r)
            in r\<lparr>rc_invalid := waiting, rc_replies := rc_replies r @ (if queued then [(i, -32600)] else [])\<rparr>)"

definition answer_unparseable :: "rpc \<Rightarrow> rpc" where
  "answer_unparseable r =
     (case parse_error_replies (rc_wire r) of
        None \<Rightarrow> r
      | Some n \<Rightarrow>
          if rc_closed r \<or> rc_poisoned r then r
          else let (waiting, queued) = queue_within n (rc_unparsed r)
            in r\<lparr>rc_unparsed := waiting, rc_replies := rc_replies r @ (if queued then [(JNull, -32700)] else [])\<rparr>)"

definition peer_work_queued :: "rpc \<Rightarrow> usize" where
  "peer_work_queued r = peer_share (length (rc_queue r)) (rc_queued_answers r)"

definition take_peer_bytes :: "usize \<Rightarrow> rpc \<Rightarrow> peer_termination + rpc" where
  "take_peer_bytes n r =
     (if 2 ^ 32 \<le> n \<or> rc_bytes r < n then Inl (NotificationByteBackpressure (op_max_pending_bytes (rc_options r)) n)
      else Inr (r\<lparr>rc_bytes := rc_bytes r - n\<rparr>))"

datatype peer_bytes = LineBytes usize | ShareBytes usize

fun is_object :: "json \<Rightarrow> bool" where
  "is_object (JObject _) = True"
| "is_object _ = False"

definition response_outcome :: "(json \<Rightarrow> rpc_error option) \<Rightarrow> frame \<Rightarrow> rpc_answer" where
  "response_outcome read_error fr =
     (case map_of fr (lit ''error'') of
        Some e \<Rightarrow>
          Inl \<lparr>fl_body = (case read_error e of Some b \<Rightarrow> b
                 | None \<Rightarrow> \<lparr>re_code = -32603, re_message = unreadable_error_message e, re_data = None\<rparr>),
               fl_cause = (if read_error e \<noteq> None \<and> is_object e then PeerCause else PeerUnreadable)\<rparr>
      | None \<Rightarrow> Inr (case map_of fr (lit ''result'') of Some v \<Rightarrow> v | None \<Rightarrow> JNull))"

definition queue_peer_work :: "peer_work \<Rightarrow> usize \<Rightarrow> rpc \<Rightarrow> rpc \<times> peer_termination option" where
  "queue_peer_work w n r =
     (case try_send (QPeer w n) r of
        Sent r' \<Rightarrow> (r', None)
      | _ \<Rightarrow> (r\<lparr>rc_bytes := rc_bytes r + n\<rparr>, Some (queue_full r)))"

text \<open>What a frame is once its members are read: work for the handler, a response, or nothing.\<close>

definition frame_work :: "frame \<Rightarrow> peer_work option" where
  "frame_work fr =
     (case map_of fr (lit ''method'') of
        Some (JString m) \<Rightarrow>
          (let params = (case map_of fr (lit ''params'') of Some v \<Rightarrow> v | None \<Rightarrow> JNull)
           in Some (case map_of fr (lit ''id'') of Some i \<Rightarrow> PeerRequest m params i | None \<Rightarrow> PeerNotification m params))
      | _ \<Rightarrow> None)"

definition return_share :: "peer_bytes \<Rightarrow> rpc \<Rightarrow> rpc" where
  "return_share bytes r = (case bytes of ShareBytes n \<Rightarrow> r\<lparr>rc_bytes := rc_bytes r + n\<rparr> | LineBytes _ \<Rightarrow> r)"

definition dispatch_frame ::
  "(json \<Rightarrow> rpc_error option) \<Rightarrow> frame \<Rightarrow> peer_bytes \<Rightarrow> rpc \<Rightarrow> rpc \<times> peer_termination option" where
  "dispatch_frame read_error fr bytes r =
     (case frame_work fr of
        Some w \<Rightarrow>
          (case bytes of
             ShareBytes n \<Rightarrow> queue_peer_work w n r
           | LineBytes n \<Rightarrow>
               (case take_peer_bytes n r of
                  Inl t \<Rightarrow> (r, Some t)
                | Inr r' \<Rightarrow>
                    if notification_capacity (rc_options r) \<le> peer_work_queued r'
                    then (r'\<lparr>rc_bytes := rc_bytes r' + n\<rparr>, Some (queue_full r'))
                    else queue_peer_work w n r'))
      | None \<Rightarrow>
          (case map_of fr (lit ''id'') of
             Some i \<Rightarrow> deliver (request_key i) (response_outcome read_error fr) (return_share bytes r)
           | None \<Rightarrow> (return_share bytes r, None)))"

text \<open>
  \<open>dispatch_batch\<close>. The bytes of the line are taken once and shared out among the members for the
  handler, the last of them taking what is left; the members it answers as invalid are bounded.
\<close>

definition is_peer_work :: "rpc \<Rightarrow> json \<Rightarrow> bool" where
  "is_peer_work r m =
     (case m of
        JObject fr \<Rightarrow> frame_work fr \<noteq> None \<and> answerable_request r fr = None
      | _ \<Rightarrow> False)"

definition give_back :: "usize option \<Rightarrow> rpc \<Rightarrow> rpc" where
  "give_back held r = r\<lparr>rc_bytes := rc_bytes r + (case held of Some n \<Rightarrow> n | None \<Rightarrow> 0)\<rparr>"

definition split_share :: "usize \<Rightarrow> usize \<Rightarrow> usize option \<Rightarrow> usize option \<times> usize option" where
  "split_share share work held =
     (if work = 0 then (held, None)
      else case held of
        Some n \<Rightarrow> if share \<le> n then (Some share, Some (n - share)) else (None, held)
      | None \<Rightarrow> (None, None))"

definition answer_member :: "json \<Rightarrow> nat \<Rightarrow> rpc \<Rightarrow> nat \<times> rpc" where
  "answer_member i owed r = (if 0 < owed then (owed - 1, answer_invalid_request i r) else (owed, r))"

fun batch_loop ::
  "(json \<Rightarrow> rpc_error option) \<Rightarrow> usize \<Rightarrow> json list \<Rightarrow> nat \<Rightarrow> nat \<Rightarrow> usize option \<Rightarrow> rpc \<Rightarrow> rpc \<times> peer_termination option" where
  "batch_loop read_error share [] owed work held r = (give_back held r, None)"
| "batch_loop read_error share (JObject fr # ms) owed work held r =
     (case answerable_request r fr of
        Some i \<Rightarrow>
          (let (owed', r') = answer_member i owed r in batch_loop read_error share ms owed' work held r')
      | None \<Rightarrow>
          (let named = (frame_work fr \<noteq> None);
               work' = (if named then work - 1 else work);
               (mine, held') = (if named then split_share share work' held else (None, held));
               (r', t) = dispatch_frame read_error fr (case mine of Some n \<Rightarrow> ShareBytes n | None \<Rightarrow> LineBytes 0) r
           in case t of
                Some t \<Rightarrow> (give_back held' r', Some t)
              | None \<Rightarrow> batch_loop read_error share ms owed work' held' r'))"
| "batch_loop read_error share (m # ms) owed work held r =
     (let (owed', r') = answer_member JNull owed r in batch_loop read_error share ms owed' work held r')"

definition dispatch_batch ::
  "(json \<Rightarrow> rpc_error option) \<Rightarrow> json list \<Rightarrow> usize \<Rightarrow> rpc \<Rightarrow> rpc \<times> peer_termination option" where
  "dispatch_batch read_error members bytes r =
     (if members = [] then (answer_invalid_request JNull r, None)
      else
        let owed = (case invalid_request_replies (rc_wire r) of Some n \<Rightarrow> n | None \<Rightarrow> 0);
            work = length (filter (is_peer_work r) members)
        in if work = 0 then batch_loop read_error 0 members owed 0 None r
           else
             let received = sat_add (peer_work_queued r) work
             in if notification_capacity (rc_options r) < received then (r, Some (queue_overrun r received))
                else
                  case take_peer_bytes bytes r of
                    Inl t \<Rightarrow> (r, Some t)
                  | Inr r' \<Rightarrow> batch_loop read_error (bytes div work) members owed work (Some bytes) r')"

definition dispatch_message ::
  "(json \<Rightarrow> rpc_error option) \<Rightarrow> (ustring \<Rightarrow> json option) \<Rightarrow> ustring \<Rightarrow> rpc \<Rightarrow> rpc \<times> peer_termination option" where
  "dispatch_message read_error parse message r =
     (case parse message of
        Some (JObject fr) \<Rightarrow>
          (case answerable_request r fr of
             Some i \<Rightarrow> (answer_invalid_request i r, None)
           | None \<Rightarrow> dispatch_frame read_error fr (LineBytes (str_len message)) r)
      | Some (JArray ms) \<Rightarrow>
          (if batch_decoding (rc_wire r) then dispatch_batch read_error ms (str_len message) r
           else (answer_invalid_request JNull r, None))
      | Some _ \<Rightarrow> (answer_invalid_request JNull r, None)
      | None \<Rightarrow> (if trim message = [] then r else answer_unparseable r, None))"

subsection \<open>The worker, the writer and the callers\<close>

definition worker_take :: "rpc \<Rightarrow> rpc option" where
  "worker_take r =
     (case (rc_taken r, rc_queue r) of
        (None, w # ws) \<Rightarrow> if rc_worker r then Some (r\<lparr>rc_taken := Some w, rc_queue := ws\<rparr>) else None
      | _ \<Rightarrow> None)"

text \<open>
  The worker is through with what it took: an answer is delivered, a notification was awaited, and a
  question either has a task of its own, which keeps its bytes (\<open>kept\<close>), or was refused.
\<close>

definition worker_let_go :: "bool \<Rightarrow> rpc \<Rightarrow> rpc option" where
  "worker_let_go kept r =
     (case rc_taken r of
        None \<Rightarrow> None
      | Some w \<Rightarrow>
          let r1 = r\<lparr>rc_taken := None, rc_handled := rc_handled r @ [w]\<rparr>
          in Some (case w of
               QResponse i a \<Rightarrow>
                 (send_answer i a r1)
                   \<lparr>rc_queued_answers := wrap_sub (rc_queued_answers r1) 1, rc_places := rc_places r1 + 1\<rparr>
             | QPeer (PeerRequest _ _ _) n \<Rightarrow>
                 (if kept then r1\<lparr>rc_out := n # rc_out r1\<rparr> else r1\<lparr>rc_bytes := rc_bytes r1 + n\<rparr>)
             | QPeer (PeerNotification _ _) n \<Rightarrow> r1\<lparr>rc_bytes := rc_bytes r1 + n\<rparr>))"

definition release_bytes :: "usize \<Rightarrow> rpc \<Rightarrow> rpc" where
  "release_bytes n r =
     (if n \<in> set (rc_out r) then r\<lparr>rc_out := remove1 n (rc_out r), rc_bytes := rc_bytes r + n\<rparr> else r)"

definition works :: "rpc \<Rightarrow> queued_work list" where
  "works r = (case rc_taken r of Some w \<Rightarrow> [w] | None \<Rightarrow> []) @ rc_queue r"

text \<open>The worker's task ends, however it does: what it held and what is queued are let go.\<close>

definition worker_stop :: "rpc \<Rightarrow> rpc" where
  "worker_stop r = fold drop_work (works r) (r\<lparr>rc_taken := None, rc_queue := [], rc_worker := False\<rparr>)"

text \<open>A caller that withdrew its queued frame takes the place back at once.\<close>

definition take_place :: "ustring \<Rightarrow> rpc \<Rightarrow> rpc" where
  "take_place i r =
     r\<lparr>rc_unsent := map (\<lambda>g. if rg_call g = i then g\<lparr>rg_place := False\<rparr> else g) (rc_unsent r),
       rc_places := rc_places r + length (filter (\<lambda>g. rg_call g = i \<and> rg_place g) (rc_unsent r))\<rparr>"

text \<open>The writer passes over a frame its caller gave up.\<close>

definition skip_registration :: "ustring \<Rightarrow> rpc \<Rightarrow> rpc" where
  "skip_registration i r =
     r\<lparr>rc_unsent := filter (\<lambda>g. rg_call g \<noteq> i) (rc_unsent r),
       rc_places := rc_places r + length (filter (\<lambda>g. rg_call g = i \<and> rg_place g) (rc_unsent r)),
       rc_dropped := rc_dropped r @ map rg_call (filter (\<lambda>g. rg_call g = i) (rc_unsent r))\<rparr>"

definition fail_unwritten :: "ustring \<Rightarrow> rpc \<Rightarrow> rpc" where
  "fail_unwritten i r =
     (case map_of (rc_pending r) i of
        None \<Rightarrow> r
      | Some p \<Rightarrow>
          send_answer i (Inl (case rc_ended r of Some f \<Rightarrow> f | None \<Rightarrow> unwritten r))
            ((remove_pending i r)\<lparr>rc_places := rc_places r + place_of p\<rparr>))"

text \<open>
  \<open>PendingCall\<close> dropped with the receiver: the cancel is decided at once, the entry goes when the map's
  lock is free (\<open>drop_pending\<close>).
\<close>

definition cancel_abandoned :: "ustring \<Rightarrow> rpc \<Rightarrow> rpc" where
  "cancel_abandoned i r =
     (if cancel_on_abandon (rc_wire r) = None \<or> rc_closed r \<or> rc_poisoned r then r
      else r\<lparr>rc_cancelled := rc_cancelled r @ [i]\<rparr>)"

definition give_up :: "ustring \<Rightarrow> bool \<Rightarrow> rpc \<Rightarrow> rpc" where
  "give_up i began r =
     (let r1 = r\<lparr>rc_gone := rc_gone r @ [i]\<rparr>
      in if \<not> began then r1
         else let (r2, took) = take_claim i r1 in if took then cancel_abandoned i r2 else r2)"

definition reply_begun :: "bool list \<Rightarrow> bool list" where
  "reply_begun waiting = takeWhile (\<lambda>q. \<not> q) waiting @ (case dropWhile (\<lambda>q. \<not> q) waiting of [] \<Rightarrow> [] | _ # ws \<Rightarrow> False # ws)"

subsection \<open>Interleaving\<close>

inductive rpc_step :: "rpc \<Rightarrow> rpc \<Rightarrow> bool" where
  queue: "rc_next r < usize_MAX \<Longrightarrow> queue_request ordered counted own built admitted r = (r', x) \<Longrightarrow> rpc_step r r'"
| enter: "rc_next r < usize_MAX \<Longrightarrow> call_enter ordered counted r = (r', x) \<Longrightarrow> rpc_step r r'"
| register: "g \<in> set (rc_unsent r) \<Longrightarrow> register_call g r = (r', x) \<Longrightarrow> rpc_step r r'"
| skip: "rpc_step r (skip_registration i r)"
| withdraw: "rpc_step r (take_place i r)"
| read: "dispatch_message read_error parse message r = (r', t) \<Longrightarrow> rpc_step r r'"
| take: "worker_take r = Some r' \<Longrightarrow> rpc_step r r'"
| let_go: "worker_let_go kept r = Some r' \<Longrightarrow> rpc_step r r'"
| release: "rpc_step r (release_bytes n r)"
| stop: "rpc_step r (worker_stop r)"
| give_up: "rpc_step r (give_up i began r)"
| reap: "i \<in> set (rc_gone r) \<Longrightarrow> rpc_step r (drop_pending i r)"
| settle: "rpc_step r (fst (take_claim i r))"
| unwritten: "rpc_step r (fail_unwritten i r)"
| write_failed: "rpc_step r (drop_pending i r)"
| seal: "rpc_step r (r\<lparr>rc_sealed := True\<rparr>)"
| close: "rc_sealed r \<Longrightarrow> rpc_step r (r\<lparr>rc_closed := True\<rparr>)"
| poison: "rpc_step r (r\<lparr>rc_poisoned := True\<rparr>)"
| ended: "rpc_step r (fst (ended_with e body r))"
| fail_all: "rc_closed r \<Longrightarrow> rc_ended r = Some f \<Longrightarrow> rpc_step r (fail_pending f r)"
| fail_some: "rc_closed r \<Longrightarrow> rc_ended r = Some f \<Longrightarrow> rpc_step r (fail_unordered f r)"
| begun: "rpc_step r (r\<lparr>rc_invalid := reply_begun (rc_invalid r), rc_unparsed := reply_begun (rc_unparsed r)\<rparr>)"

inductive rpc_reach :: "client_options \<Rightarrow> wire_options \<Rightarrow> rpc \<Rightarrow> bool" for o' w where
  start: "rpc_reach o' w (rpc_new o' w)"
| step: "rpc_reach o' w r \<Longrightarrow> rpc_step r r' \<Longrightarrow> rpc_reach o' w r'"

subsection \<open>What every operation conserves\<close>

text \<open>
  The ledger lists where each issued call is: in the outbox, awaiting its response, answered but queued
  behind earlier work, answered, or let go with its sender. Places and bytes are conserved in the same
  way.
\<close>

fun work_calls :: "queued_work \<Rightarrow> ustring list" where
  "work_calls (QResponse i _) = [i]"
| "work_calls (QPeer _ _) = []"

fun work_places :: "queued_work \<Rightarrow> nat" where
  "work_places (QResponse _ _) = 1"
| "work_places (QPeer _ _) = 0"

fun work_bytes :: "queued_work \<Rightarrow> nat" where
  "work_bytes (QResponse _ _) = 0"
| "work_bytes (QPeer _ n) = n"

definition unsent_places :: "registration list \<Rightarrow> nat" where
  "unsent_places gs = sum_list (map (\<lambda>g. of_bool (rg_place g)) gs)"

definition pending_places :: "(ustring \<times> pending_answer) list \<Rightarrow> nat" where
  "pending_places es = sum_list (map (place_of \<circ> snd) es)"

definition answered_places :: "queued_work list \<Rightarrow> nat" where
  "answered_places ws = sum_list (map work_places ws)"

definition ledger :: "rpc \<Rightarrow> ustring list" where
  "ledger r =
     map rg_call (rc_unsent r) @ map fst (rc_pending r) @ concat (map work_calls (works r)) @
     map fst (rc_answers r) @ rc_dropped r"

definition places_total :: "rpc \<Rightarrow> nat" where
  "places_total r =
     rc_places r + unsent_places (rc_unsent r) + pending_places (rc_pending r) + answered_places (works r)"

definition bytes_total :: "rpc \<Rightarrow> nat" where
  "bytes_total r = rc_bytes r + sum_list (map work_bytes (works r)) + sum_list (rc_out r)"

lemma place_sums [simp]:
  "unsent_places [] = 0" "unsent_places (g # gs) = of_bool (rg_place g) + unsent_places gs"
  "unsent_places (gs @ hs) = unsent_places gs + unsent_places hs"
  "pending_places [] = 0" "pending_places (e # es) = place_of (snd e) + pending_places es"
  "pending_places (es @ fs) = pending_places es + pending_places fs"
  "answered_places [] = 0" "answered_places (w # ws) = work_places w + answered_places ws"
  "answered_places (ws @ vs) = answered_places ws + answered_places vs"
  by (simp_all add: unsent_places_def pending_places_def answered_places_def)

lemma place_of_simps [simp]: "place_of \<lparr>pa_delivery = Ordered, pa_counted = b\<rparr> = 1"
    "place_of \<lparr>pa_delivery = Immediate, pa_counted = b\<rparr> = 0"
  by (simp_all add: place_of_def)

text \<open>Removing the one entry of a call from a list of distinct keys.\<close>

lemma removed_key:
  assumes "distinct (map k xs)" "x \<in> set xs"
  shows "mset xs = add_mset x (mset (filter (\<lambda>y. k y \<noteq> k x) xs))"
  using assms
proof (induction xs)
  case (Cons y xs)
  show ?case
  proof (cases "y = x")
    case True
    then have "filter (\<lambda>z. k z \<noteq> k x) xs = xs"
      using Cons.prems(1) by (auto simp: filter_id_conv) (metis image_eqI)
    then show ?thesis using True by simp
  next
    case False
    then have "k y \<noteq> k x" using Cons.prems by auto
    then show ?thesis using Cons False by (simp add: add_mset_commute)
  qed
qed simp

lemma kept_keys: "x \<notin> k ` set xs \<Longrightarrow> filter (\<lambda>y. k y \<noteq> x) xs = xs"
  by (auto simp: filter_id_conv)

lemma sum_removed:
  assumes "mset xs = add_mset x (mset ys)"
  shows "sum_list (map f xs) = f x + (sum_list (map f ys) :: nat)" "mset (map g xs) = add_mset (g x) (mset (map g ys))"
proof -
  have "sum_mset (image_mset f (mset xs)) = f x + sum_mset (image_mset f (mset ys))" using assms by simp
  then show "sum_list (map f xs) = f x + sum_list (map f ys)" by (simp add: sum_mset_sum_list [symmetric])
  show "mset (map g xs) = add_mset (g x) (mset (map g ys))" using assms by simp
qed

lemma pending_removed:
  assumes "map_of es i = Some p" "distinct (map fst es)"
  shows "mset (map fst es) = add_mset i (mset (map fst (filter (\<lambda>e. fst e \<noteq> i) es)))"
    and "pending_places es = place_of p + pending_places (filter (\<lambda>e. fst e \<noteq> i) es)"
proof -
  have "mset es = add_mset (i, p) (mset (filter (\<lambda>e. fst e \<noteq> i) es))"
    using removed_key [of fst es "(i, p)"] assms map_of_SomeD by fastforce
  from sum_removed(1) [OF this, of "place_of \<circ> snd"] sum_removed(2) [OF this, of fst] show
    "mset (map fst es) = add_mset i (mset (map fst (filter (\<lambda>e. fst e \<noteq> i) es)))"
    "pending_places es = place_of p + pending_places (filter (\<lambda>e. fst e \<noteq> i) es)"
    by (simp_all add: pending_places_def)
qed

lemma unsent_removed:
  assumes "g \<in> set gs" "distinct (map rg_call gs)"
  shows "mset (map rg_call gs) = add_mset (rg_call g) (mset (map rg_call (filter (\<lambda>h. rg_call h \<noteq> rg_call g) gs)))"
    and "unsent_places gs = of_bool (rg_place g) + unsent_places (filter (\<lambda>h. rg_call h \<noteq> rg_call g) gs)"
  using sum_removed [OF removed_key [OF assms(2,1)]] by (simp_all add: unsent_places_def)

lemma ledger_distinct:
  assumes "distinct (ledger r)"
  shows "distinct (map rg_call (rc_unsent r))" "distinct (map fst (rc_pending r))"
  using assms by (simp_all add: ledger_def)

subsection \<open>Totals\<close>

text \<open>What a step that issues no call leaves alone; \<open>n\<close> is the number of bytes in the reader's hand it puts back.\<close>

definition steady_by :: "nat \<Rightarrow> rpc \<Rightarrow> rpc \<Rightarrow> bool" where
  "steady_by n r r' \<longleftrightarrow>
     rc_options r' = rc_options r \<and> rc_wire r' = rc_wire r \<and> rc_issued r' = rc_issued r \<and> rc_next r' = rc_next r \<and>
     mset (ledger r') = mset (ledger r) \<and> places_total r' = places_total r \<and> bytes_total r' = bytes_total r + n"

abbreviation steady :: "rpc \<Rightarrow> rpc \<Rightarrow> bool" where
  "steady \<equiv> steady_by 0"

lemma steady_refl [simp]: "steady r r"
  by (simp add: steady_by_def)

lemma steady_trans: "steady_by m r r1 \<Longrightarrow> steady_by n r1 r2 \<Longrightarrow> steady_by (m + n) r r2"
  by (simp add: steady_by_def)

lemma steady_distinct: "steady_by n r r' \<Longrightarrow> distinct (ledger r') \<longleftrightarrow> distinct (ledger r)"
  using mset_eq_imp_distinct_iff by (auto simp: steady_by_def)

lemmas total_defs = steady_by_def ledger_def places_total_def bytes_total_def works_def

lemma drop_pending_steady:
  assumes "distinct (ledger r)"
  shows "steady r (drop_pending i r)"
proof (cases "map_of (rc_pending r) i")
  case (Some p)
  note removed = pending_removed [OF Some ledger_distinct(2) [OF assms]]
  show ?thesis using Some removed by (simp add: total_defs drop_pending_def remove_pending_def)
qed (simp add: drop_pending_def)

lemma fail_unwritten_steady:
  assumes "distinct (ledger r)"
  shows "steady r (fail_unwritten i r)"
proof (cases "map_of (rc_pending r) i")
  case (Some p)
  note removed = pending_removed [OF Some ledger_distinct(2) [OF assms]]
  show ?thesis using Some removed by (simp add: total_defs fail_unwritten_def remove_pending_def send_answer_def)
qed (simp add: fail_unwritten_def)

lemma split_filter: "mset xs = mset (filter P xs) + mset (filter (\<lambda>x. \<not> P x) xs)"
  by (induction xs) simp_all

lemma pending_split:
  "mset (map fst es) = mset (map fst (filter P es)) + mset (map fst (filter (\<lambda>e. \<not> P e) es))"
  "pending_places es = pending_places (filter P es) + pending_places (filter (\<lambda>e. \<not> P e) es)"
  by (induction es) simp_all

lemma map_failed [simp]: "map (fst \<circ> (\<lambda>(i, _). (i, Inl f))) es = map fst es"
  by (induction es) auto

lemma fail_pending_steady: "steady r (fail_pending f r)"
  by (simp add: total_defs fail_pending_def fail_entries_def pending_places_def)

lemma fail_unordered_steady: "steady r (fail_unordered f r)"
  using pending_split [of "rc_pending r" "\<lambda>(_, p). pa_delivery p = Immediate"]
  by (simp add: total_defs fail_unordered_def fail_entries_def pending_places_def comp_def split_def)

lemma counted_pending_steady: "steady r (fst (counted_pending r))"
  using pending_split [of "rc_pending r" "is_live r"]
  by (simp add: total_defs counted_pending_def pending_places_def Let_def)

lemma take_claim_shape: obtains c took where "take_claim i r = (r\<lparr>rc_claims := c\<rparr>, took)"
proof (cases "rc_claims r i")
  case None
  then show thesis using that [of "rc_claims r" False] by (simp add: take_claim_def)
qed (use that in \<open>simp add: take_claim_def\<close>)

lemma given_up_shape: obtains c late where "given_up i r = (r\<lparr>rc_claims := c\<rparr>, late)"
  by (rule take_claim_shape [of i r]) (auto simp: given_up_def)

lemma ended_with_shape: obtains f where "ended_with e body r = (r\<lparr>rc_ended := Some f\<rparr>, f)"
  by (cases "rc_ended r") (auto simp: ended_with_def Let_def)

lemma drop_work_totals:
  "rc_options (drop_work w r) = rc_options r" "rc_wire (drop_work w r) = rc_wire r"
  "rc_issued (drop_work w r) = rc_issued r" "rc_next (drop_work w r) = rc_next r"
  "mset (ledger (drop_work w r)) = mset (ledger r) + mset (work_calls w)"
  "places_total (drop_work w r) = places_total r + work_places w"
  "bytes_total (drop_work w r) = bytes_total r + work_bytes w"
  by (cases w; simp add: total_defs send_answer_def)+

lemma try_send_cases:
  obtains "try_send w r = Sent (r\<lparr>rc_queue := rc_queue r @ [w], rc_read := rc_read r @ [w]\<rparr>)" "rc_worker r"
      "length (rc_queue r) < queue_capacity r"
  | "try_send w r = QueueClosed" "\<not> rc_worker r"
  | "try_send w r = QueueFull" "rc_worker r" "queue_capacity r \<le> length (rc_queue r)"
  by (cases "rc_worker r"; cases "length (rc_queue r) < queue_capacity r") (auto simp: try_send_def)

text \<open>The state once a call's entry is taken out and its claim asked for.\<close>

lemma deliver_cases:
  obtains "map_of (rc_pending r) i = None" "deliver i a r = (r, None)"
  | p c where "map_of (rc_pending r) i = Some p"
      "deliver i a r =
         ((remove_pending i r)\<lparr>rc_claims := c, rc_places := rc_places r + place_of p, rc_dropped := rc_dropped r @ [i]\<rparr>, None)"
  | p c where "map_of (rc_pending r) i = Some p" "pa_delivery p = Immediate"
      "deliver i a r = (send_answer i a ((remove_pending i r)\<lparr>rc_claims := c\<rparr>), None)"
  | p c where "map_of (rc_pending r) i = Some p" "pa_delivery p = Ordered"
      "rc_worker r" "length (rc_queue r) < queue_capacity r"
      "deliver i a r =
         ((remove_pending i r)\<lparr>rc_claims := c, rc_queued_answers := wrap_add (rc_queued_answers r) 1,
             rc_queue := rc_queue r @ [QResponse i a], rc_read := rc_read r @ [QResponse i a]\<rparr>, None)"
  | p c where "map_of (rc_pending r) i = Some p" "pa_delivery p = Ordered" "\<not> rc_worker r"
      "deliver i a r =
         (drop_work (QResponse i a)
            ((remove_pending i r)\<lparr>rc_claims := c, rc_queued_answers := wrap_add (rc_queued_answers r) 1\<rparr>), None)"
  | p c f t where "map_of (rc_pending r) i = Some p" "pa_delivery p = Ordered"
      "rc_worker r" "queue_capacity r \<le> length (rc_queue r)"
      "deliver i a r =
         (drop_work (QResponse i a)
            ((remove_pending i r)\<lparr>rc_claims := c, rc_queued_answers := wrap_add (rc_queued_answers r) 1, rc_ended := Some f\<rparr>),
          Some t)"
proof (cases "map_of (rc_pending r) i")
  case None
  then show thesis using that(1) by (simp add: deliver_def)
next
  case (Some p)
  obtain c late where claim: "given_up i (remove_pending i r) = ((remove_pending i r)\<lparr>rc_claims := c\<rparr>, late)"
    by (rule given_up_shape)
  let ?r = "(remove_pending i r)\<lparr>rc_claims := c, rc_queued_answers := wrap_add (rc_queued_answers r) 1\<rparr>"
  show thesis
  proof (cases late)
    case True
    then show thesis using that(2) Some claim by (simp add: deliver_def remove_pending_def)
  next
    case on_time: False
    show thesis
    proof (cases "pa_delivery p")
      case Immediate
      then show thesis using that(3) Some claim on_time by (simp add: deliver_def)
    next
      case Ordered
      show thesis
      proof (cases rule: try_send_cases [of "QResponse i a" ?r])
        case 1
        then show thesis
          using that(4) Some claim on_time Ordered
          by (simp add: deliver_def remove_pending_def queue_capacity_def Let_def)
      next
        case 2
        then show thesis
          using that(5) Some claim on_time Ordered by (simp add: deliver_def remove_pending_def Let_def)
      next
        case 3
        then show thesis
          using that(6) Some claim on_time Ordered
          by (rule_tac ended_with_shape [of "PeerEnd (queue_full ?r)" "overflow_failure ?r" ?r])
            (simp add: deliver_def remove_pending_def queue_capacity_def Let_def)
      qed
    qed
  qed
qed

lemma deliver_steady:
  assumes "distinct (ledger r)"
  shows "steady r (fst (deliver i a r))"
proof (cases rule: deliver_cases [of r i a])
  case (2 p c)
  with pending_removed [OF 2(1) ledger_distinct(2) [OF assms]] show ?thesis
    by (simp add: total_defs remove_pending_def)
next
  case (3 p c)
  with pending_removed [OF 3(1) ledger_distinct(2) [OF assms]] show ?thesis
    by (simp add: total_defs remove_pending_def send_answer_def place_of_def)
next
  case (4 p c)
  with pending_removed [OF 4(1) ledger_distinct(2) [OF assms]] show ?thesis
    by (simp add: total_defs remove_pending_def place_of_def split: option.split)
next
  case (5 p c)
  with pending_removed [OF 5(1) ledger_distinct(2) [OF assms]] show ?thesis
    by (simp add: total_defs remove_pending_def send_answer_def place_of_def)
next
  case (6 p c f t)
  with pending_removed [OF 6(1) ledger_distinct(2) [OF assms]] show ?thesis
    by (simp add: total_defs remove_pending_def send_answer_def place_of_def)
qed simp

lemma unsent_filtered:
  "mset (map rg_call gs) = mset (map rg_call (filter P gs)) + mset (map rg_call (filter (\<lambda>g. \<not> P g) gs))"
  "unsent_places gs = unsent_places (filter P gs) + unsent_places (filter (\<lambda>g. \<not> P g) gs)"
  by (induction gs) simp_all

lemma unsent_places_filter: "unsent_places (filter P gs) = length (filter (\<lambda>g. P g \<and> rg_place g) gs)"
  by (induction gs) simp_all

lemma skip_registration_steady: "steady r (skip_registration i r)"
  using unsent_filtered [of "rc_unsent r" "\<lambda>g. rg_call g = i"]
  by (simp add: total_defs skip_registration_def unsent_places_filter)

lemma take_place_unsent:
  "map rg_call (map (\<lambda>g. if rg_call g = i then g\<lparr>rg_place := False\<rparr> else g) gs) = map rg_call gs"
  "unsent_places gs = unsent_places (map (\<lambda>g. if rg_call g = i then g\<lparr>rg_place := False\<rparr> else g) gs) +
     length (filter (\<lambda>g. rg_call g = i \<and> rg_place g) gs)"
  by (induction gs) simp_all

lemma take_place_steady: "steady r (take_place i r)"
  using take_place_unsent(1) [of i "rc_unsent r"] take_place_unsent(2) [of "rc_unsent r" i] by (simp add: total_defs take_place_def del: map_map)

lemma counted_pending_shape:
  obtains es n k d where "counted_pending r =
    (r\<lparr>rc_pending := es, rc_places := k, rc_dropped := d\<rparr>, n)"
  by (simp add: counted_pending_def Let_def)

lemma ordered_place_cases:
  obtains e where "rc_places r = 0" "ordered_place r = Err e"
  | "0 < rc_places r" "ordered_place r = Ok (r\<lparr>rc_places := rc_places r - 1\<rparr>)"
  by (cases "rc_places r") (auto simp: ordered_place_def)

lemma register_steady:
  assumes "g \<in> set (rc_unsent r)" "distinct (ledger r)"
  shows "steady r (fst (register_call g r))"
proof -
  note removed = unsent_removed [OF assms(1) ledger_distinct(1) [OF assms(2)]]
  let ?r1 = "r\<lparr>rc_unsent := filter (\<lambda>h. rg_call h \<noteq> rg_call g) (rc_unsent r)\<rparr>"
  obtain es n k d where counted: "counted_pending ?r1 = (?r1\<lparr>rc_pending := es, rc_places := k, rc_dropped := d\<rparr>, n)"
    by (rule counted_pending_shape)
  have "steady ?r1 (?r1\<lparr>rc_pending := es, rc_places := k, rc_dropped := d\<rparr>)"
    using counted_pending_steady [of ?r1] counted by simp
  then show ?thesis
    using removed counted
    by (auto simp: register_call_def Let_def total_defs send_answer_def split: prod.splits)
qed

text \<open>An issued call joins the ledger, and nothing else changes.\<close>

definition issues :: "rpc \<Rightarrow> rpc \<Rightarrow> bool" where
  "issues r r' \<longleftrightarrow>
     rc_options r' = rc_options r \<and> rc_wire r' = rc_wire r \<and> rc_next r' = rc_next r + 1 \<and>
     places_total r' = places_total r \<and> bytes_total r' = bytes_total r \<and>
     (rc_issued r' = rc_issued r \<and> mset (ledger r') = mset (ledger r) \<or>
      rc_issued r' = rc_issued r @ [dec (rc_next r)] \<and> mset (ledger r') = add_mset (dec (rc_next r)) (mset (ledger r)))"

lemma queue_request_cases:
  obtains "fst (queue_request ordered counted own built admitted r) = r"
  | "fst (queue_request ordered counted own built admitted r) = r\<lparr>rc_next := rc_next r + 1\<rparr>"
  | c where "ordered \<Longrightarrow> 0 < rc_places r"
      "fst (queue_request ordered counted own built admitted r) =
         r\<lparr>rc_next := rc_next r + 1, rc_places := rc_places r - of_bool ordered,
           rc_unsent := rc_unsent r @ [\<lparr>rg_call = dec (rc_next r), rg_place = ordered, rg_counted = counted\<rparr>],
           rc_claims := c, rc_issued := rc_issued r @ [dec (rc_next r)]\<rparr>"
proof (cases "rc_sealed r \<or> ordered \<and> own")
  case True
  then have "fst (queue_request ordered counted own built admitted r) = r" by (auto simp: queue_request_def)
  then show thesis by (rule that(1))
next
  case asked: False
  note outs = that
  have refused: thesis if "fst (queue_request ordered counted own built admitted r) = fst (next_call r)"
    using that by (intro outs(2)) (simp add: next_call_def)
  show thesis
  proof (cases built)
    case (Inl e)
    then show thesis using asked by (intro refused) (simp add: queue_request_def next_call_def)
  next
    case built: (Inr _)
    define r2 where "r2 = r\<lparr>rc_next := rc_next r + 1, rc_places := rc_places r - of_bool ordered\<rparr>"
    have place: "ordered \<and> rc_places r = 0 \<or>
        (if ordered then ordered_place (fst (next_call r)) else Ok (fst (next_call r))) = Ok r2"
      by (cases ordered) (simp_all add: ordered_place_def next_call_def r2_def)
    show thesis
    proof (cases "ordered \<and> rc_places r = 0")
      case True
      then show thesis
        using asked built by (intro refused) (simp add: queue_request_def next_call_def ordered_place_def)
    next
      case False
      then have r2: "(if ordered then ordered_place (fst (next_call r)) else Ok (fst (next_call r))) = Ok r2"
          "ordered \<Longrightarrow> 0 < rc_places r"
        using place by auto
      show thesis
      proof (cases admitted)
        case (Inl e)
        then show thesis
          using asked built r2(1) by (intro refused) (auto simp: queue_request_def next_call_def)
      next
        case (Inr _)
        then have "fst (queue_request ordered counted own built admitted r) =
            r2\<lparr>rc_unsent := rc_unsent r2 @ [\<lparr>rg_call = dec (rc_next r), rg_place = ordered, rg_counted = counted\<rparr>],
               rc_claims := (rc_claims r2)(dec (rc_next r) := call_claim r2), rc_issued := rc_issued r2 @ [dec (rc_next r)]\<rparr>"
          using asked built r2(1) by (auto simp: queue_request_def next_call_def)
        then show thesis by (intro outs(3) [OF r2(2)]) (simp_all add: r2_def)
      qed
    qed
  qed
qed

lemma queue_request_totals:
  "steady r (fst (queue_request ordered counted own built admitted r)) \<or>
   issues r (fst (queue_request ordered counted own built admitted r))"
proof (cases rule: queue_request_cases [of ordered counted own built admitted r])
  case (3 c)
  then show ?thesis by (cases ordered) (simp_all add: issues_def total_defs)
qed (simp_all add: issues_def total_defs)

lemma call_enter_totals:
  assumes "call_enter ordered counted r = (r', x)"
  shows "issues r r'"
proof -
  let ?r0 = "r\<lparr>rc_next := rc_next r + 1\<rparr>"
  obtain es n k d where entered: "counted_pending ?r0 = (?r0\<lparr>rc_pending := es, rc_places := k, rc_dropped := d\<rparr>, n)"
    by (rule counted_pending_shape)
  have steady: "steady ?r0 (?r0\<lparr>rc_pending := es, rc_places := k, rc_dropped := d\<rparr>)"
    using counted_pending_steady [of ?r0] entered by simp
  show ?thesis
  proof (cases rule: ordered_place_cases [of "?r0\<lparr>rc_pending := es, rc_places := k, rc_dropped := d\<rparr>"])
    case 1
    then show ?thesis
      using assms entered steady
      by (auto simp: call_enter_def next_call_def issues_def total_defs Let_def split: if_splits)
  next
    case 2
    then show ?thesis
      using assms entered steady
      by (auto simp: call_enter_def next_call_def issues_def total_defs Let_def split: if_splits)
  qed
qed

lemma answer_requests_steady:
  "steady r (answer_invalid_request i r)" "steady r (answer_unparseable r)"
  by (simp_all add: answer_invalid_request_def answer_unparseable_def total_defs split: option.split prod.split)

lemma give_back_steady: "steady_by (case held of Some n \<Rightarrow> n | None \<Rightarrow> 0) r (give_back held r)"
  by (simp add: give_back_def total_defs)

lemma take_peer_bytes_cases:
  obtains t where "take_peer_bytes n r = Inl t"
  | "n \<le> rc_bytes r" "take_peer_bytes n r = Inr (r\<lparr>rc_bytes := rc_bytes r - n\<rparr>)"
  by (cases "2 ^ 32 \<le> n \<or> rc_bytes r < n") (auto simp: take_peer_bytes_def)

lemma queue_peer_work_steady: "steady_by n r (fst (queue_peer_work w n r))"
  by (cases rule: try_send_cases [of "QPeer w n" r])
    (simp_all add: queue_peer_work_def total_defs split: option.split)

fun peer_bytes_of :: "peer_bytes \<Rightarrow> nat" where
  "peer_bytes_of (LineBytes _) = 0"
| "peer_bytes_of (ShareBytes n) = n"

lemma bytes_moved:
  "n \<le> rc_bytes r \<Longrightarrow> steady_by n (r\<lparr>rc_bytes := rc_bytes r - n\<rparr>) r' \<Longrightarrow> steady r r'"
  "steady_by n r (r\<lparr>rc_bytes := rc_bytes r + n\<rparr>)"
  by (simp_all add: total_defs)

lemma dispatch_frame_cases:
  obtains (work) w n where "frame_work fr = Some w" "bytes = ShareBytes n"
      "dispatch_frame read_error fr bytes r = queue_peer_work w n r"
  | (refused) w n t where "frame_work fr = Some w" "bytes = LineBytes n" "dispatch_frame read_error fr bytes r = (r, Some t)"
  | (admitted) w n where "frame_work fr = Some w" "bytes = LineBytes n" "n \<le> rc_bytes r"
      "peer_work_queued r < notification_capacity (rc_options r)"
      "dispatch_frame read_error fr bytes r = queue_peer_work w n (r\<lparr>rc_bytes := rc_bytes r - n\<rparr>)"
  | (response) i where "frame_work fr = None" "map_of fr (lit ''id'') = Some i"
      "dispatch_frame read_error fr bytes r = deliver (request_key i) (response_outcome read_error fr) (return_share bytes r)"
  | (idle) "frame_work fr = None" "dispatch_frame read_error fr bytes r = (return_share bytes r, None)"
proof (cases "frame_work fr")
  case None
  show thesis
  proof (cases "map_of fr (lit ''id'')")
    case no_id: None
    have "dispatch_frame read_error fr bytes r = (return_share bytes r, None)"
      unfolding dispatch_frame_def None no_id by simp

    then show thesis by (rule idle [OF None])
  next
    case (Some i)
    have "dispatch_frame read_error fr bytes r = deliver (request_key i) (response_outcome read_error fr) (return_share bytes r)"
      unfolding dispatch_frame_def None Some by simp
    then show thesis by (rule response [OF None Some])
  qed
next
  case (Some w)
  show thesis
  proof (cases bytes)
    case (ShareBytes n)
    then show thesis using Some work by (simp add: dispatch_frame_def)
  next
    case (LineBytes n)
    show thesis
    proof (cases rule: take_peer_bytes_cases [of n r])
      case (1 t)
      then show thesis using refused [OF Some LineBytes] Some LineBytes by (simp add: dispatch_frame_def)
    next
      case 2
      show thesis
      proof (cases "notification_capacity (rc_options r) \<le> peer_work_queued r")
        case True
        have "r\<lparr>rc_bytes := rc_bytes r - n + n\<rparr> = r" using 2(1) by simp
        then show thesis
          using refused [OF Some LineBytes] Some LineBytes 2 True by (simp add: dispatch_frame_def peer_work_queued_def)
      next
        case False
        then show thesis
          using admitted [OF Some LineBytes 2(1)] Some LineBytes 2 by (simp add: dispatch_frame_def peer_work_queued_def)
      qed
    qed
  qed
qed

lemma return_share_steady: "steady_by (peer_bytes_of bytes) r (return_share bytes r)"
  by (cases bytes) (simp_all add: return_share_def bytes_moved)

lemma dispatch_frame_steady:
  assumes "distinct (ledger r)"
  shows "steady_by (peer_bytes_of bytes) r (fst (dispatch_frame read_error fr bytes r))"
proof (cases rule: dispatch_frame_cases [of fr bytes read_error r])
  case (work w n)
  then show ?thesis using queue_peer_work_steady by simp
next
  case (admitted w n)
  then show ?thesis using bytes_moved(1) [OF admitted(3) queue_peer_work_steady] by simp
next
  case (response i)
  have "distinct (ledger (return_share bytes r))" using steady_distinct [OF return_share_steady] assms by simp
  from steady_trans [OF return_share_steady deliver_steady [OF this]] show ?thesis
    using response by simp
next
  case idle
  then show ?thesis using return_share_steady by simp
qed simp

definition held_bytes :: "usize option \<Rightarrow> nat" where
  "held_bytes held = (case held of Some n \<Rightarrow> n | None \<Rightarrow> 0)"

lemma split_share_sum: "split_share share work held = (mine, held') \<Longrightarrow> held_bytes held = held_bytes mine + held_bytes held'"
  by (auto simp: split_share_def held_bytes_def split: if_splits option.splits)

lemma answer_member_steady: "answer_member i owed r = (owed', r') \<Longrightarrow> steady r r'"
  by (auto simp: answer_member_def answer_requests_steady split: if_splits)

lemma batch_loop_steady:
  "distinct (ledger r) \<Longrightarrow> steady_by (held_bytes held) r (fst (batch_loop read_error share ms owed work held r))"
proof (induction ms arbitrary: owed work held r)
  case (Cons m ms)
  have skip: "steady_by (held_bytes held) r
      (fst (let (owed', r') = answer_member i owed r in batch_loop read_error share ms owed' work held r'))" for i
  proof -
    obtain owed' r' where member: "answer_member i owed r = (owed', r')" by fastforce
    note steady = answer_member_steady [OF this]
    have "distinct (ledger r')" using steady_distinct [OF steady] Cons.prems by simp
    from steady_trans [OF steady Cons.IH [OF this]] show ?thesis by (simp add: member)
  qed
  show ?case
  proof (cases "\<exists>fr. m = JObject fr \<and> answerable_request r fr = None")
    case False
    then show ?thesis using skip by (cases m) auto
  next
    case True
    then obtain fr where fr: "m = JObject fr" "answerable_request r fr = None" by auto
    define work' where "work' = (if frame_work fr \<noteq> None then work - 1 else work)"
    obtain mine held' where shared:
      "(if frame_work fr \<noteq> None then split_share share work' held else (None, held)) = (mine, held')" by fastforce
    then have sum: "held_bytes held = held_bytes mine + held_bytes held'"
      using split_share_sum [of share work' held mine held'] by (auto simp: held_bytes_def split: if_splits)
    define bytes where "bytes = (case mine of Some n \<Rightarrow> ShareBytes n | None \<Rightarrow> LineBytes 0)"
    obtain r' t where one: "dispatch_frame read_error fr bytes r = (r', t)" by fastforce
    have first: "steady_by (held_bytes mine) r r'"
      using dispatch_frame_steady [OF Cons.prems, of bytes read_error fr] one
      by (simp add: bytes_def held_bytes_def split: option.splits)
    then have "distinct (ledger r')" using steady_distinct Cons.prems by blast
    then have "steady_by (held_bytes held') r'
        (fst (case t of Some t \<Rightarrow> (give_back held' r', Some t) | None \<Rightarrow> batch_loop read_error share ms owed work' held' r'))"
      using give_back_steady [of held' r'] Cons.IH [of r' held' owed work']
      by (cases t) (simp_all add: held_bytes_def)
    moreover have "batch_loop read_error share (m # ms) owed work held r =
        (case t of Some t \<Rightarrow> (give_back held' r', Some t) | None \<Rightarrow> batch_loop read_error share ms owed work' held' r')"
      unfolding fr batch_loop.simps(2) Let_def option.case work'_def [symmetric] shared prod.case
        bytes_def [symmetric] one ..
    ultimately show ?thesis using steady_trans [OF first] sum by simp
  qed
qed (use give_back_steady in \<open>simp add: held_bytes_def\<close>)

lemma dispatch_batch_steady:
  assumes "distinct (ledger r)"
  shows "steady r (fst (dispatch_batch read_error ms bytes r))"
proof (cases rule: take_peer_bytes_cases [of bytes r])
  case (1 t)
  then show ?thesis
    using batch_loop_steady [OF assms, of None] answer_requests_steady
    by (simp add: dispatch_batch_def held_bytes_def Let_def)
next
  case 2
  let ?r = "r\<lparr>rc_bytes := rc_bytes r - bytes\<rparr>"
  have "distinct (ledger ?r)" using assms by (simp add: ledger_def works_def)
  from bytes_moved(1) [OF 2(1)] batch_loop_steady [OF this, of "Some bytes"]
  have "steady r (fst (batch_loop read_error share ms owed work (Some bytes) ?r))" for share owed work
    by (simp add: held_bytes_def)
  then show ?thesis
    using 2 batch_loop_steady [OF assms, of None] answer_requests_steady
    by (simp add: dispatch_batch_def held_bytes_def Let_def)
qed

lemma dispatch_steady:
  assumes "distinct (ledger r)"
  shows "steady r (fst (dispatch_message read_error parse message r))"
  using dispatch_frame_steady [OF assms, of "LineBytes n" for n] dispatch_batch_steady [OF assms] answer_requests_steady
  by (simp add: dispatch_message_def split: option.split json.split)

lemma worker_take_shape:
  "worker_take r = Some r' \<Longrightarrow>
   \<exists>w ws. rc_worker r \<and> rc_taken r = None \<and> rc_queue r = w # ws \<and> r' = r\<lparr>rc_taken := Some w, rc_queue := ws\<rparr>"
  by (auto simp: worker_take_def split: option.splits list.splits if_splits)

lemma worker_take_steady: "worker_take r = Some r' \<Longrightarrow> steady r r'"
  by (auto simp: total_defs dest!: worker_take_shape)

lemma worker_let_go_steady: "worker_let_go kept r = Some r' \<Longrightarrow> steady r r'"
  by (auto simp: worker_let_go_def total_defs send_answer_def Let_def
    split: option.splits queued_work.splits peer_work.splits if_splits)

lemma release_bytes_steady: "steady r (release_bytes n r)"
  by (simp add: release_bytes_def total_defs sum_list_map_remove1 [of _ _ "\<lambda>x. x", simplified])

lemma fold_drop_work_totals:
  "rc_options (fold drop_work ws r) = rc_options r \<and> rc_wire (fold drop_work ws r) = rc_wire r \<and>
   rc_issued (fold drop_work ws r) = rc_issued r \<and> rc_next (fold drop_work ws r) = rc_next r \<and>
   mset (ledger (fold drop_work ws r)) = mset (ledger r) + mset (concat (map work_calls ws)) \<and>
   places_total (fold drop_work ws r) = places_total r + answered_places ws \<and>
   bytes_total (fold drop_work ws r) = bytes_total r + sum_list (map work_bytes ws)"
  by (induction ws arbitrary: r) (simp_all add: drop_work_totals)

lemma worker_stop_steady: "steady r (worker_stop r)"
  using fold_drop_work_totals [of "works r" "r\<lparr>rc_taken := None, rc_queue := [], rc_worker := False\<rparr>"]
  by (simp add: worker_stop_def steady_by_def) (simp add: total_defs)

lemma claim_steps_steady: "steady r (give_up i began r)" "steady r (fst (take_claim i r))" "steady r (fst (ended_with e body r))"
  by (simp_all add: give_up_def take_claim_def cancel_abandoned_def ended_with_def total_defs Let_def
    split: option.split)

lemma step_totals:
  assumes "rpc_step r r'" "distinct (ledger r)"
  shows "steady r r' \<or> issues r r'"
  using assms
proof cases
  case (queue ordered counted own built admitted x)
  then show ?thesis using queue_request_totals [of r ordered counted own built admitted] by simp
next
  case (register g x)
  then show ?thesis using register_steady [OF register(1) assms(2)] by simp
next
  case (read read_error parse message t)
  then show ?thesis using dispatch_steady [OF assms(2), of read_error parse message] by simp
qed (simp_all add: call_enter_totals skip_registration_steady take_place_steady worker_take_steady worker_let_go_steady
  release_bytes_steady worker_stop_steady claim_steps_steady drop_pending_steady fail_unwritten_steady
  fail_pending_steady fail_unordered_steady, simp_all add: total_defs)

end
