(* ===== verification/Rpc_Queue.thy ===== *)
theory Rpc_Queue imports Rpc_Calls begin

text \<open>
  The reachable states of the JSON-RPC client: the queue its reader and its worker share, the claims
  that decide between a response and a cancel, and the properties of the correlation of calls.
\<close>

subsection \<open>The queue between the reader and the worker\<close>

definition peers :: "queued_work list \<Rightarrow> nat" where
  "peers ws = length (filter (\<lambda>w. work_places w = 0) ws)"

lemma peers_simps [simp]: "peers [] = 0" "peers (w # ws) = of_bool (work_places w = 0) + peers ws"
    "peers (ws @ vs) = peers ws + peers vs"
  by (simp_all add: peers_def)

lemma length_queue: "length ws = peers ws + answered_places ws"
proof (induction ws)
  case (Cons w ws)
  then show ?case by (cases w) simp_all
qed simp

definition queue_ok_by :: "nat \<Rightarrow> rpc \<Rightarrow> bool" where
  "queue_ok_by k r \<longleftrightarrow>
     rc_queued_answers r = answered_places (works r) \<and> (rc_worker r \<or> works r = []) \<and>
     (rc_worker r \<longrightarrow> rc_read r = rc_handled r @ works r) \<and>
     peers (rc_queue r) + k \<le> notification_capacity (rc_options r) + 1"

abbreviation queue_ok :: "rpc \<Rightarrow> bool" where
  "queue_ok \<equiv> queue_ok_by 0"

definition queue_fields where
  "queue_fields r =
     (rc_options r, rc_queue r, rc_taken r, rc_worker r, rc_queued_answers r, rc_read r, rc_handled r)"

lemma queue_ok_cong: "queue_fields r' = queue_fields r \<Longrightarrow> queue_ok_by k r' \<longleftrightarrow> queue_ok_by k r"
  by (simp add: queue_fields_def queue_ok_by_def works_def)

lemma queue_ok_mono: "queue_ok_by k r \<Longrightarrow> j \<le> k \<Longrightarrow> queue_ok_by j r"
  by (simp add: queue_ok_by_def)

definition roomy :: "rpc \<Rightarrow> bool" where
  "roomy r \<longleftrightarrow> places_total r < usize_MAX"

lemma roomy_steady: "steady_by n r r' \<Longrightarrow> roomy r \<Longrightarrow> roomy r'"
  by (simp add: steady_by_def roomy_def)

lemma roomy_answers: "roomy r \<Longrightarrow> answered_places (works r) < usize_MAX"
  by (simp add: roomy_def places_total_def)

lemma wrap_answers: "n < usize_MAX \<Longrightarrow> wrap_add n 1 = Suc n" "n < usize_MAX \<Longrightarrow> wrap_sub (Suc n) 1 = n"
  by (simp_all add: wrap_add_exact wrap_sub_exact)

lemma deliver_queue:
  assumes "queue_ok_by k r" "roomy r"
  shows "queue_ok_by k (fst (deliver i a r))"
proof -
  note wrap = wrap_answers [OF roomy_answers [OF assms(2)]]
  show ?thesis
  proof (cases rule: deliver_cases [of r i a])
    case 1
    then show ?thesis using assms(1) by simp
  next
    case (2 p c)
    then show ?thesis using assms(1) by (simp add: queue_ok_by_def works_def remove_pending_def)
  next
    case (3 p c)
    then show ?thesis using assms(1) by (simp add: queue_ok_by_def works_def remove_pending_def send_answer_def)
  next
    case (4 p c)
    then show ?thesis
      using assms(1) wrap by (simp add: queue_ok_by_def works_def remove_pending_def split: option.splits)
  next
    case (5 p c)
    then show ?thesis
      using assms(1) wrap by (simp add: queue_ok_by_def works_def remove_pending_def send_answer_def)
  next
    case (6 p c f t)
    then show ?thesis
      using assms(1) wrap by (simp add: queue_ok_by_def works_def remove_pending_def send_answer_def)
  qed
qed

lemma queue_peer_work_queue:
  assumes "queue_ok_by (Suc k) r"
  shows "queue_ok_by k (fst (queue_peer_work w n r))"
  using assms
  by (cases rule: try_send_cases [of "QPeer w n" r])
    (auto simp: queue_peer_work_def queue_ok_by_def works_def split: option.splits)

text \<open>Admission against the peer's share leaves room for one more, even while the worker holds an answer.\<close>

lemma admitted_room:
  assumes "queue_ok_by k r" "peer_work_queued r < notification_capacity (rc_options r)"
  shows "queue_ok_by 1 r"
proof -
  have "rc_queued_answers r \<le> answered_places (rc_queue r) + 1"
    using assms(1) by (cases "rc_taken r"; cases "the (rc_taken r)") (auto simp: queue_ok_by_def works_def)
  then have "peers (rc_queue r) \<le> notification_capacity (rc_options r)"
    using assms(2) length_queue [of "rc_queue r"] by (simp add: peer_work_queued_def peer_share_def)
  then show ?thesis using assms(1) by (simp add: queue_ok_by_def)
qed

lemma dispatch_frame_queue:
  assumes "queue_ok_by k r" "roomy r" "frame_work fr \<noteq> None \<Longrightarrow> 0 < k \<or> (\<exists>n. bytes = LineBytes n)"
  shows "queue_ok_by (if frame_work fr = None then k else k - 1) (fst (dispatch_frame read_error fr bytes r))"
proof (cases rule: dispatch_frame_cases [of fr bytes read_error r])
  case (work w n)
  then obtain j where "k = Suc j" using assms(3) by (cases k) auto
  then show ?thesis using work queue_peer_work_queue assms(1) by simp
next
  case (refused w n t)
  then show ?thesis using queue_ok_mono [OF assms(1), of "k - 1"] by simp
next
  case (admitted w n)
  let ?r = "r\<lparr>rc_bytes := rc_bytes r - n\<rparr>"
  have "queue_ok_by k ?r" using assms(1) queue_ok_cong [of ?r r k] by (simp add: queue_fields_def)
  moreover from this have "queue_ok_by 1 ?r"
    using admitted_room admitted(4) by (simp add: peer_work_queued_def)
  ultimately have "queue_ok_by (Suc (k - 1)) ?r" by (cases k) simp_all
  then show ?thesis using admitted queue_peer_work_queue by simp
next
  case (response i)
  have "queue_ok_by k (return_share bytes r)"
    using assms(1) queue_ok_cong [of "return_share bytes r" r k]
    by (simp add: queue_fields_def return_share_def split: peer_bytes.split)
  moreover have "roomy (return_share bytes r)" using roomy_steady [OF return_share_steady] assms(2) by blast
  ultimately show ?thesis using response deliver_queue by simp
next
  case idle
  then show ?thesis
    using assms(1) queue_ok_cong [of "return_share bytes r" r k]
    by (simp add: queue_fields_def return_share_def split: peer_bytes.split)
qed

lemma answer_requests_queue: "queue_fields (answer_invalid_request i r) = queue_fields r"
    "queue_fields (answer_unparseable r) = queue_fields r"
  by (simp_all add: answer_invalid_request_def answer_unparseable_def queue_fields_def split: option.split prod.split)

lemma answer_member_shape:
  "answer_member i owed r = (owed', r') \<Longrightarrow> queue_fields r' = queue_fields r \<and> rc_wire r' = rc_wire r"
  using answer_member_steady [of i owed r owed' r']
  by (auto simp: answer_member_def answer_requests_queue steady_by_def split: if_splits)

lemma peer_work_wire: "rc_wire r' = rc_wire r \<Longrightarrow> is_peer_work r' = is_peer_work r"
  by (rule ext) (simp add: is_peer_work_def answerable_request_def split: json.split)

lemma give_back_queue: "queue_fields (give_back held r) = queue_fields r"
  by (simp add: give_back_def queue_fields_def)

lemma batch_loop_queue:
  "queue_ok_by (length (filter (is_peer_work r) ms)) r \<Longrightarrow> roomy r \<Longrightarrow> distinct (ledger r) \<Longrightarrow>
   work = length (filter (is_peer_work r) ms) \<Longrightarrow> queue_ok (fst (batch_loop read_error share ms owed work held r))"
proof (induction ms arbitrary: owed work held r)
  case Nil
  then show ?case using queue_ok_cong [OF give_back_queue] by simp
next
  case (Cons m ms)
  let ?k = "length (filter (is_peer_work r) ms)"
  have skip: "queue_ok (fst (let (owed', r') = answer_member i owed r in batch_loop read_error share ms owed' work held r'))"
    if "\<not> is_peer_work r m" for i
  proof -
    obtain owed' r' where member: "answer_member i owed r = (owed', r')" by fastforce
    note steady = answer_member_steady [OF this] and same = answer_member_shape [OF this]
    have k: "is_peer_work r' = is_peer_work r" using peer_work_wire same by blast
    have "queue_ok_by ?k r'"
      using Cons.prems(1) that queue_ok_cong [of r' r ?k] same by simp
    moreover have "roomy r'" "distinct (ledger r')"
      using roomy_steady [OF steady] steady_distinct [OF steady] Cons.prems by auto
    moreover have "work = length (filter (is_peer_work r') ms)"
      unfolding Cons.prems(4) k using that by (simp only: filter.simps if_False)
    ultimately have "queue_ok (fst (batch_loop read_error share ms owed' work held r'))"
      unfolding k [symmetric] by (rule Cons.IH)
    then show ?thesis by (simp add: member)
  qed
  show ?case
  proof (cases "\<exists>fr. m = JObject fr \<and> answerable_request r fr = None")
    case False
    then show ?thesis using skip by (cases m) (auto simp: is_peer_work_def)
  next
    case True
    then obtain fr where fr: "m = JObject fr" "answerable_request r fr = None" by auto
    define work' where "work' = (if frame_work fr \<noteq> None then work - 1 else work)"
    obtain mine held' where shared:
      "(if frame_work fr \<noteq> None then split_share share work' held else (None, held)) = (mine, held')" by fastforce
    define bytes where "bytes = (case mine of Some n \<Rightarrow> ShareBytes n | None \<Rightarrow> LineBytes 0)"
    obtain r' t where one: "dispatch_frame read_error fr bytes r = (r', t)" by fastforce
    have counted: "is_peer_work r m \<longleftrightarrow> frame_work fr \<noteq> None" using fr by (simp add: is_peer_work_def)
    have first: "steady_by (peer_bytes_of bytes) r r'"
      using dispatch_frame_steady [OF Cons.prems(3), of bytes read_error fr] one by simp
    have k: "is_peer_work r' = is_peer_work r" using first by (intro peer_work_wire) (simp add: steady_by_def)
    define j where "j = (if frame_work fr = None then ?k else Suc ?k)"
    have j: "length (filter (is_peer_work r) (m # ms)) = j" using counted by (simp add: j_def)
    have "queue_ok_by (if frame_work fr = None then j else j - 1) (fst (dispatch_frame read_error fr bytes r))"
      using Cons.prems(1) unfolding j by (rule dispatch_frame_queue [OF _ Cons.prems(2)]) (auto simp: j_def)
    then have next_ok: "queue_ok_by ?k r'" "work' = ?k"
      using Cons.prems(4) unfolding j one by (auto simp: j_def work'_def split: if_splits)
    have room: "roomy r'" "distinct (ledger r')"
      using roomy_steady [OF first] steady_distinct [OF first] Cons.prems by auto
    have rest: "queue_ok (fst (batch_loop read_error share ms owed work' held' r'))"
      using next_ok room by (intro Cons.IH) (simp_all only: k)
    have "queue_ok (fst (case t of Some t \<Rightarrow> (give_back held' r', Some t)
        | None \<Rightarrow> batch_loop read_error share ms owed work' held' r'))"
      using queue_ok_cong [OF give_back_queue] queue_ok_mono [OF next_ok(1)] rest
      by (cases t) simp_all
    moreover have "batch_loop read_error share (m # ms) owed work held r =
        (case t of Some t \<Rightarrow> (give_back held' r', Some t) | None \<Rightarrow> batch_loop read_error share ms owed work' held' r')"
      unfolding fr batch_loop.simps(2) Let_def option.case work'_def [symmetric] shared prod.case
        bytes_def [symmetric] one ..
    ultimately show ?thesis by simp
  qed
qed

lemma batch_room:
  assumes "queue_ok r" "sat_add (peer_work_queued r) work \<le> notification_capacity (rc_options r)"
    "notification_capacity (rc_options r) < usize_MAX"
  shows "queue_ok_by work r"
proof -
  have "rc_queued_answers r \<le> answered_places (rc_queue r) + 1"
    using assms(1) by (cases "rc_taken r"; cases "the (rc_taken r)") (auto simp: queue_ok_by_def works_def)
  moreover have "peer_work_queued r + work \<le> notification_capacity (rc_options r)"
    using sat_add_le_limit [OF assms(2,3)] .
  ultimately have "peers (rc_queue r) + work \<le> notification_capacity (rc_options r) + 1"
    using length_queue [of "rc_queue r"] by (simp add: peer_work_queued_def peer_share_def)
  then show ?thesis using assms(1) by (simp add: queue_ok_by_def)
qed

lemma notification_capacity_less: "notification_capacity o' < usize_MAX"
  by (simp add: notification_capacity_def MAX_PERMITS_def usize_MAX_def)

lemma dispatch_queue:
  assumes "queue_ok r" "roomy r" "distinct (ledger r)"
  shows "queue_ok (fst (dispatch_message read_error parse message r))"
proof -
  have invalid: "queue_ok (answer_invalid_request i r)" "queue_ok (answer_unparseable r)" for i
    using assms(1) queue_ok_cong answer_requests_queue by blast+
  have batch: "queue_ok (fst (dispatch_batch read_error ms bytes r))" for ms bytes
  proof (cases "ms = [] \<or> length (filter (is_peer_work r) ms) = 0")
    case True
    then show ?thesis
      using invalid batch_loop_queue [of r ms, OF _ assms(2,3)] assms(1) by (auto simp: dispatch_batch_def Let_def)
  next
    case some: False
    let ?work = "length (filter (is_peer_work r) ms)"
    show ?thesis
    proof (cases "notification_capacity (rc_options r) < sat_add (peer_work_queued r) ?work")
      case True
      then show ?thesis using some assms(1) by (simp add: dispatch_batch_def Let_def)
    next
      case False
      show ?thesis
      proof (cases rule: take_peer_bytes_cases [of bytes r])
        case (1 t)
        then show ?thesis using some assms(1) False by (simp add: dispatch_batch_def Let_def)
      next
        case 2
        let ?r = "r\<lparr>rc_bytes := rc_bytes r - bytes\<rparr>"
        have same: "is_peer_work ?r = is_peer_work r" by (rule peer_work_wire) simp
        have "queue_ok_by ?work ?r"
          using batch_room [OF assms(1)] False notification_capacity_less queue_ok_cong [of ?r r ?work]
          by (simp add: queue_fields_def not_less)
        moreover have "roomy ?r" "distinct (ledger ?r)"
          using assms(2,3) by (simp_all add: roomy_def places_total_def ledger_def works_def)
        ultimately show ?thesis
          using batch_loop_queue [of ?r ms] some False 2 same by (simp add: dispatch_batch_def Let_def)
      qed
    qed
  qed
  have frame: "queue_ok (fst (dispatch_frame read_error fr (LineBytes n) r))" for fr n
    using dispatch_frame_queue [OF assms(1,2), of fr "LineBytes n" read_error] by (simp split: if_splits)
  show ?thesis
    using assms(1) invalid batch frame by (simp add: dispatch_message_def split: option.split json.split)
qed

lemma worker_take_queue: "queue_ok r \<Longrightarrow> worker_take r = Some r' \<Longrightarrow> queue_ok r'"
  by (auto simp: queue_ok_by_def works_def dest!: worker_take_shape)

lemma worker_let_go_queue:
  assumes "queue_ok r" "roomy r" "worker_let_go kept r = Some r'"
  shows "queue_ok r'"
proof -
  obtain w where w: "rc_taken r = Some w" using assms(3) by (cases "rc_taken r") (auto simp: worker_let_go_def)
  note wrap = wrap_answers [of "answered_places (rc_queue r)"]
  have "answered_places (works r) < usize_MAX" using roomy_answers assms(2) by blast
  then show ?thesis
    using assms(1,3) w wrap
    by (auto simp: worker_let_go_def queue_ok_by_def works_def send_answer_def Let_def
      split: queued_work.splits peer_work.splits if_splits)
qed

lemma fold_drop_work_queue:
  "answered_places ws \<le> rc_queued_answers r \<Longrightarrow> rc_queued_answers r < usize_MAX \<Longrightarrow>
   rc_queued_answers (fold drop_work ws r) = rc_queued_answers r - answered_places ws \<and>
   rc_queue (fold drop_work ws r) = rc_queue r \<and> rc_taken (fold drop_work ws r) = rc_taken r \<and>
   rc_worker (fold drop_work ws r) = rc_worker r"
proof (induction ws arbitrary: r)
  case (Cons w ws)
  then show ?case by (cases w) (auto simp: send_answer_def wrap_sub_exact)
qed simp

lemma worker_stop_queue:
  assumes "queue_ok r" "roomy r"
  shows "queue_ok (worker_stop r)"
proof -
  let ?r = "r\<lparr>rc_taken := None, rc_queue := [], rc_worker := False\<rparr>"
  have "rc_queued_answers r = answered_places (works r)" "answered_places (works r) < usize_MAX"
    using assms roomy_answers by (auto simp: queue_ok_by_def)
  then show ?thesis
    using fold_drop_work_queue [of "works r" ?r] fold_drop_work_totals [of "works r" ?r]
    by (simp add: worker_stop_def queue_ok_by_def) (simp add: works_def)
qed

lemma quiet_ops:
  "queue_fields (fst (queue_request ordered counted own built admitted r)) = queue_fields r"
  "queue_fields (fst (call_enter ordered counted r)) = queue_fields r"
  "queue_fields (fst (register_call g r)) = queue_fields r"
  "queue_fields (skip_registration i r) = queue_fields r"
  "queue_fields (take_place i r) = queue_fields r"
  "queue_fields (release_bytes n r) = queue_fields r"
  "queue_fields (give_up i began r) = queue_fields r"
  "queue_fields (drop_pending i r) = queue_fields r"
  "queue_fields (fst (take_claim i r)) = queue_fields r"
  "queue_fields (fail_unwritten i r) = queue_fields r"
  "queue_fields (fst (ended_with e body r)) = queue_fields r"
  "queue_fields (fail_pending f r) = queue_fields r"
  "queue_fields (fail_unordered f r) = queue_fields r"
  subgoal by (simp add: queue_request_def ordered_place_def next_call_def queue_fields_def Let_def split: option.split sum.split prod.split)
  subgoal by (simp add: call_enter_def counted_pending_def ordered_place_def next_call_def queue_fields_def Let_def split: option.split sum.split prod.split)
  subgoal by (simp add: register_call_def counted_pending_def send_answer_def queue_fields_def Let_def split: option.split sum.split prod.split)
  subgoal by (simp add: skip_registration_def queue_fields_def Let_def split: option.split sum.split prod.split)
  subgoal by (simp add: take_place_def queue_fields_def Let_def split: option.split sum.split prod.split)
  subgoal by (simp add: release_bytes_def queue_fields_def Let_def split: option.split sum.split prod.split)
  subgoal by (simp add: give_up_def take_claim_def cancel_abandoned_def queue_fields_def Let_def split: option.split sum.split prod.split)
  subgoal by (simp add: drop_pending_def remove_pending_def queue_fields_def Let_def split: option.split sum.split prod.split)
  subgoal by (simp add: take_claim_def queue_fields_def Let_def split: option.split sum.split prod.split)
  subgoal by (simp add: fail_unwritten_def remove_pending_def send_answer_def queue_fields_def Let_def split: option.split sum.split prod.split)
  subgoal by (simp add: ended_with_def queue_fields_def Let_def split: option.split sum.split prod.split)
  subgoal by (simp add: fail_pending_def fail_entries_def queue_fields_def Let_def split: option.split sum.split prod.split)
  subgoal by (simp add: fail_unordered_def fail_entries_def queue_fields_def Let_def split: option.split sum.split prod.split)
  done

lemma step_queue:
  assumes "rpc_step r r'" "queue_ok r" "roomy r" "distinct (ledger r)"
  shows "queue_ok r'"
proof -
  have quiet: "queue_ok q" if "queue_fields q = queue_fields r" for q
    using that assms(2) queue_ok_cong by blast
  show ?thesis using assms(1)
  proof cases
    case (queue ordered counted own built admitted x)
    then show ?thesis using quiet quiet_ops(1) [of ordered counted own built admitted r] by simp
  next
    case (enter ordered counted x)
    then show ?thesis using quiet quiet_ops(2) [of ordered counted r] by simp
  next
    case (register g x)
    then show ?thesis using quiet quiet_ops(3) [of g r] by simp
  next
    case (read read_error parse message t)
    then show ?thesis using dispatch_queue [OF assms(2-4), of read_error parse message] by simp
  next
    case take
    then show ?thesis using worker_take_queue assms(2) by blast
  next
    case (let_go kept)
    then show ?thesis using worker_let_go_queue assms(2,3) by blast
  next
    case stop
    then show ?thesis using worker_stop_queue assms(2,3) by blast
  qed (simp_all add: quiet quiet_ops, simp_all add: quiet queue_fields_def)
qed

subsection \<open>Every reachable state\<close>

lemma dec_not_nil: "dec n \<noteq> []" "[] \<noteq> dec n"
  by (cases "n < 10") (simp_all del: dec.simps add: dec.simps [of n])

lemma dec_inject: "dec m = dec n \<Longrightarrow> m = n"
proof (induction m arbitrary: n rule: dec.induct)
  case (1 m)
  show ?case
  proof (cases "m < 10"; cases "n < 10")
    assume "\<not> m < 10" "\<not> n < 10"
    then have "dec (m div 10) = dec (n div 10)" "m mod 10 = n mod 10"
      using "1.prems" by (simp_all add: dec.simps [of m] dec.simps [of n] del: dec.simps)
    then have "m div 10 = n div 10" "m mod 10 = n mod 10" using "1.IH" \<open>\<not> m < 10\<close> by simp_all
    then show ?thesis by (metis div_mult_mod_eq)
  qed (use "1.prems" dec_not_nil in \<open>simp_all add: dec.simps [of m] dec.simps [of n] del: dec.simps\<close>)
qed

definition conserved :: "client_options \<Rightarrow> wire_options \<Rightarrow> rpc \<Rightarrow> bool" where
  "conserved o' w r \<longleftrightarrow>
     rc_options r = o' \<and> rc_wire r = w \<and> mset (ledger r) = mset (rc_issued r) \<and> distinct (rc_issued r) \<and>
     set (rc_issued r) \<subseteq> dec ` {..<rc_next r} \<and>
     places_total r = ordered_capacity o' \<and> bytes_total r = byte_capacity o'"

lemma conserved_distinct: "conserved o' w r \<Longrightarrow> distinct (ledger r)"
  unfolding conserved_def using mset_eq_imp_distinct_iff by blast

lemma conserved_ledger: "conserved o' w r \<Longrightarrow> set (ledger r) = set (rc_issued r)"
  unfolding conserved_def using mset_eq_setD by blast

lemma conserved_fresh: "conserved o' w r \<Longrightarrow> dec (rc_next r) \<notin> set (rc_issued r)"
  by (force simp: conserved_def dest: dec_inject)

lemma conserved_roomy: "conserved o' w r \<Longrightarrow> roomy r"
  by (simp add: conserved_def roomy_def ordered_capacity_def MAX_PERMITS_def usize_MAX_def)

lemma step_conserved:
  assumes "rpc_step r r'" "conserved o' w r"
  shows "conserved o' w r'"
  using step_totals [OF assms(1) conserved_distinct [OF assms(2)]]
proof
  assume "steady r r'"
  then show ?thesis using assms(2) by (simp add: conserved_def steady_by_def)
next
  assume issues: "issues r r'"
  have "set (rc_issued r) \<subseteq> dec ` {..<rc_next r + 1}" using assms(2) by (force simp: conserved_def)
  then show ?thesis
    using issues assms(2) conserved_fresh [OF assms(2)]
    by (auto simp: conserved_def issues_def simp del: dec.simps)
qed

subsection \<open>Claims\<close>

text \<open>An answer the peer gave, against a failure the client made up.\<close>

fun from_peer :: "rpc_answer \<Rightarrow> bool" where
  "from_peer (Inr _) = True"
| "from_peer (Inl f) = (fl_cause f \<in> {PeerCause, PeerUnreadable})"

definition responded :: "rpc \<Rightarrow> ustring set" where
  "responded r = {i. \<exists>a. (i, a) \<in> set (rc_answers r) \<and> from_peer a} \<union> {i. \<exists>a. QResponse i a \<in> set (works r)}"

definition claims_ok :: "rpc \<Rightarrow> bool" where
  "claims_ok r \<longleftrightarrow>
     distinct (rc_cancelled r) \<and> (\<forall>i \<in> set (rc_cancelled r). rc_claims r i = Some True) \<and>
     (\<forall>i \<in> responded r. rc_claims r i \<noteq> Some False \<and> i \<notin> set (rc_cancelled r)) \<and>
     (\<forall>f. rc_ended r = Some f \<longrightarrow> \<not> from_peer (Inl f)) \<and> dom (rc_claims r) \<subseteq> set (rc_issued r)"

text \<open>What a step that decides no claim may change.\<close>

definition unclaimed :: "rpc \<Rightarrow> rpc \<Rightarrow> bool" where
  "unclaimed r r' \<longleftrightarrow>
     rc_claims r' = rc_claims r \<and> rc_cancelled r' = rc_cancelled r \<and> rc_ended r' = rc_ended r \<and>
     set (rc_issued r) \<subseteq> set (rc_issued r') \<and> responded r' \<subseteq> responded r"

lemma unclaimed_ok: "unclaimed r r' \<Longrightarrow> claims_ok r \<Longrightarrow> claims_ok r'"
  unfolding unclaimed_def claims_ok_def by (simp add: subset_iff)

lemma unclaimed_trans: "unclaimed r r1 \<Longrightarrow> unclaimed r1 r2 \<Longrightarrow> unclaimed r r2"
  by (auto simp: unclaimed_def)

lemma own_failure [simp]: "\<not> from_peer (Inl (unwritten r))"
  by (simp add: unwritten_def)

lemma undelivered_own: "claims_ok r \<Longrightarrow> \<not> from_peer (Inl (undelivered_failure r))"
  by (simp add: claims_ok_def undelivered_failure_def split: option.split)

lemmas claim_defs = unclaimed_def responded_def works_def

lemma unclaimed_ops:
  "unclaimed r (skip_registration i r)" "unclaimed r (take_place i r)" "unclaimed r (release_bytes n r)"
  "unclaimed r (drop_pending i r)" "unclaimed r (fst (counted_pending r))" "unclaimed r (give_back held r)"
  "unclaimed r (return_share bytes r)"
  "unclaimed r (answer_invalid_request j r)" "unclaimed r (answer_unparseable r)" "unclaimed r (fst (queue_peer_work w n r))"
  subgoal by (simp add: claim_defs skip_registration_def)
  subgoal by (simp add: claim_defs take_place_def)
  subgoal by (simp add: claim_defs release_bytes_def)
  subgoal by (simp add: claim_defs drop_pending_def remove_pending_def split: option.split)
  subgoal by (simp add: claim_defs counted_pending_def Let_def)
  subgoal by (simp add: claim_defs give_back_def)
  subgoal by (simp add: claim_defs return_share_def split: peer_bytes.split)
  subgoal by (simp add: claim_defs answer_invalid_request_def Let_def split: option.split prod.split)
  subgoal by (simp add: claim_defs answer_unparseable_def Let_def split: option.split prod.split)
  subgoal by (auto simp: claim_defs queue_peer_work_def try_send_def)
  done

lemma unclaimed_take: "worker_take r = Some r' \<Longrightarrow> unclaimed r r'"
  by (auto simp: claim_defs dest!: worker_take_shape)

lemma unclaimed_let_go: "worker_let_go kept r = Some r' \<Longrightarrow> unclaimed r r'"
proof (cases "rc_taken r")
  case (Some w)
  assume "worker_let_go kept r = Some r'"
  then show ?thesis
  proof (cases w)
    case (QResponse i a)
    with \<open>worker_let_go kept r = Some r'\<close> Some show ?thesis
      by (auto simp: claim_defs worker_let_go_def send_answer_def)
  next
    case (QPeer p n)
    with \<open>worker_let_go kept r = Some r'\<close> Some show ?thesis
      by (cases p; cases kept) (auto simp: claim_defs worker_let_go_def Let_def)
  qed
qed (simp add: worker_let_go_def)

lemma unclaimed_register: "claims_ok r \<Longrightarrow> unclaimed r (fst (register_call g r))"
  using undelivered_own [of r]
  by (auto simp: claim_defs register_call_def counted_pending_def send_answer_def undelivered_failure_def unwritten_def Let_def
    split: option.splits)

lemma unclaimed_unwritten: "claims_ok r \<Longrightarrow> unclaimed r (fail_unwritten i r)"
  using own_failure [of r]
  by (auto simp: claims_ok_def claim_defs fail_unwritten_def remove_pending_def send_answer_def
    simp del: from_peer.simps split: option.splits)

lemma unclaimed_fail:
  assumes "claims_ok r" "rc_ended r = Some f"
  shows "unclaimed r (fail_pending f r)" "unclaimed r (fail_unordered f r)"
  using assms
  by (auto simp: claims_ok_def claim_defs fail_pending_def fail_unordered_def fail_entries_def split: prod.splits)

lemma unclaimed_drop_work: "claims_ok r \<Longrightarrow> unclaimed r (drop_work w r)"
  using undelivered_own [of r] by (cases w) (auto simp: claim_defs send_answer_def)

lemma unclaimed_fold: "claims_ok r \<Longrightarrow> unclaimed r (fold drop_work ws r)"
proof (induction ws arbitrary: r)
  case Nil
  then show ?case by (simp add: unclaimed_def)
next
  case (Cons w ws)
  note one = unclaimed_drop_work [OF Cons.prems, of w]
  show ?case using unclaimed_trans [OF one Cons.IH [OF unclaimed_ok [OF one Cons.prems]]] by simp
qed

lemma unclaimed_stop: "claims_ok r \<Longrightarrow> unclaimed r (worker_stop r)"
proof -
  assume ok: "claims_ok r"
  have "unclaimed r (r\<lparr>rc_taken := None, rc_queue := [], rc_worker := False\<rparr>)" by (auto simp: claim_defs)
  from unclaimed_trans [OF this unclaimed_fold [OF unclaimed_ok [OF this ok]]] show ?thesis
    by (simp add: worker_stop_def)
qed

lemma claims_settle: "claims_ok r \<Longrightarrow> claims_ok (fst (take_claim i r))"
  by (auto simp: claims_ok_def responded_def works_def take_claim_def split: option.split)

lemma claims_give_up: "claims_ok r \<Longrightarrow> claims_ok (give_up i began r)"
  by (cases "rc_claims r i")
    (auto simp: claims_ok_def responded_def works_def give_up_def take_claim_def cancel_abandoned_def Let_def)

lemma claims_ended: "claims_ok r \<Longrightarrow> claims_ok (fst (ended_with e body r))"
  by (cases "rc_ended r") (auto simp: claims_ok_def responded_def works_def ended_with_def Let_def)

text \<open>A response that is not late settles its claim; one that is late leaves no answer.\<close>

lemma claims_given_up:
  assumes "claims_ok r" "given_up i r = (r', late)"
  shows "claims_ok r'" "\<not> late \<Longrightarrow> rc_claims r' i \<noteq> Some False \<and> i \<notin> set (rc_cancelled r')"
    "rc_cancelled r' = rc_cancelled r"
proof -
  have step: "r' = fst (take_claim i r)" "late \<longleftrightarrow> rc_claims r i \<noteq> None \<and> \<not> snd (take_claim i r)"
    using assms(2) by (auto simp: given_up_def case_prod_beta Let_def)
  show "claims_ok r'" using claims_settle assms(1) step(1) by simp
  show "rc_cancelled r' = rc_cancelled r" by (simp add: step(1) take_claim_def split: option.split)
  assume "\<not> late"
  then have "rc_claims r i = None \<or> rc_claims r i = Some False" using step(2) by (auto simp: take_claim_def)
  moreover from this have "i \<notin> set (rc_cancelled r)" using assms(1) by (auto simp: claims_ok_def)
  ultimately show "rc_claims r' i \<noteq> Some False \<and> i \<notin> set (rc_cancelled r')"
    by (auto simp: step(1) take_claim_def)
qed

lemma claims_removed: "claims_ok (remove_pending i r) \<longleftrightarrow> claims_ok r"
  by (simp add: claims_ok_def responded_def works_def remove_pending_def)

lemma claims_responding:
  assumes "claims_ok r" "rc_claims r i \<noteq> Some False \<and> i \<notin> set (rc_cancelled r)"
    "responded r' \<subseteq> insert i (responded r)" "rc_claims r' = rc_claims r" "rc_cancelled r' = rc_cancelled r"
    "rc_ended r' = rc_ended r" "rc_issued r' = rc_issued r"
  shows "claims_ok r'"
  using assms unfolding claims_ok_def by (simp add: subset_iff) blast

lemma claims_deliver:
  assumes "claims_ok r"
  shows "claims_ok (fst (deliver i a r))"
proof (cases "map_of (rc_pending r) i")
  case (Some p)
  obtain r1 late where given: "given_up i (remove_pending i r) = (r1, late)" by fastforce
  note settled = claims_given_up [OF _ given, unfolded claims_removed, OF assms]
  let ?r2 = "r1\<lparr>rc_queued_answers := wrap_add (rc_queued_answers r1) 1\<rparr>"
  have counted: "claims_ok ?r2"
    using settled(1) by (rule unclaimed_ok [rotated]) (simp add: claim_defs)
  show ?thesis
  proof (cases "late \<or> pa_delivery p = Immediate")
    case early: True
    show ?thesis
    proof (cases late)
      case True
      have "claims_ok (r1\<lparr>rc_places := rc_places r1 + place_of p, rc_dropped := rc_dropped r1 @ [i]\<rparr>)"
        using settled(1) by (rule unclaimed_ok [rotated]) (simp add: claim_defs)
      then show ?thesis using Some given True by (simp add: deliver_def)
    next
      case False
      have "claims_ok (send_answer i a r1)"
      proof (rule claims_responding [OF settled(1)])
        show "rc_claims r1 i \<noteq> Some False \<and> i \<notin> set (rc_cancelled r1)" using settled(2) False by simp
      qed (auto simp: send_answer_def responded_def works_def)
      then show ?thesis using Some given False early by (simp add: deliver_def)
    qed
  next
    case False
    then have ordered: "\<not> late" "pa_delivery p = Ordered" by (cases "pa_delivery p"; simp)+
    show ?thesis
    proof (cases "try_send (QResponse i a) ?r2")
      case (Sent r3)
      then have r3: "r3 = ?r2\<lparr>rc_queue := rc_queue r1 @ [QResponse i a], rc_read := rc_read r1 @ [QResponse i a]\<rparr>"
        by (simp add: try_send_def split: if_splits)
      have "claims_ok r3"
      proof (rule claims_responding [OF counted])
        show "rc_claims ?r2 i \<noteq> Some False \<and> i \<notin> set (rc_cancelled ?r2)" using settled(2) ordered(1) by simp
      qed (auto simp: r3 responded_def works_def)
      then show ?thesis using Some given ordered Sent by (simp add: deliver_def Let_def)
    next
      case QueueClosed
      have "claims_ok (drop_work (QResponse i a) ?r2)" by (rule unclaimed_ok [OF unclaimed_drop_work [OF counted] counted])
      then show ?thesis using Some given ordered QueueClosed by (simp add: deliver_def Let_def del: drop_work.simps)
    next
      case QueueFull
      let ?r3 = "fst (ended_with (PeerEnd (queue_full ?r2)) (overflow_failure ?r2) ?r2)"
      have "claims_ok ?r3" using claims_ended counted by blast
      then have "claims_ok (drop_work (QResponse i a) ?r3)" using unclaimed_ok [OF unclaimed_drop_work] by blast
      then show ?thesis
        using Some given ordered QueueFull by (simp add: deliver_def Let_def case_prod_beta del: drop_work.simps)
    qed
  qed
qed (use assms in \<open>simp add: deliver_def\<close>)

lemma claims_dispatch_frame:
  assumes "claims_ok r"
  shows "claims_ok (fst (dispatch_frame read_error fr bytes r))"
proof (cases rule: dispatch_frame_cases [of fr bytes read_error r])
  case (admitted w n)
  have "unclaimed r (r\<lparr>rc_bytes := rc_bytes r - n\<rparr>)" by (simp add: claim_defs)
  then show ?thesis using admitted unclaimed_ok [OF unclaimed_trans [OF _ unclaimed_ops(10)] assms] by simp
next
  case (response i)
  then show ?thesis using claims_deliver [OF unclaimed_ok [OF unclaimed_ops(7) assms]] by simp
next
  case (work w n)
  then show ?thesis using unclaimed_ok [OF unclaimed_ops(10) assms] by simp
next
  case idle
  then show ?thesis using unclaimed_ok [OF unclaimed_ops(7) assms] by simp
qed (use assms in simp)

lemma claims_answer_member: "claims_ok r \<Longrightarrow> answer_member i owed r = (owed', r') \<Longrightarrow> claims_ok r'"
  using unclaimed_ok [OF unclaimed_ops(8)] by (auto simp: answer_member_def split: if_splits)

lemma claims_batch_loop:
  "claims_ok r \<Longrightarrow> claims_ok (fst (batch_loop read_error share ms owed work held r))"
proof (induction ms arbitrary: owed work held r)
  case Nil
  then show ?case using unclaimed_ok [OF unclaimed_ops(6)] by simp
next
  case (Cons m ms)
  have skip: "claims_ok (fst (let (owed', r') = answer_member i owed r in batch_loop read_error share ms owed' work held r'))" for i
  proof -
    obtain owed' r' where member: "answer_member i owed r = (owed', r')" by fastforce
    show ?thesis using Cons.IH [OF claims_answer_member [OF Cons.prems member]] by (simp add: member)
  qed
  have frame: "claims_ok (fst (case dispatch_frame read_error fr bytes r of (r', t) \<Rightarrow>
      (case t of Some t \<Rightarrow> (give_back held' r', Some t) | None \<Rightarrow> batch_loop read_error share ms owed work' held' r')))"
    for fr bytes held' work'
  proof -
    obtain r' t where one: "dispatch_frame read_error fr bytes r = (r', t)" by fastforce
    then have "claims_ok r'" using claims_dispatch_frame [OF Cons.prems, of read_error fr bytes] by simp
    then show ?thesis using one Cons.IH unclaimed_ok [OF unclaimed_ops(6)] by (cases t) simp_all
  qed
  show ?case using skip frame by (cases m) (simp_all add: Let_def case_prod_beta split: option.split)
qed

lemma claims_dispatch:
  assumes "claims_ok r"
  shows "claims_ok (fst (dispatch_message read_error parse message r))"
proof -
  have taken: "claims_ok (r\<lparr>rc_bytes := n\<rparr>)" for n
    by (rule unclaimed_ok [OF _ assms]) (simp add: claim_defs)
  have batch: "claims_ok (fst (dispatch_batch read_error ms bytes r))" for ms bytes
    using claims_batch_loop [OF assms] claims_batch_loop [OF taken] unclaimed_ok [OF unclaimed_ops(8) assms] assms
    by (simp add: dispatch_batch_def take_peer_bytes_def Let_def)
  show ?thesis
    using batch claims_dispatch_frame [OF assms] assms unclaimed_ok [OF unclaimed_ops(8) assms] unclaimed_ok [OF unclaimed_ops(9) assms]
    by (simp add: dispatch_message_def split: option.split json.split)
qed

lemma responded_issued:
  assumes "conserved o' w r"
  shows "responded r \<subseteq> set (rc_issued r)"
proof -
  have "i \<in> set (ledger r)" if answered: "i \<in> responded r" for i
  proof -
    obtain a where "(i, a) \<in> set (rc_answers r) \<or> QResponse i a \<in> set (works r)" using answered unfolding responded_def by blast
    moreover have "i \<in> set (concat (map work_calls (works r)))" if "QResponse i a \<in> set (works r)"
      using that by (auto intro!: bexI [of _ "QResponse i a"])
    moreover have "i \<in> set (map fst (rc_answers r))" if "(i, a) \<in> set (rc_answers r)" using that by force
    ultimately show ?thesis unfolding ledger_def by (simp only: set_append Un_iff) blast
  qed
  then show ?thesis using conserved_ledger [OF assms] by blast
qed

lemma claims_issuing:
  assumes "claims_ok r" "conserved o' w r"
    "rc_cancelled r' = rc_cancelled r" "rc_ended r' = rc_ended r" "responded r' \<subseteq> responded r"
    "rc_claims r' = (rc_claims r)(dec (rc_next r) := c)" "rc_issued r' = rc_issued r @ [dec (rc_next r)]"
  shows "claims_ok r'"
proof -
  let ?i = "dec (rc_next r)"
  have fresh: "?i \<notin> set (rc_issued r)" using conserved_fresh assms(2) by blast
  then have "?i \<notin> responded r" using responded_issued assms(2) by blast
  moreover have "?i \<notin> set (rc_cancelled r)" using fresh assms(1) unfolding claims_ok_def by (metis domI subsetD)
  ultimately show ?thesis
    using assms(1,5) unfolding claims_ok_def assms(3,4,6,7)
    by (auto simp: subset_iff simp del: dec.simps from_peer.simps)
qed

lemma claims_entering:
  assumes "claims_ok r" "conserved o' w r"
    "rc_cancelled r' = rc_cancelled r" "rc_ended r' = rc_ended r" "rc_answers r' = rc_answers r" "works r' = works r"
    "rc_claims r' = rc_claims r \<and> rc_issued r' = rc_issued r \<or>
     rc_claims r' = (rc_claims r)(dec (rc_next r) := call_claim r) \<and> rc_issued r' = rc_issued r @ [dec (rc_next r)]"
  shows "claims_ok r'"
  using assms(7)
proof
  assume "rc_claims r' = rc_claims r \<and> rc_issued r' = rc_issued r"
  then have "unclaimed r r'" using assms(3-6) by (simp add: unclaimed_def responded_def)
  then show ?thesis using unclaimed_ok assms(1) by blast
next
  assume "rc_claims r' = (rc_claims r)(dec (rc_next r) := call_claim r) \<and> rc_issued r' = rc_issued r @ [dec (rc_next r)]"
  then show ?thesis using assms(3-6) by (intro claims_issuing [OF assms(1,2)]) (simp_all add: responded_def del: dec.simps)
qed

lemma claims_queue_request:
  assumes "claims_ok r" "conserved o' w r"
  shows "claims_ok (fst (queue_request ordered counted own built admitted r))"
  by (rule claims_entering [OF assms];
    simp add: queue_request_def next_call_def ordered_place_def call_claim_def works_def Let_def split: sum.split del: dec.simps)

lemma claims_call_enter:
  assumes "claims_ok r" "conserved o' w r"
  shows "claims_ok (fst (call_enter ordered counted r))"
  by (rule claims_entering [OF assms];
    simp add: call_enter_def counted_pending_def next_call_def ordered_place_def call_claim_def works_def Let_def del: dec.simps)

lemma step_claims:
  assumes "rpc_step r r'" "claims_ok r" "conserved o' w r"
  shows "claims_ok r'"
proof -
  have quiet: "claims_ok q" if "unclaimed r q" for q using that assms(2) unclaimed_ok by blast
  show ?thesis using assms(1)
  proof cases
    case (queue ordered counted own built admitted x)
    then show ?thesis using claims_queue_request [OF assms(2,3), of ordered counted own built admitted] by simp
  next
    case (enter ordered counted x)
    then show ?thesis using claims_call_enter [OF assms(2,3), of ordered counted] by simp
  next
    case (register g x)
    then show ?thesis using quiet unclaimed_register [OF assms(2), of g] by simp
  next
    case (read read_error parse message t)
    then show ?thesis using claims_dispatch [OF assms(2), of read_error parse message] by simp
  next
    case take
    then show ?thesis using quiet unclaimed_take by blast
  next
    case (let_go kept)
    then show ?thesis using quiet unclaimed_let_go by blast
  qed (simp_all add: quiet unclaimed_ops unclaimed_stop unclaimed_unwritten unclaimed_fail assms(2)
      claims_give_up claims_settle claims_ended, simp_all add: quiet claim_defs)
qed

definition rpc_inv :: "client_options \<Rightarrow> wire_options \<Rightarrow> rpc \<Rightarrow> bool" where
  "rpc_inv o' w r \<longleftrightarrow> conserved o' w r \<and> queue_ok r \<and> claims_ok r"

lemma rpc_new_inv: "rpc_inv o' w (rpc_new o' w)"
  by (simp add: rpc_inv_def conserved_def claims_ok_def queue_ok_by_def responded_def works_def ledger_def
    places_total_def bytes_total_def rpc_new_def)

lemma reach_inv: "rpc_reach o' w r \<Longrightarrow> rpc_inv o' w r"
proof (induction rule: rpc_reach.induct)
  case (step r r')
  then have inv: "conserved o' w r" "queue_ok r" "claims_ok r" by (simp_all add: rpc_inv_def)
  note room = conserved_roomy [OF inv(1)] conserved_distinct [OF inv(1)]
  show ?case
    unfolding rpc_inv_def
    using step_conserved [OF step.hyps(2) inv(1)] step_queue [OF step.hyps(2) inv(2) room] step_claims [OF step.hyps(2) inv(3,1)]
    by blast
qed (rule rpc_new_inv)

subsection \<open>Properties\<close>

lemma queue_length:
  assumes "queue_ok r"
  shows "length (rc_queue r) \<le> notification_capacity (rc_options r) + 1 + answered_places (works r)"
  using assms length_queue [of "rc_queue r"] by (simp add: queue_ok_by_def works_def)

lemma queue_capacity_exact:
  "notification_capacity (rc_options r) + ordered_capacity (rc_options r) < MAX_PERMITS \<Longrightarrow>
   queue_capacity r = notification_capacity (rc_options r) + ordered_capacity (rc_options r) + 1"
  by (simp add: queue_capacity_def handoff_capacity_def sat_add_def MAX_PERMITS_def usize_MAX_def)

lemma pending_place: "map_of es i = Some p \<Longrightarrow> place_of p \<le> pending_places es"
  by (induction es) (auto split: if_splits)

text \<open>C26: the queue of the client never overruns: it keeps within its capacity, an ordered response always
  finds room in it and never ends the connection, and so does work of the peer's that was admitted.\<close>

lemma queue_never_overruns:
  assumes "rpc_reach o' w r" "notification_capacity o' + ordered_capacity o' < MAX_PERMITS"
  shows "length (rc_queue r) \<le> queue_capacity r \<and> snd (deliver i a r) = None \<and>
    (rc_worker r \<and> peer_work_queued r < notification_capacity o' \<longrightarrow> snd (queue_peer_work u n r) = None)"
proof -
  have inv: "conserved o' w r" "queue_ok r" using reach_inv [OF assms(1)] by (simp_all add: rpc_inv_def)
  then have opts: "rc_options r = o'" and places: "places_total r = ordered_capacity o'" by (simp_all add: conserved_def)
  have cap: "queue_capacity r = notification_capacity o' + ordered_capacity o' + 1"
    using queue_capacity_exact [of r] assms(2) opts by simp
  have len: "length (rc_queue r) \<le> notification_capacity o' + 1 + answered_places (works r)"
    using queue_length [OF inv(2)] opts by simp
  have room: "length (rc_queue r) \<le> queue_capacity r" using len cap places by (simp add: places_total_def)
  have "snd (deliver i a r) = None"
  proof (cases rule: deliver_cases [of r i a])
    case (6 p c f t)
    have "1 \<le> pending_places (rc_pending r)" using pending_place [OF 6(1)] 6(2) by (simp add: place_of_def)
    then show ?thesis using 6(4) len cap places by (simp add: places_total_def)
  qed simp_all
  moreover have "snd (queue_peer_work u n r) = None" if "rc_worker r" "peer_work_queued r < notification_capacity o'"
  proof -
    have "queue_ok_by 1 r" using admitted_room inv(2) that(2) opts by (simp add: peer_work_queued_def)
    then have "length (rc_queue r) \<le> notification_capacity o' + answered_places (works r)"
      using length_queue [of "rc_queue r"] opts by (simp add: queue_ok_by_def works_def)
    then show ?thesis using that(1) cap places by (simp add: queue_peer_work_def try_send_def places_total_def)
  qed
  ultimately show ?thesis using room by blast
qed

text \<open>C27: every call the client issued is in exactly one place - its frame unsent, awaiting its response, its
  answer queued, answered, or let go with its caller - so none is answered twice; and no place of the
  ordered reserve and no byte of the peer's allowance is lost or made up.\<close>

lemma calls_accounted_for:
  assumes "rpc_reach o' w r"
  shows "distinct (rc_issued r) \<and>
    mset (map rg_call (rc_unsent r) @ map fst (rc_pending r) @ concat (map work_calls (works r)) @
      map fst (rc_answers r) @ rc_dropped r) = mset (rc_issued r) \<and>
    rc_places r + unsent_places (rc_unsent r) + pending_places (rc_pending r) + answered_places (works r) =
      ordered_capacity o' \<and>
    rc_bytes r + sum_list (map work_bytes (works r)) + sum_list (rc_out r) = byte_capacity o'"
  using reach_inv [OF assms] by (simp add: rpc_inv_def conserved_def ledger_def places_total_def bytes_total_def)

text \<open>C28: a call whose cancel was sent is never answered by the peer as well: no response for it is queued or
  was handed to its caller, one that arrives later is let go, and no call is cancelled twice.\<close>

lemma cancelled_never_answered:
  assumes "rpc_reach o' w r" "i \<in> set (rc_cancelled r)"
  shows "distinct (rc_cancelled r) \<and> (\<forall>a. (i, a) \<in> set (rc_answers r) \<longrightarrow> \<not> from_peer a) \<and>
    (\<forall>a. QResponse i a \<notin> set (works r)) \<and>
    (\<forall>a. rc_answers (fst (deliver i a r)) = rc_answers r \<and> works (fst (deliver i a r)) = works r)"
proof -
  have ok: "claims_ok r" using reach_inv [OF assms(1)] by (simp add: rpc_inv_def)
  then have "i \<notin> responded r" "rc_claims r i = Some True" using assms(2) by (auto simp: claims_ok_def)
  moreover from this have "rc_answers (fst (deliver i a r)) = rc_answers r \<and> works (fst (deliver i a r)) = works r" for a
    by (simp add: deliver_def given_up_def take_claim_def remove_pending_def works_def split: option.split)
  ultimately show ?thesis using ok by (auto simp: claims_ok_def responded_def)
qed

text \<open>While its worker runs, the work the worker finished is what the reader queued, in the order the
  frames were read, less what it holds and what still waits, and the count of queued answers is exact.\<close>

lemma handled_in_read_order:
  assumes "rpc_reach o' w r" "rc_worker r"
  shows "rc_read r = rc_handled r @ works r \<and> rc_queued_answers r = length (concat (map work_calls (works r)))"
proof -
  have "answered_places ws = length (concat (map work_calls ws))" for ws
  proof (induction ws)
    case (Cons v vs)
    then show ?case by (cases v) simp_all
  qed simp
  then show ?thesis using reach_inv [OF assms(1)] assms(2) by (simp add: rpc_inv_def queue_ok_by_def)
qed

text \<open>C25: once the connection is closed, its end recorded and no frame waits in the outbox, failing what is
  pending and stopping the worker settles every call: each issued call is answered or was let go by its
  caller, those that were pending are answered with the end, every place is back, and a call is refused.\<close>

lemma closing_settles_every_call:
  assumes "rpc_reach o' w r" "rc_closed r" "rc_ended r = Some f" "rc_unsent r = []"
  shows "mset (map fst (rc_answers (worker_stop (fail_pending f r))) @ rc_dropped (worker_stop (fail_pending f r))) =
      mset (rc_issued r) \<and>
    (\<forall>i \<in> fst ` set (rc_pending r). (i, Inl f) \<in> set (rc_answers (worker_stop (fail_pending f r)))) \<and>
    rc_places (worker_stop (fail_pending f r)) = ordered_capacity o' \<and>
    rc_bytes (worker_stop (fail_pending f r)) + sum_list (rc_out (worker_stop (fail_pending f r))) = byte_capacity o' \<and>
    (\<forall>ordered counted. snd (call_enter ordered counted (worker_stop (fail_pending f r))) = Err (Closed (lit ''link'')))"
proof -
  let ?r = "fail_pending f r"
  let ?q = "worker_stop ?r"
  have "rpc_reach o' w ?q"
    by (rule rpc_reach.step [OF rpc_reach.step [OF assms(1) rpc_step.fail_all [OF assms(2,3)]] rpc_step.stop])
  then have inv: "conserved o' w ?q" using reach_inv by (simp add: rpc_inv_def)
  have fold: "rc_unsent (fold drop_work ws q) = rc_unsent q \<and> rc_pending (fold drop_work ws q) = rc_pending q \<and>
      rc_issued (fold drop_work ws q) = rc_issued q \<and> rc_closed (fold drop_work ws q) = rc_closed q \<and>
      rc_taken (fold drop_work ws q) = rc_taken q \<and> rc_queue (fold drop_work ws q) = rc_queue q \<and>
      set (rc_answers q) \<subseteq> set (rc_answers (fold drop_work ws q))" for ws q
  proof (induction ws arbitrary: q)
    case (Cons v vs)
    then show ?case by (cases v) (fastforce simp: send_answer_def)+
  qed simp
  have stop: "rc_unsent ?q = []" "rc_pending ?q = []" "rc_issued ?q = rc_issued r" "rc_closed ?q" "works ?q = []"
      "set (rc_answers ?r) \<subseteq> set (rc_answers ?q)"
    using fold [of "works ?r" "?r\<lparr>rc_taken := None, rc_queue := [], rc_worker := False\<rparr>"] assms(2,4)
    by (simp_all add: worker_stop_def works_def fail_pending_def fail_entries_def)
  have "(i, Inl f) \<in> set (rc_answers ?r)" if "i \<in> fst ` set (rc_pending r)" for i
    using that by (force simp: fail_pending_def fail_entries_def)
  then have "\<forall>i \<in> fst ` set (rc_pending r). (i, Inl f) \<in> set (rc_answers ?q)" using stop(6) by blast
  moreover have "snd (call_enter ordered counted ?q) = Err (Closed (lit ''link''))" for ordered counted
    using stop(4) by (simp add: call_enter_def next_call_def Let_def)
  ultimately show ?thesis
    using inv stop(1-5) by (simp add: conserved_def ledger_def places_total_def bytes_total_def)
qed

text \<open>Runs the properties are applied to: an ordered call, its response queued, its cancel, its connection closed.\<close>

definition demo_wire :: wire_options where
  "demo_wire = wire_options_default\<lparr>cancel_on_abandon := Some (lit ''session/cancel'')\<rparr>"

definition demo_called :: rpc where
  "demo_called = fst (call_enter True True (rpc_new client_options_default demo_wire))"

definition demo_answered :: rpc where
  "demo_answered =
     fst (dispatch_message (\<lambda>_. None) (\<lambda>_. Some (JObject [(lit ''id'', JString (dec 1)), (lit ''result'', JNull)])) (lit ''x'') demo_called)"

definition demo_cancelled :: rpc where
  "demo_cancelled = give_up (dec 1) True demo_called"

definition demo_closed :: rpc where
  "demo_closed =
     fst (ended_with ClosedEnd (overflow_failure demo_called) (demo_called\<lparr>rc_sealed := True, rc_closed := True\<rparr>))"

lemma demo_reached:
  "rpc_reach client_options_default demo_wire demo_called"
  "rpc_reach client_options_default demo_wire demo_answered"
  "rpc_reach client_options_default demo_wire demo_cancelled"
  "rpc_reach client_options_default demo_wire demo_closed"
proof -
  let ?r = "rpc_new client_options_default demo_wire"
  have "rc_next ?r < usize_MAX" by (simp add: rpc_new_def usize_MAX_def)
  then have "rpc_step ?r demo_called"
    by (rule rpc_step.enter [of _ True True _ "snd (call_enter True True ?r)"]) (simp add: demo_called_def)
  then show called: "rpc_reach client_options_default demo_wire demo_called" using rpc_reach.start rpc_reach.step by blast
  have "rpc_step demo_called demo_answered"
    unfolding demo_answered_def by (rule rpc_step.read) (rule prod.collapse [symmetric])
  then show "rpc_reach client_options_default demo_wire demo_answered" using called rpc_reach.step by blast
  show "rpc_reach client_options_default demo_wire demo_cancelled"
    unfolding demo_cancelled_def by (rule rpc_reach.step [OF called rpc_step.give_up])
  have "rpc_step (demo_called\<lparr>rc_sealed := True\<rparr>) ((demo_called\<lparr>rc_sealed := True\<rparr>)\<lparr>rc_closed := True\<rparr>)"
    by (rule rpc_step.close) simp
  then have "rpc_reach client_options_default demo_wire (demo_called\<lparr>rc_sealed := True, rc_closed := True\<rparr>)"
    using rpc_reach.step [OF rpc_reach.step [OF called rpc_step.seal]] by simp
  then show "rpc_reach client_options_default demo_wire demo_closed"
    unfolding demo_closed_def by (rule rpc_reach.step [OF _ rpc_step.ended])
qed

lemmas demo_defs = demo_called_def demo_wire_def rpc_new_def call_enter_def counted_pending_def next_call_def ordered_place_def
  ordered_capacity_def byte_capacity_def client_options_default_def wire_options_default_def MAX_PERMITS_def usize_MAX_def

lemma demo_called_pending:
  "rc_pending demo_called = [(dec 1, \<lparr>pa_delivery = Ordered, pa_counted = True\<rparr>)]" "rc_worker demo_called"
  "rc_unsent demo_called = []" "rc_ended demo_called = None" "rc_claims demo_called (dec 1) = Some False"
  "rc_closed demo_called = False" "rc_poisoned demo_called = False" "rc_wire demo_called = demo_wire"
  by (simp_all add: demo_defs call_claim_def Let_def del: dec.simps)

lemma demo_cancelled_id: "rc_cancelled demo_cancelled = [dec 1]"
  by (simp add: demo_cancelled_def give_up_def take_claim_def cancel_abandoned_def call_claim_def demo_defs Let_def
    del: dec.simps)

lemma queue_never_overruns_witness:
  "length (rc_queue demo_answered) \<le> queue_capacity demo_answered"
  using queue_never_overruns [OF demo_reached(2)]
  by (simp add: notification_capacity_def ordered_capacity_def client_options_default_def MAX_PERMITS_def usize_MAX_def)

lemma calls_accounted_for_witness: "distinct (rc_issued demo_called)"
  using calls_accounted_for [OF demo_reached(1)] by blast

lemma cancelled_never_answered_witness: "distinct (rc_cancelled demo_cancelled)"
  using cancelled_never_answered [OF demo_reached(3), of "dec 1"] demo_cancelled_id by simp

lemma handled_in_read_order_witness: "rc_worker demo_called \<and> rc_read demo_called = rc_handled demo_called @ works demo_called"
  using handled_in_read_order [OF demo_reached(1) demo_called_pending(2)] demo_called_pending(2) by blast

lemma closing_settles_every_call_witness:
  "\<exists>f. rc_ended demo_closed = Some f \<and> (dec 1, Inl f) \<in> set (rc_answers (worker_stop (fail_pending f demo_closed)))"
proof -
  let ?f = "\<lparr>fl_body = overflow_failure demo_called, fl_cause = EndedCause ClosedEnd\<rparr>"
  have "rc_closed demo_closed" "rc_ended demo_closed = Some ?f" "rc_unsent demo_closed = []"
      "dec 1 \<in> fst ` set (rc_pending demo_closed)"
    using demo_called_pending by (simp_all add: demo_closed_def ended_with_def Let_def del: dec.simps)
  then show ?thesis using closing_settles_every_call [OF demo_reached(4), of ?f] by blast
qed

end
