(* ===== verification/Acp_Reducer.thy ===== *)
theory Acp_Reducer imports Codex_Turn "HOL-Library.AList" begin

text \<open>
  The reducer of the ACP harness (\<open>mango-agent-acp/src/reducer.rs\<close>, \<open>reducer/compaction.rs\<close>,
  \<open>reducer/notice.rs\<close>): the updates an agent sends during a prompt become transcript events, and two
  frames become facts about the session.

  The types of the ACP schema are the library's, kept as far as this code reads them; the defaults its
  schema gives a tool call's kind and status, the hash of a call id and what \<open>redact::message_text\<close> hides
  are fields of \<open>acp_env\<close>. A \<open>HashMap\<close> is an association list with distinct keys, an instant a number of
  nanoseconds.
\<close>

subsection \<open>Updates\<close>

datatype content_block = TextBlock ustring | OtherBlock

record acp_diff =
  df_path :: ustring
  df_old :: "ustring option"
  df_new :: ustring

datatype tool_block = ContentToolBlock content_block | DiffToolBlock acp_diff | TerminalToolBlock ustring | OtherToolBlock

datatype tool_kind =
    ReadTool | EditTool | DeleteTool | MoveTool | SearchTool | ExecuteTool | ThinkTool | FetchTool | SwitchModeTool
  | OtherTool

datatype tool_status = ToolPending | ToolInProgress | ToolCompleted | ToolFailed | ToolUnknown

record tool_call =
  tc_id :: ustring
  tc_title :: ustring
  tc_name :: "ustring option"
  tc_kind :: tool_kind
  tc_status :: tool_status
  tc_content :: "tool_block list"
  tc_locations :: nat

record tool_update =
  tp_id :: ustring
  tp_title :: "ustring option"
  tp_name :: "ustring option"
  tp_kind :: "tool_kind option"
  tp_status :: "tool_status option"
  tp_content :: "tool_block list option"
  tp_locations :: "nat option"

datatype entry_status = EntryPending | EntryInProgress | EntryCompleted | EntryUnknown

datatype entry_priority = EntryHigh | EntryMedium | EntryLow | EntryOther

record plan_entry =
  pe_content :: ustring
  pe_status :: entry_status
  pe_priority :: entry_priority

datatype 'a maybe_undefined = Undefined | NullValue | Defined 'a

datatype compaction_status =
    CompactionRunning | CompactionCompleted | CompactionFailed | CompactionCancelled | CompactionOther

record compaction_frame =
  cu_id :: ustring
  cu_status :: compaction_status
  cu_summary :: "content_block list maybe_undefined"
  cu_error :: "ustring maybe_undefined"

text \<open>The spelling of a severity this build has no arm for, when the schema has one.\<close>

datatype wire_severity = WireInfo | WireWarning | WireError | WireOther ustring | WireUnknown "ustring option"

datatype 'o session_update =
    UserMessageChunk
  | AgentMessageChunk content_block
  | AgentThoughtChunk content_block
  | ToolCallFrame tool_call
  | ToolCallUpdateFrame tool_update
  | PlanFrame "plan_entry list"
  | AvailableCommandsUpdate "(ustring \<times> ustring) list"
  | CurrentModeUpdate
  | ConfigOptionUpdate 'o
  | SessionInfoUpdate
  | UsageUpdate "64 word" "64 word"
  | CompactionUpdateFrame compaction_frame
  | CompactionSummaryFrame ustring content_block
  | NoticeFrame wire_severity ustring "ustring option"
  | UnknownUpdate

datatype 'o session_fact = Commands "command list" | ConfigurationOptions 'o

subsection \<open>Ids\<close>

definition PLAN_CALL_ID :: ustring where
  "PLAN_CALL_ID = lit ''acp:plan''"

definition MINTED_ID_PREFIX :: ustring where
  "MINTED_ID_PREFIX = lit ''acp:''"

definition clear_of_plan :: "ustring \<Rightarrow> ustring" where
  "clear_of_plan i = (if prefix MINTED_ID_PREFIX i then MINTED_ID_PREFIX @ lit ''vendor:'' @ i else i)"

definition call_key :: "ustring \<Rightarrow> ustring" where
  "call_key i = clear_of_plan i"

definition UNTITLED_TOOL_CALL :: ustring where
  "UNTITLED_TOOL_CALL = lit ''tool''"

definition usable_call_id :: "ustring \<Rightarrow> bool" where
  "usable_call_id i \<longleftrightarrow> res_ok (opaque_id i (lit ''activity call id'')) \<noteq> None"

definition compaction_call_id :: "ustring \<Rightarrow> ustring" where
  "compaction_call_id i = (if usable_call_id i then MINTED_ID_PREFIX @ lit ''compaction:'' @ i else i)"

subsection \<open>Reading a frame\<close>

fun plain_text :: "content_block \<Rightarrow> ustring option" where
  "plain_text (TextBlock s) = Some s"
| "plain_text OtherBlock = None"

text \<open>\<open>Iterator::find_map\<close>: the first result.\<close>

fun first_result :: "('a \<Rightarrow> 'b option) \<Rightarrow> 'a list \<Rightarrow> 'b option" where
  "first_result f [] = None"
| "first_result f (x # xs) = (case f x of Some y \<Rightarrow> Some y | None \<Rightarrow> first_result f xs)"

definition content_text :: "tool_block list \<Rightarrow> ustring option" where
  "content_text = first_result (\<lambda>b. case b of ContentToolBlock c \<Rightarrow> plain_text c | _ \<Rightarrow> None)"

definition content_detail :: "tool_block list \<Rightarrow> ustring option" where
  "content_detail content =
     (case content_text content of
        Some t \<Rightarrow> Some t
      | None \<Rightarrow>
          (case first_result (\<lambda>b. case b of DiffToolBlock d \<Rightarrow> Some (df_path d) | _ \<Rightarrow> None) content of
             Some p \<Rightarrow> Some p
           | None \<Rightarrow> first_result (\<lambda>b. case b of TerminalToolBlock i \<Rightarrow> Some i | _ \<Rightarrow> None) content))"

definition acp_file_change :: "acp_diff \<Rightarrow> file_change" where
  "acp_file_change d = with_texts (file_change_new (df_path d)) (df_old d) (df_new d)"

fun content_loop :: "file_change list \<Rightarrow> ustring option \<Rightarrow> tool_block list \<Rightarrow> file_change list \<times> ustring option" where
  "content_loop files found [] = (files, found)"
| "content_loop files found (DiffToolBlock d # bs) = content_loop (files @ [acp_file_change d]) found bs"
| "content_loop files found (ContentToolBlock c # bs) =
     content_loop files (if found = None then plain_text c else found) bs"
| "content_loop files found (_ # bs) = content_loop files found bs"

definition tool_call_content :: "tool_block list \<Rightarrow> activity_content option" where
  "tool_call_content content =
     (let (files, found) = content_loop [] None content
      in if files \<noteq> [] then Some (DiffContent files) else map_option OutputContent found)"

definition locations_extension :: "nat \<Rightarrow> 'f extensions option" where
  "locations_extension n =
     (if n = 0 then None
      else Some (bt_insert (lit ''locationCount'')
        (IntegerExt (if n < 2 ^ 63 then of_nat n else of_nat (2 ^ 63 - 1))) []))"

fun activity_kind_of :: "tool_kind \<Rightarrow> activity_kind" where
  "activity_kind_of ExecuteTool = CommandActivity"
| "activity_kind_of EditTool = FileChange"
| "activity_kind_of DeleteTool = FileChange"
| "activity_kind_of MoveTool = FileChange"
| "activity_kind_of FetchTool = WebSearch"
| "activity_kind_of _ = OtherActivity"

definition names_a_tool :: "ustring \<Rightarrow> bool" where
  "names_a_tool name \<longleftrightarrow> trim (bt_text (bound name ActivityName)) \<noteq> []"

definition tool_name :: "ustring option \<Rightarrow> ustring \<Rightarrow> ustring" where
  "tool_name name title =
     (case name of Some n \<Rightarrow> if names_a_tool n then n else title | None \<Rightarrow> title)"

fun tool_finished :: "tool_status \<Rightarrow> activity_result option" where
  "tool_finished ToolCompleted = Some (activity_result_new CompletedActivity)"
| "tool_finished ToolFailed = Some (activity_result_new FailedActivity)"
| "tool_finished _ = None"

definition tool_call_activity :: "tool_call \<Rightarrow> 'f activity" where
  "tool_call_activity c =
     (activity_new (tool_name (tc_name c) (tc_title c)) (activity_kind_of (tc_kind c)) (tc_title c))
       \<lparr>ac_item_id := Some (tc_id c), ac_detail := content_detail (tc_content c),
         ac_content := tool_call_content (tc_content c),
         ac_extensions := (case locations_extension (tc_locations c) of Some e \<Rightarrow> e | None \<Rightarrow> [])\<rparr>"

definition tool_call_events :: "tool_call \<Rightarrow> ('f, 'l) payload event_kind list" where
  "tool_call_events c =
     ActivityStarted (tc_id c) (ActivityPayload (tool_call_activity c)) #
     (case tool_finished (tc_status c) of
        Some result \<Rightarrow> [ActivityCompleted (tc_id c) (ResultPayload result)]
      | None \<Rightarrow> [])"

text \<open>What an update says of a running call: its end, a change, or nothing a host would render.\<close>

datatype call_change = CallEnded activity_result | CallChanged activity_update | CallUnchanged

definition tool_call_change :: "tool_update \<Rightarrow> call_change" where
  "tool_call_change u =
     (let (detail, content) =
        (case tp_content u of
           Some blocks \<Rightarrow>
             (Some (case content_detail blocks of Some d \<Rightarrow> d | None \<Rightarrow> []),
              Some (case tool_call_content blocks of Some c \<Rightarrow> c | None \<Rightarrow> EmptyContent))
         | None \<Rightarrow> (None, None))
      in case Option.bind (tp_status u) tool_finished of
           Some result \<Rightarrow> CallEnded (result\<lparr>ar_detail := detail, ar_content := content\<rparr>)
         | None \<Rightarrow>
             (let update = activity_update_new\<lparr>au_title := tp_title u, au_detail := detail, au_content := content\<rparr>
              in if activity_update_is_empty update then CallUnchanged else CallChanged update))"

definition is_transcript :: "'o session_update \<Rightarrow> bool" where
  "is_transcript update =
     (case update of
        AgentMessageChunk _ \<Rightarrow> True
      | ToolCallFrame _ \<Rightarrow> True
      | ToolCallUpdateFrame _ \<Rightarrow> True
      | CompactionUpdateFrame _ \<Rightarrow> True
      | CompactionSummaryFrame _ _ \<Rightarrow> True
      | PlanFrame _ \<Rightarrow> True
      | _ \<Rightarrow> False)"

definition commands_fact :: "(ustring \<times> ustring) list \<Rightarrow> 'o session_fact" where
  "commands_fact catalog = Commands (map (\<lambda>(n, d). \<lparr>cm_name = n, cm_description = Some d\<rparr>) catalog)"

definition session_facts :: "'o session_update \<Rightarrow> 'o session_fact list" where
  "session_facts update =
     (case update of
        AvailableCommandsUpdate catalog \<Rightarrow> [commands_fact catalog]
      | ConfigOptionUpdate options \<Rightarrow> [ConfigurationOptions options]
      | _ \<Rightarrow> [])"

subsection \<open>Plans\<close>

fun plan_step_status_of :: "entry_status \<Rightarrow> plan_step_status" where
  "plan_step_status_of EntryInProgress = InProgressStep"
| "plan_step_status_of EntryCompleted = CompletedStep"
| "plan_step_status_of _ = PendingStep"

fun plan_step_priority_of :: "entry_priority \<Rightarrow> plan_step_priority option" where
  "plan_step_priority_of EntryHigh = Some HighPriority"
| "plan_step_priority_of EntryMedium = Some MediumPriority"
| "plan_step_priority_of EntryLow = Some LowPriority"
| "plan_step_priority_of EntryOther = None"

definition acp_plan_step :: "plan_entry \<Rightarrow> plan_step" where
  "acp_plan_step e =
     (plan_step_new (pe_content e))
       \<lparr>pl_status := plan_step_status_of (pe_status e), pl_priority := plan_step_priority_of (pe_priority e)\<rparr>"

definition plan_title :: "plan_entry list \<Rightarrow> ustring" where
  "plan_title plan =
     lit ''Plan: '' @ dec (length (filter (\<lambda>e. pe_status e = EntryCompleted) plan)) @ lit ''/'' @ dec (length plan) @
     lit '' done''"

definition plan_detail :: "plan_entry list \<Rightarrow> ustring" where
  "plan_detail plan =
     (case find (\<lambda>e. pe_status e = EntryInProgress) plan of
        Some e \<Rightarrow> pe_content e
      | None \<Rightarrow> (case plan of e # _ \<Rightarrow> pe_content e | [] \<Rightarrow> []))"

definition plan_content :: "plan_entry list \<Rightarrow> activity_content" where
  "plan_content plan = PlanContent (map acp_plan_step plan)"

subsection \<open>Held updates\<close>

record held_update =
  hd_update :: activity_update
  hd_title_cut :: bool
  hd_detail_cut :: bool
  hd_content_cut :: bool

definition held_unbounded :: "activity_update \<Rightarrow> held_update" where
  "held_unbounded u = \<lparr>hd_update = u, hd_title_cut = False, hd_detail_cut = False, hd_content_cut = False\<rparr>"

definition exceeds_bound :: "activity_content \<Rightarrow> bool" where
  "exceeds_bound content =
     (let body = max_code_points Detail
      in case content of
           OutputContent out \<Rightarrow> body < str_len out
         | DiffContent files \<Rightarrow>
             DIFF_MAX_FILES < length files \<or>
             list_ex (\<lambda>f. MAX_PATH_LENGTH < str_len (fi_path f) \<or>
               (case fi_previous_path f of Some p \<Rightarrow> MAX_PATH_LENGTH < str_len p | None \<Rightarrow> False)) files \<or>
             (let texts = List.map_filter (\<lambda>b. b) (concat (map bodies files))
              in list_ex (\<lambda>s. body < str_len s) texts \<or>
                 DIFF_MAX_CONTENT_LENGTH < foldl (\<lambda>total s. sat_add total (str_len s)) 0 texts)
         | _ \<Rightarrow> False)"

text \<open>\<open>Held::bounded\<close>: each field that may be over its bound is bounded alone, as the sink will.\<close>

definition hold_field :: "bool \<Rightarrow> activity_update \<Rightarrow> activity_update \<times> bool" where
  "hold_field over u =
     (if over then (let b = activity_update_normalized u in (b\<lparr>au_truncated := False\<rparr>, au_truncated b)) else (u, False))"

definition held_bounded :: "activity_update \<Rightarrow> held_update" where
  "held_bounded u =
     (let (t, title_cut) = (case au_title u of
            Some s \<Rightarrow> hold_field (max_code_points Title < str_len s) (activity_update_new\<lparr>au_title := Some s\<rparr>)
          | None \<Rightarrow> (activity_update_new, False));
          (d, detail_cut) = (case au_detail u of
            Some s \<Rightarrow> hold_field (max_code_points Detail < str_len s) (activity_update_new\<lparr>au_detail := Some s\<rparr>)
          | None \<Rightarrow> (activity_update_new, False));
          (c, content_cut) = (case au_content u of
            Some x \<Rightarrow> hold_field (exceeds_bound x) (activity_update_new\<lparr>au_content := Some x\<rparr>)
          | None \<Rightarrow> (activity_update_new, False))
      in \<lparr>hd_update = \<lparr>au_title = au_title t, au_detail = au_detail d, au_content = au_content c, au_truncated = False\<rparr>,
          hd_title_cut = title_cut, hd_detail_cut = detail_cut, hd_content_cut = content_cut\<rparr>)"

definition merged_with :: "held_update \<Rightarrow> held_update \<Rightarrow> held_update" where
  "merged_with h later =
     (let u = hd_update h; v = hd_update later
      in \<lparr>hd_update = u\<lparr>au_title := (if au_title v \<noteq> None then au_title v else au_title u),
              au_detail := (if au_detail v \<noteq> None then au_detail v else au_detail u),
              au_content := (if au_content v \<noteq> None then au_content v else au_content u)\<rparr>,
          hd_title_cut = (if au_title v \<noteq> None then hd_title_cut later else hd_title_cut h),
          hd_detail_cut = (if au_detail v \<noteq> None then hd_detail_cut later else hd_detail_cut h),
          hd_content_cut = (if au_content v \<noteq> None then hd_content_cut later else hd_content_cut h)\<rparr>)"

definition superseded_by :: "held_update \<Rightarrow> activity_result \<Rightarrow> held_update" where
  "superseded_by h result =
     (let u = hd_update h
      in \<lparr>hd_update = u\<lparr>au_content := (if ar_content result \<noteq> None then None else au_content u),
              au_detail := (if ar_detail result \<noteq> None then None else au_detail u)\<rparr>,
          hd_title_cut = hd_title_cut h,
          hd_detail_cut = (hd_detail_cut h \<and> ar_detail result = None),
          hd_content_cut = (hd_content_cut h \<and> ar_content result = None)\<rparr>)"

definition into_update :: "held_update \<Rightarrow> activity_update" where
  "into_update h = (hd_update h)\<lparr>au_truncated := hd_title_cut h \<or> hd_detail_cut h \<or> hd_content_cut h\<rparr>"

definition held_is_empty :: "held_update \<Rightarrow> bool" where
  "held_is_empty h = activity_update_is_empty (hd_update h)"

record open_call =
  oc_opened :: "64 word"
  oc_last_update :: "nat option"
  oc_held :: "held_update option"

subsection \<open>The summary of a compaction\<close>

record summary =
  sm_text :: ustring
  sm_code_points :: usize
  sm_cut :: bool

definition summary_default :: summary where
  "summary_default = \<lparr>sm_text = [], sm_code_points = 0, sm_cut = False\<rparr>"

text \<open>\<open>None\<close> would be the panic of a slice off a character's boundary.\<close>

definition summary_append :: "summary \<Rightarrow> ustring \<Rightarrow> (summary \<times> bool) option" where
  "summary_append s raw =
     (let clean = sanitize_field raw;
          room = max_code_points Detail - sm_code_points s;
          cut_at = (case nth_opt (char_indices_from 0 (bt_text clean)) room of
              Some (i, _) \<Rightarrow> i | None \<Rightarrow> str_len (bt_text clean))
      in map_option (\<lambda>(fitting, _).
           let newly_cut = (\<not> sm_cut s \<and> (bt_truncated clean \<or> cut_at < str_len (bt_text clean)))
           in (\<lparr>sm_text = sm_text s @ fitting, sm_code_points = sm_code_points s + length fitting,
                sm_cut = (sm_cut s \<or> newly_cut)\<rparr>,
               fitting \<noteq> [] \<or> newly_cut))
           (split_at_byte (bt_text clean) cut_at))"

definition summary_replace :: "content_block list \<Rightarrow> summary option" where
  "summary_replace blocks =
     foldl (\<lambda>s t. Option.bind s (\<lambda>s. map_option fst (summary_append s t))) (Some summary_default)
       (List.map_filter plain_text blocks)"

definition summary_had :: "summary \<Rightarrow> bool" where
  "summary_had s \<longleftrightarrow> sm_text s \<noteq> [] \<or> sm_cut s"

definition summary_content :: "summary \<Rightarrow> activity_content" where
  "summary_content s = (if sm_text s = [] then EmptyContent else OutputContent (sm_text s))"

record compaction =
  co_summary :: summary
  co_error :: "ustring option"
  co_error_cut :: bool

definition compaction_default :: compaction where
  "compaction_default = \<lparr>co_summary = summary_default, co_error = None, co_error_cut = False\<rparr>"

subsection \<open>The reducer\<close>

record acp_env =
  en_kind :: tool_kind
  en_status :: tool_status
  en_msg :: "ustring \<Rightarrow> ustring"

type_synonym call_digest = "128 word"

record acp_reducer =
  rd_reasoning_open :: bool
  rd_plan_started :: bool
  rd_open_calls :: "(ustring \<times> open_call) list"
  rd_finished_calls :: "call_digest set"
  rd_digest :: "ustring \<Rightarrow> call_digest"
  rd_next_call :: "64 word"
  rd_update_interval :: nat
  rd_compactions :: "(ustring \<times> compaction) list"

definition TOOL_UPDATE_INTERVAL :: nat where
  "TOOL_UPDATE_INTERVAL = 5 * 10 ^ 9"

definition acp_reducer_new :: "(ustring \<Rightarrow> call_digest) \<Rightarrow> acp_reducer" where
  "acp_reducer_new digest =
     \<lparr>rd_reasoning_open = False, rd_plan_started = False, rd_open_calls = [], rd_finished_calls = {},
      rd_digest = digest, rd_next_call = 0, rd_update_interval = TOOL_UPDATE_INTERVAL, rd_compactions = []\<rparr>"

definition with_update_interval :: "acp_reducer \<Rightarrow> nat \<Rightarrow> acp_reducer" where
  "with_update_interval r interval = r\<lparr>rd_update_interval := interval\<rparr>"

definition is_finished :: "acp_reducer \<Rightarrow> ustring \<Rightarrow> bool" where
  "is_finished r i \<longleftrightarrow> rd_digest r i \<in> rd_finished_calls r"

definition mark_finished :: "ustring \<Rightarrow> acp_reducer \<Rightarrow> acp_reducer" where
  "mark_finished i r = r\<lparr>rd_finished_calls := insert (rd_digest r i) (rd_finished_calls r)\<rparr>"

definition is_open :: "acp_reducer \<Rightarrow> ustring \<Rightarrow> bool" where
  "is_open r i \<longleftrightarrow> map_of (rd_open_calls r) i \<noteq> None"

definition track :: "ustring \<Rightarrow> bool \<Rightarrow> acp_reducer \<Rightarrow> acp_reducer" where
  "track i finished r =
     (if finished then mark_finished i r
      else r\<lparr>rd_next_call := rd_next_call r + 1,
             rd_open_calls := AList.update i \<lparr>oc_opened = rd_next_call r, oc_last_update = None, oc_held = None\<rparr>
               (rd_open_calls r)\<rparr>)"

definition close_reasoning :: "acp_reducer \<Rightarrow> acp_reducer \<times> ('f, 'l) payload event_kind list" where
  "close_reasoning r =
     (r\<lparr>rd_reasoning_open := False\<rparr>, if rd_reasoning_open r then [ReasoningEnded] else [])"

definition reasoning_delta :: "content_block \<Rightarrow> acp_reducer \<Rightarrow> acp_reducer \<times> ('f, 'l) payload event_kind list" where
  "reasoning_delta c r =
     (case plain_text c of
        None \<Rightarrow> (r, [])
      | Some t \<Rightarrow>
          (r\<lparr>rd_reasoning_open := True\<rparr>,
           (if rd_reasoning_open r then [] else [ReasoningStarted]) @ [ReasoningDelta t]))"

definition acp_plan :: "plan_entry list \<Rightarrow> acp_reducer \<Rightarrow> acp_reducer \<times> ('f, 'l) payload event_kind list" where
  "acp_plan plan r =
     (r\<lparr>rd_plan_started := True\<rparr>,
      if rd_plan_started r then
        [ActivityUpdated PLAN_CALL_ID (UpdatePayload (activity_update_new
           \<lparr>au_title := Some (plan_title plan), au_detail := Some (plan_detail plan), au_content := Some (plan_content plan)\<rparr>))]
      else
        [ActivityStarted PLAN_CALL_ID (ActivityPayload ((activity_new (lit ''plan'') Plan (plan_title plan))
           \<lparr>ac_detail := Some (plan_detail plan), ac_content := Some (plan_content plan)\<rparr>))])"

subsection \<open>Tool calls\<close>

text \<open>
  A change to a running call is delivered, or held when the last delivery is younger than the interval
  (\<open>tool_call_update\<close>, \<open>compaction_changed\<close>); what ends a call first delivers what is still held of it
  (\<open>tool_call_update\<close>, \<open>close_compaction\<close>).
\<close>

definition recent :: "acp_reducer \<Rightarrow> open_call \<Rightarrow> nat \<Rightarrow> bool" where
  "recent r c now = (case oc_last_update c of Some before \<Rightarrow> now - before < rd_update_interval r | None \<Rightarrow> False)"

definition deliver_or_hold ::
  "ustring \<Rightarrow> open_call \<Rightarrow> held_update \<Rightarrow> nat \<Rightarrow> acp_reducer \<Rightarrow> acp_reducer \<times> ('f, 'l) payload event_kind list" where
  "deliver_or_hold i c later now r =
     (let merged = (case oc_held c of Some h \<Rightarrow> merged_with h later | None \<Rightarrow> later)
      in if recent r c now
         then (r\<lparr>rd_open_calls := AList.update i (c\<lparr>oc_held := Some merged\<rparr>) (rd_open_calls r)\<rparr>, [])
         else (r\<lparr>rd_open_calls := AList.update i (c\<lparr>oc_held := None, oc_last_update := Some now\<rparr>) (rd_open_calls r)\<rparr>,
           [ActivityUpdated i (UpdatePayload (into_update merged))]))"

definition last_held :: "ustring \<Rightarrow> held_update option \<Rightarrow> ('f, 'l) payload event_kind list" where
  "last_held i h =
     (case h of
        Some h \<Rightarrow> if held_is_empty h then [] else [ActivityUpdated i (UpdatePayload (into_update h))]
      | None \<Rightarrow> [])"

definition close_call ::
  "ustring \<Rightarrow> open_call \<Rightarrow> activity_result \<Rightarrow> acp_reducer \<Rightarrow> acp_reducer \<times> ('f, 'l) payload event_kind list" where
  "close_call i c result r =
     (mark_finished i (r\<lparr>rd_open_calls := AList.delete i (rd_open_calls r)\<rparr>),
      last_held i (map_option (\<lambda>h. superseded_by h result) (oc_held c)) @ [ActivityCompleted i (ResultPayload result)])"

definition update_open_call ::
  "tool_update \<Rightarrow> open_call \<Rightarrow> nat \<Rightarrow> acp_reducer \<Rightarrow> acp_reducer \<times> ('f, 'l) payload event_kind list" where
  "update_open_call u c now r =
     (case tool_call_change u of
        CallUnchanged \<Rightarrow> (r, [])
      | CallChanged v \<Rightarrow>
          deliver_or_hold (tp_id u) c (if recent r c now then held_bounded v else held_unbounded v) now r
      | CallEnded result \<Rightarrow> close_call (tp_id u) c result r)"

definition call_fields :: "tool_call \<Rightarrow> tool_update" where
  "call_fields c =
     \<lparr>tp_id = tc_id c, tp_title = Some (tc_title c), tp_name = None, tp_kind = Some (tc_kind c),
      tp_status = Some (tc_status c), tp_content = (if tc_content c = [] then None else Some (tc_content c)),
      tp_locations = (if tc_locations c = 0 then None else Some (tc_locations c))\<rparr>"

definition tool_call_frame ::
  "tool_call \<Rightarrow> nat \<Rightarrow> acp_reducer \<Rightarrow> acp_reducer \<times> ('f, 'l) payload event_kind list" where
  "tool_call_frame c now r =
     (case map_of (rd_open_calls r) (tc_id c) of
        Some oc \<Rightarrow> update_open_call (call_fields c) oc now r
      | None \<Rightarrow>
          if is_finished r (tc_id c) then (r, [])
          else (track (tc_id c) (tool_finished (tc_status c) \<noteq> None \<or> \<not> usable_call_id (tc_id c)) r, tool_call_events c))"

definition call_of_update :: "acp_env \<Rightarrow> tool_update \<Rightarrow> tool_call" where
  "call_of_update env u =
     \<lparr>tc_id = tp_id u,
      tc_title = (case tp_title u of Some t \<Rightarrow> if trim t \<noteq> [] then t else UNTITLED_TOOL_CALL | None \<Rightarrow> UNTITLED_TOOL_CALL),
      tc_name = tp_name u, tc_kind = (case tp_kind u of Some k \<Rightarrow> k | None \<Rightarrow> en_kind env),
      tc_status = (case tp_status u of Some s \<Rightarrow> s | None \<Rightarrow> en_status env),
      tc_content = (case tp_content u of Some c \<Rightarrow> c | None \<Rightarrow> []),
      tc_locations = (case tp_locations u of Some n \<Rightarrow> n | None \<Rightarrow> 0)\<rparr>"

definition tool_update_frame ::
  "acp_env \<Rightarrow> tool_update \<Rightarrow> nat \<Rightarrow> acp_reducer \<Rightarrow> acp_reducer \<times> ('f, 'l) payload event_kind list" where
  "tool_update_frame env u now r =
     (case map_of (rd_open_calls r) (tp_id u) of
        Some c \<Rightarrow> update_open_call u c now r
      | None \<Rightarrow>
          if is_finished r (tp_id u) then (r, []) else tool_call_frame (call_of_update env u) now r)"

subsection \<open>Compactions\<close>

abbreviation appended :: "summary \<Rightarrow> ustring \<Rightarrow> summary \<times> bool" where
  "appended s raw \<equiv> the (summary_append s raw)"

abbreviation replaced :: "content_block list \<Rightarrow> summary" where
  "replaced blocks \<equiv> the (summary_replace blocks)"

definition COMPACTION_NAME :: ustring where
  "COMPACTION_NAME = lit ''compact''"

definition COMPACTION_TITLE :: ustring where
  "COMPACTION_TITLE = lit ''Compacting the conversation''"

fun compaction_finished :: "compaction_status \<Rightarrow> activity_status option" where
  "compaction_finished CompactionCompleted = Some CompletedActivity"
| "compaction_finished CompactionFailed = Some FailedActivity"
| "compaction_finished CompactionCancelled = Some CancelledActivity"
| "compaction_finished _ = None"

definition compaction_started :: "ustring \<Rightarrow> ustring \<Rightarrow> ('f, 'l) payload event_kind" where
  "compaction_started call_id i =
     ActivityStarted call_id (ActivityPayload
       ((activity_new COMPACTION_NAME Compaction COMPACTION_TITLE)\<lparr>ac_item_id := Some i\<rparr>))"

definition open_compaction ::
  "ustring \<Rightarrow> ustring \<Rightarrow> acp_reducer \<Rightarrow> acp_reducer \<times> ('f, 'l) payload event_kind list option" where
  "open_compaction call_id i r =
     (if is_open r call_id then (r, Some [])
      else if is_finished r call_id then (r, None)
      else
        (let refused = \<not> usable_call_id call_id;
             r1 = track call_id refused r
         in (if refused then r1
             else r1\<lparr>rd_compactions := AList.update call_id compaction_default (rd_compactions r1)\<rparr>,
             Some [compaction_started call_id i])))"

definition compaction_changed ::
  "ustring \<Rightarrow> held_update \<Rightarrow> nat \<Rightarrow> acp_reducer \<Rightarrow> acp_reducer \<times> ('f, 'l) payload event_kind list" where
  "compaction_changed call_id later now r =
     (if held_is_empty later then (r, [])
      else case map_of (rd_open_calls r) call_id of
             None \<Rightarrow> (r, [])
           | Some c \<Rightarrow> deliver_or_hold call_id c later now r)"

definition close_compaction ::
  "ustring \<Rightarrow> activity_result \<Rightarrow> acp_reducer \<Rightarrow> acp_reducer \<times> ('f, 'l) payload event_kind list" where
  "close_compaction call_id result r =
     (let h = map_option (\<lambda>h. superseded_by h result) (Option.bind (map_of (rd_open_calls r) call_id) oc_held);
          r1 = r\<lparr>rd_open_calls := AList.delete call_id (rd_open_calls r),
                 rd_compactions := AList.delete call_id (rd_compactions r)\<rparr>
      in (mark_finished call_id r1, last_held call_id h @ [ActivityCompleted call_id (ResultPayload result)]))"

text \<open>The patches of a frame to what a compaction shows, and whether each changed it.\<close>

definition patch_summary :: "content_block list maybe_undefined \<Rightarrow> summary \<Rightarrow> summary \<times> bool" where
  "patch_summary p s =
     (case p of
        Undefined \<Rightarrow> (s, False)
      | NullValue \<Rightarrow> (summary_default, summary_had s)
      | Defined blocks \<Rightarrow> (let s' = replaced blocks in (s', summary_had s \<or> summary_had s')))"

definition patch_error ::
  "(ustring \<Rightarrow> ustring) \<Rightarrow> ustring maybe_undefined \<Rightarrow> compaction \<Rightarrow> compaction \<times> bool" where
  "patch_error msg p co =
     (case p of
        Undefined \<Rightarrow> (co, False)
      | NullValue \<Rightarrow> (co\<lparr>co_error := None, co_error_cut := False\<rparr>, co_error co \<noteq> None)
      | Defined e \<Rightarrow>
          (let b = redact_bounded msg e Detail
           in (co\<lparr>co_error := Some (bt_text b), co_error_cut := bt_truncated b\<rparr>, True)))"

definition compaction_update ::
  "acp_env \<Rightarrow> compaction_frame \<Rightarrow> nat \<Rightarrow> acp_reducer \<Rightarrow> acp_reducer \<times> ('f, 'l) payload event_kind list" where
  "compaction_update env u now r =
     (let call_id = compaction_call_id (cu_id u)
      in case open_compaction call_id (cu_id u) r of
           (r1, None) \<Rightarrow> (r1, [])
         | (r1, Some opening) \<Rightarrow>
             (case map_of (rd_compactions r1) call_id of
                None \<Rightarrow> (r1, opening)
              | Some co \<Rightarrow>
                  (let (summary, summary_patched) = patch_summary (cu_summary u) (co_summary co);
                       (co', error_patched) = patch_error (en_msg env) (cu_error u) (co\<lparr>co_summary := summary\<rparr>);
                       r2 = r1\<lparr>rd_compactions := AList.update call_id co' (rd_compactions r1)\<rparr>;
                       content = (if summary_patched then Some (summary_content summary) else None);
                       content_cut = (summary_patched \<and> sm_cut summary)
                   in case compaction_finished (cu_status u) of
                        Some status \<Rightarrow>
                          (let detail = (case co_error co' of Some e \<Rightarrow> Some e
                                 | None \<Rightarrow> if error_patched then Some [] else None);
                               (r3, es) = close_compaction call_id
                                 \<lparr>ar_status = status, ar_detail = detail, ar_content = content,
                                  ar_truncated = (content_cut \<or> co_error_cut co')\<rparr> r2
                           in (r3, opening @ es))
                      | None \<Rightarrow>
                          (let h = (held_unbounded (activity_update_new
                                 \<lparr>au_detail := (if error_patched
                                    then Some (case co_error co' of Some e \<Rightarrow> e | None \<Rightarrow> []) else None),
                                  au_content := content\<rparr>))
                                 \<lparr>hd_detail_cut := error_patched \<and> co_error_cut co', hd_content_cut := content_cut\<rparr>;
                               (r3, es) = compaction_changed call_id h now r2
                           in (r3, opening @ es)))))"

definition compaction_chunk ::
  "ustring \<Rightarrow> content_block \<Rightarrow> nat \<Rightarrow> acp_reducer \<Rightarrow> acp_reducer \<times> ('f, 'l) payload event_kind list" where
  "compaction_chunk i content now r =
     (let call_id = compaction_call_id i
      in case open_compaction call_id i r of
           (r1, None) \<Rightarrow> (r1, [])
         | (r1, Some opening) \<Rightarrow>
             (case map_of (rd_compactions r1) call_id of
                None \<Rightarrow> (r1, opening)
              | Some co \<Rightarrow>
                  (case plain_text content of
                     None \<Rightarrow> (r1, opening)
                   | Some t \<Rightarrow>
                       (let (summary, changed) = appended (co_summary co) t;
                            r2 = r1\<lparr>rd_compactions := AList.update call_id (co\<lparr>co_summary := summary\<rparr>) (rd_compactions r1)\<rparr>
                        in if \<not> changed then (r2, opening)
                           else
                             (let h = (held_unbounded (activity_update_new\<lparr>au_content := Some (summary_content summary)\<rparr>))
                                    \<lparr>hd_content_cut := sm_cut summary\<rparr>;
                                  (r3, es) = compaction_changed call_id h now r2
                              in (r3, opening @ es))))))"

subsection \<open>Frames and turns\<close>

definition severity_of :: "wire_severity \<Rightarrow> notice_severity" where
  "severity_of s =
     (case s of
        WireInfo \<Rightarrow> InfoSeverity
      | WireWarning \<Rightarrow> WarningSeverity
      | WireError \<Rightarrow> ErrorSeverity
      | WireOther name \<Rightarrow> OtherSeverity name
      | WireUnknown name \<Rightarrow> OtherSeverity (case name of Some n \<Rightarrow> n | None \<Rightarrow> lit ''unknown''))"

definition severity_normalized :: "(ustring \<Rightarrow> ustring) \<Rightarrow> notice_severity \<Rightarrow> notice_severity" where
  "severity_normalized msg s =
     (case s of
        OtherSeverity name \<Rightarrow>
          (let name = bt_text (redact_bounded msg name ActivityName)
           in if trim name = [] then InfoSeverity else OtherSeverity name)
      | known \<Rightarrow> known)"

definition payload_normalizers :: "(ustring \<Rightarrow> ustring) \<Rightarrow> ('f, 'l) payload normalizers" where
  "payload_normalizers msg =
     \<lparr>n_text = msg, n_payload = Ok,
      n_severity = (\<lambda>p. case p of SeverityPayload s \<Rightarrow> SeverityPayload (severity_normalized msg s) | _ \<Rightarrow> p)\<rparr>"

definition acp_notice :: "acp_env \<Rightarrow> wire_severity \<Rightarrow> ustring \<Rightarrow> ustring option \<Rightarrow> ('f, 'l) payload event_kind list" where
  "acp_notice env s title description =
     (case notice (payload_normalizers (en_msg env)) (SeverityPayload (severity_of s)) title description of
        Some e \<Rightarrow> [e] | None \<Rightarrow> [])"

definition usage_event :: "64 word \<Rightarrow> 64 word \<Rightarrow> ('f, 'l) payload event_kind" where
  "usage_event used context_size =
     ThreadUsage (ThreadUsagePayload
       \<lparr>tu_last = None,
        tu_total = Some \<lparr>us_input = None, us_output = None, us_cache_read = None, us_cache_write = None,
          us_reasoning = None, us_total = Some used\<rparr>,
        tu_context_window = Some context_size\<rparr>)"

definition no_facts ::
  "acp_reducer \<times> ('f, 'l) payload event_kind list \<Rightarrow>
   acp_reducer \<times> ('f, 'l) payload event_kind list \<times> 'o session_fact list" where
  "no_facts x = (fst x, snd x, [])"

definition acp_body ::
  "acp_env \<Rightarrow> 'o session_update \<Rightarrow> nat \<Rightarrow> acp_reducer \<Rightarrow>
   acp_reducer \<times> ('f, 'l) payload event_kind list \<times> 'o session_fact list" where
  "acp_body env update now r =
     (case update of
        AgentMessageChunk c \<Rightarrow> (r, case plain_text c of Some t \<Rightarrow> [TextDelta t] | None \<Rightarrow> [], [])
      | AgentThoughtChunk c \<Rightarrow> no_facts (reasoning_delta c r)
      | ToolCallFrame c \<Rightarrow> no_facts (tool_call_frame (c\<lparr>tc_id := clear_of_plan (tc_id c)\<rparr>) now r)
      | ToolCallUpdateFrame u \<Rightarrow> no_facts (tool_update_frame env (u\<lparr>tp_id := clear_of_plan (tp_id u)\<rparr>) now r)
      | PlanFrame p \<Rightarrow> no_facts (acp_plan p r)
      | AvailableCommandsUpdate catalog \<Rightarrow> (r, [], [commands_fact catalog])
      | UsageUpdate used context_size \<Rightarrow> (r, [usage_event used context_size], [])
      | ConfigOptionUpdate options \<Rightarrow> (r, [], [ConfigurationOptions options])
      | CompactionUpdateFrame u \<Rightarrow> no_facts (compaction_update env u now r)
      | CompactionSummaryFrame i c \<Rightarrow> no_facts (compaction_chunk i c now r)
      | NoticeFrame s title description \<Rightarrow> (r, acp_notice env s title description, [])
      | _ \<Rightarrow> (r, [], []))"

definition update_at ::
  "acp_env \<Rightarrow> 'o session_update \<Rightarrow> nat \<Rightarrow> acp_reducer \<Rightarrow>
   acp_reducer \<times> ('f, 'l) payload event_kind list \<times> 'o session_fact list" where
  "update_at env update now r =
     (let (r1, closing) = (if is_transcript update then close_reasoning r else (r, []));
          (r2, es, facts) = acp_body env update now r1
      in (r2, closing @ es, facts))"

fun finish_calls ::
  "activity_status \<Rightarrow> (ustring \<times> open_call) list \<Rightarrow> acp_reducer \<Rightarrow> acp_reducer \<times> ('f, 'l) payload event_kind list" where
  "finish_calls status [] r = (r, [])"
| "finish_calls status ((i, c) # open) r =
     (let (r', es) = finish_calls status open (mark_finished i r)
      in (r', last_held i (oc_held c) @ [ActivityCompleted i (ResultPayload (activity_result_new status))] @ es))"

definition finish_with ::
  "activity_status \<Rightarrow> acp_reducer \<Rightarrow> acp_reducer \<times> ('f, 'l) payload event_kind list" where
  "finish_with status r =
     (let (r1, closing) = close_reasoning r;
          open = sort_key (oc_opened \<circ> snd) (rd_open_calls r1);
          (r2, es) = finish_calls status open (r1\<lparr>rd_compactions := [], rd_open_calls := []\<rparr>)
      in (r2\<lparr>rd_plan_started := False\<rparr>,
          closing @ es @
          (if rd_plan_started r2
           then [ActivityCompleted PLAN_CALL_ID (ResultPayload (activity_result_new CompletedActivity))] else [])))"

definition acp_finish :: "acp_reducer \<Rightarrow> acp_reducer \<times> ('f, 'l) payload event_kind list" where
  "acp_finish r = finish_with CompletedActivity r"

definition open_call_ids :: "acp_reducer \<Rightarrow> ustring list" where
  "open_call_ids r = map fst (rd_open_calls r)"

text \<open>The updates of a prompt, each with the instant it was read at.\<close>

fun acp_run ::
  "acp_env \<Rightarrow> ('o session_update \<times> nat) list \<Rightarrow> acp_reducer \<Rightarrow> acp_reducer \<times> ('f, 'l) payload event_kind list" where
  "acp_run env [] r = (r, [])"
| "acp_run env ((u, now) # us) r =
     (let (r1, es, facts) = update_at env u now r; (r2, fs) = acp_run env us r1 in (r2, es @ fs))"

subsection \<open>The end of a prompt\<close>

datatype stop_reason = EndTurn | MaxTokens | MaxTurnRequests | RefusalStop | CancelledStop | OtherStop

definition was_cancelled :: "stop_reason \<Rightarrow> bool" where
  "was_cancelled s \<longleftrightarrow> s = CancelledStop"

definition TURN_INCOMPLETE_CODE :: ustring where
  "TURN_INCOMPLETE_CODE = lit ''vendor-turn-incomplete''"

text \<open>\<open>wire\<close> is serde's spelling of a stop reason.\<close>

definition stop_failure :: "(stop_reason \<Rightarrow> ustring option) \<Rightarrow> stop_reason \<Rightarrow> vendor_error option" where
  "stop_failure wire s =
     (let failed = (\<lambda>message. Some (with_vendor_code (case wire s of Some w \<Rightarrow> w | None \<Rightarrow> lit ''unknown'') False
          (vendor_error_new (ErrorCode TURN_INCOMPLETE_CODE) message)))
      in case s of
           EndTurn \<Rightarrow> None
         | CancelledStop \<Rightarrow> None
         | MaxTokens \<Rightarrow> failed (lit ''the agent stopped the turn at its token limit'')
         | MaxTurnRequests \<Rightarrow> failed (lit ''the agent stopped the turn at its request limit'')
         | RefusalStop \<Rightarrow> failed (lit ''the agent refused to continue the turn'')
         | OtherStop \<Rightarrow> failed (lit ''the agent ended the turn before finishing it''))"

subsection \<open>What a frame does to one call\<close>

datatype call_mark = Announced | Changed | Ended

fun mark_for :: "ustring \<Rightarrow> 'p event_kind \<Rightarrow> call_mark option" where
  "mark_for c (ActivityStarted i _) = (if i = c then Some Announced else None)"
| "mark_for c (ActivityUpdated i _) = (if i = c then Some Changed else None)"
| "mark_for c (ActivityCompleted i _) = (if i = c then Some Ended else None)"
| "mark_for c _ = None"

definition call_trace :: "ustring \<Rightarrow> 'p event_kind list \<Rightarrow> call_mark list" where
  "call_trace c es = List.map_filter (mark_for c) es"

lemma call_trace_simps [simp]:
  "call_trace c [] = []" "call_trace c (e # es) = (case mark_for c e of Some m \<Rightarrow> [m] | None \<Rightarrow> []) @ call_trace c es"
  "call_trace c (es @ fs) = call_trace c es @ call_trace c fs"
  by (simp_all add: call_trace_def map_filter_def split: option.split)

fun is_activity_event :: "'p event_kind \<Rightarrow> bool" where
  "is_activity_event (ActivityStarted _ _) = True"
| "is_activity_event (ActivityUpdated _ _) = True"
| "is_activity_event (ActivityCompleted _ _) = True"
| "is_activity_event _ = False"

definition keys_ok :: "acp_reducer \<Rightarrow> bool" where
  "keys_ok r \<longleftrightarrow> distinct (map fst (rd_open_calls r))"

text \<open>
  The steps of call \<open>i\<close>: it goes on, ends, is left alone, is announced, or is announced and over. Every
  other call is left alone, and a call that ended is remembered.
\<close>

definition goes_on :: "call_mark list \<Rightarrow> bool" where
  "goes_on t \<longleftrightarrow> t = replicate (length t) Changed"

definition ends :: "call_mark list \<Rightarrow> bool" where
  "ends t \<longleftrightarrow> t \<noteq> [] \<and> last t = Ended \<and> goes_on (butlast t)"

definition announced_then :: "(call_mark list \<Rightarrow> bool) \<Rightarrow> call_mark list \<Rightarrow> bool" where
  "announced_then P t \<longleftrightarrow> t \<noteq> [] \<and> hd t = Announced \<and> P (tl t)"

text \<open>Open and remembered as finished, before and after; and the marks between.\<close>

definition phase_step :: "bool \<Rightarrow> bool \<Rightarrow> bool \<Rightarrow> bool \<Rightarrow> bool \<Rightarrow> call_mark list \<Rightarrow> bool" where
  "phase_step usable now fin later fin' t \<longleftrightarrow>
     (usable \<longrightarrow>
       (if now then (if later then goes_on t else fin' \<and> ends t)
        else if later then \<not> fin \<and> announced_then goes_on t
        else t = [] \<or> \<not> fin \<and> fin' \<and> announced_then ends t))"

definition call_step :: "ustring \<Rightarrow> acp_reducer \<Rightarrow> acp_reducer \<Rightarrow> ('f, 'l) payload event_kind list \<Rightarrow> bool" where
  "call_step i r r' es \<longleftrightarrow>
     rd_digest r' = rd_digest r \<and> rd_finished_calls r \<subseteq> rd_finished_calls r' \<and>
     rd_plan_started r' = rd_plan_started r \<and> rd_reasoning_open r' = rd_reasoning_open r \<and>
     (keys_ok r \<longrightarrow> keys_ok r') \<and> (\<forall>c. c \<noteq> i \<longrightarrow> call_trace c es = [] \<and> is_open r' c = is_open r c) \<and>
     list_all is_activity_event es \<and>
     phase_step (usable_call_id i) (is_open r i) (is_finished r i) (is_open r' i) (is_finished r' i) (call_trace i es)"

lemma goes_on_set: "goes_on t \<longleftrightarrow> (\<forall>m \<in> set t. m = Changed)"
  unfolding goes_on_def by (induction t) auto

lemma goes_on_simps [simp]: "goes_on []" "goes_on [Changed]" "goes_on (s @ t) \<longleftrightarrow> goes_on s \<and> goes_on t"
  by (auto simp: goes_on_set)

lemma last_held_trace [simp]:
  "c \<noteq> i \<Longrightarrow> call_trace c (last_held i h) = []" "goes_on (call_trace i (last_held i h))"
  "list_all is_activity_event (last_held i h)"
  by (simp_all add: last_held_def split: option.split)

lemma ends_simps [simp]: "ends [Ended]" "\<not> ends []" "ends (s @ [Ended]) \<longleftrightarrow> goes_on s"
    "announced_then P (Announced # t) \<longleftrightarrow> P t" "\<not> announced_then P []"
  by (auto simp: ends_def announced_then_def)

lemma ends_append: "goes_on s \<Longrightarrow> ends t \<Longrightarrow> ends (s @ t)"
  by (auto simp: ends_def butlast_append)

lemma announced_append: "announced_then P s \<Longrightarrow> (P (tl s) \<Longrightarrow> Q (tl s @ t)) \<Longrightarrow> announced_then Q (s @ t)"
  by (cases s) (auto simp: announced_then_def)

lemma phase_trans:
  assumes "phase_step u a f b g s" "phase_step u b g c h t" "f \<longrightarrow> g" "g \<longrightarrow> h"
  shows "phase_step u a f c h (s @ t)"
proof (cases u)
  case True
  have "goes_on s \<Longrightarrow> ends t \<Longrightarrow> ends (s @ t)" by (rule ends_append)
  moreover have "announced_then goes_on s \<Longrightarrow> goes_on t \<Longrightarrow> announced_then goes_on (s @ t)"
      "announced_then goes_on s \<Longrightarrow> ends t \<Longrightarrow> announced_then ends (s @ t)"
    by (auto intro: announced_append ends_append)
  ultimately show ?thesis
    using assms True by (cases a; cases b; cases c) (auto simp: phase_step_def)
qed (simp add: phase_step_def)

lemma call_step_trans:
  assumes "call_step i r r1 es" "call_step i r1 r2 fs"
  shows "call_step i r r2 (es @ fs)"
proof -
  have mono: "is_finished r1 i \<longrightarrow> is_finished r2 i" "is_finished r i \<longrightarrow> is_finished r1 i"
    using assms by (auto simp: call_step_def is_finished_def)
  have "phase_step (usable_call_id i) (is_open r i) (is_finished r i) (is_open r2 i) (is_finished r2 i)
      (call_trace i es @ call_trace i fs)"
    using assms by (intro phase_trans [OF _ _ mono(2,1), of _ _ "is_open r1 i"]) (simp_all add: call_step_def)
  with assms show ?thesis by (simp add: call_step_def subset_iff)
qed

lemma is_open_fields [simp]:
  "is_open (r\<lparr>rd_open_calls := AList.update i oc (rd_open_calls r)\<rparr>) c \<longleftrightarrow> c = i \<or> is_open r c"
  "is_open (r\<lparr>rd_open_calls := AList.delete i (rd_open_calls r)\<rparr>) c \<longleftrightarrow> c \<noteq> i \<and> is_open r c"
  "is_open (r\<lparr>rd_reasoning_open := b\<rparr>) c = is_open r c" "is_open (r\<lparr>rd_plan_started := b\<rparr>) c = is_open r c"
  "is_open (r\<lparr>rd_compactions := cs\<rparr>) c = is_open r c" "is_open (mark_finished i r) c = is_open r c"
  "is_open (r\<lparr>rd_next_call := n\<rparr>) c = is_open r c"
  by (simp_all add: is_open_def mark_finished_def update_conv' delete_conv')

lemma keys_ok_fields [simp]:
  "keys_ok r \<Longrightarrow> keys_ok (r\<lparr>rd_open_calls := AList.update i oc (rd_open_calls r)\<rparr>)"
  "keys_ok r \<Longrightarrow> keys_ok (r\<lparr>rd_open_calls := AList.delete i (rd_open_calls r)\<rparr>)"
  "keys_ok (r\<lparr>rd_compactions := cs\<rparr>) = keys_ok r" "keys_ok (mark_finished i r) = keys_ok r"
  "keys_ok (r\<lparr>rd_reasoning_open := b\<rparr>) = keys_ok r" "keys_ok (r\<lparr>rd_plan_started := b\<rparr>) = keys_ok r"
  "keys_ok (r\<lparr>rd_next_call := n\<rparr>) = keys_ok r"
  by (simp_all add: keys_ok_def mark_finished_def distinct_update distinct_delete)

lemma mark_finished_fields [simp]:
  "rd_digest (mark_finished i r) = rd_digest r" "rd_plan_started (mark_finished i r) = rd_plan_started r"
  "rd_reasoning_open (mark_finished i r) = rd_reasoning_open r" "is_finished (mark_finished i r) i"
  "rd_open_calls (mark_finished i r) = rd_open_calls r" "rd_compactions (mark_finished i r) = rd_compactions r"
  "rd_finished_calls (mark_finished i r) = insert (rd_digest r i) (rd_finished_calls r)"
  "rd_update_interval (mark_finished i r) = rd_update_interval r" "rd_next_call (mark_finished i r) = rd_next_call r"
  by (simp_all add: mark_finished_def is_finished_def)

lemmas step_defs = call_step_def phase_step_def

lemma call_step_same: "call_step i r r []"
  by (auto simp: step_defs)

lemma call_step_frame:
  "rd_digest r' = rd_digest r \<Longrightarrow> rd_finished_calls r' = rd_finished_calls r \<Longrightarrow> rd_plan_started r' = rd_plan_started r \<Longrightarrow>
   rd_reasoning_open r' = rd_reasoning_open r \<Longrightarrow> rd_open_calls r' = rd_open_calls r \<Longrightarrow> call_step i r r' []"
  by (auto simp: step_defs keys_ok_def is_open_def)

lemma deliver_or_hold_step:
  assumes "is_open r i" "deliver_or_hold i c later now r = (r', es)"
  shows "call_step i r r' (es :: ('f, 'l) payload event_kind list)"
  using assms by (auto simp: step_defs deliver_or_hold_def Let_def split: if_splits)

lemma close_call_step:
  assumes "is_open r i" "close_call i c result r = (r', es)"
  shows "call_step i r r' (es :: ('f, 'l) payload event_kind list)"
  using assms by (auto simp: step_defs close_call_def is_finished_def)

lemma update_open_call_step:
  assumes "is_open r (tp_id u)" "update_open_call u c now r = (r', es)"
  shows "call_step (tp_id u) r r' (es :: ('f, 'l) payload event_kind list)"
  using assms deliver_or_hold_step close_call_step call_step_same
  by (fastforce simp: update_open_call_def split: call_change.splits)

lemma track_step:
  assumes "\<not> is_open r i" "\<not> is_finished r i" "es = ActivityStarted i a # (if ended then [ActivityCompleted i x] else [])"
  shows "call_step i r (track i (ended \<or> \<not> usable_call_id i) r) (es :: ('f, 'l) payload event_kind list)"
  using assms
  by (auto simp: step_defs track_def is_finished_def is_open_def keys_ok_def update_conv' distinct_update split: if_splits)

lemma tool_call_frame_step:
  assumes "tool_call_frame c now r = (r', es)"
  shows "call_step (tc_id c) r r' (es :: ('f, 'l) payload event_kind list)"
proof (cases "map_of (rd_open_calls r) (tc_id c)")
  case None
  let ?x = "case tool_finished (tc_status c) of Some x \<Rightarrow> x | None \<Rightarrow> activity_result_new CompletedActivity"
  have "(tool_call_events c :: ('f, 'l) payload event_kind list) =
      ActivityStarted (tc_id c) (ActivityPayload (tool_call_activity c)) #
        (if tool_finished (tc_status c) \<noteq> None then [ActivityCompleted (tc_id c) (ResultPayload ?x)] else [])"
    by (simp add: tool_call_events_def split: option.split)
  from track_step [OF _ _ this] show ?thesis
    using assms None call_step_same by (auto simp: tool_call_frame_def is_open_def split: if_splits)
next
  case (Some oc)
  then show ?thesis
    using assms update_open_call_step [of r "call_fields c" oc now r' es]
    by (simp add: tool_call_frame_def is_open_def call_fields_def)
qed

lemma tool_update_frame_step:
  assumes "tool_update_frame env u now r = (r', es)"
  shows "call_step (tp_id u) r r' (es :: ('f, 'l) payload event_kind list)"
proof (cases "map_of (rd_open_calls r) (tp_id u)")
  case None
  then show ?thesis
    using assms tool_call_frame_step [of "call_of_update env u" now r r' es] call_step_same
    by (auto simp: tool_update_frame_def call_of_update_def split: if_splits)
next
  case (Some c)
  then show ?thesis
    using assms update_open_call_step [of r u c now r' es] by (simp add: tool_update_frame_def is_open_def)
qed

lemma open_compaction_step:
  assumes "open_compaction i x r = (r', opening)"
  shows "call_step i r r' (case opening of Some es \<Rightarrow> es | None \<Rightarrow> ([] :: ('f, 'l) payload event_kind list))"
proof (cases "is_open r i \<or> is_finished r i")
  case True
  then show ?thesis using assms call_step_same by (auto simp: open_compaction_def split: if_splits)
next
  case False
  let ?es = "[compaction_started i x] :: ('f, 'l) payload event_kind list"
  have step: "call_step i r (track i (\<not> usable_call_id i) r) ?es"
    using track_step [of r i ?es _ False] False by (simp add: compaction_started_def)
  moreover have "call_step i (track i (\<not> usable_call_id i) r) r' ([] :: ('f, 'l) payload event_kind list)"
    using assms False by (intro call_step_frame) (auto simp: open_compaction_def Let_def split: if_splits)
  ultimately show ?thesis
    using call_step_trans [of i r _ ?es r' "[]"] assms False by (auto simp: open_compaction_def Let_def)
qed

lemma compaction_changed_step:
  "compaction_changed i h now r = (r', es) \<Longrightarrow> call_step i r r' (es :: ('f, 'l) payload event_kind list)"
  using deliver_or_hold_step [of r i _ h now r' es] call_step_same
  by (auto simp: compaction_changed_def is_open_def split: if_splits option.splits)

lemma close_compaction_step:
  assumes "is_open r i \<or> \<not> usable_call_id i" "close_compaction i result r = (r', es)"
  shows "call_step i r r' (es :: ('f, 'l) payload event_kind list)"
  using assms by (auto simp: step_defs close_compaction_def is_finished_def Let_def)


lemma open_compaction_open:
  "open_compaction i x r = (r1, Some es) \<Longrightarrow> is_open r1 i \<or> \<not> usable_call_id i"
  by (auto simp: open_compaction_def Let_def track_def is_open_def update_conv' split: if_splits)

lemma compaction_update_step:
  assumes "compaction_update env u now r = (r', es)"
  shows "call_step (compaction_call_id (cu_id u)) r r' (es :: ('f, 'l) payload event_kind list)"
proof -
  let ?i = "compaction_call_id (cu_id u)"
  obtain r1 and begun :: "('f, 'l) payload event_kind list option" where
    opened: "open_compaction ?i (cu_id u) r = (r1, begun)" by fastforce
  note first = open_compaction_step [OF opened]
  show ?thesis
  proof (cases "begun = None \<or> map_of (rd_compactions r1) ?i = None")
    case True
    then show ?thesis using assms opened first by (auto simp: compaction_update_def Let_def split: option.splits)
  next
    case False
    then obtain es0 co where some: "begun = Some es0" "map_of (rd_compactions r1) ?i = Some co" by auto
    obtain summary sp where s: "patch_summary (cu_summary u) (co_summary co) = (summary, sp)" by fastforce
    obtain co' ep where e: "patch_error (en_msg env) (cu_error u) (co\<lparr>co_summary := summary\<rparr>) = (co', ep)" by fastforce
    let ?r2 = "r1\<lparr>rd_compactions := AList.update ?i co' (rd_compactions r1)\<rparr>"
    have second: "call_step ?i r1 ?r2 ([] :: ('f, 'l) payload event_kind list)" by (intro call_step_frame) simp_all
    have third: "\<exists>fs. es = es0 @ fs \<and> call_step ?i ?r2 r' (fs :: ('f, 'l) payload event_kind list)"
    proof (cases "compaction_finished (cu_status u)")
      case None
      then show ?thesis
        using assms opened some s e compaction_changed_step [where i = ?i and r = ?r2 and r' = r']
        by (auto simp: compaction_update_def Let_def split: prod.splits)
    next
      case (Some status)
      have "is_open ?r2 ?i \<or> \<not> usable_call_id ?i" using open_compaction_open opened some(1) by simp
      then show ?thesis
        using assms opened some s e Some close_compaction_step [where i = ?i and r = ?r2 and r' = r']
        by (auto simp: compaction_update_def Let_def split: prod.splits)
    qed
    show ?thesis using third call_step_trans [OF call_step_trans [OF first second]] some(1) by auto
  qed
qed

lemma compaction_chunk_step:
  assumes "compaction_chunk x content now r = (r', es)"
  shows "call_step (compaction_call_id x) r r' (es :: ('f, 'l) payload event_kind list)"
proof -
  let ?i = "compaction_call_id x"
  obtain r1 and begun :: "('f, 'l) payload event_kind list option" where
    opened: "open_compaction ?i x r = (r1, begun)" by fastforce
  note first = open_compaction_step [OF opened]
  show ?thesis
  proof (cases "begun = None \<or> map_of (rd_compactions r1) ?i = None \<or> plain_text content = None")
    case True
    then show ?thesis using assms opened first by (auto simp: compaction_chunk_def Let_def split: option.splits)
  next
    case False
    then obtain es0 co t where some: "begun = Some es0" "map_of (rd_compactions r1) ?i = Some co" "plain_text content = Some t"
      by auto
    obtain summary changed where s: "appended (co_summary co) t = (summary, changed)" by fastforce
    let ?r2 = "r1\<lparr>rd_compactions := AList.update ?i (co\<lparr>co_summary := summary\<rparr>) (rd_compactions r1)\<rparr>"
    have second: "call_step ?i r1 ?r2 ([] :: ('f, 'l) payload event_kind list)" by (intro call_step_frame) simp_all
    have "\<exists>fs. es = es0 @ fs \<and> call_step ?i ?r2 r' (fs :: ('f, 'l) payload event_kind list)"
      using assms opened some s compaction_changed_step [where i = ?i and r = ?r2 and r' = r'] call_step_same [of ?i ?r2]
      by (auto simp: compaction_chunk_def Let_def split: prod.splits if_splits)
    then show ?thesis using call_step_trans [OF call_step_trans [OF first second]] some(1) by auto
  qed
qed

subsection \<open>Brackets\<close>

text \<open>Where a call is, against the marks its events left so far.\<close>

definition bracket_inv :: "ustring \<Rightarrow> acp_reducer \<Rightarrow> call_mark list \<Rightarrow> bool" where
  "bracket_inv c r t \<longleftrightarrow>
     keys_ok r \<and> \<not> is_open r PLAN_CALL_ID \<and>
     (if c = PLAN_CALL_ID then (if rd_plan_started r then announced_then goes_on t else t = [])
      else if is_open r c then announced_then goes_on t
      else t = [] \<or> is_finished r c \<and> announced_then ends t)"

lemma bracket_step:
  assumes "bracket_inv c r t" "call_step i r r' es" "i \<noteq> PLAN_CALL_ID" "usable_call_id c"
  shows "bracket_inv c r' (t @ call_trace c es)"
proof -
  have plan: "is_open r' PLAN_CALL_ID = is_open r PLAN_CALL_ID" and keys: "keys_ok r \<Longrightarrow> keys_ok r'"
    using assms(2,3) by (auto simp: call_step_def)
  have fin: "is_finished r c \<Longrightarrow> is_finished r' c" using assms(2) by (auto simp: call_step_def is_finished_def)
  show ?thesis
  proof (cases "c = i")
    case False
    then have "call_trace c es = []" "is_open r' c = is_open r c" "rd_plan_started r' = rd_plan_started r"
      using assms(2) by (auto simp: call_step_def)
    then show ?thesis using assms(1) plan keys fin by (auto simp: bracket_inv_def)
  next
    case True
    have on: "announced_then goes_on t \<Longrightarrow> goes_on s \<Longrightarrow> announced_then goes_on (t @ s)"
      "announced_then goes_on t \<Longrightarrow> ends s \<Longrightarrow> announced_then ends (t @ s)" for s
      by (auto intro: announced_append ends_append)
    have phase: "phase_step True (is_open r i) (is_finished r i) (is_open r' i) (is_finished r' i) (call_trace i es)"
      using assms(2,4) True by (simp add: call_step_def)
    show ?thesis
      using assms(1,3) phase plan keys fin on unfolding bracket_inv_def phase_step_def True
      by (cases "is_open r i"; cases "is_open r' i") auto
  qed
qed

lemma clear_not_plan: "clear_of_plan i \<noteq> PLAN_CALL_ID"
  by (auto simp: clear_of_plan_def PLAN_CALL_ID_def MINTED_ID_PREFIX_def lit_def)

lemma plan_id_usable: "usable_call_id PLAN_CALL_ID"
proof -
  have "valid_str PLAN_CALL_ID" by (simp add: PLAN_CALL_ID_def lit_def scalar_value_def)
  then show ?thesis
    by (simp add: usable_call_id_def res_ok_def opaque_id_def bound_simps Let_def)
      (simp add: PLAN_CALL_ID_def lit_def is_strippable_def trim_def is_whitespace_def)
qed

lemma compaction_not_plan: "compaction_call_id i \<noteq> PLAN_CALL_ID"
  using plan_id_usable by (auto simp: compaction_call_id_def PLAN_CALL_ID_def MINTED_ID_PREFIX_def lit_def)

lemma quiet_events:
  "call_trace c (acp_notice env s title description :: ('f, 'l) payload event_kind list) = []"
  "mark_for c (usage_event used n :: ('f, 'l) payload event_kind) = None"
  by (auto simp: acp_notice_def notice_def usage_event_def Let_def split: option.splits)

lemma bracket_body:
  assumes "bracket_inv c r t" "acp_body env u now r = (r', es, facts)" "usable_call_id c"
  shows "bracket_inv c r' (t @ call_trace c (es :: ('f, 'l) payload event_kind list))"
proof -
  note step = bracket_step [OF assms(1) _ _ assms(3)]
  show ?thesis
  proof (cases u)
    case (AgentThoughtChunk x)
    then show ?thesis
      using assms(1,2) by (auto simp: acp_body_def no_facts_def reasoning_delta_def bracket_inv_def keys_ok_def is_open_def
        is_finished_def split: option.splits if_splits)
  next
    case (ToolCallFrame x)
    then have "tool_call_frame (x\<lparr>tc_id := clear_of_plan (tc_id x)\<rparr>) now r = (r', es)"
      using assms(2) by (auto simp: acp_body_def no_facts_def)
    from step [OF tool_call_frame_step [OF this]] show ?thesis using clear_not_plan by simp
  next
    case (ToolCallUpdateFrame x)
    then have "tool_update_frame env (x\<lparr>tp_id := clear_of_plan (tp_id x)\<rparr>) now r = (r', es)"
      using assms(2) by (auto simp: acp_body_def no_facts_def)
    from step [OF tool_update_frame_step [OF this]] show ?thesis using clear_not_plan by simp
  next
    case (PlanFrame p)
    have "announced_then goes_on t \<Longrightarrow> announced_then goes_on (t @ [Changed])" by (rule announced_append) simp_all
    then show ?thesis
      using assms(1,2) PlanFrame
      by (auto simp: acp_body_def no_facts_def acp_plan_def bracket_inv_def keys_ok_def is_open_def is_finished_def split: if_splits)
  next
    case (CompactionUpdateFrame x)
    then have "compaction_update env x now r = (r', es)" using assms(2) by (auto simp: acp_body_def no_facts_def)
    from step [OF compaction_update_step [OF this]] show ?thesis using compaction_not_plan by simp
  next
    case (CompactionSummaryFrame x y)
    then have "compaction_chunk x y now r = (r', es)" using assms(2) by (auto simp: acp_body_def no_facts_def)
    from step [OF compaction_chunk_step [OF this]] show ?thesis using compaction_not_plan by simp
  qed (use assms(1,2) in \<open>auto simp: acp_body_def quiet_events split: option.splits\<close>)
qed

lemma bracket_update:
  assumes "bracket_inv c r t" "update_at env u now r = (r', es, facts)" "usable_call_id c"
  shows "bracket_inv c r' (t @ call_trace c (es :: ('f, 'l) payload event_kind list))"
proof -
  let ?r = "if is_transcript u then fst (close_reasoning r :: _ \<times> ('f, 'l) payload event_kind list) else r"
  have "bracket_inv c ?r t" using assms(1) by (auto simp: close_reasoning_def bracket_inv_def is_finished_def)
  moreover obtain r2 and fs :: "('f, 'l) payload event_kind list" and facts' where
    body: "acp_body env u now ?r = (r2, fs, facts')" by (metis prod_cases3)
  moreover have "r2 = r'" "call_trace c es = call_trace c fs"
    using assms(2) body by (auto simp: update_at_def close_reasoning_def split: if_splits prod.splits)
  ultimately show ?thesis using bracket_body [OF _ body assms(3)] by simp
qed

lemma bracket_run:
  "bracket_inv c r t \<Longrightarrow> usable_call_id c \<Longrightarrow> acp_run env us r = (r', es) \<Longrightarrow>
   bracket_inv c r' (t @ call_trace c (es :: ('f, 'l) payload event_kind list))"
proof (induction us arbitrary: r t es)
  case (Cons x us)
  obtain u now where x: "x = (u, now)" by fastforce
  obtain r1 and es1 fs :: "('f, 'l) payload event_kind list" and facts where
    one: "update_at env u now r = (r1, es1, facts)" and rest: "acp_run env us r1 = (r', fs)" "es = es1 @ fs"
    using Cons.prems(3) x by (auto split: prod.splits)
  from Cons.IH [OF bracket_update [OF Cons.prems(1) one Cons.prems(2)] Cons.prems(2) rest(1)]
  show ?case by (simp add: rest(2))
qed simp

lemma finish_calls_trace:
  "distinct (map fst xs) \<Longrightarrow> finish_calls status xs r = (r', es) \<Longrightarrow>
   (if c \<in> fst ` set xs then ends (call_trace c es) else call_trace c (es :: ('f, 'l) payload event_kind list) = []) \<and>
   rd_plan_started r' = rd_plan_started r \<and> rd_open_calls r' = rd_open_calls r \<and> rd_compactions r' = rd_compactions r \<and>
   rd_reasoning_open r' = rd_reasoning_open r"
proof (induction xs arbitrary: r es)
  case (Cons x xs)
  obtain i oc where x: "x = (i, oc)" by fastforce
  obtain fs :: "('f, 'l) payload event_kind list" where
    rest: "finish_calls status xs (mark_finished i r) = (r', fs)" and
    es: "es = last_held i (oc_held oc) @ [ActivityCompleted i (ResultPayload (activity_result_new status))] @ fs"
    using Cons.prems(2) x by (auto split: prod.splits)
  have keys: "distinct (map fst xs)" "i \<notin> fst ` set xs" using Cons.prems(1) x by auto
  show ?case using Cons.IH [OF keys(1) rest] keys(2) x es by (cases "c = i") auto
qed simp

lemma bracket_finish:
  assumes "bracket_inv c r t" "finish_with status r = (r', es)"
  shows "t @ call_trace c (es :: ('f, 'l) payload event_kind list) = [] \<or> announced_then ends (t @ call_trace c es)"
    "rd_open_calls r' = []" "\<not> rd_plan_started r'" "\<not> rd_reasoning_open r'" "rd_compactions r' = []"
proof -
  let ?xs = "sort_key (oc_opened \<circ> snd) (rd_open_calls r)"
  let ?r = "r\<lparr>rd_reasoning_open := False, rd_compactions := [], rd_open_calls := []\<rparr>"
  obtain r2 and fs :: "('f, 'l) payload event_kind list" where calls: "finish_calls status ?xs ?r = (r2, fs)" by fastforce
  have "distinct (map fst ?xs)" using assms(1) by (simp add: bracket_inv_def keys_ok_def distinct_map inj_on_def)
  note trace = finish_calls_trace [OF this calls, of c]
  have es: "r' = r2\<lparr>rd_plan_started := False\<rparr>"
    "es = (if rd_reasoning_open r then [ReasoningEnded] else []) @ fs @
       (if rd_plan_started r then [ActivityCompleted PLAN_CALL_ID (ResultPayload (activity_result_new CompletedActivity))] else [])"
    using assms(2) calls trace by (auto simp: finish_with_def close_reasoning_def Let_def)
  show "rd_open_calls r' = []" "\<not> rd_plan_started r'" "\<not> rd_reasoning_open r'" "rd_compactions r' = []"
    using es trace by simp_all
  have open_iff: "c \<in> fst ` set ?xs \<longleftrightarrow> is_open r c"
    by (simp add: is_open_def map_of_eq_None_iff)
  have on: "announced_then goes_on t \<Longrightarrow> ends s \<Longrightarrow> announced_then ends (t @ s)" for s by (auto intro: announced_append ends_append)
  show "t @ call_trace c es = [] \<or> announced_then ends (t @ call_trace c es)"
    using assms(1) trace on unfolding open_iff es(2) bracket_inv_def
    by (cases "c = PLAN_CALL_ID"; cases "is_open r c"; cases "rd_plan_started r") auto
qed

text \<open>C15: whatever an agent sends in a prompt, once the turn is finished every call a host can follow - a tool
  call, a compaction or the plan - was announced once, changed only while it ran, and ended exactly once;
  nothing is left open. Ids the agent sent can never take the plan's.\<close>

theorem acp_calls_bracketed:
  assumes "usable_call_id c"
  shows "(let (r, es) = acp_run env us (with_update_interval (acp_reducer_new digest) interval);
        (r', fs) = finish_with status r;
        t = call_trace c (es @ (fs :: ('f, 'l) payload event_kind list))
      in (t = [] \<or> (\<exists>n. t = Announced # replicate n Changed @ [Ended])) \<and>
         rd_open_calls r' = [] \<and> \<not> rd_plan_started r' \<and> \<not> rd_reasoning_open r' \<and> rd_compactions r' = []) \<and>
    clear_of_plan i \<noteq> PLAN_CALL_ID \<and> compaction_call_id i \<noteq> PLAN_CALL_ID"
proof -
  let ?r0 = "with_update_interval (acp_reducer_new digest) interval"
  obtain r and es :: "('f, 'l) payload event_kind list" where run: "acp_run env us ?r0 = (r, es)" by fastforce
  obtain r' and fs :: "('f, 'l) payload event_kind list" where fin: "finish_with status r = (r', fs)" by fastforce
  have "bracket_inv c ?r0 []"
    by (simp add: bracket_inv_def keys_ok_def is_open_def with_update_interval_def acp_reducer_new_def)
  from bracket_run [OF this assms run] have inv: "bracket_inv c r (call_trace c es)" by simp
  have shape: "\<exists>n. t = Announced # replicate n Changed @ [Ended]" if "announced_then ends t" for t
  proof -
    from that obtain s where "t = Announced # s" "ends s" by (cases t) (auto simp: announced_then_def)
    moreover from this(2) have "s = butlast s @ [Ended]" "butlast s = replicate (length (butlast s)) Changed"
      by (simp_all only: ends_def goes_on_def) (metis append_butlast_last_id)
    ultimately show ?thesis by metis
  qed
  show ?thesis using bracket_finish [OF inv fin] shape clear_not_plan compaction_not_plan by (simp add: run fin Let_def) blast
qed

definition sample_env :: acp_env where
  "sample_env = \<lparr>en_kind = OtherTool, en_status = ToolPending, en_msg = (\<lambda>s. s)\<rparr>"

lemma acp_calls_bracketed_witness:
  "usable_call_id PLAN_CALL_ID \<and>
   (let (r, es) = acp_run sample_env [(PlanFrame [], 0), (PlanFrame [] :: unit session_update, 1)]
         (with_update_interval (acp_reducer_new (\<lambda>_. 0)) 0);
       (r', fs) = finish_with CompletedActivity r;
       t = call_trace PLAN_CALL_ID (es @ (fs :: (unit, unit) payload event_kind list))
    in (t = [] \<or> (\<exists>n. t = Announced # replicate n Changed @ [Ended])) \<and> t = [Announced, Changed, Ended] \<and>
       rd_open_calls r' = [])"
  using acp_calls_bracketed [OF plan_id_usable, of sample_env "[(PlanFrame [], 0), (PlanFrame [] :: unit session_update, 1)]"
      "\<lambda>_. 0" 0 CompletedActivity, where ?'f = unit and ?'l = unit] plan_id_usable
  by (simp add: update_at_def acp_body_def is_transcript_def close_reasoning_def no_facts_def acp_plan_def finish_with_def
      with_update_interval_def acp_reducer_new_def Let_def)

subsection \<open>Reasoning\<close>

text \<open>Reading a transcript for its reasoning blocks; \<open>None\<close> is a bracket out of place.\<close>

fun reasoning_walk :: "bool \<Rightarrow> 'p event_kind list \<Rightarrow> bool option" where
  "reasoning_walk within [] = Some within"
| "reasoning_walk within (ReasoningStarted # es) = (if within then None else reasoning_walk True es)"
| "reasoning_walk within (ReasoningDelta _ # es) = (if within then reasoning_walk True es else None)"
| "reasoning_walk within (ReasoningEnded # es) = (if within then reasoning_walk False es else None)"
| "reasoning_walk within (TextDelta _ # es) = (if within then None else reasoning_walk False es)"
| "reasoning_walk within (e # es) = (if within \<and> is_activity_event e then None else reasoning_walk within es)"

lemma reasoning_walk_append:
  "reasoning_walk within (es @ fs) = Option.bind (reasoning_walk within es) (\<lambda>w. reasoning_walk w fs)"
  by (induction within es rule: reasoning_walk.induct) simp_all

lemma reasoning_walk_activities: "list_all is_activity_event es \<Longrightarrow> reasoning_walk False es = Some False"
proof (induction es)
  case (Cons e es)
  then show ?case by (cases e) simp_all
qed simp

lemma reasoning_body:
  assumes "acp_body env u now r = (r', es, facts)" "is_transcript u \<Longrightarrow> \<not> rd_reasoning_open r"
  shows "reasoning_walk (rd_reasoning_open r) (es :: ('f, 'l) payload event_kind list) = Some (rd_reasoning_open r')"
proof -
  have calls: "reasoning_walk (rd_reasoning_open r) fs = Some (rd_reasoning_open q)"
    if "call_step i r q (fs :: ('f, 'l) payload event_kind list)" "is_transcript u" for i q fs
    using that assms(2) by (simp add: call_step_def reasoning_walk_activities)
  show ?thesis
  proof (cases u)
    case (ToolCallFrame x)
    then have "tool_call_frame (x\<lparr>tc_id := clear_of_plan (tc_id x)\<rparr>) now r = (r', es)"
      using assms(1) by (auto simp: acp_body_def no_facts_def)
    from calls [OF tool_call_frame_step [OF this]] show ?thesis using ToolCallFrame by (simp add: is_transcript_def)
  next
    case (ToolCallUpdateFrame x)
    then have "tool_update_frame env (x\<lparr>tp_id := clear_of_plan (tp_id x)\<rparr>) now r = (r', es)"
      using assms(1) by (auto simp: acp_body_def no_facts_def)
    from calls [OF tool_update_frame_step [OF this]] show ?thesis using ToolCallUpdateFrame by (simp add: is_transcript_def)
  next
    case (CompactionUpdateFrame x)
    then have "compaction_update env x now r = (r', es)" using assms(1) by (auto simp: acp_body_def no_facts_def)
    from calls [OF compaction_update_step [OF this]] show ?thesis using CompactionUpdateFrame by (simp add: is_transcript_def)
  next
    case (CompactionSummaryFrame x y)
    then have "compaction_chunk x y now r = (r', es)" using assms(1) by (auto simp: acp_body_def no_facts_def)
    from calls [OF compaction_chunk_step [OF this]] show ?thesis using CompactionSummaryFrame by (simp add: is_transcript_def)
  qed (use assms in \<open>auto simp: acp_body_def no_facts_def reasoning_delta_def acp_plan_def acp_notice_def notice_def usage_event_def
      is_transcript_def Let_def split: option.splits if_splits\<close>)
qed

lemma reasoning_update:
  assumes "update_at env u now r = (r', es, facts)"
  shows "reasoning_walk (rd_reasoning_open r) (es :: ('f, 'l) payload event_kind list) = Some (rd_reasoning_open r')"
proof -
  let ?r = "if is_transcript u then r\<lparr>rd_reasoning_open := False\<rparr> else r"
  let ?es = "if is_transcript u \<and> rd_reasoning_open r then [ReasoningEnded] else ([] :: ('f, 'l) payload event_kind list)"
  obtain r2 and fs :: "('f, 'l) payload event_kind list" and facts' where
    body: "acp_body env u now ?r = (r2, fs, facts')" by (metis prod_cases3)
  then have "r' = r2" "es = ?es @ fs"
    using assms by (auto simp: update_at_def close_reasoning_def split: if_splits prod.splits)
  moreover have "reasoning_walk (rd_reasoning_open ?r) fs = Some (rd_reasoning_open r2)"
    by (rule reasoning_body [OF body]) simp
  ultimately show ?thesis by (auto simp: reasoning_walk_append split: if_splits)
qed

lemma reasoning_run:
  "acp_run env us r = (r', es) \<Longrightarrow>
   reasoning_walk (rd_reasoning_open r) (es :: ('f, 'l) payload event_kind list) = Some (rd_reasoning_open r')"
proof (induction us arbitrary: r es)
  case (Cons x us)
  obtain u now where x: "x = (u, now)" by fastforce
  obtain r1 and es1 fs :: "('f, 'l) payload event_kind list" and facts where
    one: "update_at env u now r = (r1, es1, facts)" and rest: "acp_run env us r1 = (r', fs)" "es = es1 @ fs"
    using Cons.prems x by (auto split: prod.splits)
  show ?case using reasoning_update [OF one] Cons.IH [OF rest(1)] rest(2) by (simp add: reasoning_walk_append)
qed simp

lemma finish_calls_activities:
  "list_all is_activity_event (snd (finish_calls status xs r :: _ \<times> ('f, 'l) payload event_kind list))"
  by (induction xs arbitrary: r) (auto simp: case_prod_beta split: prod.splits)

text \<open>C17: reasoning is bracketed: a block opens before its first thought and closes before anything else of the
  transcript, only usage and notices can come between two thoughts, and a finished turn leaves none open.\<close>

theorem acp_reasoning_bracketed:
  "(let (r, es) = acp_run env us (with_update_interval (acp_reducer_new digest) interval);
        (r', fs) = finish_with status r
    in reasoning_walk False es = Some (rd_reasoning_open r) \<and>
       reasoning_walk False (es @ (fs :: ('f, 'l) payload event_kind list)) = Some False)"
proof -
  let ?r0 = "with_update_interval (acp_reducer_new digest) interval"
  obtain r and es :: "('f, 'l) payload event_kind list" where run: "acp_run env us ?r0 = (r, es)" by fastforce
  obtain r' and fs :: "('f, 'l) payload event_kind list" where fin: "finish_with status r = (r', fs)" by fastforce
  have walk: "reasoning_walk False es = Some (rd_reasoning_open r)"
    using reasoning_run [OF run] by (simp add: with_update_interval_def acp_reducer_new_def)
  obtain gs :: "('f, 'l) payload event_kind list" where
    "fs = (if rd_reasoning_open r then [ReasoningEnded] else []) @ gs" "list_all is_activity_event gs"
    using fin finish_calls_activities
    by (auto simp: finish_with_def close_reasoning_def Let_def case_prod_beta split: if_splits)
  then have "reasoning_walk (rd_reasoning_open r) fs = Some False"
    using reasoning_walk_activities [of gs] by (auto simp: reasoning_walk_append)
  then show ?thesis using walk by (simp add: run fin reasoning_walk_append)
qed

subsection \<open>Summaries\<close>

lemma keep_concat: "keep (concat ts) = concat (map keep ts)"
  by (simp add: filter_concat)

lemma summary_append_eq:
  assumes "valid_str raw" "sm_code_points s = length (sm_text s)" "length (sm_text s) \<le> max_code_points Detail"
  shows "summary_append s raw =
    Some (\<lparr>sm_text = take (max_code_points Detail) (sm_text s @ keep raw),
           sm_code_points = length (take (max_code_points Detail) (sm_text s @ keep raw)),
           sm_cut = (sm_cut s \<or> keep raw \<noteq> raw \<or> max_code_points Detail < length (sm_text s @ keep raw))\<rparr>,
      take (max_code_points Detail - length (sm_text s)) (keep raw) \<noteq> [] \<or>
        \<not> sm_cut s \<and> (keep raw \<noteq> raw \<or> max_code_points Detail < length (sm_text s @ keep raw)))"
proof -
  let ?M = "max_code_points Detail" and ?k = "keep raw"
  let ?room = "?M - length (sm_text s)"
  have cut_at: "(case nth_opt (char_indices_from 0 ?k) ?room of Some (i, _) \<Rightarrow> i | None \<Rightarrow> str_len ?k) = str_len (take ?room ?k)"
    by (simp add: nth_opt_def char_indices_nth)
  have short: "str_len (take ?room ?k) < str_len ?k \<longleftrightarrow> ?M < length (sm_text s @ ?k)"
  proof (cases "?room < length ?k")
    case True
    have "str_len ?k = str_len (take ?room ?k) + str_len (drop ?room ?k)"
      using str_len_append [of "take ?room ?k" "drop ?room ?k"] by simp
    moreover have "0 < str_len (drop ?room ?k)" using True by (cases "drop ?room ?k") (simp_all add: char_len_pos)
    ultimately show ?thesis using True assms(3) by auto
  next
    case False
    then show ?thesis using assms(3) by auto
  qed
  have fits: "take ?M (sm_text s @ ?k) = sm_text s @ take ?room ?k" using assms(3) by simp
  show ?thesis
    unfolding summary_append_def sanitize_field_def sanitize_owned_eq [OF assms(1)] Let_def bounded_text.select_convs
      assms(2) cut_at split_at_byte_take option.map prod.case short fits
    by auto
qed

definition summarizes :: "ustring list \<Rightarrow> summary \<Rightarrow> bool" where
  "summarizes ts s \<longleftrightarrow>
     sm_text s = take (max_code_points Detail) (keep (concat ts)) \<and> sm_code_points s = length (sm_text s) \<and>
     (sm_cut s \<longleftrightarrow> sm_text s \<noteq> concat ts)"

lemma lost_iff: "take n (keep s) \<noteq> s \<longleftrightarrow> keep s \<noteq> s \<or> n < length s"
proof (cases "keep s = s")
  case False
  then have "length (keep s) < length s" by (metis filter_id_conv length_filter_less)
  then have "take n (keep s) \<noteq> s" by (metis length_take min.cobounded1 not_le)
  then show ?thesis using False by simp
qed (metis length_take less_le_not_le min_def nat_le_linear take_all)

lemma summarizes_append:
  assumes "summarizes ts s" "valid_str t"
  shows "\<exists>s' changed. summary_append s t = Some (s', changed) \<and> summarizes (ts @ [t]) s' \<and> (\<not> changed \<longrightarrow> s' = s)"
proof -
  let ?M = "max_code_points Detail" and ?c = "concat ts"
  have s: "sm_text s = take ?M (keep ?c)" "sm_code_points s = length (sm_text s)" "sm_cut s \<longleftrightarrow> keep ?c \<noteq> ?c \<or> ?M < length ?c"
    using assms(1) lost_iff [of ?M ?c] by (auto simp: summarizes_def)
  let ?all = "sm_text s @ keep t"
  let ?s = "\<lparr>sm_text = take ?M ?all, sm_code_points = length (take ?M ?all), sm_cut = (sm_cut s \<or> keep t \<noteq> t \<or> ?M < length ?all)\<rparr>"
  let ?changed = "take (?M - length (sm_text s)) (keep t) \<noteq> [] \<or> \<not> sm_cut s \<and> (keep t \<noteq> t \<or> ?M < length ?all)"
  have len: "length (sm_text s) \<le> ?M" using s(1) by simp
  have eq: "summary_append s t = Some (?s, ?changed)" by (rule summary_append_eq [OF assms(2) s(2) len])
  have whole: "take ?M ?all = take ?M (keep (?c @ t))" using s(1) by (cases "length (keep ?c) \<le> ?M") simp_all
  have kept: "keep (?c @ t) = ?c @ t \<longleftrightarrow> keep ?c = ?c \<and> keep t = t" by (simp only: keep_eq_iff list_all_append)
  have "sm_cut ?s \<longleftrightarrow> take ?M (keep (?c @ t)) \<noteq> ?c @ t"
  proof (cases "keep ?c = ?c \<and> keep t = t")
    case True
    then show ?thesis using lost_iff [of ?M "?c @ t"] kept s(1,3) by auto
  next
    case False
    then show ?thesis using lost_iff [of ?M "?c @ t"] kept s(3) by auto
  qed
  then have "summarizes (ts @ [t]) ?s" unfolding summarizes_def using whole by simp
  moreover have "?s = s" if "\<not> ?changed"
    using that s(2) len by (intro summary.equality) auto
  ultimately show ?thesis using eq by blast
qed

lemma summarizes_fold:
  "summarizes ts s \<Longrightarrow> \<forall>t \<in> set us. valid_str t \<Longrightarrow>
   \<exists>s'. foldl (\<lambda>s t. Option.bind s (\<lambda>s. map_option fst (summary_append s t))) (Some s) us = Some s' \<and> summarizes (ts @ us) s'"
proof (induction us arbitrary: ts s)
  case (Cons u us)
  obtain s' changed where one: "summary_append s u = Some (s', changed)" "summarizes (ts @ [u]) s'"
    using summarizes_append [OF Cons.prems(1), of u] Cons.prems(2) by auto
  show ?case using Cons.IH [OF one(2)] Cons.prems(2) one(1) by simp
qed simp

text \<open>C18: a compaction's summary is built without a panic and is exact: whether it was replaced as a whole or
  streamed in pieces, it is the first 4096 characters that may be shown of everything the agent said, and
  it is marked as cut exactly when that is not everything; a piece reported as no change changes nothing.\<close>

theorem compaction_summary_exact:
  assumes "\<forall>t \<in> set (List.map_filter plain_text blocks). valid_str t" "valid_str t"
  shows "\<exists>s s' changed. summary_replace blocks = Some s \<and> summary_append s t = Some (s', changed) \<and>
    summary_replace (blocks @ [TextBlock t]) = Some s' \<and>
    sm_text s' = take (max_code_points Detail) (keep (concat (List.map_filter plain_text blocks) @ t)) \<and>
    (sm_cut s' \<longleftrightarrow> sm_text s' \<noteq> concat (List.map_filter plain_text blocks) @ t) \<and>
    sm_code_points s' = length (sm_text s') \<and> (\<not> changed \<longrightarrow> s' = s)"
proof -
  have "summarizes [] summary_default" by (simp add: summarizes_def summary_default_def)
  then obtain s where s: "summary_replace blocks = Some s" "summarizes (List.map_filter plain_text blocks) s"
    using summarizes_fold [of "[]" summary_default "List.map_filter plain_text blocks"] assms(1) by (auto simp: summary_replace_def)
  obtain s' changed where s': "summary_append s t = Some (s', changed)" "summarizes (List.map_filter plain_text blocks @ [t]) s'"
      "\<not> changed \<longrightarrow> s' = s"
    using summarizes_append [OF s(2) assms(2)] by blast
  have "summary_replace (blocks @ [TextBlock t]) = Some s'"
    using s(1) s'(1) by (simp add: summary_replace_def map_filter_def)
  then show ?thesis using s(1) s' by (auto simp: summarizes_def)
qed

lemma compaction_summary_exact_witness:
  "\<exists>s. summary_replace [TextBlock (lit ''a''), OtherBlock, TextBlock (lit ''b'')] = Some s \<and> sm_text s = lit ''ab''"
  using compaction_summary_exact [of "[TextBlock (lit ''a''), OtherBlock]" "lit ''b''"]
  by (auto simp: lit_def scalar_value_def is_strippable_def map_filter_def)

end
