(* ===== verification/Acp_Pacing.thy ===== *)
theory Acp_Pacing imports Acp_Reducer begin

text \<open>
  Holding updates back (\<open>mango-agent-acp/src/reducer.rs\<close>: the pacing of tool-call updates by
  \<open>tool_call_update\<close> and \<open>compaction_changed\<close>, \<open>Held::bounded\<close>, \<open>merged_with\<close> and \<open>superseded_by\<close>, and what
  \<open>finish_with\<close> delivers): two reducers that differ only in their interval leave a host with the same calls.
\<close>

text \<open>What a host shows of one call: the last of each field it was given, bounded as the sink bounds it.\<close>

record shown =
  sh_title :: "ustring option"
  sh_detail :: "ustring option"
  sh_content :: "activity_content option"

definition newest :: "'a option \<Rightarrow> 'a option \<Rightarrow> 'a option" where
  "newest new old = (if new \<noteq> None then new else old)"

lemma newest_simps [simp]: "newest None old = old" "newest (Some x) old = Some x" "newest a (newest b c) = newest (newest a b) c"
  by (cases a; simp add: newest_def)+

definition overlay :: "activity_update \<Rightarrow> shown \<Rightarrow> shown" where
  "overlay u v =
     \<lparr>sh_title = newest (map_option bt_text (bound_opt Title (au_title u))) (sh_title v),
      sh_detail = newest (map_option bt_text (bound_opt Detail (au_detail u))) (sh_detail v),
      sh_content = newest (map_option content_normalized (au_content u)) (sh_content v)\<rparr>"

definition overlay_result :: "activity_result \<Rightarrow> shown \<Rightarrow> shown" where
  "overlay_result x = overlay (activity_update_new\<lparr>au_detail := ar_detail x, au_content := ar_content x\<rparr>)"

fun show_event :: "ustring \<Rightarrow> ('f, 'l) payload event_kind \<Rightarrow> shown \<Rightarrow> shown" where
  "show_event c (ActivityStarted i (ActivityPayload a)) v =
     (if i = c then overlay (activity_update_new\<lparr>au_title := Some (ac_title a), au_detail := ac_detail a, au_content := ac_content a\<rparr>) v
      else v)"
| "show_event c (ActivityUpdated i (UpdatePayload u)) v = (if i = c then overlay u v else v)"
| "show_event c (ActivityCompleted i (ResultPayload x)) v = (if i = c then overlay_result x v else v)"
| "show_event c _ v = v"

definition shows_of :: "('f, 'l) payload event_kind list \<Rightarrow> (ustring \<Rightarrow> shown) \<Rightarrow> ustring \<Rightarrow> shown" where
  "shows_of es v = (\<lambda>c. fold (show_event c) es (v c))"

text \<open>The overlay is what the sink's normalization leaves: of an update and of a result.\<close>

lemma overlay_normalized:
  "overlay u v =
     \<lparr>sh_title = newest (au_title (activity_update_normalized u)) (sh_title v),
      sh_detail = newest (au_detail (activity_update_normalized u)) (sh_detail v),
      sh_content = newest (au_content (activity_update_normalized u)) (sh_content v)\<rparr>"
  by (simp add: overlay_def activity_update_normalized_def opt_content_def content_normalized_def Let_def case_prod_beta
      split: option.split)

lemma overlay_into [simp]: "overlay (into_update h) = overlay (hd_update h)"
  by (rule ext) (simp add: overlay_def into_update_def)

lemma overlay_merge: "overlay (hd_update (merged_with h k)) v = overlay (hd_update k) (overlay (hd_update h) v)"
  by (simp add: overlay_def merged_with_def Let_def newest_def bound_opt_def)

lemma overlay_superseded: "overlay_result x (overlay (hd_update (superseded_by h x)) v) = overlay_result x (overlay (hd_update h) v)"
  by (simp add: overlay_result_def overlay_def superseded_by_def Let_def newest_def bound_opt_def activity_update_new_def)

lemma overlay_empty: "activity_update_is_empty u \<Longrightarrow> overlay u v = v"
  by (simp add: overlay_def activity_update_is_empty_def bound_opt_def)

definition valid_update :: "activity_update \<Rightarrow> bool" where
  "valid_update u \<longleftrightarrow> valid_opt (au_title u) \<and> valid_opt (au_detail u) \<and> valid_opt_content (au_content u)"

lemma hold_field_same:
  assumes "valid_update u" "hold_field over u = (w, lost)"
  shows "overlay w v = overlay u v"
proof (cases over)
  case True
  have "Activity_Content.update_ok (activity_update_normalized u)" using update_bounded assms(1) by (simp add: valid_update_def)
  then have idem: "activity_update_normalized (activity_update_normalized u) = activity_update_normalized u"
    by (rule update_result_idem(1))
  have w: "w = (activity_update_normalized u)\<lparr>au_truncated := False\<rparr>" using assms(2) True by (simp add: hold_field_def Let_def)
  have "overlay w v = overlay (activity_update_normalized u) v" by (simp add: w overlay_def)
  then show ?thesis unfolding overlay_normalized idem .
qed (use assms(2) in \<open>simp add: hold_field_def\<close>)

lemma unset_fields:
  "activity_update_new\<lparr>au_title := None\<rparr> = activity_update_new" "activity_update_new\<lparr>au_detail := None\<rparr> = activity_update_new"
  "activity_update_new\<lparr>au_content := None\<rparr> = activity_update_new"
  "au_title activity_update_new = None" "au_detail activity_update_new = None" "au_content activity_update_new = None"
  by (simp_all add: activity_update_new_def)

lemma overlay_bounded:
  assumes "valid_update u"
  shows "overlay (hd_update (held_bounded u)) v = overlay u v"
proof -
  obtain t tc where t: "(case au_title u of
        Some s \<Rightarrow> hold_field (max_code_points Title < str_len s) (activity_update_new\<lparr>au_title := Some s\<rparr>)
      | None \<Rightarrow> (activity_update_new, False)) = (t, tc)" by fastforce
  obtain d dc where d: "(case au_detail u of
        Some s \<Rightarrow> hold_field (max_code_points Detail < str_len s) (activity_update_new\<lparr>au_detail := Some s\<rparr>)
      | None \<Rightarrow> (activity_update_new, False)) = (d, dc)" by fastforce
  obtain c cc where c: "(case au_content u of
        Some x \<Rightarrow> hold_field (exceeds_bound x) (activity_update_new\<lparr>au_content := Some x\<rparr>)
      | None \<Rightarrow> (activity_update_new, False)) = (c, cc)" by fastforce
  have "overlay t v = overlay (activity_update_new\<lparr>au_title := au_title u\<rparr>) v"
    using t assms hold_field_same [of "activity_update_new\<lparr>au_title := au_title u\<rparr>" _ t tc v]
    by (cases "au_title u") (simp_all add: valid_update_def valid_opt_content_def unset_fields)
  moreover have "overlay d v = overlay (activity_update_new\<lparr>au_detail := au_detail u\<rparr>) v"
    using d assms hold_field_same [of "activity_update_new\<lparr>au_detail := au_detail u\<rparr>" _ d dc v]
    by (cases "au_detail u") (simp_all add: valid_update_def valid_opt_content_def unset_fields)
  moreover have "overlay c v = overlay (activity_update_new\<lparr>au_content := au_content u\<rparr>) v"
    using c assms hold_field_same [of "activity_update_new\<lparr>au_content := au_content u\<rparr>" _ c cc v]
    by (cases "au_content u") (simp_all add: valid_update_def valid_opt_content_def unset_fields)
  moreover have "hd_update (held_bounded u) = \<lparr>au_title = au_title t, au_detail = au_detail d, au_content = au_content c, au_truncated = False\<rparr>"
    by (simp add: held_bounded_def t d c)
  ultimately show ?thesis by (simp add: overlay_def activity_update_new_def)
qed

text \<open>
  What a host will show of a call once what is held of it is delivered, and two reducers that agree on
  everything but when they delivered.
\<close>

definition full :: "ustring \<Rightarrow> acp_reducer \<Rightarrow> shown \<Rightarrow> shown" where
  "full c r v = (case Option.bind (map_of (rd_open_calls r) c) oc_held of Some h \<Rightarrow> overlay (hd_update h) v | None \<Rightarrow> v)"

definition shape :: "(ustring \<times> open_call) list \<Rightarrow> (ustring \<times> 64 word) list" where
  "shape = map (map_prod id oc_opened)"

definition the_default :: "'a \<Rightarrow> 'a option \<Rightarrow> 'a" where
  "the_default d x = (case x of Some y \<Rightarrow> y | None \<Rightarrow> d)"

definition core where
  "core r = (rd_reasoning_open r, rd_plan_started r, rd_finished_calls r, rd_digest r, rd_next_call r, rd_compactions r,
     shape (rd_open_calls r))"

definition same_host :: "acp_reducer \<Rightarrow> (ustring \<Rightarrow> shown) \<Rightarrow> acp_reducer \<Rightarrow> (ustring \<Rightarrow> shown) \<Rightarrow> bool" where
  "same_host r v q w \<longleftrightarrow> core r = core q \<and> (\<forall>c. full c r (v c) = full c q (w c))"

definition steady_events :: "('f, 'l) payload event_kind list \<Rightarrow> ('f, 'l) payload event_kind list" where
  "steady_events = filter (\<lambda>e. case e of ActivityUpdated _ _ \<Rightarrow> False | _ \<Rightarrow> True)"

definition agree where
  "agree v x w y \<longleftrightarrow> same_host (fst x) (shows_of (snd x) v) (fst y) (shows_of (snd y) w) \<and> steady_events (snd x) = steady_events (snd y)"

lemma shape_ops:
  "shape (AList.update i c xs) = AList.update i (oc_opened c) (shape xs)" "shape (AList.delete i xs) = AList.delete i (shape xs)"
  "map_of (shape xs) i = map_option oc_opened (map_of xs i)"
  by (induction xs) (auto simp: shape_def)

lemma steady_simps [simp]:
  "steady_events [] = []" "steady_events (es @ fs) = steady_events es @ steady_events fs"
  "steady_events (ActivityUpdated i u # es) = steady_events es"
  "steady_events (ActivityStarted i a # es) = ActivityStarted i a # steady_events es"
  "steady_events (ActivityCompleted i x # es) = ActivityCompleted i x # steady_events es"
  "steady_events (last_held i h) = []"
  by (simp_all add: steady_events_def last_held_def split: option.split)

lemma shows_append [simp]: "shows_of (es @ fs) v = shows_of fs (shows_of es v)" "shows_of [] v = v"
  by (rule ext, simp add: shows_of_def)+

lemma show_untouched: "call_trace c es = [] \<Longrightarrow> shows_of es v c = v c"
proof (induction es arbitrary: v)
  case (Cons e es)
  have "show_event c e x = x" if "mark_for c e = None" for x
    using that by (induction c e x rule: show_event.induct) (auto split: if_splits)
  then show ?case using Cons.prems Cons.IH [of "\<lambda>c. show_event c e (v c)"] by (simp add: shows_of_def split: option.splits)
qed simp

lemma same_branch:
  assumes "same_host r v q w"
  shows "(map_of (rd_open_calls r) i = None) = (map_of (rd_open_calls q) i = None)" "is_open r i = is_open q i" "is_finished r i = is_finished q i"
proof -
  have "map_option oc_opened (map_of (rd_open_calls r) i) = map_option oc_opened (map_of (rd_open_calls q) i)"
    using assms by (simp add: same_host_def core_def flip: shape_ops(3))
  then show "(map_of (rd_open_calls r) i = None) = (map_of (rd_open_calls q) i = None)" by (metis option.map_disc_iff)
  then show "is_open r i = is_open q i" by (simp add: is_open_def)
  show "is_finished r i = is_finished q i" using assms by (simp add: same_host_def core_def is_finished_def)
qed

lemma same_opened:
  "same_host r v q w \<Longrightarrow> map_of (rd_open_calls r) i = Some c \<Longrightarrow> map_of (rd_open_calls q) i = Some d \<Longrightarrow> oc_opened c = oc_opened d"
  using shape_ops(3) [of "rd_open_calls r" i] shape_ops(3) [of "rd_open_calls q" i] by (simp add: same_host_def core_def)

text \<open>Delivering or holding a change, and ending a call, shows the same whatever was held.\<close>

lemma deliver_full:
  assumes "map_of (rd_open_calls r) i = Some c" "deliver_or_hold i c later now r = (r', es)"
  shows "full j r' (shows_of (es :: ('f, 'l) payload event_kind list) v j) =
      (if j = i then overlay (hd_update later) (full i r (v i)) else full j r (v j))"
    "steady_events es = []" "core r' = core (r\<lparr>rd_open_calls := AList.update i c (rd_open_calls r)\<rparr>)"
  using assms
  by (auto simp: deliver_or_hold_def Let_def full_def update_conv' shows_of_def core_def shape_ops overlay_merge
      split: if_splits option.splits)

lemma deliver_same:
  assumes "same_host r v q w" "map_of (rd_open_calls r) i = Some c" "map_of (rd_open_calls q) i = Some d"
    "\<And>x. overlay (hd_update l) x = overlay (hd_update k) x"
  shows "agree v (deliver_or_hold i c l now r :: _ \<times> ('f, 'l) payload event_kind list) w (deliver_or_hold i d k now q)"
proof -
  obtain r' and es :: "('f, 'l) payload event_kind list" where x: "deliver_or_hold i c l now r = (r', es)" by fastforce
  obtain q' and fs :: "('f, 'l) payload event_kind list" where y: "deliver_or_hold i d k now q = (q', fs)" by fastforce
  note full = deliver_full [OF assms(2) x] deliver_full [OF assms(3) y]
  have "core r' = core q'" using full(3,6) assms(1) same_opened [OF assms(1-3)] by (simp add: same_host_def core_def shape_ops)
  then show ?thesis using full assms(1,4) by (simp add: agree_def x y same_host_def)
qed

lemma agreeI:
  assumes "same_host r v q w" "core (fst x) = core (fst y)" "steady_events (snd x) = steady_events (snd y)"
    "\<And>c. c \<noteq> i \<Longrightarrow> call_trace c (snd x) = [] \<and> call_trace c (snd y) = [] \<and>
       full c (fst x) (v c) = full c r (v c) \<and> full c (fst y) (w c) = full c q (w c)"
    "full i (fst x) (shows_of (snd x) v i) = full i (fst y) (shows_of (snd y) w i)"
  shows "agree v (x :: _ \<times> ('f, 'l) payload event_kind list) w y"
proof -
  have "full c (fst x) (shows_of (snd x) v c) = full c (fst y) (shows_of (snd y) w c)" for c
    using assms(1,4,5) show_untouched [of c "snd x" v] show_untouched [of c "snd y" w] by (cases "c = i") (auto simp: same_host_def)
  then show ?thesis using assms(2,3) by (simp add: agree_def same_host_def)
qed

lemma agree_trans:
  assumes "agree v (r, es :: ('f, 'l) payload event_kind list) w (q, fs)" "agree (shows_of es v) (r', es') (shows_of fs w) (q', fs')"
  shows "agree v (r', es @ es') w (q', fs @ fs')"
  using assms by (simp add: agree_def)

lemma last_held_shows: "shows_of (last_held i h :: ('f, 'l) payload event_kind list) v i = (case h of Some k \<Rightarrow> overlay (hd_update k) (v i) | None \<Rightarrow> v i)"
  by (simp add: last_held_def shows_of_def held_is_empty_def overlay_empty split: option.split)

text \<open>A call ended: what was still held of it is shown first, less what the result says again.\<close>

lemma ended_full:
  "shows_of (last_held i (map_option (\<lambda>h. superseded_by h x) h) @ [ActivityCompleted i (ResultPayload x)] :: ('f, 'l) payload event_kind list) v i =
   overlay_result x (case h of Some k \<Rightarrow> overlay (hd_update k) (v i) | None \<Rightarrow> v i)"
proof -
  have one: "shows_of [ActivityCompleted i (ResultPayload x) :: ('f, 'l) payload event_kind] u i = overlay_result x (u i)" for u
    by (simp add: shows_of_def)
  show ?thesis unfolding shows_append one last_held_shows by (simp add: overlay_superseded split: option.split)
qed

lemma full_ops [simp]:
  "full c (mark_finished i r) v = full c r v" "full c (r\<lparr>rd_compactions := cs\<rparr>) v = full c r v"
  "full c (r\<lparr>rd_reasoning_open := b\<rparr>) v = full c r v" "full c (r\<lparr>rd_plan_started := b\<rparr>) v = full c r v"
  "full c (r\<lparr>rd_open_calls := AList.delete i (rd_open_calls r)\<rparr>) v = (if c = i then v else full c r v)"
  by (simp_all add: full_def mark_finished_def delete_conv')

lemma close_same:
  assumes "same_host r v q w" "map_of (rd_open_calls r) i = Some c" "map_of (rd_open_calls q) i = Some d"
  shows "agree v (close_call i c x r :: _ \<times> ('f, 'l) payload event_kind list) w (close_call i d x q)"
proof (rule agreeI [OF assms(1)])
  show "core (fst (close_call i c x r :: _ \<times> ('f, 'l) payload event_kind list)) = core (fst (close_call i d x q :: _ \<times> ('f, 'l) payload event_kind list))"
    using assms(1) by (simp add: close_call_def same_host_def core_def shape_ops)
  show "full i (fst (close_call i c x r)) (shows_of (snd (close_call i c x r :: _ \<times> ('f, 'l) payload event_kind list)) v i) =
      full i (fst (close_call i d x q)) (shows_of (snd (close_call i d x q :: _ \<times> ('f, 'l) payload event_kind list)) w i)"
  proof -
    have "(case oc_held c of Some k \<Rightarrow> overlay (hd_update k) (v i) | None \<Rightarrow> v i) = full i r (v i)"
      "(case oc_held d of Some k \<Rightarrow> overlay (hd_update k) (w i) | None \<Rightarrow> w i) = full i q (w i)"
      using assms(2,3) by (simp_all add: full_def)
    moreover have "full i r (v i) = full i q (w i)" using assms(1) by (simp add: same_host_def)
    ultimately show ?thesis unfolding close_call_def fst_conv snd_conv ended_full full_ops by simp
  qed
qed (simp_all add: close_call_def)

lemma no_change: "same_host r v q w \<Longrightarrow> agree v (r, []) w (q, [])"
  by (simp add: agree_def)

definition valid_block :: "tool_block \<Rightarrow> bool" where
  "valid_block b =
     (case b of
        ContentToolBlock c \<Rightarrow> valid_opt (plain_text c)
      | DiffToolBlock d \<Rightarrow> valid_str (df_path d) \<and> valid_opt (df_old d) \<and> valid_str (df_new d)
      | TerminalToolBlock i \<Rightarrow> valid_str i
      | _ \<Rightarrow> True)"

definition valid_fields :: "tool_update \<Rightarrow> bool" where
  "valid_fields u \<longleftrightarrow> valid_opt (tp_title u) \<and> (\<forall>bs \<in> set_option (tp_content u). \<forall>b \<in> set bs. valid_block b)"

lemma first_result_Some: "first_result f xs = Some y \<Longrightarrow> \<exists>x \<in> set xs. f x = Some y"
  by (induction xs) (auto split: option.splits)

lemma content_detail_valid:
  assumes "\<forall>b \<in> set bs. valid_block b"
  shows "valid_opt (content_detail bs)"
proof (cases "content_detail bs")
  case (Some s)
  then obtain b where "b \<in> set bs" "(case b of ContentToolBlock c \<Rightarrow> plain_text c | _ \<Rightarrow> None) = Some s \<or>
      (case b of DiffToolBlock d \<Rightarrow> Some (df_path d) | _ \<Rightarrow> None) = Some s \<or>
      (case b of TerminalToolBlock i \<Rightarrow> Some i | _ \<Rightarrow> None) = Some s"
    unfolding content_detail_def content_text_def
    by (auto split: option.splits dest!: first_result_Some)
  moreover from this have "valid_block b" using assms by blast
  ultimately show ?thesis using Some by (auto simp: valid_block_def split: tool_block.splits)
qed simp

lemma content_loop_valid:
  "\<forall>b \<in> set bs. valid_block b \<Longrightarrow> \<forall>f \<in> set fs. valid_content (DiffContent [f]) \<Longrightarrow> valid_opt t \<Longrightarrow>
   content_loop fs t bs = (gs, u) \<Longrightarrow> (\<forall>f \<in> set gs. valid_content (DiffContent [f])) \<and> valid_opt u"
proof (induction fs t bs rule: content_loop.induct)
  case (2 fs t d bs)
  have "valid_content (DiffContent [acp_file_change d])"
    using 2(2) by (cases "df_old d") (simp_all add: valid_block_def acp_file_change_def with_texts_def file_change_new_def bodies_def)
  then have "\<forall>f \<in> set (fs @ [acp_file_change d]). valid_content (DiffContent [f])" using 2(3) by auto
  then show ?case using 2(2,4,5) by (intro 2(1)) simp_all
next
  case (3 fs t c bs)
  have "valid_opt (if t = None then plain_text c else t)" using 3(2,4) by (simp add: valid_block_def)
  then show ?case using 3(2,3,5) by (intro 3(1)) simp_all
next
  case "4_1"
  show ?case using "4_1"(2-5) by (intro "4_1"(1)) simp_all
next
  case "4_2"
  show ?case using "4_2"(2-5) by (intro "4_2"(1)) simp_all
qed simp

lemma tool_call_content_valid:
  assumes "\<forall>b \<in> set bs. valid_block b"
  shows "valid_opt_content (tool_call_content bs)"
proof -
  obtain gs u where loop: "content_loop [] None bs = (gs, u)" by fastforce
  from content_loop_valid [OF assms _ _ this] show ?thesis
    by (cases u) (auto simp: tool_call_content_def loop valid_opt_content_def)
qed

lemma tool_call_change_valid: "valid_fields u \<Longrightarrow> tool_call_change u = CallChanged x \<Longrightarrow> valid_update x"
  using content_detail_valid tool_call_content_valid
  by (auto simp: tool_call_change_def valid_fields_def valid_update_def Let_def activity_update_new_def valid_opt_content_def
      split: option.splits if_splits)

lemma update_open_call_same:
  assumes "same_host r v q w" "map_of (rd_open_calls r) (tp_id u) = Some c" "map_of (rd_open_calls q) (tp_id u) = Some d" "valid_fields u"
  shows "agree v (update_open_call u c now r :: _ \<times> ('f, 'l) payload event_kind list) w (update_open_call u d now q)"
proof (cases "tool_call_change u")
  case (CallEnded x)
  then show ?thesis using close_same [OF assms(1-3)] by (simp add: update_open_call_def)
next
  case (CallChanged x)
  have "overlay (hd_update (held_unbounded x)) y = overlay x y" for y by (simp add: held_unbounded_def)
  then show ?thesis
    using CallChanged overlay_bounded [OF tool_call_change_valid [OF assms(4) CallChanged]]
    by (auto simp: update_open_call_def intro!: deliver_same [OF assms(1-3)])
next
  case CallUnchanged
  then show ?thesis using no_change [OF assms(1)] by (simp add: update_open_call_def)
qed

lemma track_full: "\<not> is_open r i \<Longrightarrow> full c (track i fin r) v = full c r v"
  by (simp add: track_def full_def is_open_def update_conv' mark_finished_def)

lemma track_core: "core r = core q \<Longrightarrow> core (track i fin r) = core (track i fin q)"
  by (simp add: core_def track_def shape_ops)

lemma announce_same:
  assumes "same_host r v q w" "\<not> is_open r i" "\<And>c. c \<noteq> i \<Longrightarrow> call_trace c es = []"
  shows "agree v (track i fin r, es :: ('f, 'l) payload event_kind list) w (track i fin q, es)"
proof (rule agreeI [OF assms(1)])
  have closed: "\<not> is_open q i" using same_branch(2) [OF assms(1)] assms(2) by simp
  have "full i r (v i) = full i q (w i)" using assms(1) by (simp add: same_host_def)
  then have "v i = w i" using assms(2) closed by (simp add: full_def is_open_def)
  then show "full i (fst (track i fin r, es)) (shows_of (snd (track i fin r, es)) v i) =
      full i (fst (track i fin q, es)) (shows_of (snd (track i fin q, es)) w i)"
    using assms(2) closed by (simp add: track_full) (simp add: full_def is_open_def shows_of_def)
  show "call_trace c (snd (track i fin r, es)) = [] \<and> call_trace c (snd (track i fin q, es)) = [] \<and>
      full c (fst (track i fin r, es)) (v c) = full c r (v c) \<and> full c (fst (track i fin q, es)) (w c) = full c q (w c)"
    if "c \<noteq> i" for c using assms(2,3) closed that by (simp add: track_full)
  show "core (fst (track i fin r, es)) = core (fst (track i fin q, es))"
    unfolding fst_conv by (rule track_core) (use assms(1) in \<open>simp add: same_host_def\<close>)
qed simp

lemma tool_call_events_trace: "c \<noteq> tc_id x \<Longrightarrow> call_trace c (tool_call_events x) = []"
  by (simp add: tool_call_events_def split: option.split)

lemma call_frame_announced:
  assumes "same_host r v q w" "map_of (rd_open_calls r) (tc_id c) = None"
  shows "agree v (tool_call_frame c now r :: _ \<times> ('f, 'l) payload event_kind list) w (tool_call_frame c now q)"
proof -
  have "map_of (rd_open_calls q) (tc_id c) = None" using same_branch(1) [OF assms(1)] assms(2) by simp
  moreover have "agree v (track (tc_id c) fin r, tool_call_events c :: ('f, 'l) payload event_kind list) w
      (track (tc_id c) fin q, tool_call_events c)" for fin
    using assms(2) by (intro announce_same [OF assms(1)] tool_call_events_trace) (simp_all add: is_open_def)
  moreover have "agree v (r, [] :: ('f, 'l) payload event_kind list) w (q, [])" using assms(1) by (rule no_change)
  ultimately show ?thesis
    unfolding tool_call_frame_def assms(2) same_branch(3) [OF assms(1)] option.case by simp
qed

lemma tool_call_frame_same:
  assumes "same_host r v q w" "valid_fields (call_fields c)"
  shows "agree v (tool_call_frame c now r :: _ \<times> ('f, 'l) payload event_kind list) w (tool_call_frame c now q)"
proof (cases "map_of (rd_open_calls r) (tc_id c)")
  case (Some oc)
  then obtain od where "map_of (rd_open_calls q) (tc_id c) = Some od" using same_branch(1) [OF assms(1), of "tc_id c"] by auto
  moreover have "tp_id (call_fields c) = tc_id c" by (simp add: call_fields_def)
  ultimately show ?thesis
    using Some update_open_call_same [OF assms(1), of "call_fields c" oc od] assms(2) by (simp add: tool_call_frame_def)
qed (rule call_frame_announced [OF assms(1)])

lemma tool_update_frame_same:
  assumes "same_host r v q w" "valid_fields u"
  shows "agree v (tool_update_frame env u now r :: _ \<times> ('f, 'l) payload event_kind list) w (tool_update_frame env u now q)"
proof (cases "map_of (rd_open_calls r) (tp_id u)")
  case None
  then have none: "map_of (rd_open_calls q) (tp_id u) = None" using same_branch(1) [OF assms(1)] by simp
  have "agree v (tool_call_frame (call_of_update env u) now r :: _ \<times> ('f, 'l) payload event_kind list) w
      (tool_call_frame (call_of_update env u) now q)"
    using None by (intro call_frame_announced [OF assms(1)]) (simp add: call_of_update_def)
  moreover have "agree v (r, [] :: ('f, 'l) payload event_kind list) w (q, [])" using assms(1) by (rule no_change)
  ultimately show ?thesis
    unfolding tool_update_frame_def None none same_branch(3) [OF assms(1)] option.case by simp
next
  case (Some c)
  then obtain d where "map_of (rd_open_calls q) (tp_id u) = Some d" using same_branch(1) [OF assms(1), of "tp_id u"] by auto
  then show ?thesis
    using Some by (simp add: tool_update_frame_def) (rule update_open_call_same [OF assms(1) _ _ assms(2)])
qed

lemma compactions_same: "same_host r v q w \<Longrightarrow> same_host (r\<lparr>rd_compactions := cs\<rparr>) v (q\<lparr>rd_compactions := cs\<rparr>) w"
  by (simp add: same_host_def core_def)

lemma compaction_agree:
  "agree v (r, es) w (q, fs) \<Longrightarrow> agree v (r\<lparr>rd_compactions := cs\<rparr>, es) w (q\<lparr>rd_compactions := cs\<rparr>, fs)"
  by (simp add: agree_def compactions_same)

lemma open_compaction_same:
  assumes "same_host r v q w" "open_compaction i x r = (r', es)" "open_compaction i x q = (q', fs)"
  shows "es = fs" "agree v (r', the_default [] es :: ('f, 'l) payload event_kind list) w (q', the_default [] fs)"
    "rd_compactions r' = rd_compactions q'"
proof -
  note branch = same_branch(2,3) [OF assms(1), of i]
  show same: "es = fs" using assms(2,3) branch by (auto simp: open_compaction_def Let_def split: if_splits)
  have core: "rd_compactions (track i f r) = rd_compactions (track i f q)" for f
    using assms(1) by (simp add: track_def same_host_def core_def)
  have plain: "rd_compactions r = rd_compactions q" using assms(1) by (simp add: same_host_def core_def)
  have started: "agree v (track i f r, [compaction_started i x :: ('f, 'l) payload event_kind]) w (track i f q, [compaction_started i x])"
    if "\<not> is_open r i" for f
    using that by (intro announce_same [OF assms(1)]) (simp_all add: compaction_started_def)
  show "agree v (r', the_default [] es :: ('f, 'l) payload event_kind list) w (q', the_default [] fs)"
    using assms(2,3) branch started no_change [OF assms(1)] core
    by (auto simp: open_compaction_def Let_def the_default_def compaction_agree split: if_splits)
  show "rd_compactions r' = rd_compactions q'"
    using assms(2,3) branch core plain by (auto simp: open_compaction_def Let_def split: if_splits)
qed

lemma compaction_changed_same:
  assumes "same_host r v q w"
  shows "agree v (compaction_changed i h now r :: _ \<times> ('f, 'l) payload event_kind list) w (compaction_changed i h now q)"
proof (cases "held_is_empty h \<or> map_of (rd_open_calls r) i = None")
  case True
  then show ?thesis
    using no_change [OF assms] same_branch(1) [OF assms, of i] by (auto simp: compaction_changed_def)
next
  case False
  then obtain c d where "map_of (rd_open_calls r) i = Some c" "map_of (rd_open_calls q) i = Some d"
    using same_branch(1) [OF assms, of i] by auto
  then show ?thesis using deliver_same [OF assms, of i c d h h now] False by (simp add: compaction_changed_def)
qed

lemma close_compaction_same:
  assumes "same_host r v q w"
  shows "agree v (close_compaction i x r :: _ \<times> ('f, 'l) payload event_kind list) w (close_compaction i x q)"
proof (rule agreeI [OF assms])
  show "core (fst (close_compaction i x r :: _ \<times> ('f, 'l) payload event_kind list)) = core (fst (close_compaction i x q :: _ \<times> ('f, 'l) payload event_kind list))"
    using assms by (simp add: close_compaction_def same_host_def core_def shape_ops Let_def)
  have held: "(case Option.bind (map_of (rd_open_calls p) i) oc_held of Some k \<Rightarrow> overlay (hd_update k) y | None \<Rightarrow> y) = full i p y" for p y
    by (simp add: full_def)
  have unmarked: "full i (mark_finished i (p\<lparr>rd_open_calls := AList.delete i (rd_open_calls p), rd_compactions := cs\<rparr>)) y = y" for p cs y
    by (simp add: full_def delete_conv')
  have "full i r (v i) = full i q (w i)" using assms by (simp add: same_host_def)
  then show "full i (fst (close_compaction i x r)) (shows_of (snd (close_compaction i x r :: _ \<times> ('f, 'l) payload event_kind list)) v i) =
      full i (fst (close_compaction i x q)) (shows_of (snd (close_compaction i x q :: _ \<times> ('f, 'l) payload event_kind list)) w i)"
    unfolding close_compaction_def Let_def fst_conv snd_conv ended_full held unmarked by simp
qed (simp_all add: close_compaction_def Let_def full_def delete_conv')

lemma agree_after:
  assumes "agree v (r, es :: ('f, 'l) payload event_kind list) w (q, es)" "agree (shows_of es v) x (shows_of es w) y"
  shows "agree v (case x of (r', fs) \<Rightarrow> (r', es @ fs)) w (case y of (r', fs) \<Rightarrow> (r', es @ fs))"
  using agree_trans [OF assms(1), of "fst x" "snd x" "fst y" "snd y"] assms(2) by (simp add: case_prod_beta)

lemma opened_host:
  "agree v (r, es :: ('f, 'l) payload event_kind list) w (q, es) \<Longrightarrow>
   same_host (r\<lparr>rd_compactions := cs\<rparr>) (shows_of es v) (q\<lparr>rd_compactions := cs\<rparr>) (shows_of es w)"
  by (simp add: agree_def compactions_same)

lemma compaction_update_same:
  assumes "same_host r v q w"
  shows "agree v (compaction_update env u now r :: _ \<times> ('f, 'l) payload event_kind list) w (compaction_update env u now q)"
proof -
  let ?i = "compaction_call_id (cu_id u)"
  obtain r1 and es :: "('f, 'l) payload event_kind list option" where r1: "open_compaction ?i (cu_id u) r = (r1, es)" by fastforce
  obtain q1 and fs :: "('f, 'l) payload event_kind list option" where q1: "open_compaction ?i (cu_id u) q = (q1, fs)" by fastforce
  note opened = open_compaction_same [OF assms r1 q1]
  show ?thesis
  proof (cases fs)
    case None
    then show ?thesis using opened by (simp add: compaction_update_def r1 q1 the_default_def)
  next
    case (Some es1)
    have es: "es = Some es1" using opened(1) Some by simp
    have start: "agree v (r1, es1) w (q1, es1)" using opened(2) es Some by (simp add: the_default_def)
    show ?thesis
    proof (cases "map_of (rd_compactions q1) ?i")
      case None
      then show ?thesis using start by (simp add: compaction_update_def r1 q1 es Some opened(3))
    next
      case found: (Some co)
      obtain s sp where s: "patch_summary (cu_summary u) (co_summary co) = (s, sp)" by fastforce
      obtain k kp where k: "patch_error (en_msg env) (cu_error u) (co\<lparr>co_summary := s\<rparr>) = (k, kp)" by fastforce
      note host = opened_host [OF start]
      show ?thesis
        unfolding compaction_update_def Let_def r1 q1 es Some prod.case option.case opened(3) found s k
        by (cases "compaction_finished (cu_status u)"; simp only: option.case)
          (rule agree_after [OF start], rule compaction_changed_same close_compaction_same, rule host)+
    qed
  qed
qed

lemma compaction_chunk_same:
  assumes "same_host r v q w"
  shows "agree v (compaction_chunk i t now r :: _ \<times> ('f, 'l) payload event_kind list) w (compaction_chunk i t now q)"
proof -
  let ?i = "compaction_call_id i"
  obtain r1 and es :: "('f, 'l) payload event_kind list option" where r1: "open_compaction ?i i r = (r1, es)" by fastforce
  obtain q1 and fs :: "('f, 'l) payload event_kind list option" where q1: "open_compaction ?i i q = (q1, fs)" by fastforce
  note opened = open_compaction_same [OF assms r1 q1]
  show ?thesis
  proof (cases fs)
    case None
    then show ?thesis using opened by (simp add: compaction_chunk_def r1 q1 the_default_def)
  next
    case (Some es1)
    have es: "es = Some es1" using opened(1) Some by simp
    have start: "agree v (r1, es1) w (q1, es1)" using opened(2) es Some by (simp add: the_default_def)
    show ?thesis
    proof (cases "map_of (rd_compactions q1) ?i = None \<or> plain_text t = None")
      case True
      then show ?thesis using start by (auto simp: compaction_chunk_def Let_def r1 q1 es Some opened(3) split: option.split)
    next
      case False
      then obtain co raw where found: "map_of (rd_compactions q1) ?i = Some co" "plain_text t = Some raw" by auto
      obtain s changed where s: "appended (co_summary co) raw = (s, changed)" by fastforce
      note host = opened_host [OF start]
      have same: "agree v (r1\<lparr>rd_compactions := cs\<rparr>, es1) w (q1\<lparr>rd_compactions := cs\<rparr>, es1)" for cs
        using start by (rule compaction_agree)
      show ?thesis
        unfolding compaction_chunk_def Let_def r1 q1 es Some prod.case option.case opened(3) found s
        by (cases changed; simp only: not_True_eq_False not_False_eq_True if_True if_False)
          ((rule agree_after [OF start], rule compaction_changed_same, rule host) | rule same)+
    qed
  qed
qed

text \<open>What the strings of a frame are: sequences of the code points a \<open>str\<close> can hold.\<close>

definition valid_frame :: "'o session_update \<Rightarrow> bool" where
  "valid_frame u =
     (case u of
        ToolCallFrame c \<Rightarrow> valid_fields (call_fields c)
      | ToolCallUpdateFrame t \<Rightarrow> valid_fields t
      | _ \<Rightarrow> True)"

lemma valid_fields_id: "valid_fields (u\<lparr>tp_id := i\<rparr>) = valid_fields u" "call_fields (c\<lparr>tc_id := i\<rparr>) = (call_fields c)\<lparr>tp_id := i\<rparr>"
  by (simp_all add: valid_fields_def call_fields_def)

lemma quiet_same:
  assumes "same_host r v q w" "\<And>c. call_trace c es = []"
  shows "agree v (r, es :: ('f, 'l) payload event_kind list) w (q, es)"
  using assms by (simp add: agree_def same_host_def show_untouched)

lemma reasoning_same:
  assumes "same_host r v q w"
  shows "agree v (r\<lparr>rd_reasoning_open := b\<rparr>, [] :: ('f, 'l) payload event_kind list) w (q\<lparr>rd_reasoning_open := b\<rparr>, [])"
  using assms by (simp add: agree_def same_host_def core_def)

lemma acp_plan_same:
  assumes "same_host r v q w" "\<not> is_open r PLAN_CALL_ID"
  shows "agree v (acp_plan p r :: _ \<times> ('f, 'l) payload event_kind list) w (acp_plan p q)"
proof (rule agreeI [OF assms(1)])
  have closed: "\<not> is_open q PLAN_CALL_ID" using same_branch(2) [OF assms(1)] assms(2) by simp
  have started: "rd_plan_started r = rd_plan_started q" using assms(1) by (simp add: same_host_def core_def)
  have "full PLAN_CALL_ID r (v PLAN_CALL_ID) = full PLAN_CALL_ID q (w PLAN_CALL_ID)" using assms(1) by (simp add: same_host_def)
  then have "v PLAN_CALL_ID = w PLAN_CALL_ID" using assms(2) closed by (simp add: full_def is_open_def)
  then show "full PLAN_CALL_ID (fst (acp_plan p r)) (shows_of (snd (acp_plan p r :: _ \<times> ('f, 'l) payload event_kind list)) v PLAN_CALL_ID) =
      full PLAN_CALL_ID (fst (acp_plan p q)) (shows_of (snd (acp_plan p q :: _ \<times> ('f, 'l) payload event_kind list)) w PLAN_CALL_ID)"
    using assms(2) closed started by (simp add: acp_plan_def full_def is_open_def shows_of_def)
  show "core (fst (acp_plan p r :: _ \<times> ('f, 'l) payload event_kind list)) = core (fst (acp_plan p q :: _ \<times> ('f, 'l) payload event_kind list))"
    using assms(1) by (simp add: acp_plan_def same_host_def core_def)
  show "steady_events (snd (acp_plan p r :: _ \<times> ('f, 'l) payload event_kind list)) = steady_events (snd (acp_plan p q))"
    using started by (simp add: acp_plan_def)
qed (simp add: acp_plan_def)

lemma acp_body_same:
  assumes "same_host r v q w" "\<not> is_open r PLAN_CALL_ID" "valid_frame u"
    "acp_body env u now r = (r', es :: ('f, 'l) payload event_kind list, facts)" "acp_body env u now q = (q', fs, facts')"
  shows "agree v (r', es) w (q', fs)"
proof -
  have reason: "rd_reasoning_open r = rd_reasoning_open q" using assms(1) by (simp add: same_host_def core_def)
  have read: "agree v (reasoning_delta t r :: _ \<times> ('f, 'l) payload event_kind list) w (reasoning_delta t q)" for t
    using reason agree_trans [OF reasoning_same [OF assms(1)] quiet_same] no_change [OF assms(1)]
    by (auto simp: reasoning_delta_def agree_def same_host_def core_def show_untouched split: option.split)
  have quiet: "agree v (r, xs :: ('f, 'l) payload event_kind list) w (q, xs)" if "\<And>c. call_trace c xs = []" for xs
    using quiet_same [OF assms(1) that] .
  show ?thesis
  proof (cases u)
    case (ToolCallFrame c)
    with assms show ?thesis using tool_call_frame_same [OF assms(1), of "c\<lparr>tc_id := clear_of_plan (tc_id c)\<rparr>" now]
      by (auto simp: agree_def acp_body_def no_facts_def valid_frame_def valid_fields_id)
  next
    case (ToolCallUpdateFrame t)
    with assms show ?thesis using tool_update_frame_same [OF assms(1), of "t\<lparr>tp_id := clear_of_plan (tp_id t)\<rparr>" env now]
      by (auto simp: agree_def acp_body_def no_facts_def valid_frame_def valid_fields_id)
  next
    case (PlanFrame p)
    with assms show ?thesis using acp_plan_same [OF assms(1,2), of p] by (auto simp: agree_def acp_body_def no_facts_def)
  next
    case (CompactionUpdateFrame c)
    with assms show ?thesis using compaction_update_same [OF assms(1), of env c now] by (auto simp: agree_def acp_body_def no_facts_def)
  next
    case (CompactionSummaryFrame i c)
    with assms show ?thesis using compaction_chunk_same [OF assms(1), of i c now] by (auto simp: agree_def acp_body_def no_facts_def)
  next
    case (AgentThoughtChunk t)
    with assms show ?thesis using read [of t] by (auto simp: agree_def acp_body_def no_facts_def)
  next
    case (NoticeFrame a b d)
    with assms show ?thesis
      using quiet [of "acp_notice env a b d"] by (auto simp: acp_body_def acp_notice_def notice_def Let_def split: option.splits if_splits)
  qed (use assms(4,5) quiet in \<open>auto simp: acp_body_def usage_event_def split: option.splits\<close>)
qed

lemma update_at_same:
  assumes "same_host r v q w" "\<not> is_open r PLAN_CALL_ID" "valid_frame u"
    "update_at env u now r = (r', es :: ('f, 'l) payload event_kind list, facts)" "update_at env u now q = (q', fs, facts')"
  shows "agree v (r', es) w (q', fs)"
proof -
  define closed :: "acp_reducer \<Rightarrow> acp_reducer" where "closed p = (if is_transcript u then p\<lparr>rd_reasoning_open := False\<rparr> else p)" for p
  define closing where "closing = (if is_transcript u \<and> rd_reasoning_open r then [ReasoningEnded :: ('f, 'l) payload event_kind] else [])"
  have opened: "rd_reasoning_open q = rd_reasoning_open r" using assms(1) by (simp add: same_host_def core_def)
  obtain r1 and es1 :: "('f, 'l) payload event_kind list" and f1 where r1: "acp_body env u now (closed r) = (r1, es1, f1)"
    by (metis prod_cases3)
  obtain q1 and fs1 :: "('f, 'l) payload event_kind list" and f2 where q1: "acp_body env u now (closed q) = (q1, fs1, f2)"
    by (metis prod_cases3)
  have out: "r' = r1" "es = closing @ es1" "q' = q1" "fs = closing @ fs1"
    using assms(4,5) r1 q1 opened
    by (auto simp: update_at_def close_reasoning_def closed_def closing_def split: if_splits prod.splits)
  have host: "same_host (closed r) v (closed q) w" using assms(1) by (simp add: closed_def same_host_def core_def)
  have first: "agree v (closed r, closing) w (closed q, closing)" by (rule quiet_same [OF host]) (simp add: closing_def)
  have "\<not> is_open (closed r) PLAN_CALL_ID" using assms(2) by (simp add: closed_def is_open_def)
  moreover have "same_host (closed r) (shows_of closing v) (closed q) (shows_of closing w)" using first by (simp add: agree_def)
  ultimately have "agree (shows_of closing v) (r1, es1) (shows_of closing w) (q1, fs1)"
    using acp_body_same [OF _ _ assms(3) r1 q1] by simp
  then show ?thesis unfolding out by (rule agree_trans [OF first])
qed

lemma acp_run_same:
  assumes "same_host r v q w" "bracket_inv PLAN_CALL_ID r t" "\<forall>(u, now) \<in> set us. valid_frame u"
    "acp_run env us r = (r', es :: ('f, 'l) payload event_kind list)" "acp_run env us q = (q', fs)"
  shows "agree v (r', es) w (q', fs)"
  using assms
proof (induction us arbitrary: r q v w t es fs)
  case (Cons x us)
  obtain u now where x: "x = (u, now)" by fastforce
  obtain r1 and es1 es2 :: "('f, 'l) payload event_kind list" and f1 where
    one: "update_at env u now r = (r1, es1, f1)" and rest: "acp_run env us r1 = (r', es2)" "es = es1 @ es2"
    using Cons.prems(4) x by (auto split: prod.splits)
  obtain q1 and fs1 fs2 :: "('f, 'l) payload event_kind list" and f2 where
    two: "update_at env u now q = (q1, fs1, f2)" and rest2: "acp_run env us q1 = (q', fs2)" "fs = fs1 @ fs2"
    using Cons.prems(5) x by (auto split: prod.splits)
  have "\<not> is_open r PLAN_CALL_ID" using Cons.prems(2) by (simp add: bracket_inv_def)
  then have first: "agree v (r1, es1) w (q1, fs1)" using update_at_same [OF Cons.prems(1) _ _ one two] Cons.prems(3) x by simp
  have "agree (shows_of es1 v) (r', es2) (shows_of fs1 w) (q', fs2)"
    using Cons.prems(3) first
    by (intro Cons.IH [OF _ bracket_update [OF Cons.prems(2) one plan_id_usable] _ rest(1) rest2(1)]) (simp_all add: agree_def)
  then show ?case unfolding rest(2) rest2(2) by (rule agree_trans [OF first])
qed (simp add: agree_def)

lemma map_insort_key: "map f (insort_key (k \<circ> f) x xs) = insort_key k (f x) (map f xs)"
  by (induction xs) simp_all

lemma map_sort_key: "map f (sort_key (k \<circ> f) xs) = sort_key k (map f xs)"
  by (induction xs) (simp_all add: map_insort_key [unfolded comp_def] comp_def)

lemma map_of_sorted: "distinct (map fst xs) \<Longrightarrow> map_of (sort_key k xs) = map_of xs"
  by (rule iffD2 [OF map_of_inject_set]) (simp_all add: distinct_map)

lemma finish_calls_shows:
  "distinct (map fst xs) \<Longrightarrow> finish_calls status xs r = (r', es :: ('f, 'l) payload event_kind list) \<Longrightarrow>
   shows_of es v c = (case Option.bind (map_of xs c) oc_held of Some h \<Rightarrow> overlay (hd_update h) (v c) | None \<Rightarrow> v c) \<and>
   steady_events es = map (\<lambda>x. ActivityCompleted (fst x) (ResultPayload (activity_result_new status))) xs \<and>
   rd_plan_started r' = rd_plan_started r"
proof (induction xs arbitrary: r es v)
  case (Cons x xs)
  obtain i oc where x: "x = (i, oc)" by fastforce
  obtain fs :: "('f, 'l) payload event_kind list" where
    rest: "finish_calls status xs (mark_finished i r) = (r', fs)" and
    es: "es = last_held i (oc_held oc) @ [ActivityCompleted i (ResultPayload (activity_result_new status))] @ fs"
    using Cons.prems(2) x by (auto split: prod.splits)
  have keys: "distinct (map fst xs)" "map_of xs i = None" using Cons.prems(1) x by (auto simp: map_of_eq_None_iff)
  have none: "overlay_result (activity_result_new status) y = y" for y
    by (simp add: overlay_result_def overlay_def activity_result_new_def activity_update_new_def bound_opt_def)
  define ended :: "('f, 'l) payload event_kind list" where "ended = [ActivityCompleted i (ResultPayload (activity_result_new status))]"
  define head where "head = last_held i (oc_held oc) @ ended"
  have one: "shows_of head v d = (if d = i then (case oc_held oc of Some h \<Rightarrow> overlay (hd_update h) (v i) | None \<Rightarrow> v i) else v d)" for d
  proof (cases "d = i")
    case True
    have "shows_of ended u i = u i" for u by (simp add: shows_of_def none ended_def)
    then show ?thesis unfolding True head_def shows_append by (simp add: last_held_shows)
  next
    case False
    then have "call_trace d head = []" by (simp add: head_def ended_def)
    then show ?thesis using False show_untouched by simp
  qed
  have "steady_events head = ended" by (simp add: head_def ended_def)
  moreover have "es = head @ fs" by (simp add: es head_def ended_def)
  moreover note Cons.IH [OF keys(1) rest, of "shows_of head v"] one [of c]
  ultimately show ?case unfolding x by (cases "c = i") (simp_all add: keys(2) ended_def split: option.split)
qed simp

lemma finish_with_shows:
  assumes "distinct (map fst (rd_open_calls r))" "finish_with status r = (r', es :: ('f, 'l) payload event_kind list)"
  shows "shows_of es v c = full c r (v c)"
    "steady_events es =
       (if rd_reasoning_open r then [ReasoningEnded] else []) @
       map (\<lambda>x. ActivityCompleted (fst x) (ResultPayload (activity_result_new status))) (sort_key snd (shape (rd_open_calls r))) @
       (if rd_plan_started r then [ActivityCompleted PLAN_CALL_ID (ResultPayload (activity_result_new CompletedActivity))] else [])"
proof -
  let ?xs = "sort_key (oc_opened \<circ> snd) (rd_open_calls r)"
  let ?r = "r\<lparr>rd_reasoning_open := False, rd_compactions := [], rd_open_calls := []\<rparr>"
  define closing :: "('f, 'l) payload event_kind list" where "closing = (if rd_reasoning_open r then [ReasoningEnded] else [])"
  define plan_end :: "('f, 'l) payload event_kind list" where
    "plan_end = (if rd_plan_started r then [ActivityCompleted PLAN_CALL_ID (ResultPayload (activity_result_new CompletedActivity))] else [])"
  obtain r2 and fs :: "('f, 'l) payload event_kind list" where calls: "finish_calls status ?xs ?r = (r2, fs)" by fastforce
  have keys: "distinct (map fst ?xs)" using assms(1) by (simp add: distinct_map inj_on_def)
  note shown_calls = finish_calls_shows [OF keys calls]
  have es: "es = closing @ fs @ plan_end"
    using assms(2) calls shown_calls by (auto simp: finish_with_def close_reasoning_def Let_def closing_def plan_end_def)
  have "shows_of plan_end u c = u c" for u
    by (simp add: plan_end_def shows_of_def overlay_result_def overlay_def activity_result_new_def activity_update_new_def bound_opt_def)
  moreover have "shows_of closing v c = v c" by (rule show_untouched) (simp add: closing_def)
  moreover have "shows_of fs u c = full c r (u c)" for u
    using shown_calls [of u c] by (simp add: full_def map_of_sorted [OF assms(1)])
  ultimately show "shows_of es v c = full c r (v c)" by (simp add: es)
  have "steady_events fs = map (\<lambda>x. ActivityCompleted (fst x) (ResultPayload (activity_result_new status))) (map (map_prod id oc_opened) ?xs)"
    using shown_calls by simp
  also have "map (map_prod id oc_opened) ?xs = sort_key snd (shape (rd_open_calls r))"
    using map_sort_key [of "map_prod id oc_opened" snd "rd_open_calls r"] by (simp add: shape_def comp_def)
  finally have "steady_events fs = map (\<lambda>x. ActivityCompleted (fst x) (ResultPayload (activity_result_new status))) (sort_key snd (shape (rd_open_calls r)))" .
  moreover have "steady_events closing = closing" "steady_events plan_end = plan_end" by (simp_all add: closing_def plan_end_def steady_events_def)
  ultimately show "steady_events es =
       (if rd_reasoning_open r then [ReasoningEnded] else []) @
       map (\<lambda>x. ActivityCompleted (fst x) (ResultPayload (activity_result_new status))) (sort_key snd (shape (rd_open_calls r))) @
       (if rd_plan_started r then [ActivityCompleted PLAN_CALL_ID (ResultPayload (activity_result_new CompletedActivity))] else [])"
    by (simp add: es closing_def plan_end_def)
qed

lemma shape_keys: "map fst (shape xs) = map fst xs"
  by (induction xs) (auto simp: shape_def)

text \<open>C16: holding updates back loses nothing and changes nothing else: however long the interval, once the turn
  is finished a host shows the same title, detail and content for every call as it would have with any other
  interval - with none, every change is delivered - and every event but those updates is the same.\<close>

theorem pacing_loses_nothing:
  assumes "\<forall>(u, now) \<in> set us. valid_frame u"
  shows "(let (r, es) = acp_run env us (with_update_interval (acp_reducer_new digest) interval);
        (_, fs) = finish_with status r;
        (q, gs) = acp_run env us (with_update_interval (acp_reducer_new digest) other);
        (_, hs) = finish_with status q
      in shows_of (es @ (fs :: ('f, 'l) payload event_kind list)) v = shows_of (gs @ (hs :: ('f, 'l) payload event_kind list)) v \<and>
         steady_events (es @ fs) = steady_events (gs @ hs)) \<and>
    \<not> recent (with_update_interval (acp_reducer_new digest) 0) c now"
proof -
  let ?r0 = "with_update_interval (acp_reducer_new digest) interval"
  let ?q0 = "with_update_interval (acp_reducer_new digest) other"
  obtain r and es :: "('f, 'l) payload event_kind list" where run: "acp_run env us ?r0 = (r, es)" by fastforce
  obtain q and gs :: "('f, 'l) payload event_kind list" where run2: "acp_run env us ?q0 = (q, gs)" by fastforce
  obtain r' and fs :: "('f, 'l) payload event_kind list" where fin: "finish_with status r = (r', fs)" by fastforce
  obtain q' and hs :: "('f, 'l) payload event_kind list" where fin2: "finish_with status q = (q', hs)" by fastforce
  have start: "bracket_inv PLAN_CALL_ID ?r0 []"
    by (simp add: bracket_inv_def keys_ok_def is_open_def with_update_interval_def acp_reducer_new_def)
  have host: "same_host ?r0 v ?q0 v"
    by (simp add: same_host_def core_def full_def with_update_interval_def acp_reducer_new_def)
  from acp_run_same [OF host start assms run run2]
  have agreed: "core r = core q" "\<And>c. full c r (shows_of es v c) = full c q (shows_of gs v c)" "steady_events es = steady_events gs"
    by (simp_all add: agree_def same_host_def)
  have keys: "distinct (map fst (rd_open_calls r))"
    using bracket_run [OF start plan_id_usable run] by (simp add: bracket_inv_def keys_ok_def)
  moreover have shapes: "shape (rd_open_calls r) = shape (rd_open_calls q)" "rd_reasoning_open r = rd_reasoning_open q"
    "rd_plan_started r = rd_plan_started q" using agreed(1) by (simp_all add: core_def)
  ultimately have keys2: "distinct (map fst (rd_open_calls q))" using shape_keys by metis
  have "shows_of (es @ fs) v = shows_of (gs @ hs) v"
    by (rule ext) (simp add: finish_with_shows(1) [OF keys fin] finish_with_shows(1) [OF keys2 fin2] agreed(2))
  moreover have "steady_events (es @ fs) = steady_events (gs @ hs)"
    by (simp add: agreed(3) finish_with_shows(2) [OF keys fin] finish_with_shows(2) [OF keys2 fin2] shapes)
  moreover have "\<not> recent (with_update_interval (acp_reducer_new digest) 0) c now"
    by (simp add: recent_def with_update_interval_def split: option.split)
  ultimately show ?thesis unfolding Let_def run run2 fin fin2 prod.case by blast
qed

text \<open>A call announced and changed twice at once: with an interval the second change is held, and shown at the end.\<close>

definition sample_prompt :: "(unit session_update \<times> nat) list" where
  "sample_prompt =
     [(ToolCallUpdateFrame \<lparr>tp_id = lit ''t'', tp_title = Some (lit ''a''), tp_name = None, tp_kind = None, tp_status = None,
         tp_content = None, tp_locations = None\<rparr>, 0),
      (ToolCallUpdateFrame \<lparr>tp_id = lit ''t'', tp_title = Some (lit ''b''), tp_name = None, tp_kind = None, tp_status = None,
         tp_content = None, tp_locations = None\<rparr>, 1),
      (ToolCallUpdateFrame \<lparr>tp_id = lit ''t'', tp_title = Some (lit ''c''), tp_name = None, tp_kind = None, tp_status = None,
         tp_content = None, tp_locations = None\<rparr>, 2)]"

lemma pacing_loses_nothing_witness:
  "map (valid_frame \<circ> fst) sample_prompt = [True, True, True] \<and>
   (let (r, es) = acp_run sample_env sample_prompt (with_update_interval (acp_reducer_new (\<lambda>_. 0)) 10);
       (_, fs) = finish_with CompletedActivity r;
       (q, gs) = acp_run sample_env sample_prompt (with_update_interval (acp_reducer_new (\<lambda>_. 0)) 0);
       (_, hs) = finish_with CompletedActivity q
     in \<forall>v. shows_of (es @ (fs :: (unit, unit) payload event_kind list)) v = shows_of (gs @ (hs :: (unit, unit) payload event_kind list)) v)"
proof -
  have frames: "\<forall>(u, now) \<in> set sample_prompt. valid_frame u"
    by (simp add: sample_prompt_def valid_frame_def valid_fields_def lit_def scalar_value_def)
  have "map (valid_frame \<circ> fst) sample_prompt = [True, True, True]" using frames by (simp add: sample_prompt_def)
  then show ?thesis
    using pacing_loses_nothing [OF frames, of sample_env "\<lambda>_. 0" 10 CompletedActivity 0, where ?'f = unit and ?'l = unit]
    by (simp add: case_prod_beta Let_def)
qed

end
