(* ===== verification/Claude_Protocol.thy ===== *)
theory Claude_Protocol imports Codex_Turn begin

text \<open>
  The records of a Claude Code run (\<open>mango-agent-claude/src/protocol.rs\<close>, \<open>commands.rs\<close>): borrowed views of
  one JSON object each, every field read leniently, the head of a tool result that is kept without
  joining the rest, and the catalog of commands an \<open>init\<close> record announces. Parsing JSON is
  \<open>serde_json\<close>'s: \<open>decode\<close> is a parameter. A number is the text it was written with.
\<close>

subsection \<open>Fields\<close>

type_synonym fields = "(ustring \<times> json) list"

definition text_field :: "fields \<Rightarrow> ustring \<Rightarrow> ustring option" where
  "text_field fs key = Option.bind (map_of fs key) json_str"

definition non_empty_field :: "fields \<Rightarrow> ustring \<Rightarrow> ustring option" where
  "non_empty_field fs key =
     (case text_field fs key of Some v \<Rightarrow> if v \<noteq> [] then Some v else None | None \<Rightarrow> None)"

fun json_object :: "json \<Rightarrow> fields option" where
  "json_object (JObject fs) = Some fs"
| "json_object _ = None"

definition object_field :: "fields \<Rightarrow> ustring \<Rightarrow> fields option" where
  "object_field fs key = Option.bind (map_of fs key) json_object"

definition strings_field :: "fields \<Rightarrow> ustring \<Rightarrow> ustring list option" where
  "strings_field fs key =
     (case map_of fs key of Some (JArray values) \<Rightarrow> Some (List.map_filter json_str values) | _ \<Rightarrow> None)"

definition digit :: "uchar \<Rightarrow> bool" where
  "digit c \<longleftrightarrow> 48 \<le> c \<and> c \<le> 57"

definition digits_value :: "ustring \<Rightarrow> nat" where
  "digits_value s = foldl (\<lambda>n c. 10 * n + (c - 48)) 0 s"

fun json_u64 :: "json \<Rightarrow> 64 word option" where
  "json_u64 (JNumber n) =
     (if n \<noteq> [] \<and> list_all digit n \<and> digits_value n < 2 ^ 64 then Some (of_nat (digits_value n)) else None)"
| "json_u64 _ = None"

fun json_i64 :: "json \<Rightarrow> int option" where
  "json_i64 (JNumber n) =
     (case n of
        [] \<Rightarrow> None
      | c # ds \<Rightarrow>
          if list_all digit n then (if digits_value n < 2 ^ 63 then Some (int (digits_value n)) else None)
          else if c = 0x2d \<and> ds \<noteq> [] \<and> list_all digit ds \<and> 0 < digits_value ds \<and> digits_value ds \<le> 2 ^ 63
            then Some (- int (digits_value ds))
          else None)"
| "json_i64 _ = None"

definition count_field :: "fields \<Rightarrow> ustring \<Rightarrow> 64 word option" where
  "count_field fs key = Option.bind (map_of fs key) json_u64"

subsection \<open>Records\<close>

record stream_record =
  sr_fields :: fields

definition stream_record_parse :: "(ustring \<Rightarrow> json option) \<Rightarrow> ustring \<Rightarrow> stream_record option" where
  "stream_record_parse decode l =
     (let trimmed = trim l
      in if \<not> prefix [0x7b] trimmed then None
         else case decode trimmed of Some (JObject fs) \<Rightarrow> Some \<lparr>sr_fields = fs\<rparr> | _ \<Rightarrow> None)"

definition record_kind :: "stream_record \<Rightarrow> ustring option" where
  "record_kind r = text_field (sr_fields r) (lit ''type'')"

definition record_subtype :: "stream_record \<Rightarrow> ustring option" where
  "record_subtype r = text_field (sr_fields r) (lit ''subtype'')"

definition parent_tool_use_id :: "stream_record \<Rightarrow> ustring option" where
  "parent_tool_use_id r = non_empty_field (sr_fields r) (lit ''parent_tool_use_id'')"

definition record_stream_event :: "stream_record \<Rightarrow> fields option" where
  "record_stream_event r = object_field (sr_fields r) (lit ''event'')"

definition content_blocks :: "stream_record \<Rightarrow> fields list" where
  "content_blocks r =
     (case object_field (sr_fields r) (lit ''message'') of
        None \<Rightarrow> []
      | Some message \<Rightarrow>
          (case map_of message (lit ''content'') of
             Some (JArray content) \<Rightarrow> List.map_filter json_object content
           | _ \<Rightarrow> []))"

definition plugin_names :: "fields \<Rightarrow> ustring list" where
  "plugin_names fs =
     (case map_of fs (lit ''plugins'') of
        Some (JArray plugins) \<Rightarrow>
          List.map_filter (\<lambda>p. text_field p (lit ''name'')) (List.map_filter json_object plugins)
      | _ \<Rightarrow> [])"

text \<open>A block of a message, a streamed event and its delta, a denial, a result and an init: views of an object.\<close>

definition block_kind :: "fields \<Rightarrow> ustring option" where
  "block_kind b = text_field b (lit ''type'')"

definition block_text_of :: "fields \<Rightarrow> ustring option" where
  "block_text_of b = non_empty_field b (lit ''text'')"

definition block_thinking :: "fields \<Rightarrow> ustring option" where
  "block_thinking b = non_empty_field b (lit ''thinking'')"

definition block_name :: "fields \<Rightarrow> ustring option" where
  "block_name b = non_empty_field b (lit ''name'')"

definition block_id :: "fields \<Rightarrow> ustring option" where
  "block_id b = non_empty_field b (lit ''id'')"

definition block_input :: "fields \<Rightarrow> json option" where
  "block_input b = map_of b (lit ''input'')"

definition block_tool_use_id :: "fields \<Rightarrow> ustring option" where
  "block_tool_use_id b = non_empty_field b (lit ''tool_use_id'')"

definition flag_is_error :: "fields \<Rightarrow> bool" where
  "flag_is_error b \<longleftrightarrow> map_of b (lit ''is_error'') = Some (JBool True)"

definition event_index :: "fields \<Rightarrow> 64 word option" where
  "event_index e = Option.bind (map_of e (lit ''index'')) json_u64"

definition content_block_type :: "fields \<Rightarrow> ustring option" where
  "content_block_type e = Option.bind (object_field e (lit ''content_block'')) (\<lambda>b. text_field b (lit ''type''))"

definition event_delta :: "fields \<Rightarrow> fields option" where
  "event_delta e = object_field e (lit ''delta'')"

definition result_text_field :: "fields \<Rightarrow> ustring option" where
  "result_text_field r = non_empty_field r (lit ''result'')"

definition terminal_reason :: "fields \<Rightarrow> ustring option" where
  "terminal_reason r = non_empty_field r (lit ''terminal_reason'')"

definition error_texts :: "fields \<Rightarrow> ustring list" where
  "error_texts r = (case strings_field r (lit ''errors'') of Some ts \<Rightarrow> ts | None \<Rightarrow> [])"

definition api_error_status :: "fields \<Rightarrow> int option" where
  "api_error_status r = Option.bind (map_of r (lit ''api_error_status'')) json_i64"

definition usage_default :: usage where
  "usage_default =
     \<lparr>us_input = None, us_output = None, us_cache_read = None, us_cache_write = None, us_reasoning = None, us_total = None\<rparr>"

definition result_usage :: "fields \<Rightarrow> usage option" where
  "result_usage r =
     (case object_field r (lit ''usage'') of
        None \<Rightarrow> None
      | Some u \<Rightarrow>
          (let reported = \<lparr>us_input = count_field u (lit ''input_tokens''), us_output = count_field u (lit ''output_tokens''),
                 us_cache_read = count_field u (lit ''cache_read_input_tokens''),
                 us_cache_write = count_field u (lit ''cache_creation_input_tokens''),
                 us_reasoning = None, us_total = None\<rparr>
           in if reported = usage_default then None else Some reported))"

subsection \<open>The head of a tool result\<close>

fun block_text :: "json \<Rightarrow> ustring option" where
  "block_text (JString s) = Some s"
| "block_text (JObject fs) = text_field fs (lit ''text'')"
| "block_text _ = None"

definition ascii_prefix :: "ustring \<Rightarrow> nat \<Rightarrow> bool" where
  "ascii_prefix s n \<longleftrightarrow> list_all (\<lambda>b. b < 0x80) (take n (utf8 s))"

text \<open>\<open>char_head\<close> and \<open>take_chars\<close>; \<open>None\<close> is the panic of a slice off a boundary.\<close>

definition char_head :: "ustring \<Rightarrow> nat \<Rightarrow> ustring option" where
  "char_head s limit =
     (let n = min (str_len s) limit
      in if ascii_prefix s n then map_option fst (split_at_byte s n)
         else case nth_opt (char_indices_from 0 s) limit of
                None \<Rightarrow> Some s
              | Some (boundary, _) \<Rightarrow> map_option fst (split_at_byte s boundary))"

fun take_loop :: "ustring \<Rightarrow> nat \<Rightarrow> nat \<Rightarrow> (nat \<times> uchar) list \<Rightarrow> (ustring \<times> nat) option" where
  "take_loop s limit count [] = Some (s, length s)"
| "take_loop s limit count ((boundary, _) # rest) =
     (if count = limit then map_option (\<lambda>(a, _). (a, limit)) (split_at_byte s boundary)
      else take_loop s limit (Suc count) rest)"

definition take_chars :: "ustring \<Rightarrow> nat \<Rightarrow> (ustring \<times> nat) option" where
  "take_chars s limit =
     (let n = min (str_len s) limit
      in if ascii_prefix s n then map_option (\<lambda>(a, _). (a, n)) (split_at_byte s n)
         else take_loop s limit 0 (char_indices_from 0 s))"

text \<open>The parts joined: \<open>first\<close> says no part was joined yet.\<close>

fun join_parts :: "bool \<Rightarrow> nat \<Rightarrow> ustring list \<Rightarrow> ustring option" where
  "join_parts first remaining [] = Some []"
| "join_parts first remaining (p # ps) =
     (if remaining = 0 then Some []
      else
        (let r = (if first then remaining else remaining - 1); sep = (if first then [] else [0x0a])
         in if \<not> first \<and> r = 0 then Some sep
            else Option.bind (take_chars p r) (\<lambda>(kept, count).
              map_option (\<lambda>rest. sep @ kept @ rest) (join_parts False (r - count) ps))))"

definition text_parts :: "json list \<Rightarrow> ustring list" where
  "text_parts blocks = filter (\<lambda>t. t \<noteq> []) (List.map_filter block_text blocks)"

definition join_head :: "json list \<Rightarrow> nat \<Rightarrow> ustring option" where
  "join_head blocks limit =
     (case text_parts blocks of
        [] \<Rightarrow> Some []
      | p # ps \<Rightarrow>
          Option.bind (take_chars p limit) (\<lambda>(h, count).
            if count = limit then Some h
            else if ps = [] then Some h
            else join_parts True limit (p # ps)))"

definition result_text :: "fields \<Rightarrow> ustring" where
  "result_text b =
     (case map_of b (lit ''content'') of
        Some (JString s) \<Rightarrow> s
      | Some (JArray blocks) \<Rightarrow> join_lines (text_parts blocks)
      | _ \<Rightarrow> [])"

definition result_text_head :: "fields \<Rightarrow> nat \<Rightarrow> ustring option" where
  "result_text_head b limit =
     (case map_of b (lit ''content'') of
        Some (JString s) \<Rightarrow> Some s
      | Some (JArray blocks) \<Rightarrow> join_head blocks limit
      | _ \<Rightarrow> Some [])"

fun hint_loop :: "nat \<Rightarrow> usize \<Rightarrow> ustring list \<Rightarrow> usize" where
  "hint_loop limit bytes [] = bytes"
| "hint_loop limit bytes (p # ps) =
     (let b = bytes + str_len p + 1 in if limit \<le> b then b else hint_loop limit b ps)"

definition capacity_hint :: "json list \<Rightarrow> nat \<Rightarrow> usize" where
  "capacity_hint blocks limit = min (hint_loop limit 0 (List.map_filter block_text blocks)) limit"

subsection \<open>Commands\<close>

definition PRIVATE_PREFIX :: ustring where
  "PRIVATE_PREFIX = lit ''__''"

definition MCP_PREFIX :: ustring where
  "MCP_PREFIX = lit ''mcp__''"

definition named_commands :: "ustring list \<Rightarrow> command list" where
  "named_commands names = map (\<lambda>n. \<lparr>cm_name = n, cm_description = None\<rparr>) names"

definition origin_is_known :: "ustring \<Rightarrow> ustring list \<Rightarrow> ustring list \<Rightarrow> bool" where
  "origin_is_known name skills plugins \<longleftrightarrow>
     name \<in> set skills \<or> prefix MCP_PREFIX name \<or>
     (let plugin = takeWhile (\<lambda>c. c \<noteq> 0x3a) name
      in 0x3a \<in> set name \<and> plugin \<noteq> [] \<and> plugin \<in> set plugins)"

definition command_catalog :: "fields \<Rightarrow> command list option" where
  "command_catalog init =
     (case strings_field init (lit ''slash_commands'') of
        None \<Rightarrow> None
      | Some announced \<Rightarrow>
          (let usable = filter (\<lambda>n. n \<noteq> [] \<and> \<not> prefix PRIVATE_PREFIX n) announced
           in case strings_field init (lit ''terminal_slash_commands'') of
                Some terminal_only \<Rightarrow> Some (named_commands (filter (\<lambda>n. n \<notin> set terminal_only) usable))
              | None \<Rightarrow>
                  (let skills = (case strings_field init (lit ''skills'') of Some s \<Rightarrow> s | None \<Rightarrow> []);
                       attributable = named_commands
                         (filter (\<lambda>n. origin_is_known n skills (plugin_names init)) usable)
                   in if attributable \<noteq> [] then Some attributable else None)))"

subsection \<open>Heads\<close>

lemma ascii_prefix_chars:
  "valid_str s \<Longrightarrow> n \<le> str_len s \<Longrightarrow> ascii_prefix s n \<Longrightarrow> \<exists>a b. s = a @ b \<and> length a = n \<and> str_len a = n"
proof (induction s arbitrary: n)
  case (Cons c s)
  show ?case
  proof (cases n)
    case (Suc m)
    have head: "\<forall>b \<in> set (take n (utf8_char c @ utf8 s)). b < 0x80" using Cons.prems(3) unfolding ascii_prefix_def list_all_iff utf8_Cons .
    obtain b bs where c: "utf8_char c = b # bs" by (meson utf8_char_not_Nil list.exhaust)
    then have "b \<in> set (take n (utf8_char c @ utf8 s))" using Suc by simp
    then have "b < 0x80" using head by blast
    then have "unat b < 0x80" by (simp add: word_less_nat_alt)
    then have ascii: "c < 0x80" using utf8_char_ascii_byte [of c b] Cons.prems(1) c by simp
    have "ascii_prefix s m" using Cons.prems(3) unfolding Suc ascii_prefix_def utf8_Cons_ascii [OF ascii] by simp
    moreover have "m \<le> str_len s" using Cons.prems(2) Suc ascii by (simp add: char_len_def)
    ultimately obtain a b where "s = a @ b" "length a = m" "str_len a = m"
      using Cons.IH [of m] Cons.prems(1) by auto
    then show ?thesis using ascii Suc by (intro exI [of _ "c # a"] exI [of _ b]) (simp add: char_len_def)
  qed simp
qed simp

lemma ascii_split:
  assumes "valid_str s" "ascii_prefix s (min (str_len s) limit)"
  shows "split_at_byte s (min (str_len s) limit) = Some (take limit s, drop limit s)"
    "min (str_len s) limit = length (take limit s)"
proof -
  obtain a b where s: "s = a @ b" and len: "length a = min (str_len s) limit" "str_len a = min (str_len s) limit"
    using ascii_prefix_chars [OF assms(1) min.cobounded1 assms(2)] by blast
  have cut: "take limit s = a \<and> drop limit s = b"
  proof (cases "limit \<le> str_len s")
    case True
    then have "length a = limit" using len(1) by simp
    then show ?thesis unfolding s by simp
  next
    case False
    then have "min (str_len s) limit = str_len s" by (simp add: min_def)
    then have "str_len a = str_len s" using len(2) by simp
    moreover have "str_len s = str_len a + str_len b" by (simp only: s str_len_append)
    ultimately have "str_len b = 0" by linarith
    then have b: "b = []" by (cases b) (simp_all add: char_len_def split: if_splits)
    have "length a \<le> limit" using len(1) by simp
    then show ?thesis unfolding s b by simp
  qed
  then show "split_at_byte s (min (str_len s) limit) = Some (take limit s, drop limit s)"
    using split_at_byte_append [of a b] unfolding len(2) [symmetric] by (simp add: s)
  show "min (str_len s) limit = length (take limit s)" using cut len(1) by simp
qed

lemma char_head_eq: "valid_str s \<Longrightarrow> char_head s limit = Some (take limit s)"
  by (cases "ascii_prefix s (min (str_len s) limit)")
    (simp_all add: char_head_def Let_def ascii_split(1) nth_opt_def char_indices_nth split_at_byte_take)

lemma take_loop_eq:
  "count + length rest = length s \<Longrightarrow> rest = drop count (char_indices_from 0 s) \<Longrightarrow> count \<le> limit \<Longrightarrow>
   take_loop s limit count rest = Some (take limit s, length (take limit s))"
proof (induction s limit count rest rule: take_loop.induct)
  case (2 s limit count boundary c rest)
  have "count < length s" using 2(2) by simp
  then have "(boundary, c) = char_indices_from 0 s ! count" "rest = drop (Suc count) (char_indices_from 0 s)"
    using 2(3) by (simp_all add: Cons_nth_drop_Suc [symmetric])
  then show ?case using 2(1,2,4) \<open>count < length s\<close>
    by (cases "count = limit") (simp_all add: char_indices_nth split_at_byte_take)
qed simp

lemma take_chars_eq:
  assumes "valid_str s"
  shows "take_chars s limit = Some (take limit s, length (take limit s))"
proof (cases "ascii_prefix s (min (str_len s) limit)")
  case True
  then show ?thesis unfolding take_chars_def Let_def if_P [OF True] ascii_split(1) [OF assms True]
    using ascii_split(2) [OF assms True] by simp
qed (simp add: take_chars_def Let_def take_loop_eq)

lemma join_parts_later:
  "\<forall>p \<in> set ps. valid_str p \<Longrightarrow> join_parts False remaining ps = Some (take remaining (concat (map (\<lambda>p. 0x0a # p) ps)))"
proof (induction ps arbitrary: remaining)
  case (Cons p ps)
  show ?case
  proof (cases "remaining \<le> 1")
    case False
    then have "take remaining (0x0a # p @ concat (map (\<lambda>p. 0x0a # p) ps)) =
        0x0a # take (remaining - 1) p @ take (remaining - 1 - length p) (concat (map (\<lambda>p. 0x0a # p) ps))"
      by (cases remaining) simp_all
    moreover have "remaining - 1 - length (take (remaining - 1) p) = remaining - 1 - length p" by simp
    ultimately show ?thesis using Cons False by (simp add: take_chars_eq Let_def)
  qed (cases "remaining = 0", auto simp: Let_def le_Suc_eq)
qed simp

lemma join_lines_concat: "join_lines (p # ps) = p @ concat (map (\<lambda>p. 0x0a # p) ps)"
  by (induction ps arbitrary: p) simp_all

lemma join_parts_eq:
  assumes "\<forall>p \<in> set ps. valid_str p"
  shows "join_parts True remaining ps = Some (take remaining (join_lines ps))"
proof (cases ps)
  case (Cons p qs)
  then show ?thesis using assms
    by (cases "remaining = 0") (simp_all add: Let_def take_chars_eq join_parts_later join_lines_concat min_def)
qed simp

lemma join_head_eq:
  assumes "\<forall>p \<in> set (text_parts blocks). valid_str p"
  shows "join_head blocks limit = Some (take limit (join_lines (text_parts blocks)))"
proof (cases "text_parts blocks")
  case (Cons p ps)
  note eq = join_parts_eq [OF assms, of limit]
  have p: "take_chars p limit = Some (take limit p, length (take limit p))" using assms Cons by (simp add: take_chars_eq)
  show ?thesis
  proof (cases "length (take limit p) = limit")
    case True
    then show ?thesis using p Cons by (simp add: join_head_def join_lines_concat)
  next
    case False
    then show ?thesis using p Cons eq by (cases ps) (simp_all add: join_head_def)
  qed
qed (simp add: join_head_def)

text \<open>The reading of a frame's strings is of strings a \<open>str\<close> can hold, at any depth.\<close>

fun valid_json :: "json \<Rightarrow> bool" where
  "valid_json (JString s) = valid_str s"
| "valid_json (JArray vs) = list_all valid_json vs"
| "valid_json (JObject fs) = list_all (\<lambda>(_, v). valid_json v) fs"
| "valid_json _ = True"

abbreviation valid_fields_json :: "fields \<Rightarrow> bool" where
  "valid_fields_json fs \<equiv> list_all (\<lambda>(_, v). valid_json v) fs"

lemma valid_member: "valid_fields_json fs \<Longrightarrow> map_of fs k = Some v \<Longrightarrow> valid_json v"
  by (auto simp: list_all_iff dest!: map_of_SomeD)

lemma valid_text_field: "valid_fields_json fs \<Longrightarrow> text_field fs k = Some s \<Longrightarrow> valid_str s"
  by (cases "map_of fs k"; cases "the (map_of fs k)") (auto simp: text_field_def dest: valid_member)

lemma valid_block_text: "valid_json v \<Longrightarrow> block_text v = Some s \<Longrightarrow> valid_str s"
  by (cases v) (auto dest: valid_text_field)

lemma text_parts_valid: "list_all valid_json blocks \<Longrightarrow> \<forall>p \<in> set (text_parts blocks). valid_str p"
  using valid_block_text by (auto simp: text_parts_def map_filter_def list_all_iff)

text \<open>C23: the head of a tool result is exact: it is read without a panic, a string comes whole, and an array of
  parts is cut at the bound exactly where joining all of it and cutting would have, never inside a
  character; the fast path over ASCII bytes returns what counting characters would.\<close>

theorem result_head_exact:
  assumes "valid_fields_json b"
  shows "\<exists>h. result_text_head b limit = Some h \<and> take limit h = take limit (result_text b) \<and>
    (\<forall>blocks. map_of b (lit ''content'') = Some (JArray blocks) \<longrightarrow> length h \<le> limit \<and>
       join_head blocks limit = join_parts True limit (text_parts blocks)) \<and>
    char_head (result_text b) limit = Some (take limit (result_text b)) \<and>
    take_chars (result_text b) limit = take_loop (result_text b) limit 0 (char_indices_from 0 (result_text b))"
proof -
  have joined: "valid_str (join_lines ps)" if "\<forall>p \<in> set ps. valid_str p" for ps
    using that by (induction ps rule: join_lines.induct) (auto simp: scalar_value_def)
  have parts: "\<forall>p \<in> set (text_parts blocks). valid_str p" if "map_of b (lit ''content'') = Some (JArray blocks)" for blocks
    using text_parts_valid valid_member [OF assms that] by simp
  have string: "valid_str s" if "map_of b (lit ''content'') = Some (JString s)" for s
    using valid_member [OF assms that] by simp
  have valid: "valid_str (result_text b)"
    using joined parts string by (auto simp: result_text_def split: option.split json.split)
  have "char_head (result_text b) limit = Some (take limit (result_text b))"
    "take_chars (result_text b) limit = take_loop (result_text b) limit 0 (char_indices_from 0 (result_text b))"
    using valid take_loop_eq [of 0 "char_indices_from 0 (result_text b)" "result_text b" limit] by (simp_all add: char_head_eq take_chars_eq)
  moreover have "\<exists>h. result_text_head b limit = Some h \<and> take limit h = take limit (result_text b) \<and>
    (\<forall>blocks. map_of b (lit ''content'') = Some (JArray blocks) \<longrightarrow> length h \<le> limit \<and>
       join_head blocks limit = join_parts True limit (text_parts blocks))"
    using join_head_eq [OF parts] join_parts_eq [OF parts]
    by (auto simp: result_text_head_def result_text_def split: option.split json.split)
  ultimately show ?thesis by blast
qed

lemma result_head_exact_witness:
  "\<exists>h. result_text_head [(lit ''content'', JArray [JString (lit ''ab''), JNull, JString (lit ''cd'')])] 4 = Some h \<and> take 4 h = lit ''ab'' @ [0x0a, 0x63]"
  using result_head_exact [of "[(lit ''content'', JArray [JString (lit ''ab''), JNull, JString (lit ''cd'')])]" 4]
  by (auto simp: lit_def scalar_value_def result_text_def text_parts_def map_filter_def)

end
