(* ===== verification/Claude_Reducer.thy ===== *)
theory Claude_Reducer imports Claude_Protocol "HOL-Library.Multiset" begin

text \<open>
  The reducer of the Claude Code harness (\<open>mango-agent-claude/src/reducer.rs\<close>): the records of one run
  become transcript events. A \<open>BTreeMap\<close> is a \<open>btree\<close>, a \<open>BTreeSet\<close> of block indices a \<open>btree\<close> of units.
\<close>

subsection \<open>Tools\<close>

definition DETAIL_CARRY_MAX_CHARS :: usize where
  "DETAIL_CARRY_MAX_CHARS = 2 * max_code_points Detail"

definition TITLE_FIELDS :: "ustring list" where
  "TITLE_FIELDS = map lit [''command'', ''file_path'', ''pattern'', ''url'', ''path'', ''prompt'', ''description'']"

definition claude_activity_kind :: "ustring \<Rightarrow> activity_kind" where
  "claude_activity_kind name =
     (if name \<in> set (map lit [''Bash'', ''BashOutput'', ''KillShell'']) then CommandActivity
      else if name \<in> set (map lit [''Edit'', ''Write'', ''NotebookEdit'']) then FileChange
      else if name = lit ''Task'' then Subagent
      else if name \<in> set (map lit [''WebSearch'', ''WebFetch'']) then WebSearch
      else if name \<in> set (map lit [''TodoWrite'', ''ExitPlanMode'']) then Plan
      else if prefix MCP_PREFIX name then Mcp
      else OtherActivity)"

definition summarize_tool_input :: "json option \<Rightarrow> ustring" where
  "summarize_tool_input input =
     (case input of
        Some (JObject fs) \<Rightarrow>
          (case List.map_filter (text_field fs) TITLE_FIELDS of v # _ \<Rightarrow> v | [] \<Rightarrow> [])
      | _ \<Rightarrow> [])"

abbreviation head_chars :: "ustring \<Rightarrow> nat \<Rightarrow> ustring" where
  "head_chars s limit \<equiv> the (char_head s limit)"

definition is_text_field :: "fields \<Rightarrow> ustring \<Rightarrow> bool" where
  "is_text_field fs key \<longleftrightarrow> text_field fs key \<noteq> None"

definition claude_file_change :: "ustring \<Rightarrow> json option \<Rightarrow> activity_content option" where
  "claude_file_change name input =
     (case input of
        Some (JObject fs) \<Rightarrow>
          (case text_field fs (lit ''file_path'') of
             None \<Rightarrow> None
           | Some path \<Rightarrow>
               if name = lit ''Write'' then
                 map_option (\<lambda>t. DiffContent [(file_change_new path)\<lparr>fi_new_text := Some (head_chars t DETAIL_CARRY_MAX_CHARS)\<rparr>])
                   (text_field fs (lit ''content''))
               else if name = lit ''Edit'' then
                 (if is_text_field fs (lit ''old_string'') \<and> is_text_field fs (lit ''new_string'')
                  then Some (DiffContent [(file_change_new path)\<lparr>fi_kind := Some ModifiedFile\<rparr>]) else None)
               else None)
      | _ \<Rightarrow> None)"

definition detail_for :: "ustring \<Rightarrow> ustring option" where
  "detail_for detail =
     (let b = head_chars detail DETAIL_CARRY_MAX_CHARS in if b \<noteq> [] then Some b else None)"

subsection \<open>How a run ends\<close>

definition NAMED_RESULT_SUBTYPES :: "ustring list" where
  "NAMED_RESULT_SUBTYPES = map lit
     [''error'', ''error_during_execution'', ''error_max_turns'', ''error_max_budget_usd'',
      ''error_max_structured_output_retries'']"

definition result_code :: "ustring \<Rightarrow> error_code" where
  "result_code subtype =
     (if subtype \<in> set NAMED_RESULT_SUBTYPES then ErrorCode (lit ''claude-'' @ subtype) else ErrorCode (lit ''claude-error''))"

definition retryable_status :: "int \<Rightarrow> bool" where
  "retryable_status status \<longleftrightarrow> status = 429 \<or> 500 \<le> status \<and> status < 600"

definition dec_int :: "int \<Rightarrow> ustring" where
  "dec_int i = (if i < 0 then lit ''-'' @ dec (nat (- i)) else dec (nat i))"

definition error_subtype :: "stream_record \<Rightarrow> ustring" where
  "error_subtype r = (case record_subtype r of Some s \<Rightarrow> s | None \<Rightarrow> lit ''error'')"

definition result_message :: "stream_record \<Rightarrow> ustring" where
  "result_message r =
     (let errors = join_lines (error_texts (sr_fields r)); subtype = error_subtype r
      in if errors \<noteq> [] then errors
         else case result_text_field (sr_fields r) of
           Some t \<Rightarrow> t
         | None \<Rightarrow>
             (case terminal_reason (sr_fields r) of
                Some reason \<Rightarrow> lit ''Claude Code ended the turn: '' @ reason @ lit ''.''
              | None \<Rightarrow>
                  if subtype \<in> set NAMED_RESULT_SUBTYPES
                  then lit ''Claude Code ended the turn with \"'' @ subtype @ lit ''\".''
                  else lit ''Claude Code ended the turn without explaining why.''))"

definition result_error :: "stream_record \<Rightarrow> vendor_error option" where
  "result_error r =
     (if \<not> flag_is_error (sr_fields r) then None
      else
        (let error = vendor_error_new (result_code (error_subtype r)) (result_message r)
         in Some (case api_error_status (sr_fields r) of
              Some status \<Rightarrow> with_vendor_code (dec_int status) (retryable_status status) error
            | None \<Rightarrow>
                (case terminal_reason (sr_fields r) of
                   Some reason \<Rightarrow> with_vendor_code reason False error
                 | None \<Rightarrow> error))))"

definition errored_result_subtype :: "stream_record \<Rightarrow> ustring option" where
  "errored_result_subtype r =
     (if record_kind r \<noteq> Some (lit ''result'') \<or> \<not> flag_is_error (sr_fields r) then None
      else find (\<lambda>named. named = error_subtype r) NAMED_RESULT_SUBTYPES)"

subsection \<open>Blocks of a message\<close>

datatype channel = TextChannel | ReasoningChannel

record delivered =
  dl_channel :: channel
  dl_text :: ustring
  dl_overflowed :: bool

definition delivered_new :: "channel \<Rightarrow> delivered" where
  "delivered_new c = \<lparr>dl_channel = c, dl_text = [], dl_overflowed = False\<rparr>"

definition delivered_push :: "ustring \<Rightarrow> usize option \<Rightarrow> delivered \<Rightarrow> delivered" where
  "delivered_push t limit d =
     (if dl_overflowed d then d
      else if (case limit of Some b \<Rightarrow> b < sat_add (str_len (dl_text d)) (str_len t) | None \<Rightarrow> False)
        then d\<lparr>dl_text := [], dl_overflowed := True\<rparr>
      else d\<lparr>dl_text := dl_text d @ t\<rparr>)"

definition is_reasoning_block :: "ustring option \<Rightarrow> bool" where
  "is_reasoning_block k \<longleftrightarrow> k = Some (lit ''thinking'') \<or> k = Some (lit ''redacted_thinking'')"

definition opening_channel :: "ustring option \<Rightarrow> channel option" where
  "opening_channel k =
     (if k = Some (lit ''text'') then Some TextChannel
      else if is_reasoning_block k then Some ReasoningChannel else None)"

definition renderable_block :: "fields \<Rightarrow> (channel \<times> ustring) option" where
  "renderable_block b =
     (if block_kind b = Some (lit ''text'') then map_option (Pair TextChannel) (block_text_of b)
      else if block_kind b = Some (lit ''thinking'') then map_option (Pair ReasoningChannel) (block_thinking b)
      else None)"

subsection \<open>The reducer\<close>

record run_init =
  ri_session_id :: "ustring option"
  ri_model :: "ustring option"
  ri_commands :: "command list option"

record claude_reducer =
  cr_finished :: bool
  cr_open :: "ustring list"
  cr_nested :: "(ustring, ustring \<times> bool) btree"
  cr_denied :: "(ustring, ustring) btree"
  cr_delivered :: "(64 word, delivered) btree"
  cr_reasoning :: "(64 word, unit) btree"
  cr_max_message_bytes :: "usize option"

definition claude_reducer_new :: "usize option \<Rightarrow> claude_reducer" where
  "claude_reducer_new limit =
     \<lparr>cr_finished = False, cr_open = [], cr_nested = [], cr_denied = [], cr_delivered = [], cr_reasoning = [],
      cr_max_message_bytes = limit\<rparr>"

definition claude_for_limits :: "limits \<Rightarrow> claude_reducer" where
  "claude_for_limits l = claude_reducer_new (Some (min (sat_mul (max_line_bytes (Host_Limits.line l)) 3) (max_buffered_bytes (Host_Limits.line l))))"

definition channel_event :: "channel \<Rightarrow> ustring \<Rightarrow> ('f, 'l) payload event_kind" where
  "channel_event c t = (case c of TextChannel \<Rightarrow> TextDelta t | ReasoningChannel \<Rightarrow> ReasoningDelta t)"

definition close_reasoning_blocks :: "claude_reducer \<Rightarrow> claude_reducer \<times> ('f, 'l) payload event_kind list" where
  "close_reasoning_blocks r = (r\<lparr>cr_reasoning := []\<rparr>, replicate (length (cr_reasoning r)) ReasoningEnded)"

definition close_open_activities :: "claude_reducer \<Rightarrow> claude_reducer \<times> ('f, 'l) payload event_kind list" where
  "close_open_activities r =
     (r\<lparr>cr_open := [], cr_denied := []\<rparr>,
      map (\<lambda>i. ActivityCompleted i (ResultPayload ((activity_result_new CancelledActivity)
          \<lparr>ar_detail := detail_for (case bt_get (cr_denied r) i of Some d \<Rightarrow> d | None \<Rightarrow> [])\<rparr>)))
        (cr_open r))"

definition end_run :: "claude_reducer \<Rightarrow> claude_reducer \<times> ('f, 'l) payload event_kind list" where
  "end_run r =
     (let (r1, es) = close_reasoning_blocks (r\<lparr>cr_finished := True\<rparr>);
          (r2, fs) = close_open_activities (r1\<lparr>cr_delivered := []\<rparr>)
      in (r2\<lparr>cr_nested := []\<rparr>, es @ fs))"

definition claude_abort :: "vendor_error \<Rightarrow> claude_reducer \<Rightarrow> claude_reducer \<times> ('f, 'l) payload event_kind list" where
  "claude_abort e r =
     (if cr_finished r then (r, []) else let (r', es) = end_run r in (r', es @ [ErrorEvent e]))"

definition claude_cancel :: "claude_reducer \<Rightarrow> claude_reducer \<times> ('f, 'l) payload event_kind list" where
  "claude_cancel r = (if cr_finished r then (r, []) else end_run r)"

definition record_denial :: "fields \<Rightarrow> claude_reducer \<Rightarrow> claude_reducer" where
  "record_denial d r =
     (case (non_empty_field d (lit ''tool_use_id''), non_empty_field d (lit ''message'')) of
        (Some call_id, Some message) \<Rightarrow> r\<lparr>cr_denied := bt_insert call_id message (cr_denied r)\<rparr>
      | _ \<Rightarrow> r)"

definition run_init_of :: "fields \<Rightarrow> run_init" where
  "run_init_of init =
     \<lparr>ri_session_id = non_empty_field init (lit ''session_id''), ri_model = non_empty_field init (lit ''model''),
      ri_commands = command_catalog init\<rparr>"

definition reduce_system :: "stream_record \<Rightarrow> claude_reducer \<Rightarrow> claude_reducer \<times> run_init option" where
  "reduce_system rec r =
     (if record_subtype rec = Some (lit ''permission_denied'') then (record_denial (sr_fields rec) r, None)
      else if record_subtype rec = Some (lit ''init'') then (r, Some (run_init_of (sr_fields rec)))
      else (r, None))"

definition reduce_block_start ::
  "ustring option \<Rightarrow> 64 word option \<Rightarrow> claude_reducer \<Rightarrow> claude_reducer \<times> ('f, 'l) payload event_kind list" where
  "reduce_block_start k index r =
     (let r1 = (case (index, opening_channel k) of
            (Some i, Some c) \<Rightarrow> r\<lparr>cr_delivered := bt_insert i (delivered_new c) (cr_delivered r)\<rparr>
          | _ \<Rightarrow> r)
      in if \<not> is_reasoning_block k then (r1, [])
         else (case index of Some i \<Rightarrow> r1\<lparr>cr_reasoning := bt_insert i () (cr_reasoning r1)\<rparr> | None \<Rightarrow> r1,
               [ReasoningStarted]))"

definition record_delivered :: "64 word option \<Rightarrow> channel \<Rightarrow> ustring \<Rightarrow> claude_reducer \<Rightarrow> claude_reducer" where
  "record_delivered index c t r =
     (case index of
        None \<Rightarrow> r
      | Some i \<Rightarrow>
          (let entry = (case bt_get (cr_delivered r) i of Some d \<Rightarrow> d | None \<Rightarrow> delivered_new c)
           in r\<lparr>cr_delivered :=
                  bt_insert i (delivered_push t (cr_max_message_bytes r) (entry\<lparr>dl_channel := c\<rparr>)) (cr_delivered r)\<rparr>))"

definition claude_delta ::
  "fields \<Rightarrow> 64 word option \<Rightarrow> claude_reducer \<Rightarrow> claude_reducer \<times> ('f, 'l) payload event_kind list" where
  "claude_delta e index r =
     (case event_delta e of
        None \<Rightarrow> (r, [])
      | Some d \<Rightarrow>
          (case (block_text_of d, block_thinking d) of
             (t, th) \<Rightarrow>
               if block_kind d = Some (lit ''text_delta'') \<and> t \<noteq> None
               then (record_delivered index TextChannel (the t) r, [TextDelta (the t)])
               else if block_kind d = Some (lit ''thinking_delta'') \<and> th \<noteq> None
               then (record_delivered index ReasoningChannel (the th) r, [ReasoningDelta (the th)])
               else (r, [])))"

definition reduce_stream_event :: "stream_record \<Rightarrow> claude_reducer \<Rightarrow> claude_reducer \<times> ('f, 'l) payload event_kind list" where
  "reduce_stream_event rec r =
     (if parent_tool_use_id rec \<noteq> None then (r, [])
      else case record_stream_event rec of
        None \<Rightarrow> (r, [])
      | Some e \<Rightarrow>
          (let k = block_kind e; index = event_index e
           in if k = Some (lit ''message_start'') \<or> k = Some (lit ''message_stop'') then
                (let (r1, es) = close_reasoning_blocks r in (r1\<lparr>cr_delivered := []\<rparr>, es))
              else if k = Some (lit ''content_block_start'') then reduce_block_start (content_block_type e) index r
              else if k = Some (lit ''content_block_stop'') then
                (case index of
                   None \<Rightarrow> (r, [])
                 | Some i \<Rightarrow>
                     if bt_contains_key (cr_reasoning r) i
                     then (r\<lparr>cr_reasoning := bt_remove i (cr_reasoning r)\<rparr>, [ReasoningEnded])
                     else (r, []))
              else if k = Some (lit ''content_block_delta'') then claude_delta e index r
              else (r, [])))"

fun match_loop :: "channel \<Rightarrow> ustring \<Rightarrow> 64 word option \<times> nat \<Rightarrow> (64 word \<times> delivered) list \<Rightarrow> 64 word option \<times> nat" where
  "match_loop c t best [] = best"
| "match_loop c t best ((i, d) # rest) =
     match_loop c t
       (if dl_channel d \<noteq> c \<or> dl_overflowed d then best
        else if snd best < str_len (dl_text d) \<and> prefix (dl_text d) t then (Some i, str_len (dl_text d))
        else best) rest"

definition undelivered_remainder :: "channel \<Rightarrow> ustring \<Rightarrow> claude_reducer \<Rightarrow> (claude_reducer \<times> ustring) option" where
  "undelivered_remainder c t r =
     (let (matched, n) = match_loop c t (None, 0) (cr_delivered r);
          r1 = (case matched of Some i \<Rightarrow> r\<lparr>cr_delivered := bt_remove i (cr_delivered r)\<rparr> | None \<Rightarrow> r)
      in map_option (\<lambda>(_, rest). (r1, rest)) (split_at_byte t n))"

definition undelivered_event_for :: "fields \<Rightarrow> claude_reducer \<Rightarrow> claude_reducer \<times> ('f, 'l) payload event_kind list" where
  "undelivered_event_for b r =
     (case renderable_block b of
        None \<Rightarrow> (r, [])
      | Some (c, t) \<Rightarrow>
          (let (r1, rest) = the (undelivered_remainder c t r)
           in if rest = [] then (r1, []) else (r1, [channel_event c rest])))"

definition start_activity :: "fields \<Rightarrow> claude_reducer \<Rightarrow> claude_reducer \<times> ('f, 'l) payload event_kind list" where
  "start_activity b r =
     (case (block_id b, block_name b) of
        (Some call_id, Some name) \<Rightarrow>
          if call_id \<in> set (cr_open r) then (r, [])
          else (r\<lparr>cr_open := cr_open r @ [call_id]\<rparr>,
            [ActivityStarted call_id (ActivityPayload
               ((activity_new name (claude_activity_kind name) (summarize_tool_input (block_input b)))
                  \<lparr>ac_item_id := Some call_id, ac_content := claude_file_change name (block_input b)\<rparr>))])
      | _ \<Rightarrow> (r, []))"

definition append_nested :: "ustring \<Rightarrow> ustring \<Rightarrow> claude_reducer \<Rightarrow> claude_reducer \<times> ustring" where
  "append_nested parent t r =
     (let (entry, full) = (case bt_get (cr_nested r) parent of Some x \<Rightarrow> x | None \<Rightarrow> ([], False));
          kept = (\<lambda>e f. (r\<lparr>cr_nested := bt_insert parent (e, f) (cr_nested r)\<rparr>, e))
      in if full then kept entry True
         else
           (let remaining = DETAIL_CARRY_MAX_CHARS - length entry
            in if entry \<noteq> [] \<and> remaining = 0 then kept entry True
               else
                 (let (entry', remaining') = (if entry \<noteq> [] then (entry @ [0x0a], remaining - 1) else (entry, remaining));
                      fitting = head_chars t remaining'
                  in kept (entry' @ fitting) (str_len fitting < str_len t))))"

definition assistant_block ::
  "ustring option \<Rightarrow> fields \<Rightarrow> claude_reducer \<Rightarrow> claude_reducer \<times> ('f, 'l) payload event_kind list" where
  "assistant_block parent b r =
     (case parent of
        None \<Rightarrow>
          if block_kind b = Some (lit ''tool_use'') then start_activity b r else undelivered_event_for b r
      | Some p \<Rightarrow>
          if p \<notin> set (cr_open r) then (r, [])
          else case block_text_of b of
            Some t \<Rightarrow>
              if block_kind b = Some (lit ''text'') then
                (let (r1, merged) = append_nested p t r
                 in (r1, [ActivityUpdated p (UpdatePayload (activity_update_new\<lparr>au_detail := detail_for merged\<rparr>))]))
              else (r, [])
          | None \<Rightarrow> (r, []))"

definition result_block :: "fields \<Rightarrow> claude_reducer \<Rightarrow> claude_reducer \<times> ('f, 'l) payload event_kind list" where
  "result_block b r =
     (if block_kind b \<noteq> Some (lit ''tool_result'') then (r, [])
      else case block_tool_use_id b of
        None \<Rightarrow> (r, [])
      | Some call_id \<Rightarrow>
          if call_id \<notin> set (cr_open r) then (r, [])
          else
            (let body = the (result_text_head b DETAIL_CARRY_MAX_CHARS);
                 content = map_option OutputContent (detail_for body);
                 detail = (case bt_get (cr_denied r) call_id of Some d \<Rightarrow> d | None \<Rightarrow> body);
                 result = (activity_result_new (if flag_is_error b then FailedActivity else CompletedActivity))
                   \<lparr>ar_detail := detail_for detail, ar_content := content\<rparr>
             in (r\<lparr>cr_open := remove1 call_id (cr_open r), cr_nested := bt_remove call_id (cr_nested r),
                   cr_denied := bt_remove call_id (cr_denied r)\<rparr>,
                 [ActivityCompleted call_id (ResultPayload result)])))"

fun over_blocks ::
  "(fields \<Rightarrow> claude_reducer \<Rightarrow> claude_reducer \<times> ('f, 'l) payload event_kind list) \<Rightarrow> fields list \<Rightarrow> claude_reducer \<Rightarrow>
   claude_reducer \<times> ('f, 'l) payload event_kind list" where
  "over_blocks f [] r = (r, [])"
| "over_blocks f (b # bs) r = (let (r1, es) = f b r; (r2, fs) = over_blocks f bs r1 in (r2, es @ fs))"

definition reduce_assistant :: "stream_record \<Rightarrow> claude_reducer \<Rightarrow> claude_reducer \<times> ('f, 'l) payload event_kind list" where
  "reduce_assistant rec r = over_blocks (assistant_block (parent_tool_use_id rec)) (content_blocks rec) r"

definition reduce_user :: "stream_record \<Rightarrow> claude_reducer \<Rightarrow> claude_reducer \<times> ('f, 'l) payload event_kind list" where
  "reduce_user rec r = over_blocks result_block (content_blocks rec) r"

definition reduce_result :: "stream_record \<Rightarrow> claude_reducer \<Rightarrow> claude_reducer \<times> ('f, 'l) payload event_kind list" where
  "reduce_result rec r =
     (let (r1, es) = end_run r
      in (r1, es @
          (case result_usage (sr_fields rec) of Some u \<Rightarrow> [UsageEvent (UsagePayload u)] | None \<Rightarrow> []) @
          [case result_error rec of Some e \<Rightarrow> ErrorEvent e | None \<Rightarrow> CompletedEvent]))"

definition claude_reduce ::
  "stream_record \<Rightarrow> claude_reducer \<Rightarrow> claude_reducer \<times> ('f, 'l) payload event_kind list \<times> run_init option" where
  "claude_reduce rec r =
     (if cr_finished r then (r, [], None)
      else
        (let k = record_kind rec; plain = (\<lambda>x. (fst x, snd x, None))
         in if k = Some (lit ''system'') then (let (r1, init) = reduce_system rec r in (r1, [], init))
            else if k = Some (lit ''stream_event'') then plain (reduce_stream_event rec r)
            else if k = Some (lit ''assistant'') then plain (reduce_assistant rec r)
            else if k = Some (lit ''user'') then plain (reduce_user rec r)
            else if k = Some (lit ''result'') then plain (reduce_result rec r)
            else (r, [], None)))"

text \<open>The records of a run, one after the other.\<close>

fun claude_run :: "stream_record list \<Rightarrow> claude_reducer \<Rightarrow> claude_reducer \<times> ('f, 'l) payload event_kind list" where
  "claude_run [] r = (r, [])"
| "claude_run (x # xs) r =
     (let (r1, es, init) = claude_reduce x r; (r2, fs) = claude_run xs r1 in (r2, es @ fs))"

subsection \<open>Brackets\<close>

text \<open>
  Reading a transcript for one call, open or not; \<open>None\<close> is an event out of place. \<open>thoughts\<close> is how many
  more reasoning phases a transcript opens than it closes.
\<close>

fun call_walk :: "ustring \<Rightarrow> bool \<Rightarrow> 'p event_kind list \<Rightarrow> bool option" where
  "call_walk c b [] = Some b"
| "call_walk c b (ActivityStarted i _ # es) = (if i \<noteq> c then call_walk c b es else if b then None else call_walk c True es)"
| "call_walk c b (ActivityUpdated i _ # es) = (if i \<noteq> c \<or> b then call_walk c b es else None)"
| "call_walk c b (ActivityCompleted i _ # es) = (if i \<noteq> c then call_walk c b es else if b then call_walk c False es else None)"
| "call_walk c b (_ # es) = call_walk c b es"

fun thoughts :: "'p event_kind list \<Rightarrow> int" where
  "thoughts [] = 0"
| "thoughts (ReasoningStarted # es) = 1 + thoughts es"
| "thoughts (ReasoningEnded # es) = thoughts es - 1"
| "thoughts (_ # es) = thoughts es"

lemma call_walk_append: "call_walk c b (es @ fs) = Option.bind (call_walk c b es) (\<lambda>b. call_walk c b fs)"
  by (induction c b es rule: call_walk.induct) simp_all

lemma thoughts_append [simp]: "thoughts (es @ fs) = thoughts es + thoughts fs"
  by (induction es rule: thoughts.induct) simp_all

lemma thoughts_ended [simp]: "thoughts (replicate n ReasoningEnded) = - int n"
  by (induction n) simp_all

lemma call_walk_ended [simp]: "call_walk c b (replicate n ReasoningEnded) = Some b"
  by (induction n) simp_all

fun ends_turn :: "'p event_kind \<Rightarrow> bool" where
  "ends_turn (CancelledEvent _) = True"
| "ends_turn CompletedEvent = True"
| "ends_turn (ErrorEvent _) = True"
| "ends_turn _ = False"

definition claude_inv :: "claude_reducer \<Rightarrow> bool" where
  "claude_inv r \<longleftrightarrow> distinct (cr_open r) \<and> bt_invar (cr_reasoning r)"

definition run_step :: "ustring \<Rightarrow> int \<Rightarrow> claude_reducer \<Rightarrow> claude_reducer \<times> ('f, 'l) payload event_kind list \<Rightarrow> bool" where
  "run_step c extra r x \<longleftrightarrow>
     (claude_inv r \<longrightarrow>
       claude_inv (fst x) \<and> cr_finished (fst x) = cr_finished r \<and>
       call_walk c (c \<in> set (cr_open r)) (snd x) = Some (c \<in> set (cr_open (fst x))) \<and>
       thoughts (snd x) = int (length (cr_reasoning (fst x))) - int (length (cr_reasoning r)) + extra \<and>
       list_all (\<lambda>e. \<not> ends_turn e) (snd x))"

lemma run_step_trans:
  assumes "run_step c m r (r', es)" "run_step c n r' (r'', fs)"
  shows "run_step c (m + n) r (r'', es @ fs)"
  using assms by (simp add: run_step_def call_walk_append)

lemma quiet_step:
  assumes "cr_open r' = cr_open r" "cr_reasoning r' = cr_reasoning r" "cr_finished r' = cr_finished r"
    "call_walk c (c \<in> set (cr_open r)) es = Some (c \<in> set (cr_open r))" "thoughts es = 0" "list_all (\<lambda>e. \<not> ends_turn e) es"
  shows "run_step c 0 r (r', es)"
  using assms by (simp add: run_step_def claude_inv_def)

lemma bt_sizes:
  assumes "bt_invar m"
  shows "length (bt_insert k v m) = (if bt_contains_key m k then length m else Suc (length m))"
    "bt_contains_key m k \<Longrightarrow> Suc (length (bt_remove k m)) = length m"
proof -
  have size: "length m = card (fst ` set m)" if "bt_invar m" for m :: "('a :: linorder, 'b) btree"
  proof -
    have "distinct (map fst m)" using that by (simp add: bt_invar_def strict_sorted_iff)
    then show ?thesis by (metis distinct_card length_map list.set_map)
  qed
  have key: "bt_contains_key m k \<longleftrightarrow> k \<in> fst ` set m" by (simp add: bt_contains_key_def map_of_eq_None_iff)
  show "length (bt_insert k v m) = (if bt_contains_key m k then length m else Suc (length m))"
    unfolding size [OF assms] size [OF bt_invar_insert [OF assms]] set_bt_insert_keys key by (simp add: card_insert_if)
  have "fst ` set (bt_remove k m) = fst ` set m - {k}" by (force simp: bt_remove_def)
  then show "bt_contains_key m k \<Longrightarrow> Suc (length (bt_remove k m)) = length m"
    unfolding size [OF assms] size [OF bt_invar_remove [OF assms]] key by (simp only: card_Suc_Diff1 [OF finite_imageI [OF finite_set]])
qed

text \<open>A reasoning phase announced under no index, or under one already open, has no end of its own.\<close>

definition unclosable_block :: "ustring option \<Rightarrow> 64 word option \<Rightarrow> claude_reducer \<Rightarrow> int" where
  "unclosable_block k index r =
     (if is_reasoning_block k \<and> (case index of None \<Rightarrow> True | Some i \<Rightarrow> bt_contains_key (cr_reasoning r) i) then 1 else 0)"

definition unclosable :: "stream_record \<Rightarrow> claude_reducer \<Rightarrow> int" where
  "unclosable rec r =
     (case record_stream_event rec of
        Some e \<Rightarrow>
          if \<not> cr_finished r \<and> record_kind rec = Some (lit ''stream_event'') \<and> parent_tool_use_id rec = None \<and>
             block_kind e = Some (lit ''content_block_start'')
          then unclosable_block (content_block_type e) (event_index e) r else 0
      | None \<Rightarrow> 0)"

lemma block_start_step: "run_step c (unclosable_block k index r) r (reduce_block_start k index r)"
  using bt_sizes(1) [of "cr_reasoning r" "the index" "()"] bt_invar_insert [of "cr_reasoning r" "the index" "()"]
  by (cases index; cases "opening_channel k"; cases "is_reasoning_block k")
    (auto simp: run_step_def reduce_block_start_def unclosable_block_def claude_inv_def Let_def)

lemma delta_step: "run_step c 0 r (claude_delta e index r)"
  by (auto simp: claude_delta_def record_delivered_def Let_def intro!: quiet_step split: option.split)

lemma close_blocks_step: "run_step c 0 r (fst (close_reasoning_blocks r)\<lparr>cr_delivered := d\<rparr>, snd (close_reasoning_blocks r))"
  by (simp add: run_step_def close_reasoning_blocks_def claude_inv_def bt_invar_def list_all_iff)

lemma block_stop_step:
  "bt_contains_key (cr_reasoning r) i \<Longrightarrow> run_step c 0 r (r\<lparr>cr_reasoning := bt_remove i (cr_reasoning r)\<rparr>, [ReasoningEnded])"
  using bt_sizes(2) [of "cr_reasoning r" i] by (auto simp: run_step_def claude_inv_def bt_invar_remove)

lemma start_step: "run_step c 0 r (start_activity b r)"
  by (auto simp: start_activity_def run_step_def claude_inv_def split: option.split)

lemma result_block_step: "run_step c 0 r (result_block b r)"
  by (auto simp: result_block_def run_step_def claude_inv_def Let_def split: option.split)

text \<open>The delivered copy a completed block is matched with: the longest, of the ones it extends.\<close>

definition extends :: "channel \<Rightarrow> ustring \<Rightarrow> delivered \<Rightarrow> bool" where
  "extends c t d \<longleftrightarrow> dl_channel d = c \<and> \<not> dl_overflowed d \<and> dl_text d \<noteq> [] \<and> prefix (dl_text d) t"

lemma match_loop_spec:
  "match_loop c t (m, n) ds = (m', n') \<Longrightarrow>
   (m' = m \<and> n' = n \<or> (\<exists>i d. (i, d) \<in> set ds \<and> extends c t d \<and> m' = Some i \<and> n' = str_len (dl_text d))) \<and> n \<le> n' \<and>
   (\<forall>(i, d) \<in> set ds. extends c t d \<longrightarrow> str_len (dl_text d) \<le> n')"
proof (induction c t "(m, n)" ds arbitrary: m n rule: match_loop.induct)
  case (2 c t i d rest)
  have pos: "dl_text d \<noteq> []" if "n < str_len (dl_text d)" using that by auto
  obtain m1 n1 where best: "(if dl_channel d \<noteq> c \<or> dl_overflowed d then (m, n)
        else if snd (m, n) < str_len (dl_text d) \<and> prefix (dl_text d) t then (Some i, str_len (dl_text d)) else (m, n)) = (m1, n1)"
    by fastforce
  then have "match_loop c t (m1, n1) rest = (m', n')" using 2(2) by simp
  from 2(1) [OF best this] best show ?case
    using pos by (auto simp: extends_def split: if_splits)
qed simp

lemma remainder_spec:
  assumes "bt_invar (cr_delivered r)"
  shows "\<exists>r1 p rest. undelivered_remainder c t r = Some (r1, rest) \<and> t = p @ rest \<and>
    (p = [] \<and> r1 = r \<and> (\<forall>i d. bt_get (cr_delivered r) i = Some d \<longrightarrow> \<not> extends c t d) \<or>
     (\<exists>i d. bt_get (cr_delivered r) i = Some d \<and> extends c t d \<and> p = dl_text d \<and>
        r1 = r\<lparr>cr_delivered := bt_remove i (cr_delivered r)\<rparr> \<and>
        (\<forall>j e. bt_get (cr_delivered r) j = Some e \<longrightarrow> extends c t e \<longrightarrow> length (dl_text e) \<le> length (dl_text d))))"
proof -
  obtain m n where loop: "match_loop c t (None, 0) (cr_delivered r) = (m, n)" by fastforce
  have keys: "distinct (map fst (cr_delivered r))" using assms by (simp add: bt_invar_def strict_sorted_iff)
  note spec = match_loop_spec [OF loop]
  have entries: "bt_get (cr_delivered r) i = Some d \<longleftrightarrow> (i, d) \<in> set (cr_delivered r)" for i d using keys by simp
  have pos: "0 < str_len (dl_text d)" if "extends c t d" for d using that by (cases "dl_text d") (auto simp: extends_def char_len_def)
  from spec consider "m = None" "n = 0" | i d where "bt_get (cr_delivered r) i = Some d" "extends c t d" "m = Some i" "n = str_len (dl_text d)"
    using entries by auto
  then show ?thesis
  proof cases
    case 1
    then have "\<not> extends c t d" if "bt_get (cr_delivered r) i = Some d" for i d using spec that pos [of d] entries by fastforce
    then show ?thesis using 1 by (auto simp: undelivered_remainder_def loop)
  next
    case 2
    then obtain rest where t: "t = dl_text d @ rest" by (auto simp: extends_def prefix_def)
    have longest: "length (dl_text e) \<le> length (dl_text d)" if "bt_get (cr_delivered r) j = Some e" "extends c t e" for j e
    proof (rule ccontr)
      assume "\<not> length (dl_text e) \<le> length (dl_text d)"
      moreover have "prefix (dl_text e) t" "prefix (dl_text d) t" using that(2) 2(2) by (simp_all add: extends_def)
      ultimately obtain x where x: "dl_text e = dl_text d @ x" "x \<noteq> []"
        by (metis append_Nil2 le_refl nat_le_linear prefix_length_prefix prefix_def)
      have "str_len (dl_text e) \<le> str_len (dl_text d)" 
        using bspec [OF conjunct2 [OF conjunct2 [OF spec]], of "(j, e)"] that entries [of j e] 2(4) by simp
      then have "str_len x = 0" by (simp add: x(1))
      then show False using x(2) by (cases x) (simp_all add: char_len_def split: if_splits)
    qed
    have "split_at_byte t n = Some (dl_text d, rest)" unfolding 2(4) t by (rule split_at_byte_append)
    then have "undelivered_remainder c t r = Some (r\<lparr>cr_delivered := bt_remove i (cr_delivered r)\<rparr>, rest)"
      by (simp add: undelivered_remainder_def loop 2(3))
    then show ?thesis using 2(1,2) t longest by blast
  qed
qed

lemma undelivered_step:
  assumes "bt_invar (cr_delivered r)"
  shows "run_step c 0 r (undelivered_event_for b r :: _ \<times> ('f, 'l) payload event_kind list)" "bt_invar (cr_delivered (fst (undelivered_event_for b r :: _ \<times> ('f, 'l) payload event_kind list)))"
proof -
  have "run_step c 0 r (undelivered_event_for b r :: _ \<times> ('f, 'l) payload event_kind list) \<and> bt_invar (cr_delivered (fst (undelivered_event_for b r :: _ \<times> ('f, 'l) payload event_kind list)))"
  proof (cases "renderable_block b")
    case (Some x)
    obtain ch t where x: "x = (ch, t)" by fastforce
    obtain r1 rest where rem: "undelivered_remainder ch t r = Some (r1, rest)"
      "r1 = r \<or> (\<exists>i. r1 = r\<lparr>cr_delivered := bt_remove i (cr_delivered r)\<rparr>)"
      using remainder_spec [OF assms, of ch t] by blast
    from rem(2) have "cr_open r1 = cr_open r" "cr_reasoning r1 = cr_reasoning r" "cr_finished r1 = cr_finished r"
      "bt_invar (cr_delivered r1)" using assms by (auto simp: bt_invar_remove)
    then show ?thesis
      by (auto simp: undelivered_event_for_def Some x rem(1) channel_event_def intro!: quiet_step split: channel.split)
  qed (simp add: undelivered_event_for_def quiet_step assms)
  then show "run_step c 0 r (undelivered_event_for b r :: _ \<times> ('f, 'l) payload event_kind list)" "bt_invar (cr_delivered (fst (undelivered_event_for b r :: _ \<times> ('f, 'l) payload event_kind list)))" by simp_all
qed

lemma append_nested_same:
  "append_nested p t r = (r', m) \<Longrightarrow> cr_open r' = cr_open r \<and> cr_reasoning r' = cr_reasoning r \<and> cr_finished r' = cr_finished r \<and>
   cr_delivered r' = cr_delivered r"
  by (auto simp: append_nested_def Let_def split: prod.splits if_splits)

lemma assistant_block_step:
  assumes "bt_invar (cr_delivered r)"
  shows "run_step c 0 r (assistant_block parent b r :: _ \<times> ('f, 'l) payload event_kind list)"
    "bt_invar (cr_delivered (fst (assistant_block parent b r :: _ \<times> ('f, 'l) payload event_kind list)))"
proof -
  have nested: "run_step c 0 r (r1, [ActivityUpdated p (UpdatePayload u) :: ('f, 'l) payload event_kind])"
    if "append_nested p t r = (r1, m)" "p \<in> set (cr_open r)" for p t r1 m u
    using append_nested_same [OF that(1)] that(2) by (intro quiet_step) auto
  have idle: "run_step c 0 r (r, [] :: ('f, 'l) payload event_kind list)" by (rule quiet_step) simp_all
  show "run_step c 0 r (assistant_block parent b r :: _ \<times> ('f, 'l) payload event_kind list)"
    using undelivered_step(1) [OF assms, where c = c and b = b and ?'f = 'f and ?'l = 'l] start_step [of c r b] nested idle
    by (auto simp: assistant_block_def Let_def split: option.split prod.split)
  show "bt_invar (cr_delivered (fst (assistant_block parent b r :: _ \<times> ('f, 'l) payload event_kind list)))"
    using undelivered_step(2) [OF assms, where b = b and ?'f = 'f and ?'l = 'l] append_nested_same assms
    by (auto simp: assistant_block_def start_activity_def Let_def split: option.split prod.split)
qed

lemma over_blocks_step:
  assumes "\<And>b r. bt_invar (cr_delivered r) \<Longrightarrow> run_step c 0 r (f b r) \<and> bt_invar (cr_delivered (fst (f b r)))" "bt_invar (cr_delivered r)"
  shows "run_step c 0 r (over_blocks f bs r :: _ \<times> ('f, 'l) payload event_kind list) \<and>
    bt_invar (cr_delivered (fst (over_blocks f bs r :: _ \<times> ('f, 'l) payload event_kind list)))"
  using assms(2)
proof (induction bs arbitrary: r)
  case Nil
  have "run_step c 0 r (r, [] :: ('f, 'l) payload event_kind list)" by (rule quiet_step) simp_all
  then show ?case using Nil by simp
next
  case (Cons b bs)
  obtain r1 es where one: "f b r = (r1, es)" by fastforce
  obtain r2 fs where two: "over_blocks f bs r1 = (r2, fs)" by fastforce
  have "run_step c 0 r (r1, es)" "bt_invar (cr_delivered r1)" using assms(1) [OF Cons.prems, of b] one by simp_all
  then show ?case using Cons.IH [of r1] run_step_trans [of c 0 r r1 es 0 r2 fs] by (simp add: one two)
qed

lemma stream_event_step:
  assumes "bt_invar (cr_delivered r)" "\<not> cr_finished r" "record_kind rec = Some (lit ''stream_event'')"
  shows "run_step c (unclosable rec r) r (reduce_stream_event rec r :: _ \<times> ('f, 'l) payload event_kind list)"
    "bt_invar (cr_delivered (fst (reduce_stream_event rec r :: _ \<times> ('f, 'l) payload event_kind list)))"
proof -
  have idle: "run_step c 0 r (r, [] :: ('f, 'l) payload event_kind list)" by (rule quiet_step) simp_all
  have words: "lit ''message_start'' \<noteq> lit ''content_block_start''" "lit ''message_stop'' \<noteq> lit ''content_block_start''"
    by (simp_all add: lit_def)
  show "run_step c (unclosable rec r) r (reduce_stream_event rec r :: _ \<times> ('f, 'l) payload event_kind list)"
  proof (cases "if parent_tool_use_id rec = None then record_stream_event rec else None")
    case None
    then have "reduce_stream_event rec r = (r, [] :: ('f, 'l) payload event_kind list)" "unclosable rec r = 0"
      by (auto simp: reduce_stream_event_def unclosable_def split: if_splits option.split)
    then show ?thesis using idle by simp
  next
    case (Some e)
    then have e: "parent_tool_use_id rec = None" "record_stream_event rec = Some e" by (auto split: if_splits)
    have extra: "unclosable rec r =
        (if block_kind e = Some (lit ''content_block_start'') then unclosable_block (content_block_type e) (event_index e) r else 0)"
      using assms(2,3) e by (simp add: unclosable_def)
    show ?thesis
    proof (cases "block_kind e = Some (lit ''content_block_start'')")
      case True
      then have "reduce_stream_event rec r = (reduce_block_start (content_block_type e) (event_index e) r :: _ \<times> ('f, 'l) payload event_kind list)"
        using e words by (simp add: reduce_stream_event_def Let_def)
      then show ?thesis using block_start_step extra True by metis
    next
      case False
      have "run_step c 0 r (reduce_stream_event rec r :: _ \<times> ('f, 'l) payload event_kind list)"
        using e False idle by (cases "event_index e")
          (simp_all add: reduce_stream_event_def Let_def case_prod_beta close_blocks_step block_stop_step delta_step)
      then show ?thesis using extra False by simp
    qed
  qed
  show "bt_invar (cr_delivered (fst (reduce_stream_event rec r :: _ \<times> ('f, 'l) payload event_kind list)))"
    using assms(1)
    by (auto simp: reduce_stream_event_def Let_def case_prod_beta close_reasoning_blocks_def reduce_block_start_def claude_delta_def
        record_delivered_def bt_invar_insert bt_invar_def [of "[]"] split: option.split)
qed

subsection \<open>Ending a run\<close>

lemma close_all_walk:
  "distinct is \<Longrightarrow> call_walk c (c \<in> set is) (map (\<lambda>i. ActivityCompleted i (f i)) is) = Some False"
proof (induction "is")
  case (Cons i "is")
  have "call_walk c False (map (\<lambda>i. ActivityCompleted i (f i)) js) = Some False" if "c \<notin> set js" for js
    using that by (induction js) auto
  then show ?case using Cons by auto
qed simp

definition at_rest :: "claude_reducer \<Rightarrow> bool" where
  "at_rest r \<longleftrightarrow>
     cr_finished r \<and> cr_open r = [] \<and> cr_reasoning r = [] \<and> cr_delivered r = [] \<and> cr_nested r = [] \<and> cr_denied r = []"

lemma end_run_spec:
  assumes "claude_inv r" "end_run r = (r', es :: ('f, 'l) payload event_kind list)"
  shows "at_rest r'" "call_walk c (c \<in> set (cr_open r)) es = Some False" "thoughts es = - int (length (cr_reasoning r))"
    "list_all (\<lambda>e. \<not> ends_turn e) es"
proof -
  let ?f = "\<lambda>i. ResultPayload ((activity_result_new CancelledActivity)
      \<lparr>ar_detail := detail_for (case bt_get (cr_denied r) i of Some d \<Rightarrow> d | None \<Rightarrow> [])\<rparr>)"
  have es: "es = replicate (length (cr_reasoning r)) ReasoningEnded @ map (\<lambda>i. ActivityCompleted i (?f i)) (cr_open r)"
    and r': "at_rest r'"
    using assms(2) by (auto simp: end_run_def close_reasoning_blocks_def close_open_activities_def Let_def at_rest_def)
  have walks: "thoughts (map (\<lambda>i. ActivityCompleted i (?f i)) js) = 0" for js by (induction js) simp_all
  show "at_rest r'" by (rule r')
  show "call_walk c (c \<in> set (cr_open r)) es = Some False"
    using close_all_walk [of "cr_open r" c ?f] assms(1) by (simp add: es call_walk_append claude_inv_def)
  show "thoughts es = - int (length (cr_reasoning r))" by (simp add: es walks)
  show "list_all (\<lambda>e. \<not> ends_turn e) es" by (auto simp: es list_all_iff)
qed

fun unclosable_run :: "('f, 'l) payload itself \<Rightarrow> stream_record list \<Rightarrow> claude_reducer \<Rightarrow> int" where
  "unclosable_run T [] r = 0"
| "unclosable_run T (x # xs) r =
     unclosable x r +
     unclosable_run T xs (fst (claude_reduce x r :: claude_reducer \<times> ('f, 'l) payload event_kind list \<times> run_init option))"

text \<open>What holds of a reducer and of the transcript it gave so far; \<open>n\<close> counts the phases without an end.\<close>

definition told :: "ustring \<Rightarrow> int \<Rightarrow> claude_reducer \<Rightarrow> ('f, 'l) payload event_kind list \<Rightarrow> bool" where
  "told c n r es \<longleftrightarrow>
     claude_inv r \<and> bt_invar (cr_delivered r) \<and> call_walk c False es = Some (c \<in> set (cr_open r)) \<and>
     thoughts es = int (length (cr_reasoning r)) + n \<and> (cr_finished r \<longrightarrow> at_rest r) \<and>
     (if cr_finished r then \<exists>fs e. es = fs @ [e] \<and> ends_turn e \<and> list_all (\<lambda>e. \<not> ends_turn e) fs
      else list_all (\<lambda>e. \<not> ends_turn e) es)"

lemma told_step:
  assumes "told c n r es" "\<not> cr_finished r" "run_step c m r (r', fs)" "bt_invar (cr_delivered r')"
  shows "told c (n + m) r' (es @ fs)"
  using assms by (simp add: told_def run_step_def call_walk_append)

lemma system_step: "reduce_system rec r = (r', i) \<Longrightarrow> run_step c 0 r (r', [] :: ('f, 'l) payload event_kind list) \<and> cr_delivered r' = cr_delivered r"
  by (auto simp: reduce_system_def record_denial_def intro!: quiet_step split: option.splits if_splits)

lemma unclosable_0: "record_kind rec \<noteq> Some (lit ''stream_event'') \<Longrightarrow> unclosable rec r = 0"
  by (simp add: unclosable_def split: option.split)

lemma claude_reduce_step:
  assumes "told c n r es" "claude_reduce rec r = (r', fs :: ('f, 'l) payload event_kind list, i)"
  shows "told c (n + unclosable rec r) r' (es @ fs) \<and> (cr_finished r' \<longleftrightarrow> cr_finished r \<or> record_kind rec = Some (lit ''result''))"
proof (cases "cr_finished r")
  case True
  then have "unclosable rec r = 0" by (simp add: unclosable_def split: option.split)
  then show ?thesis using assms True by (simp add: claude_reduce_def)
next
  case False
  have inv: "claude_inv r" "bt_invar (cr_delivered r)" using assms(1) by (simp_all add: told_def)
  have step: "told c (n + m) r' (es @ fs) \<and> (cr_finished r' \<longleftrightarrow> cr_finished r \<or> record_kind rec = Some (lit ''result''))"
    if "run_step c m r (r', fs)" "bt_invar (cr_delivered r')" "record_kind rec \<noteq> Some (lit ''result'')" for m
    using told_step [OF assms(1) False that(1,2)] that(1,3) inv(1) by (simp add: run_step_def)
  have kinds: "lit ''result'' \<noteq> lit ''system''" "lit ''result'' \<noteq> lit ''stream_event''" "lit ''result'' \<noteq> lit ''assistant''"
    "lit ''result'' \<noteq> lit ''user''" "lit ''system'' \<noteq> lit ''stream_event''" "lit ''assistant'' \<noteq> lit ''stream_event''"
    "lit ''user'' \<noteq> lit ''stream_event''" by (simp_all add: lit_def)
  note kinds = kinds kinds [symmetric]
  consider (result) "record_kind rec = Some (lit ''result'')" "reduce_result rec r = (r', fs)"
    | (system) "record_kind rec = Some (lit ''system'')" "fs = []" "reduce_system rec r = (r', i)"
    | (stream) "record_kind rec = Some (lit ''stream_event'')" "reduce_stream_event rec r = (r', fs)"
    | (assistant) "record_kind rec = Some (lit ''assistant'')" "reduce_assistant rec r = (r', fs)"
    | (user) "record_kind rec = Some (lit ''user'')" "reduce_user rec r = (r', fs)"
    | (other) "record_kind rec \<noteq> Some (lit ''stream_event'')" "record_kind rec \<noteq> Some (lit ''result'')" "r' = r" "fs = []"
    using assms(2) False by (auto simp: claude_reduce_def Let_def prod_eq_iff split: if_splits prod.splits)
  then show ?thesis
  proof cases
    case result
    obtain r1 and gs :: "('f, 'l) payload event_kind list" where ended: "end_run r = (r1, gs)" by fastforce
    obtain us e where out: "r' = r1" "fs = gs @ us @ [e]" "ends_turn e" "call_walk c b (us @ [e]) = Some b" "thoughts (us @ [e]) = 0"
      "list_all (\<lambda>e. \<not> ends_turn e) us" for b
      using result(2) by (auto simp: reduce_result_def ended split: option.splits)
    note spec = end_run_spec [OF inv(1) ended]
    have "call_walk c (c \<in> set (cr_open r)) fs = Some False" using spec(2) [of c] out(4) by (simp add: out(2) call_walk_append)
    moreover have "thoughts fs = - int (length (cr_reasoning r))" using spec(3) out(5) by (simp add: out(2))
    moreover have "list_all (\<lambda>e. \<not> ends_turn e) (es @ gs @ us)" using assms(1) False spec(4) out(6) by (simp add: told_def)
    moreover have "unclosable rec r = 0" using result(1) kinds by (intro unclosable_0) simp
    ultimately show ?thesis
      using assms(1) spec(1) out(1,3) result(1)
      by (auto simp: told_def at_rest_def claude_inv_def bt_invar_def call_walk_append out(2))
  next
    case system
    then show ?thesis using step [of 0] system_step [OF system(3), of c, where ?'f = 'f and ?'l = 'l] inv system unclosable_0 [of rec r]
      by (simp add: kinds)
  next
    case stream
    then show ?thesis
      using step stream_event_step(1) [OF inv(2) False stream(1), of c, where ?'f = 'f and ?'l = 'l]
        stream_event_step(2) [OF inv(2) False stream(1), where ?'f = 'f and ?'l = 'l] stream by (simp add: kinds)
  next
    case assistant
    have "run_step c 0 r (r', fs) \<and> bt_invar (cr_delivered r')"
      using over_blocks_step [OF _ inv(2), where f = "assistant_block (parent_tool_use_id rec) :: _ \<Rightarrow> _ \<Rightarrow> _ \<times> ('f, 'l) payload event_kind list" and
          c = c and bs = "content_blocks rec"]
        assistant(2) by (simp add: reduce_assistant_def assistant_block_step)
    then show ?thesis using step [of 0] unclosable_0 [of rec r] assistant(1) by (simp add: kinds)
  next
    case user
    have same: "cr_delivered (fst (result_block b r :: _ \<times> ('f, 'l) payload event_kind list)) = cr_delivered r" for b r
      by (simp add: result_block_def Let_def split: option.split)
    have "run_step c 0 r (r', fs) \<and> bt_invar (cr_delivered r')"
      using over_blocks_step [OF _ inv(2), where f = "result_block :: _ \<Rightarrow> _ \<Rightarrow> _ \<times> ('f, 'l) payload event_kind list" and
          c = c and bs = "content_blocks rec"]
        user(2) by (simp add: reduce_user_def result_block_step same)
    then show ?thesis using step [of 0] unclosable_0 [of rec r] user(1) by (simp add: kinds)
  next
    case other
    then show ?thesis using assms(1) other unclosable_0 by simp
  qed
qed

lemmas claude_reduce_told = conjunct1 [OF claude_reduce_step]

lemmas claude_reduce_finished = conjunct2 [OF claude_reduce_step]

lemma claude_run_told:
  "told c n r es \<Longrightarrow> claude_run recs r = (r', fs :: ('f, 'l) payload event_kind list) \<Longrightarrow>
   told c (n + unclosable_run TYPE(('f, 'l) payload) recs r) r' (es @ fs)"
proof (induction recs arbitrary: n r es fs)
  case (Cons x recs)
  obtain r1 and gs hs :: "('f, 'l) payload event_kind list" and i where
    one: "claude_reduce x r = (r1, gs, i)" and rest: "claude_run recs r1 = (r', hs)" "fs = gs @ hs"
    using Cons.prems(2) by (auto split: prod.splits)
  from Cons.IH [OF claude_reduce_told [OF Cons.prems(1) one] rest(1)]
  show ?case by (simp add: one rest(2) add.assoc)
qed simp

lemma claude_new_told: "told c 0 (claude_reducer_new limit) []"
  by (simp add: told_def claude_reducer_new_def claude_inv_def bt_invar_def)

lemma finished_iff:
  "told c n r (es :: ('f, 'l) payload event_kind list) \<Longrightarrow> claude_run recs r = (r', fs :: ('f, 'l) payload event_kind list) \<Longrightarrow>
   cr_finished r' \<longleftrightarrow> cr_finished r \<or> (\<exists>x \<in> set recs. record_kind x = Some (lit ''result''))"
proof (induction recs arbitrary: n r es fs)
  case (Cons x recs)
  obtain r1 and gs hs :: "('f, 'l) payload event_kind list" and i where
    one: "claude_reduce x r = (r1, gs, i)" and rest: "claude_run recs r1 = (r', hs)"
    using Cons.prems(2) by (auto split: prod.splits)
  from Cons.IH [OF claude_reduce_told [OF Cons.prems(1) one] rest] claude_reduce_finished [OF Cons.prems(1) one]
  show ?case by auto
qed simp

text \<open>Ending a run that was told: by a cancel, or by an abort with its error.\<close>

lemma claude_cancel_told:
  assumes "told c n r es" "claude_cancel r = (r', fs :: ('f, 'l) payload event_kind list)"
  shows "at_rest r'" "call_walk c False (es @ fs) = Some False" "thoughts (es @ fs) = n" "cr_finished r \<Longrightarrow> fs = []"
    "list_all (\<lambda>e. \<not> ends_turn e) fs"
  using assms end_run_spec [of r r' fs] by (auto simp: claude_cancel_def told_def at_rest_def call_walk_append split: if_splits)

lemma claude_abort_told:
  assumes "told c n r es" "claude_abort e r = (r', fs :: ('f, 'l) payload event_kind list)"
  shows "at_rest r'" "call_walk c False (es @ fs) = Some False"
proof -
  obtain r1 and gs :: "('f, 'l) payload event_kind list" where ended: "end_run r = (r1, gs)" by fastforce
  have "claude_inv r" using assms(1) by (simp add: told_def)
  from end_run_spec(1,2) [OF this ended] assms ended
  show "at_rest r'" "call_walk c False (es @ fs) = Some False"
    by (auto simp: claude_abort_def told_def at_rest_def call_walk_append split: if_splits)
qed

text \<open>C20: Claude: whatever records a run sends, every call a host can follow is announced while it is not open,
  changed only while it is open and completed only while it is open, and once the run ended - by its result, by
  a cancel or by an abort - none is left open; the reducer then holds nothing.\<close>

theorem claude_calls_bracketed:
  "(let (r, es) = claude_run recs (claude_reducer_new limit); (r', fs) = claude_cancel r; (q, gs) = claude_abort e r
    in call_walk c False es = Some (c \<in> set (cr_open r)) \<and>
       call_walk c False (es @ (fs :: ('f, 'l) payload event_kind list)) = Some False \<and> at_rest r' \<and>
       call_walk c False (es @ (gs :: ('f, 'l) payload event_kind list)) = Some False \<and> at_rest q)"
proof -
  obtain r and es :: "('f, 'l) payload event_kind list" where run: "claude_run recs (claude_reducer_new limit) = (r, es)" by fastforce
  obtain r' and fs :: "('f, 'l) payload event_kind list" where fin: "claude_cancel r = (r', fs)" by fastforce
  obtain q and gs :: "('f, 'l) payload event_kind list" where ab: "claude_abort e r = (q, gs)" by fastforce
  from claude_run_told [OF claude_new_told run] have told: "told c (0 + unclosable_run TYPE(('f, 'l) payload) recs (claude_reducer_new limit)) r es"
    by simp
  show ?thesis using claude_cancel_told(1,2) [OF told fin] claude_abort_told [OF told ab] told
    by (simp add: run fin ab told_def)
qed

text \<open>C22: Claude: every reasoning phase a run announced is ended when its block, its message or the run ends,
  except exactly those announced under no index or under one already open, which have no end of their own.\<close>

theorem claude_reasoning_balanced:
  "(let (r, es) = claude_run recs (claude_reducer_new limit); (_, fs) = claude_cancel r;
        n = unclosable_run TYPE(('f, 'l) payload) recs (claude_reducer_new limit)
    in thoughts es = int (length (cr_reasoning r)) + n \<and>
       thoughts (es @ (fs :: ('f, 'l) payload event_kind list)) = n)"
proof -
  obtain r and es :: "('f, 'l) payload event_kind list" where run: "claude_run recs (claude_reducer_new limit) = (r, es)" by fastforce
  obtain r' and fs :: "('f, 'l) payload event_kind list" where fin: "claude_cancel r = (r', fs)" by fastforce
  from claude_run_told [OF claude_new_told run]
  have told: "told [] (0 + unclosable_run TYPE(('f, 'l) payload) recs (claude_reducer_new limit)) r es" by simp
  show ?thesis using claude_cancel_told(3) [OF told fin] told by (simp add: run fin told_def)
qed

text \<open>C21: Claude: a run ends once: its terminal event is the last one, comes with the first result record and with
  nothing else, is an error exactly when that record says so, and a finished run makes nothing of later records.\<close>

theorem claude_ends_once:
  "(let (r, es) = claude_run recs (claude_reducer_new limit);
        (r', fs, _) = claude_reduce rec r; (_, gs) = claude_abort e r
    in (cr_finished r \<longleftrightarrow> (\<exists>x \<in> set recs. record_kind x = Some (lit ''result''))) \<and>
       (if cr_finished r
        then (\<exists>hs t. es = hs @ [t :: ('f, 'l) payload event_kind] \<and> ends_turn t \<and> list_all (\<lambda>t. \<not> ends_turn t) hs) \<and>
          fs = ([] :: ('f, 'l) payload event_kind list) \<and> gs = ([] :: ('f, 'l) payload event_kind list) \<and> r' = r
        else list_all (\<lambda>t. \<not> ends_turn t) es \<and>
          (\<exists>hs. gs = hs @ [ErrorEvent e] \<and> list_all (\<lambda>t. \<not> ends_turn t) hs) \<and>
          (if record_kind rec = Some (lit ''result'')
           then \<exists>hs. fs = hs @ [case result_error rec of Some x \<Rightarrow> ErrorEvent x | None \<Rightarrow> CompletedEvent]
           else \<not> cr_finished r' \<and> list_all (\<lambda>t. \<not> ends_turn t) fs)))"
proof -
  obtain r and es :: "('f, 'l) payload event_kind list" where run: "claude_run recs (claude_reducer_new limit) = (r, es)" by fastforce
  obtain r' and fs :: "('f, 'l) payload event_kind list" and i where red: "claude_reduce rec r = (r', fs, i)" by (metis prod_cases3)
  obtain q and gs :: "('f, 'l) payload event_kind list" where ab: "claude_abort e r = (q, gs)" by fastforce
  from claude_run_told [OF claude_new_told run]
  have told: "told [] (0 + unclosable_run TYPE(('f, 'l) payload) recs (claude_reducer_new limit)) r es" by simp
  have fin: "cr_finished r \<longleftrightarrow> (\<exists>x \<in> set recs. record_kind x = Some (lit ''result''))"
    using finished_iff [OF claude_new_told run] by (simp add: claude_reducer_new_def)
  have aborted: "(if cr_finished r then gs = [] else \<exists>hs. gs = hs @ [ErrorEvent e] \<and> list_all (\<lambda>t. \<not> ends_turn t) hs)"
    using ab told end_run_spec(4) [of r] by (auto simp: claude_abort_def told_def split: if_splits prod.splits)
  have result: "\<exists>hs. fs = hs @ [case result_error rec of Some x \<Rightarrow> ErrorEvent x | None \<Rightarrow> CompletedEvent]"
    if "record_kind rec = Some (lit ''result'')" "\<not> cr_finished r"
    using red that by (auto simp: claude_reduce_def Let_def reduce_result_def lit_def split: prod.splits)
  have later: "\<not> cr_finished r' \<and> list_all (\<lambda>t. \<not> ends_turn t) fs"
    if "record_kind rec \<noteq> Some (lit ''result'')" "\<not> cr_finished r"
    using claude_reduce_step [OF told red] that by (auto simp: told_def)
  have finished: "fs = [] \<and> r' = r" if "cr_finished r" using red that by (simp add: claude_reduce_def)
  show ?thesis
    unfolding run red ab prod.case Let_def using told aborted result later finished fin by (simp add: told_def)
qed

subsection \<open>Text is delivered once\<close>

text \<open>
  The texts of a message's blocks on one channel, the texts a transcript shows on it, and the copies of what
  was streamed on it that are still to be matched with a block.
\<close>

definition texts_of :: "channel \<Rightarrow> fields list \<Rightarrow> ustring list" where
  "texts_of ch =
     List.map_filter (\<lambda>b. case renderable_block b of Some (c, t) \<Rightarrow> if c = ch then Some t else None | None \<Rightarrow> None)"

fun text_on :: "channel \<Rightarrow> 'p event_kind \<Rightarrow> ustring option" where
  "text_on ch (TextDelta t) = (if ch = TextChannel then Some t else None)"
| "text_on ch (ReasoningDelta t) = (if ch = ReasoningChannel then Some t else None)"
| "text_on ch _ = None"

definition shown_on :: "channel \<Rightarrow> 'p event_kind list \<Rightarrow> ustring list" where
  "shown_on ch = List.map_filter (text_on ch)"

definition usable_copy :: "channel \<Rightarrow> delivered \<Rightarrow> bool" where
  "usable_copy ch d \<longleftrightarrow> dl_channel d = ch \<and> \<not> dl_overflowed d \<and> dl_text d \<noteq> []"

definition copies :: "channel \<Rightarrow> claude_reducer \<Rightarrow> ustring multiset" where
  "copies ch r = image_mset dl_text (filter_mset (usable_copy ch) (mset (map snd (cr_delivered r))))"

lemma texts_of_simps [simp]:
  "texts_of ch [] = []"
  "texts_of ch (b # bs) =
     (case renderable_block b of Some (c, t) \<Rightarrow> if c = ch then t # texts_of ch bs else texts_of ch bs | None \<Rightarrow> texts_of ch bs)"
  by (auto simp: texts_of_def map_filter_def split: option.split)

lemma shown_on_simps [simp]:
  "shown_on ch [] = []" "shown_on ch (es @ fs) = shown_on ch es @ shown_on ch fs"
  "shown_on ch (e # es) = (case text_on ch e of Some t \<Rightarrow> t # shown_on ch es | None \<Rightarrow> shown_on ch es)"
  by (auto simp: shown_on_def map_filter_def split: option.split)

lemma removed_copy:
  "distinct (map fst m) \<Longrightarrow> map_of m i = Some d \<Longrightarrow> mset (map snd m) = add_mset d (mset (map snd (bt_remove i m)))"
proof (induction m)
  case (Cons x m)
  obtain j e where x: "x = (j, e)" by fastforce
  show ?case
  proof (cases "j = i")
    case True
    then have "bt_remove i (x # m) = m" using Cons.prems(1) x
      by (simp add: bt_remove_def) (metis (mono_tags, lifting) case_prod_conv filter_True image_eqI prod.collapse split_beta)
    moreover have "e = d" using Cons.prems(2) x True by simp
    ultimately show ?thesis using x by simp
  next
    case False
    then have "bt_remove i (x # m) = x # bt_remove i m" "map_of m i = Some d" using Cons.prems(2) x by (auto simp: bt_remove_def)
    then show ?thesis using Cons.IH Cons.prems(1) x by simp
  qed
qed simp

lemma copies_remove:
  assumes "bt_invar (cr_delivered r)" "bt_get (cr_delivered r) i = Some d"
  shows "copies ch r = (if usable_copy ch d then {#dl_text d#} else {#}) + copies ch (r\<lparr>cr_delivered := bt_remove i (cr_delivered r)\<rparr>)"
proof -
  have "distinct (map fst (cr_delivered r))" using assms(1) by (simp add: bt_invar_def strict_sorted_iff)
  from removed_copy [OF this assms(2)] show ?thesis by (simp add: copies_def)
qed

lemma in_copies:
  assumes "bt_invar (cr_delivered r)"
  shows "t \<in># copies ch r \<longleftrightarrow> (\<exists>i d. bt_get (cr_delivered r) i = Some d \<and> usable_copy ch d \<and> dl_text d = t)"
proof -
  have "distinct (map fst (cr_delivered r))" using assms by (simp add: bt_invar_def strict_sorted_iff)
  then show ?thesis by (force simp: copies_def)
qed

text \<open>One block: what was streamed of it and what was not.\<close>

lemma block_split:
  assumes "bt_invar (cr_delivered r)" "assistant_block None b r = (r1, fs :: ('f, 'l) payload event_kind list)"
  shows "bt_invar (cr_delivered r1)"
    "renderable_block b = Some (ch, t) \<Longrightarrow>
       \<exists>p rest. t = p @ rest \<and> shown_on ch fs = (if rest = [] then [] else [rest]) \<and>
         copies ch r = (if p = [] then {#} else {#p#}) + copies ch r1 \<and> (t \<in># copies ch r \<longrightarrow> rest = []) \<and>
         (\<forall>q \<in># copies ch r. prefix q t \<longrightarrow> length q \<le> length p)"
    "\<nexists>t. renderable_block b = Some (ch, t) \<Longrightarrow> shown_on ch fs = [] \<and> copies ch r1 = copies ch r"
proof -
  show "bt_invar (cr_delivered r1)" using assistant_block_step(2) [OF assms(1), of None b, where ?'f = 'f and ?'l = 'l] assms(2) by simp
  have tool: "renderable_block b = None" if "block_kind b = Some (lit ''tool_use'')"
    using that by (simp add: renderable_block_def lit_def)
  have other: "shown_on ch fs = [] \<and> copies ch r1 = copies ch r" if "block_kind b = Some (lit ''tool_use'')"
    using assms(2) that by (auto simp: assistant_block_def start_activity_def copies_def split: option.splits if_splits)
  have split: "\<exists>p rest. t = p @ rest \<and> fs = (if rest = [] then [] else [channel_event c rest]) \<and>
      (\<forall>ch. copies ch r = (if p \<noteq> [] \<and> ch = c then {#p#} else {#}) + copies ch r1) \<and> (t \<in># copies c r \<longrightarrow> t \<noteq> [] \<longrightarrow> rest = []) \<and>
      (\<forall>q \<in># copies c r. prefix q t \<longrightarrow> length q \<le> length p)"
    if some: "renderable_block b = Some (c, t)" for c t
  proof -
    obtain q p rest where rem: "undelivered_remainder c t r = Some (q, rest)" "t = p @ rest" and
      which: "p = [] \<and> q = r \<and> (\<forall>i d. bt_get (cr_delivered r) i = Some d \<longrightarrow> \<not> extends c t d) \<or>
       (\<exists>i d. bt_get (cr_delivered r) i = Some d \<and> extends c t d \<and> p = dl_text d \<and>
          q = r\<lparr>cr_delivered := bt_remove i (cr_delivered r)\<rparr> \<and>
          (\<forall>j e. bt_get (cr_delivered r) j = Some e \<longrightarrow> extends c t e \<longrightarrow> length (dl_text e) \<le> length (dl_text d)))"
      using remainder_spec [OF assms(1), of c t] by blast
    have kind: "block_kind b \<noteq> Some (lit ''tool_use'')" using tool some by auto
    have out: "r1 = q" "fs = (if rest = [] then [] else [channel_event c rest])"
      using assms(2) kind by (auto simp: assistant_block_def undelivered_event_for_def some rem(1) split: if_splits)
    from which show ?thesis
    proof
      assume none: "p = [] \<and> q = r \<and> (\<forall>i d. bt_get (cr_delivered r) i = Some d \<longrightarrow> \<not> extends c t d)"
      have "t \<notin># copies c r" if "t \<noteq> []"
        using none that in_copies [OF assms(1), of t c] by (auto simp: extends_def usable_copy_def)
      moreover have "q \<notin># copies c r" if "prefix q t" for q
        using none that in_copies [OF assms(1), of q c] by (auto simp: extends_def usable_copy_def)
      ultimately show ?thesis using none rem(2) out by auto
    next
      assume "\<exists>i d. bt_get (cr_delivered r) i = Some d \<and> extends c t d \<and> p = dl_text d \<and>
          q = r\<lparr>cr_delivered := bt_remove i (cr_delivered r)\<rparr> \<and>
          (\<forall>j e. bt_get (cr_delivered r) j = Some e \<longrightarrow> extends c t e \<longrightarrow> length (dl_text e) \<le> length (dl_text d))"
      then obtain i d where d: "bt_get (cr_delivered r) i = Some d" "extends c t d" "p = dl_text d"
        "q = r\<lparr>cr_delivered := bt_remove i (cr_delivered r)\<rparr>"
        "\<And>j e. bt_get (cr_delivered r) j = Some e \<Longrightarrow> extends c t e \<Longrightarrow> length (dl_text e) \<le> length (dl_text d)" by blast
      have use: "usable_copy ch d \<longleftrightarrow> p \<noteq> [] \<and> ch = c" for ch using d(2,3) by (auto simp: extends_def usable_copy_def)
      have "copies ch r = (if p \<noteq> [] \<and> ch = c then {#p#} else {#}) + copies ch r1" for ch
        using copies_remove [OF assms(1) d(1), of ch] unfolding use d(3) [symmetric] d(4) [symmetric] out(1) .
      moreover have "rest = []" if whole: "t \<in># copies c r" "t \<noteq> []"
      proof -
        from whole(1) obtain j e where "bt_get (cr_delivered r) j = Some e" "usable_copy c e" "dl_text e = t"
          using in_copies [OF assms(1)] by blast
        then have "length t \<le> length p" using d(3) d(5) [of j e] by (simp add: extends_def usable_copy_def)
        then show "rest = []" using rem(2) by simp
      qed
      moreover have "length q \<le> length p" if "q \<in># copies c r" "prefix q t" for q
        using that in_copies [OF assms(1), of q c] d(3) d(5) by (auto simp: extends_def usable_copy_def)
      ultimately show ?thesis using rem(2) out by blast
    qed
  qed
  have other_channel: "text_on ch (channel_event c rest :: ('f, 'l) payload event_kind) = (if ch = c then Some rest else None)" for c rest
    by (cases c; cases ch) (simp_all add: channel_event_def)
  show "\<exists>p rest. t = p @ rest \<and> shown_on ch fs = (if rest = [] then [] else [rest]) \<and>
         copies ch r = (if p = [] then {#} else {#p#}) + copies ch r1 \<and> (t \<in># copies ch r \<longrightarrow> rest = []) \<and>
         (\<forall>q \<in># copies ch r. prefix q t \<longrightarrow> length q \<le> length p)"
    if "renderable_block b = Some (ch, t)"
  proof -
    have "t \<noteq> []" using that
      by (auto simp: renderable_block_def block_text_of_def block_thinking_def non_empty_field_def split: if_splits option.splits)
    from split [OF that] obtain p rest where p: "t = p @ rest" "fs = (if rest = [] then [] else [channel_event ch rest])"
      "\<forall>c. copies c r = (if p \<noteq> [] \<and> c = ch then {#p#} else {#}) + copies c r1" "t \<in># copies ch r \<longrightarrow> t \<noteq> [] \<longrightarrow> rest = []"
      "\<forall>q \<in># copies ch r. prefix q t \<longrightarrow> length q \<le> length p" by blast
    have "shown_on ch fs = (if rest = [] then [] else [rest])" using p(2) by (simp add: other_channel)
    moreover have "copies ch r = (if p = [] then {#} else {#p#}) + copies ch r1" using p(3) [THEN spec, of ch] by (cases "p = []") simp_all
    ultimately show ?thesis using p(1,4,5) \<open>t \<noteq> []\<close> by blast
  qed
  show "shown_on ch fs = [] \<and> copies ch r1 = copies ch r" if no: "\<nexists>t. renderable_block b = Some (ch, t)"
  proof (cases "renderable_block b")
    case None
    then show ?thesis using other assms(2) by (cases "block_kind b = Some (lit ''tool_use'')") (auto simp: assistant_block_def undelivered_event_for_def)
  next
    case (Some x)
    then obtain c t where some: "renderable_block b = Some (c, t)" "c \<noteq> ch" using no by (cases x) auto
    from split [OF some(1)] obtain p rest where p: "fs = (if rest = [] then [] else [channel_event c rest])"
      "\<forall>ch. copies ch r = (if p \<noteq> [] \<and> ch = c then {#p#} else {#}) + copies ch r1" by blast
    have "shown_on ch fs = []" using p(1) some(2) by (simp add: other_channel)
    then show ?thesis using p(2) [THEN spec, of ch] some(2) by simp
  qed
qed

text \<open>Each piece takes the longest held text its block extends.\<close>

type_synonym pieces = "(ustring \<times> ustring) list"

fun longest_first :: "ustring multiset \<Rightarrow> pieces \<Rightarrow> bool" where
  "longest_first held [] = True"
| "longest_first held ((p, rest) # ps) =
     ((p = [] \<or> p \<in># held) \<and> (\<forall>q \<in># held. prefix q (p @ rest) \<longrightarrow> length q \<le> length p) \<and>
      longest_first (held - (if p = [] then {#} else {#p#})) ps)"

lemma blocks_split:
  "bt_invar (cr_delivered r) \<Longrightarrow> over_blocks (assistant_block None) bs r = (r', es :: ('f, 'l) payload event_kind list) \<Longrightarrow>
   \<exists>ps rs. texts_of ch bs = map2 (@) ps rs \<and> length ps = length rs \<and> shown_on ch es = filter (\<lambda>t. t \<noteq> []) rs \<and>
     copies ch r = mset (filter (\<lambda>t. t \<noteq> []) ps) + copies ch r' \<and>
     (mset (texts_of ch bs) \<subseteq># copies ch r \<longrightarrow> shown_on ch es = []) \<and> longest_first (copies ch r) (zip ps rs)"
proof (induction bs arbitrary: r es)
  case Nil
  then show ?case by (intro exI [of _ "[]"]) simp
next
  case (Cons b bs)
  obtain r1 and fs gs :: "('f, 'l) payload event_kind list" where
    one: "assistant_block None b r = (r1, fs)" and rest: "over_blocks (assistant_block None) bs r1 = (r', gs)" and es: "es = fs @ gs"
    using Cons.prems(2) by (auto split: prod.splits)
  from Cons.IH [OF block_split(1) [OF Cons.prems(1) one] rest] obtain ps rs where
    ih: "texts_of ch bs = map2 (@) ps rs" "length ps = length rs" "shown_on ch gs = filter (\<lambda>t. t \<noteq> []) rs"
      "copies ch r1 = mset (filter (\<lambda>t. t \<noteq> []) ps) + copies ch r'" "mset (texts_of ch bs) \<subseteq># copies ch r1 \<longrightarrow> shown_on ch gs = []"
      "longest_first (copies ch r1) (zip ps rs)"
    by blast
  show ?case
  proof (cases "\<exists>t. renderable_block b = Some (ch, t)")
    case True
    then obtain t where some: "renderable_block b = Some (ch, t)" by blast
    from block_split(2) [OF Cons.prems(1) one some] obtain p x where
      p: "t = p @ x" "shown_on ch fs = (if x = [] then [] else [x])"
        "copies ch r = (if p = [] then {#} else {#p#}) + copies ch r1" "t \<in># copies ch r \<longrightarrow> x = []"
        "\<forall>q \<in># copies ch r. prefix q t \<longrightarrow> length q \<le> length p"
      by blast
    have whole: "mset (texts_of ch (b # bs)) \<subseteq># copies ch r \<longrightarrow> shown_on ch es = []"
    proof (rule impI)
      assume whole: "mset (texts_of ch (b # bs)) \<subseteq># copies ch r"
      have "t \<in># copies ch r" using whole some mset_subset_eqD by fastforce
      then have x: "x = []" using p(4) by blast
      have "mset (texts_of ch bs) \<subseteq># copies ch r1"
        using whole some p(1,3) x by (cases "p = []") (auto dest: mset_subset_eq_insertD subset_mset.less_imp_le)
      then show "shown_on ch es = []" using ih(5) x p(2) by (simp add: es)
    qed
    have texts: "texts_of ch (b # bs) = map2 (@) (p # ps) (x # rs)" using some p(1) ih(1) by simp
    have size: "length (p # ps) = length (x # rs)" using ih(2) by simp
    have shown: "shown_on ch es = filter (\<lambda>t. t \<noteq> []) (x # rs)" using p(2) ih(3) by (simp add: es)
    have copied: "copies ch r = mset (filter (\<lambda>t. t \<noteq> []) (p # ps)) + copies ch r'" using p(3) ih(4) by (cases "p = []") simp_all
    have "longest_first (copies ch r) ((p, x) # zip ps rs)" using p(1,3,5) ih(6) by (cases "p = []") auto
    then have best: "longest_first (copies ch r) (zip (p # ps) (x # rs))" by simp
    show ?thesis
      by (rule exI [of _ "p # ps"], rule exI [of _ "x # rs"], intro conjI) (fact texts size shown copied whole best)+
  next
    case False
    with block_split(3) [OF Cons.prems(1) one] have "shown_on ch fs = []" "copies ch r1 = copies ch r" by simp_all
    moreover have "texts_of ch (b # bs) = texts_of ch bs" using False by (auto split: option.split)
    ultimately show ?thesis using ih by (intro exI [of _ ps] exI [of _ rs]) (simp add: es)
  qed
qed

subsection \<open>What was streamed\<close>

text \<open>
  A stretch of the stream read on its own, without the reducer: the blocks its records open and the text their
  deltas carry. \<open>streams\<close> gives the blocks with their texts, \<open>None\<close> when the stretch is not such a reading: a
  delta of no open block or of another channel, an index opened twice, a text over the limit of one copy, a
  message boundary or a completed message in between.
\<close>

type_synonym streamed_block = "64 word \<times> channel \<times> ustring"

definition main_event :: "stream_record \<Rightarrow> fields option" where
  "main_event rec =
     (if record_kind rec = Some (lit ''stream_event'') \<and> parent_tool_use_id rec = None then record_stream_event rec else None)"

definition block_open :: "stream_record \<Rightarrow> (64 word \<times> channel) option" where
  "block_open rec =
     (case main_event rec of
        None \<Rightarrow> None
      | Some e \<Rightarrow>
          if block_kind e = Some (lit ''content_block_start'')
          then (case (event_index e, opening_channel (content_block_type e)) of (Some i, Some c) \<Rightarrow> Some (i, c) | _ \<Rightarrow> None)
          else None)"

definition delta_of :: "fields \<Rightarrow> (channel \<times> ustring) option" where
  "delta_of d =
     (if block_kind d = Some (lit ''text_delta'') then map_option (Pair TextChannel) (block_text_of d)
      else if block_kind d = Some (lit ''thinking_delta'') then map_option (Pair ReasoningChannel) (block_thinking d)
      else None)"

definition block_delta :: "stream_record \<Rightarrow> (64 word option \<times> channel \<times> ustring) option" where
  "block_delta rec =
     (case main_event rec of
        None \<Rightarrow> None
      | Some e \<Rightarrow>
          if block_kind e = Some (lit ''content_block_delta'')
          then map_option (Pair (event_index e)) (Option.bind (event_delta e) delta_of)
          else None)"

definition opens_message :: "stream_record \<Rightarrow> bool" where
  "opens_message rec \<longleftrightarrow> (case main_event rec of Some e \<Rightarrow> block_kind e = Some (lit ''message_start'') | None \<Rightarrow> False)"

definition completes_blocks :: "stream_record \<Rightarrow> bool" where
  "completes_blocks rec \<longleftrightarrow> record_kind rec = Some (lit ''assistant'') \<and> parent_tool_use_id rec = None"

definition stream_only :: "stream_record \<Rightarrow> bool" where
  "stream_only rec \<longleftrightarrow>
     record_kind rec \<noteq> Some (lit ''assistant'') \<and> record_kind rec \<noteq> Some (lit ''result'') \<and>
     (case main_event rec of
        Some e \<Rightarrow> block_kind e \<noteq> Some (lit ''message_start'') \<and> block_kind e \<noteq> Some (lit ''message_stop'')
      | None \<Rightarrow> True)"

definition within :: "usize option \<Rightarrow> ustring \<Rightarrow> bool" where
  "within limit t \<longleftrightarrow> (case limit of Some n \<Rightarrow> str_len t \<le> n | None \<Rightarrow> True)"

fun streams ::
  "usize option \<Rightarrow> 64 word list \<Rightarrow> streamed_block list \<Rightarrow> stream_record list \<Rightarrow> streamed_block list option" where
  "streams limit old bs [] = Some bs"
| "streams limit old bs (x # xs) =
     (if \<not> stream_only x then None
      else case block_open x of
        Some (i, c) \<Rightarrow>
          if i \<in> set old \<or> i \<in> fst ` set bs then None else streams limit old (bs @ [(i, c, [])]) xs
      | None \<Rightarrow>
          (case block_delta x of
             Some (Some i, c, t) \<Rightarrow>
               (case map_of bs i of
                  None \<Rightarrow> None
                | Some (c', s) \<Rightarrow>
                    if c' \<noteq> c \<or> \<not> within limit (s @ t) then None
                    else streams limit old (map (\<lambda>(j, x). if j = i then (j, c, s @ t) else (j, x)) bs) xs)
           | _ \<Rightarrow> streams limit old bs xs))"

text \<open>A message: stretches of the stream, each followed by a record of completed blocks.\<close>

fun message_streams ::
  "usize option \<Rightarrow> 64 word list \<Rightarrow> (stream_record list \<times> stream_record) list \<Rightarrow> streamed_block list list option" where
  "message_streams limit old [] = Some []"
| "message_streams limit old ((seg, whole) # rest) =
     (case streams limit old [] seg of
        None \<Rightarrow> None
      | Some bs \<Rightarrow>
          if completes_blocks whole then map_option (Cons bs) (message_streams limit (old @ map fst bs) rest) else None)"

fun message_records :: "(stream_record list \<times> stream_record) list \<Rightarrow> stream_record list" where
  "message_records [] = []"
| "message_records ((seg, whole) # rest) = seg @ whole # message_records rest"

definition streamed :: "channel \<Rightarrow> streamed_block list \<Rightarrow> ustring list" where
  "streamed ch bs = List.map_filter (\<lambda>(i, c, s). if c = ch \<and> s \<noteq> [] then Some s else None) bs"

definition delta_texts :: "channel \<Rightarrow> stream_record list \<Rightarrow> ustring list" where
  "delta_texts ch = List.map_filter (\<lambda>x. case block_delta x of Some (_, c, t) \<Rightarrow> if c = ch then Some t else None | None \<Rightarrow> None)"

lemma streamed_simps [simp]:
  "streamed ch [] = []" "streamed ch (b # bs) = (case b of (i, c, s) \<Rightarrow> if c = ch \<and> s \<noteq> [] then s # streamed ch bs else streamed ch bs)"
  by (auto simp: streamed_def map_filter_def split: prod.split)

lemma delta_texts_simps [simp]:
  "delta_texts ch [] = []"
  "delta_texts ch (x # xs) = (case block_delta x of Some (_, c, t) \<Rightarrow> if c = ch then t # delta_texts ch xs else delta_texts ch xs | None \<Rightarrow> delta_texts ch xs)"
  by (auto simp: delta_texts_def map_filter_def split: option.split)

text \<open>What one record of such a stretch shows and what it adds to the copies.\<close>

lemma result_blocks_silent:
  assumes "over_blocks result_block bs r = (r', es :: ('f, 'l) payload event_kind list)"
  shows "shown_on ch es = [] \<and> cr_delivered r' = cr_delivered r \<and> cr_max_message_bytes r' = cr_max_message_bytes r"
  using assms
proof (induction bs arbitrary: r es)
  case (Cons b bs)
  obtain r1 and fs gs :: "('f, 'l) payload event_kind list" where
    one: "result_block b r = (r1, fs)" and rest: "over_blocks result_block bs r1 = (r', gs)" and es: "es = fs @ gs"
    using Cons.prems by (auto split: prod.splits)
  have "shown_on ch fs = [] \<and> cr_delivered r1 = cr_delivered r \<and> cr_max_message_bytes r1 = cr_max_message_bytes r"
    using one by (auto simp: result_block_def Let_def split: option.splits if_splits)
  with Cons.IH [OF rest] show ?case by (simp add: es)
qed simp

lemma replicate_silent [simp]: "shown_on ch (replicate n ReasoningEnded) = []"
  by (induction n) simp_all

lemma record_delivered_limit [simp]: "cr_max_message_bytes (record_delivered i c t r) = cr_max_message_bytes r"
  by (simp add: record_delivered_def Let_def split: option.split)

lemma stream_record_effect:
  assumes "\<not> cr_finished r" "stream_only x" "claude_reduce x r = (r', es :: ('f, 'l) payload event_kind list, j)"
  shows "shown_on ch es = delta_texts ch [x] \<and> cr_max_message_bytes r' = cr_max_message_bytes r \<and>
    cr_delivered r' =
      (case block_open x of
         Some (i, c) \<Rightarrow> bt_insert i (delivered_new c) (cr_delivered r)
       | None \<Rightarrow>
           (case block_delta x of Some (i, c, t) \<Rightarrow> cr_delivered (record_delivered i c t r) | None \<Rightarrow> cr_delivered r))"
proof -
  have words: "lit ''stream_event'' \<noteq> lit ''system''" "lit ''stream_event'' \<noteq> lit ''assistant''"
    "lit ''stream_event'' \<noteq> lit ''user''" "lit ''stream_event'' \<noteq> lit ''result''" by (simp_all add: lit_def)
  have kinds: "lit ''content_block_start'' \<noteq> lit ''message_start''" "lit ''content_block_start'' \<noteq> lit ''message_stop''"
    "lit ''content_block_delta'' \<noteq> lit ''message_start''" "lit ''content_block_delta'' \<noteq> lit ''message_stop''"
    "lit ''content_block_stop'' \<noteq> lit ''content_block_delta''" "lit ''content_block_start'' \<noteq> lit ''content_block_delta''"
    "lit ''content_block_start'' \<noteq> lit ''content_block_stop''" "lit ''text_delta'' \<noteq> lit ''thinking_delta''"
    by (simp_all add: lit_def)
  note kinds = kinds kinds [symmetric]
  consider (stream) e where "main_event x = Some e"
    | (user) "record_kind x = Some (lit ''user'')" | (system) "record_kind x = Some (lit ''system'')"
    | (silent) "r' = r" "es = []" "main_event x = None"
    using assms by (cases "main_event x")
      (auto simp: claude_reduce_def main_event_def stream_only_def reduce_stream_event_def Let_def words split: if_splits option.splits)
  then show ?thesis
  proof cases
    case stream
    then have "reduce_stream_event x r = (r', es)"
      using assms(1,3) by (auto simp: claude_reduce_def main_event_def Let_def words prod_eq_iff split: if_splits)
    moreover have "record_stream_event x = Some e" "parent_tool_use_id x = None"
      using stream by (auto simp: main_event_def split: if_splits)
    ultimately show ?thesis
      using assms(2) stream
      by (auto simp: reduce_stream_event_def stream_only_def block_open_def block_delta_def delta_of_def claude_delta_def
          reduce_block_start_def kinds Let_def split: option.splits if_splits)
  next
    case user
    then have "main_event x = None" by (simp add: main_event_def lit_def)
    moreover have "over_blocks result_block (content_blocks x) r = (r', es)"
      using user assms(1,3) by (auto simp: claude_reduce_def reduce_user_def Let_def lit_def prod_eq_iff)
    ultimately show ?thesis using result_blocks_silent by (fastforce simp: block_open_def block_delta_def)
  next
    case system
    then have "main_event x = None" by (simp add: main_event_def lit_def)
    then show ?thesis
      using system assms(1,3)
      by (auto simp: claude_reduce_def reduce_system_def record_denial_def block_open_def block_delta_def Let_def
          split: if_splits prod.splits option.splits)
  next
    case silent
    then show ?thesis by (simp add: block_open_def block_delta_def)
  qed
qed

text \<open>While the stretch is read, the copies are those held before it and the blocks it opened, whole.\<close>

definition copy_of :: "streamed_block \<Rightarrow> 64 word \<times> delivered" where
  "copy_of b = (case b of (i, c, s) \<Rightarrow> (i, \<lparr>dl_channel = c, dl_text = s, dl_overflowed = False\<rparr>))"

definition copies_held :: "(64 word, delivered) btree \<Rightarrow> streamed_block list \<Rightarrow> claude_reducer \<Rightarrow> bool" where
  "copies_held D bs r \<longleftrightarrow>
     bt_invar (cr_delivered r) \<and> distinct (map fst bs) \<and>
     (\<forall>i. bt_get (cr_delivered r) i =
        (case map_of bs i of
           Some (c, s) \<Rightarrow> Some \<lparr>dl_channel = c, dl_text = s, dl_overflowed = False\<rparr>
         | None \<Rightarrow> bt_get D i))"

lemma map_of_replace:
  "map_of (map (\<lambda>(j, x). if j = i then (j, v) else (j, x)) bs) k =
     (if k = i then map_option (\<lambda>_. v) (map_of bs i) else map_of bs k)"
  by (induction bs) auto

lemma keys_replace: "map (fst \<circ> (\<lambda>(j, x). if j = i then (j, v) else (j, x))) bs = map fst bs"
  by (induction bs) auto

lemma within_push: "within limit (s @ t) \<Longrightarrow>
  delivered_push t limit \<lparr>dl_channel = c, dl_text = s, dl_overflowed = False\<rparr> =
    \<lparr>dl_channel = c, dl_text = s @ t, dl_overflowed = False\<rparr>"
  by (auto simp: within_def delivered_push_def sat_add_def split: option.splits)

lemma held_record:
  assumes "copies_held D bs r" "\<not> cr_finished r" "claude_reduce x r = (r', es :: ('f, 'l) payload event_kind list, j)"
    "streams (cr_max_message_bytes r) old bs (x # xs) = Some out" "fst ` set bs \<inter> set old = {}"
  obtains bs' where "streams (cr_max_message_bytes r) old bs' xs = Some out" "copies_held D bs' r'"
    "fst ` set bs' \<inter> set old = {}"
proof -
  have only: "stream_only x" using assms(4) by (simp split: if_splits)
  note effect = stream_record_effect [OF assms(2) only assms(3)]
  show thesis
  proof (cases "block_open x")
    case (Some b)
    obtain i c where b: "b = (i, c)" by fastforce
    have fresh: "i \<notin> set old" "i \<notin> fst ` set bs" and rest: "streams (cr_max_message_bytes r) old (bs @ [(i, c, [])]) xs = Some out"
      using assms(4) only Some b by (auto split: if_splits)
    have "cr_delivered r' = bt_insert i (delivered_new c) (cr_delivered r)" using effect Some b by simp
    moreover have "map_of bs i = None" using fresh(2) by (simp add: map_of_eq_None_iff)
    ultimately have "copies_held D (bs @ [(i, c, [])]) r'"
      using assms(1) fresh(2)
      by (auto simp: copies_held_def bt_invar_insert bt_get_insert delivered_new_def map_add_def split: option.split)
    with rest show thesis using that [of "bs @ [(i, c, [])]"] fresh(1) assms(5) by auto
  next
    case None
    show thesis
    proof (cases "\<exists>i c t. block_delta x = Some (Some i, c, t)")
      case True
      then obtain i c t where d: "block_delta x = Some (Some i, c, t)" by blast
      obtain s where s: "map_of bs i = Some (c, s)" "within (cr_max_message_bytes r) (s @ t)"
        "streams (cr_max_message_bytes r) old (map (\<lambda>(j, x). if j = i then (j, c, s @ t) else (j, x)) bs) xs = Some out"
        using assms(4) only None d by (auto split: option.splits if_splits)
      let ?bs = "map (\<lambda>(j, x). if j = i then (j, c, s @ t) else (j, x)) bs"
      have "bt_get (cr_delivered r) i = Some \<lparr>dl_channel = c, dl_text = s, dl_overflowed = False\<rparr>"
        using assms(1) s(1) by (simp add: copies_held_def)
      then have "cr_delivered r' = bt_insert i \<lparr>dl_channel = c, dl_text = s @ t, dl_overflowed = False\<rparr> (cr_delivered r)"
        using effect None d s(2) by (simp add: record_delivered_def within_push)
      then have "copies_held D ?bs r'"
        using assms(1) s(1)
        by (auto simp: copies_held_def bt_invar_insert bt_get_insert map_of_replace keys_replace split: option.split)
      moreover have "fst ` set ?bs = fst ` set bs" using keys_replace [of i "(c, s @ t)" bs] by (metis list.set_map map_map)
      ultimately show thesis using that [of ?bs] s(3) assms(5) by simp
    next
      case False
      then have same: "cr_delivered r' = cr_delivered r"
        using effect None by (auto simp: record_delivered_def split: option.split)
      have "streams (cr_max_message_bytes r) old bs xs = Some out"
        using assms(4) only None False by (auto split: option.splits)
      then show thesis using that [of bs] assms(1,5) same by (simp add: copies_held_def)
    qed
  qed
qed

lemma held_stretch:
  "told c n r (es0 :: ('f, 'l) payload event_kind list) \<Longrightarrow> \<not> cr_finished r \<Longrightarrow> copies_held D bs r \<Longrightarrow> fst ` set bs \<inter> set old = {} \<Longrightarrow>
   streams (cr_max_message_bytes r) old bs seg = Some out \<Longrightarrow>
   claude_run seg r = (r', es :: ('f, 'l) payload event_kind list) \<Longrightarrow>
   \<not> cr_finished r' \<and> copies_held D out r' \<and> fst ` set out \<inter> set old = {} \<and> shown_on ch es = delta_texts ch seg \<and>
   cr_max_message_bytes r' = cr_max_message_bytes r \<and> (\<exists>m. told c m r' (es0 @ es))"
proof (induction seg arbitrary: n r es0 bs es)
  case (Cons x xs)
  obtain r1 and gs hs :: "('f, 'l) payload event_kind list" and i where
    one: "claude_reduce x r = (r1, gs, i)" and rest: "claude_run xs r1 = (r', hs)" and es: "es = gs @ hs"
    using Cons.prems(6) by (auto split: prod.splits)
  have only: "stream_only x" using Cons.prems(5) by (simp split: if_splits)
  then have "record_kind x \<noteq> Some (lit ''result'')" by (simp add: stream_only_def)
  with claude_reduce_step [OF Cons.prems(1) one] Cons.prems(2)
  have told: "told c (n + unclosable x r) r1 (es0 @ gs)" and live: "\<not> cr_finished r1" by simp_all
  note effect = stream_record_effect [OF Cons.prems(2) only one, of ch]
  obtain bs' where "streams (cr_max_message_bytes r1) old bs' xs = Some out" "copies_held D bs' r1" "fst ` set bs' \<inter> set old = {}"
    using held_record [OF Cons.prems(3,2) one Cons.prems(5,4)] effect by metis
  from Cons.IH [OF told live this(2,3,1) rest] effect show ?case
    by (auto simp: es split: option.splits)
qed auto

lemma held_copies:
  assumes "copies_held (cr_delivered r0) bs r" "bt_invar (cr_delivered r0)"
    "fst ` set bs \<inter> fst ` set (cr_delivered r0) = {}"
  shows "copies ch r = mset (streamed ch bs) + copies ch r0"
proof -
  have keys: "distinct (map fst (cr_delivered r))" "distinct (map fst (cr_delivered r0))" "distinct (map fst bs)"
    using assms(1,2) by (simp_all add: copies_held_def bt_invar_def strict_sorted_iff)
  have ids: "map (fst \<circ> copy_of) bs = map fst bs" by (simp add: copy_of_def case_prod_beta comp_def)
  then have "fst ` copy_of ` set bs = fst ` set bs" by (metis image_comp list.set_map)
  then have "distinct (map fst (cr_delivered r0 @ map copy_of bs))" using keys assms(3) by (auto simp: ids simp del: map_eq_conv)
  moreover have "x \<in> set (cr_delivered r) \<longleftrightarrow> x \<in> set (cr_delivered r0 @ map copy_of bs)" for x
  proof -
    obtain i d where x: "x = (i, d)" by fastforce
    have "x \<in> set (cr_delivered r) \<longleftrightarrow> bt_get (cr_delivered r) i = Some d" using keys(1) x by simp
    also have "\<dots> \<longleftrightarrow> (case map_of bs i of Some (c, s) \<Rightarrow> d = \<lparr>dl_channel = c, dl_text = s, dl_overflowed = False\<rparr>
        | None \<Rightarrow> x \<in> set (cr_delivered r0))"
      using assms(1) keys(2) x by (auto simp: copies_held_def split: option.split)
    also have "\<dots> \<longleftrightarrow> x \<in> set (cr_delivered r0 @ map copy_of bs)"
    proof (cases "map_of bs i")
      case None
      then have "x \<notin> set (map copy_of bs)" using x by (auto simp: copy_of_def map_of_eq_None_iff image_iff split: prod.splits)
      then show ?thesis using None by simp
    next
      case (Some b)
      then have "i \<in> fst ` set bs" by (metis domI dom_map_of_conv_image_fst)
      then have "x \<notin> set (cr_delivered r0)" using assms(3) x by force
      moreover have "x \<in> set (map copy_of bs) \<longleftrightarrow>
          (\<exists>c s. map_of bs i = Some (c, s) \<and> d = \<lparr>dl_channel = c, dl_text = s, dl_overflowed = False\<rparr>)"
        using keys(3) x by (force simp: copy_of_def image_iff split: prod.splits)
      ultimately show ?thesis using Some by (cases b) simp
    qed
    finally show ?thesis .
  qed
  moreover have "distinct (cr_delivered r)" using keys(1) by (simp only: distinct_map)
  ultimately have "mset (cr_delivered r) = mset (cr_delivered r0 @ map copy_of bs)"
    by (intro iffD1 [OF set_eq_iff_mset_eq_distinct]) (auto simp only: distinct_map set_eq_iff)
  moreover have "image_mset dl_text (filter_mset (usable_copy ch) (image_mset snd (image_mset copy_of (mset bs)))) = mset (streamed ch bs)"
    by (induction bs) (auto simp: copy_of_def usable_copy_def)
  ultimately show ?thesis by (simp add: copies_def)
qed

text \<open>A record of completed blocks, and the record that opens a message.\<close>

lemma completed_effect:
  assumes "bt_invar (cr_delivered r)" "over_blocks (assistant_block None) bs r = (r', es :: ('f, 'l) payload event_kind list)"
  shows "cr_max_message_bytes r' = cr_max_message_bytes r \<and> fst ` set (cr_delivered r') \<subseteq> fst ` set (cr_delivered r)"
  using assms
proof (induction bs arbitrary: r es)
  case (Cons b bs)
  obtain r1 and fs gs :: "('f, 'l) payload event_kind list" where
    one: "assistant_block None b r = (r1, fs)" and rest: "over_blocks (assistant_block None) bs r1 = (r', gs)"
    using Cons.prems(2) by (auto split: prod.splits)
  have removed: "fst ` set (bt_remove i m) \<subseteq> fst ` set m" for i and m :: "(64 word, delivered) btree"
    by (auto simp: bt_remove_def)
  have "cr_max_message_bytes r1 = cr_max_message_bytes r \<and> fst ` set (cr_delivered r1) \<subseteq> fst ` set (cr_delivered r)"
  proof (cases "block_kind b = Some (lit ''tool_use'')")
    case True
    with one show ?thesis by (auto simp: assistant_block_def start_activity_def split: option.splits if_splits)
  next
    case False
    then have und: "undelivered_event_for b r = (r1, fs)" using one by (simp add: assistant_block_def)
    show ?thesis
    proof (cases "renderable_block b")
      case None
      with und show ?thesis by (simp add: undelivered_event_for_def)
    next
      case (Some x)
      obtain c t where x: "x = (c, t)" by fastforce
      obtain q p rest where rem: "undelivered_remainder c t r = Some (q, rest)"
        "q = r \<or> (\<exists>i. q = r\<lparr>cr_delivered := bt_remove i (cr_delivered r)\<rparr>)"
        using remainder_spec [OF Cons.prems(1), of c t] by blast
      have "r1 = q" using und Some x rem(1) by (auto simp: undelivered_event_for_def split: if_splits)
      with rem(2) removed [of _ "cr_delivered r"] show ?thesis by fastforce
    qed
  qed
  with Cons.IH [OF block_split(1) [OF Cons.prems(1) one] rest] show ?case by auto
qed simp

lemma completed_record:
  assumes "\<not> cr_finished r" "completes_blocks x" "claude_reduce x r = (r', es :: ('f, 'l) payload event_kind list, j)"
  shows "over_blocks (assistant_block None) (content_blocks x) r = (r', es)"
  using assms by (auto simp: claude_reduce_def completes_blocks_def reduce_assistant_def Let_def lit_def prod_eq_iff)

lemma opening_record:
  assumes "\<not> cr_finished r" "opens_message x" "claude_reduce x r = (r', es :: ('f, 'l) payload event_kind list, j)"
  shows "shown_on ch es = []" "cr_delivered r' = []" "cr_max_message_bytes r' = cr_max_message_bytes r"
    "record_kind x \<noteq> Some (lit ''result'')"
proof -
  have kind: "record_kind x = Some (lit ''stream_event'')" "parent_tool_use_id x = None"
    "\<exists>e. record_stream_event x = Some e \<and> block_kind e = Some (lit ''message_start'')"
    using assms(2) by (auto simp: opens_message_def main_event_def split: option.splits if_splits)
  then have "reduce_stream_event x r = (r', es)"
    using assms(1,3) by (auto simp: claude_reduce_def Let_def lit_def prod_eq_iff)
  with kind show "shown_on ch es = []" "cr_delivered r' = []" "cr_max_message_bytes r' = cr_max_message_bytes r"
    by (auto simp: reduce_stream_event_def close_reasoning_blocks_def)
  show "record_kind x \<noteq> Some (lit ''result'')" using kind(1) by (simp add: lit_def)
qed

lemma claude_run_append:
  "claude_run (xs @ ys) r =
     (let (r1, es) = claude_run xs r; (r2, fs) = claude_run ys r1 in (r2, es @ (fs :: ('f, 'l) payload event_kind list)))"
  by (induction xs arbitrary: r) (auto simp: Let_def split: prod.split)

text \<open>Piece by piece: of each completed block what had been streamed of it and what was shown of it then.
  \<open>taken_in_order\<close> follows the texts that were streamed and not completed yet.\<close>

definition pieces_fit :: "channel \<Rightarrow> stream_record list \<times> stream_record \<Rightarrow> pieces \<Rightarrow> bool" where
  "pieces_fit ch m ps \<longleftrightarrow> texts_of ch (content_blocks (snd m)) = map (\<lambda>(p, rest). p @ rest) ps"

definition shown_of :: "channel \<Rightarrow> stream_record list \<times> stream_record \<Rightarrow> pieces \<Rightarrow> ustring list" where
  "shown_of ch m ps = delta_texts ch (fst m) @ filter (\<lambda>t. t \<noteq> []) (map snd ps)"

fun taken_in_order :: "channel \<Rightarrow> ustring multiset \<Rightarrow> streamed_block list list \<Rightarrow> pieces list \<Rightarrow> bool" where
  "taken_in_order ch held (bs # bss) (ps # pss) =
     (longest_first (held + mset (streamed ch bs)) ps \<and>
      taken_in_order ch (held + mset (streamed ch bs) - mset (filter (\<lambda>t. t \<noteq> []) (map fst ps))) bss pss)"
| "taken_in_order ch held [] [] = True"
| "taken_in_order ch held _ _ = False"

definition all_streamed :: "channel \<Rightarrow> stream_record list \<times> stream_record \<Rightarrow> streamed_block list \<Rightarrow> bool" where
  "all_streamed ch m bs \<longleftrightarrow> mset (texts_of ch (content_blocks (snd m))) \<subseteq># mset (streamed ch bs)"

lemma streamed_append [simp]: "streamed ch (bs @ cs) = streamed ch bs @ streamed ch cs"
  by (simp add: streamed_def map_filter_def)

lemma message_told:
  "told c n r (es0 :: ('f, 'l) payload event_kind list) \<Longrightarrow> \<not> cr_finished r \<Longrightarrow> fst ` set (cr_delivered r) \<subseteq> set old \<Longrightarrow>
   message_streams (cr_max_message_bytes r) old msgs = Some bss \<Longrightarrow>
   claude_run (message_records msgs) r = (r', es :: ('f, 'l) payload event_kind list) \<Longrightarrow>
   \<exists>pss. list_all2 (pieces_fit ch) msgs pss \<and> shown_on ch es = concat (map2 (shown_of ch) msgs pss) \<and>
     taken_in_order ch (copies ch r) bss pss \<and>
     mset (streamed ch (concat bss)) + copies ch r = mset (filter (\<lambda>t. t \<noteq> []) (map fst (concat pss))) + copies ch r' \<and>
     (list_all2 (all_streamed ch) msgs bss \<longrightarrow> shown_on ch es = concat (map (\<lambda>m. delta_texts ch (fst m)) msgs))"
proof (induction msgs arbitrary: n r es0 old bss es)
  case Nil
  then show ?case by (intro exI [of _ "[]"]) simp
next
  case (Cons m msgs)
  obtain seg x where m: "m = (seg, x)" by fastforce
  obtain bs bss' where segs: "streams (cr_max_message_bytes r) old [] seg = Some bs" "completes_blocks x"
    "message_streams (cr_max_message_bytes r) (old @ map fst bs) msgs = Some bss'" "bss = bs # bss'"
    using Cons.prems(4) by (auto simp: m split: option.splits if_splits)
  obtain r1 and es1 :: "('f, 'l) payload event_kind list" where stretch: "claude_run seg r = (r1, es1)" by fastforce
  obtain r2 and es2 :: "('f, 'l) payload event_kind list" and j where one: "claude_reduce x r1 = (r2, es2, j)" by (metis prod_cases3)
  obtain es3 :: "('f, 'l) payload event_kind list" where rest: "claude_run (message_records msgs) r2 = (r', es3)" and
    es: "es = es1 @ es2 @ es3"
    using Cons.prems(5) by (auto simp: m claude_run_append stretch one split: prod.splits)
  have inv: "bt_invar (cr_delivered r)" using Cons.prems(1) by (simp add: told_def)
  then have start: "copies_held (cr_delivered r) [] r" "fst ` set ([] :: streamed_block list) \<inter> set old = {}"
    by (simp_all add: copies_held_def)
  from held_stretch [OF Cons.prems(1,2) start segs(1) stretch, of ch] obtain k where
    live: "\<not> cr_finished r1" and held: "copies_held (cr_delivered r) bs r1" and apart: "fst ` set bs \<inter> set old = {}" and
    shown1: "shown_on ch es1 = delta_texts ch seg" and same1: "cr_max_message_bytes r1 = cr_max_message_bytes r" and
    told1: "told c k r1 (es0 @ es1)"
    by auto
  have inv1: "bt_invar (cr_delivered r1)" using held by (simp add: copies_held_def)
  have copied: "copies ch r1 = mset (streamed ch bs) + copies ch r"
    using held_copies [OF held inv] apart Cons.prems(3) by blast
  have kind: "record_kind x \<noteq> Some (lit ''result'')" using segs(2) by (simp add: completes_blocks_def lit_def)
  have told2: "told c (k + unclosable x r1) r2 ((es0 @ es1) @ es2)" and live2: "\<not> cr_finished r2"
    using claude_reduce_step [OF told1 one] live kind by simp_all
  note blocks = completed_record [OF live segs(2) one]
  note effect = completed_effect [OF inv1 blocks]
  have keys1: "fst ` set (cr_delivered r1) \<subseteq> set (old @ map fst bs)"
  proof
    fix i assume "i \<in> fst ` set (cr_delivered r1)"
    then have "bt_get (cr_delivered r1) i \<noteq> None" by (simp add: map_of_eq_None_iff)
    then have "map_of bs i \<noteq> None \<or> bt_get (cr_delivered r) i \<noteq> None" using held by (auto simp: copies_held_def split: option.splits)
    then show "i \<in> set (old @ map fst bs)" using Cons.prems(3) by (auto simp: map_of_eq_None_iff)
  qed
  have keys2: "fst ` set (cr_delivered r2) \<subseteq> set (old @ map fst bs)" using keys1 effect by blast
  have "message_streams (cr_max_message_bytes r2) (old @ map fst bs) msgs = Some bss'" using segs(3) effect same1 by simp
  from Cons.IH [OF told2 live2 keys2 this rest] obtain pss where
    ih: "list_all2 (pieces_fit ch) msgs pss" "shown_on ch es3 = concat (map2 (shown_of ch) msgs pss)"
      "mset (streamed ch (concat bss')) + copies ch r2 = mset (filter (\<lambda>t. t \<noteq> []) (map fst (concat pss))) + copies ch r'"
      "list_all2 (all_streamed ch) msgs bss' \<longrightarrow> shown_on ch es3 = concat (map (\<lambda>m. delta_texts ch (fst m)) msgs)"
      "taken_in_order ch (copies ch r2) bss' pss"
    by blast
  from blocks_split [OF inv1 blocks, of ch] obtain ps rs where
    split: "texts_of ch (content_blocks x) = map2 (@) ps rs" "length ps = length rs" "shown_on ch es2 = filter (\<lambda>t. t \<noteq> []) rs"
      "copies ch r1 = mset (filter (\<lambda>t. t \<noteq> []) ps) + copies ch r2"
      "mset (texts_of ch (content_blocks x)) \<subseteq># copies ch r1 \<longrightarrow> shown_on ch es2 = []"
      "longest_first (copies ch r1) (zip ps rs)"
    by blast
  have fit: "list_all2 (pieces_fit ch) (m # msgs) (zip ps rs # pss)"
    using ih(1) split(1,2) by (simp add: m pieces_fit_def)
  have shown: "shown_on ch es = concat (map2 (shown_of ch) (m # msgs) (zip ps rs # pss))"
    using ih(2) split(2,3) shown1 by (simp add: es m shown_of_def)
  have books: "mset (streamed ch (concat bss)) + copies ch r = mset (filter (\<lambda>t. t \<noteq> []) (map fst (concat (zip ps rs # pss)))) + copies ch r'"
  proof -
    have "mset (streamed ch (concat bss)) + copies ch r = mset (streamed ch (concat bss')) + copies ch r1"
      by (simp add: segs(4) copied ac_simps)
    also have "\<dots> = mset (filter (\<lambda>t. t \<noteq> []) ps) + (mset (streamed ch (concat bss')) + copies ch r2)"
      by (simp add: split(4) ac_simps)
    also have "\<dots> = mset (filter (\<lambda>t. t \<noteq> []) ps) + mset (filter (\<lambda>t. t \<noteq> []) (map fst (concat pss))) + copies ch r'"
      by (simp only: ih(3) add.assoc)
    finally show ?thesis using split(2) by simp
  qed
  have whole: "shown_on ch es = concat (map (\<lambda>m. delta_texts ch (fst m)) (m # msgs))" if "list_all2 (all_streamed ch) (m # msgs) bss"
  proof -
    have "mset (texts_of ch (content_blocks x)) \<subseteq># copies ch r1" "list_all2 (all_streamed ch) msgs bss'"
      using that copied by (auto simp: segs(4) m all_streamed_def intro: subset_mset.trans mset_subset_eq_add_left)
    then show ?thesis using ih(4) split(5) shown1 by (simp add: es m)
  qed
  have "copies ch r2 = copies ch r + mset (streamed ch bs) - mset (filter (\<lambda>t. t \<noteq> []) (map fst (zip ps rs)))"
    using split(2,4) copied by (simp add: add.commute)
  then have taken: "taken_in_order ch (copies ch r) bss (zip ps rs # pss)"
    using ih(5) split(6) copied by (simp add: segs(4) add.commute)
  show ?case using fit shown taken books whole by blast
qed

text \<open>C19: Claude: text is delivered once. In a message whose blocks are streamed - opened, then grown delta
  by delta - and completed in any order and over any number of records, a host is shown every delta when it
  comes and, when a block is completed, exactly what is missing of its text: the block's text is the longest text it
  extends, of those streamed in this message that stand for no block yet (or nothing, if there is none),
  followed by what is shown then; every streamed text stands for one block or is still held. A message all of whose blocks were streamed whole shows nothing but the deltas.\<close>

theorem claude_text_once:
  assumes "claude_run before (claude_reducer_new limit) = (r0, es0 :: ('f, 'l) payload event_kind list)"
    "\<not> cr_finished r0" "opens_message start" "message_streams (cr_max_message_bytes r0) [] msgs = Some bss"
    "claude_run (start # message_records msgs) r0 = (r, es :: ('f, 'l) payload event_kind list)"
  shows "\<exists>pss. list_all2 (pieces_fit ch) msgs pss \<and> shown_on ch es = concat (map2 (shown_of ch) msgs pss) \<and>
    taken_in_order ch {#} bss pss \<and>
    mset (streamed ch (concat bss)) = mset (filter (\<lambda>t. t \<noteq> []) (map fst (concat pss))) + copies ch r \<and>
    (list_all2 (all_streamed ch) msgs bss \<longrightarrow> shown_on ch es = concat (map (\<lambda>m. delta_texts ch (fst m)) msgs))"
proof -
  from claude_run_told [OF claude_new_told assms(1), of "[]"] obtain n where told: "told [] n r0 es0" by auto
  obtain r1 and es1 es2 :: "('f, 'l) payload event_kind list" and j where
    one: "claude_reduce start r0 = (r1, es1, j)" and rest: "claude_run (message_records msgs) r1 = (r, es2)" and es: "es = es1 @ es2"
    using assms(5) by (auto split: prod.splits)
  note opened = opening_record [OF assms(2,3) one]
  from claude_reduce_step [OF told one] opened(4) assms(2)
  have "told [] (n + unclosable start r0) r1 (es0 @ es1)" "\<not> cr_finished r1" by simp_all
  from message_told [OF this _ _ rest, of "[]" bss ch] opened(1-3) assms(4) show ?thesis
    by (simp add: es copies_def)
qed

text \<open>A message whose one block is cut off after two letters and then completed whole.\<close>

definition demo_event :: "(ustring \<times> json) list \<Rightarrow> stream_record" where
  "demo_event e = \<lparr>sr_fields = [(lit ''type'', JString (lit ''stream_event'')), (lit ''event'', JObject e)]\<rparr>"

definition demo_message :: "(stream_record list \<times> stream_record) list" where
  "demo_message =
     [([demo_event [(lit ''type'', JString (lit ''content_block_start'')), (lit ''index'', JNumber (lit ''0'')),
          (lit ''content_block'', JObject [(lit ''type'', JString (lit ''text''))])],
        demo_event [(lit ''type'', JString (lit ''content_block_delta'')), (lit ''index'', JNumber (lit ''0'')),
          (lit ''delta'', JObject [(lit ''type'', JString (lit ''text_delta'')), (lit ''text'', JString (lit ''He''))])]],
       \<lparr>sr_fields = [(lit ''type'', JString (lit ''assistant'')), (lit ''message'', JObject [(lit ''content'',
          JArray [JObject [(lit ''type'', JString (lit ''text'')), (lit ''text'', JString (lit ''Hello''))]])])]\<rparr>)]"

definition demo_opening :: stream_record where
  "demo_opening = demo_event [(lit ''type'', JString (lit ''message_start''))]"

lemmas demo_message_defs = demo_message_def demo_event_def demo_opening_def record_kind_def parent_tool_use_id_def
  record_stream_event_def content_blocks_def block_kind_def block_text_of_def block_thinking_def event_index_def
  content_block_type_def event_delta_def text_field_def non_empty_field_def object_field_def main_event_def block_open_def
  block_delta_def delta_of_def opening_channel_def is_reasoning_block_def stream_only_def opens_message_def
  completes_blocks_def within_def lit_def

lemma demo_opening_opens: "opens_message demo_opening"
  by (simp add: demo_message_defs)

lemma demo_message_streams: "message_streams None [] demo_message = Some [[(0, TextChannel, lit ''He'')]]"
proof -
  have "json_u64 (JNumber [48]) = Some 0" by (simp add: digit_def digits_value_def)
  then show ?thesis by (simp add: demo_message_defs del: json_u64.simps)
qed

lemma demo_message_texts:
  "texts_of TextChannel (content_blocks (snd (hd demo_message))) = [lit ''Hello'']"
  "delta_texts TextChannel (fst (hd demo_message)) = [lit ''He'']"
  by (simp_all add: demo_message_defs renderable_block_def map_filter_def)

lemma claude_text_once_witness:
  "shown_on TextChannel (snd (claude_run (demo_opening # message_records demo_message) (claude_reducer_new None) ::
     claude_reducer \<times> (unit, unit) payload event_kind list)) = [lit ''He'', lit ''llo'']"
proof -
  let ?run = "claude_run (demo_opening # message_records demo_message) (claude_reducer_new None) ::
     claude_reducer \<times> (unit, unit) payload event_kind list"
  obtain r and es :: "(unit, unit) payload event_kind list" where run: "?run = (r, es)" by fastforce
  have start: "claude_run [] (claude_reducer_new None) = (claude_reducer_new None, [] :: (unit, unit) payload event_kind list)"
    "\<not> cr_finished (claude_reducer_new None)" "cr_max_message_bytes (claude_reducer_new None) = None"
    by (simp_all add: claude_reducer_new_def)
  obtain m where m: "demo_message = [m]" "hd demo_message = m" by (simp add: demo_message_def)
  from claude_text_once [OF start(1,2) demo_opening_opens _ run, of "[[(0, TextChannel, lit ''He'')]]" TextChannel]
    demo_message_streams start(3)
  obtain pss where pss: "list_all2 (pieces_fit TextChannel) demo_message pss"
    "shown_on TextChannel es = concat (map2 (shown_of TextChannel) demo_message pss)"
    "taken_in_order TextChannel {#} [[(0, TextChannel, lit ''He'')]] pss" by auto
  from pss(1,3) obtain p x where one: "pss = [[(p, x)]]" "p @ x = lit ''Hello''" "p = [] \<or> p = lit ''He''"
      "prefix (lit ''He'') (p @ x) \<longrightarrow> length (lit ''He'') \<le> length p"
    using demo_message_texts(1) unfolding m
    by (auto simp: list_all2_Cons1 pieces_fit_def lit_def map_eq_Cons_conv split: if_splits)
  then have "p = lit ''He''" "x = lit ''llo''" by (auto simp: lit_def)
  then have "shown_on TextChannel es = [lit ''He'', lit ''llo'']"
    using pss(2) one(1) demo_message_texts(2) unfolding m by (simp add: shown_of_def) (simp add: lit_def)
  then show ?thesis unfolding run by simp
qed

end
