(* ===== verification/Spec2Isabelle.thy ===== *)
theory Spec2Isabelle imports Registry Turn_Stream Json_Size Outbox Session_State Lifecycle Redact_Strip Line_Stream Activity_Content Codex_Reducer Codex_Turn Rpc_Queue Acp_Pacing Claude_Reducer begin

text \<open>
  A verification library for Mango External Agents (Rust): a core crate that hosts agent harnesses, and
  adapters for the vendors' protocols (\<open>mango-agent-codex\<close>, \<open>mango-agent-acp\<close>, \<open>mango-agent-claude\<close>).
  Paths below are relative to \<open>src/crates/mango-external-agents/src/\<close> unless a crate is named.

  \<^bold>\<open>The program.\<close> A host registers harnesses, discovers what each can do, opens a session against a
  workspace under a permission configuration, and submits turns. A turn's vendor output arrives as bytes
  from a child process, is cut into lines, decoded into protocol frames, correlated by a JSON-RPC client
  with the requests it answers, reduced to events, bounded, and put in a per-turn buffer a reader drains.
  Approvals and questions travel the other way, and a recovery record says what may be retried.

  \<^bold>\<open>Theories, in the order the program's data flows.\<close>

  \<^item> \<open>Prelude\<close>, \<open>Utf8\<close>, \<open>Utf8_Lossy\<close>, \<open>Btree\<close>, \<open>Queue_Contract\<close>: machine integers (\<open>usize\<close> with saturating and
    wrapping operations written out), \<open>Result\<close>, strings as scalar values with their UTF-8 bytes, byte
    slicing as an option, the ordered map, and the locale for bounded first-in first-out queues that
    the turn buffer interprets.
  \<^item> \<open>Errors\<close> (\<open>error.rs\<close>), \<open>Text_Norm\<close> (\<open>normalize.rs\<close>), \<open>Identity\<close> (\<open>identity.rs\<close>), \<open>Registry\<close>
    (\<open>registry.rs\<close>), \<open>Host_Limits\<close> and \<open>Host_Path\<close> (\<open>host.rs\<close>), \<open>Capabilities\<close> (\<open>harness.rs\<close>),
    \<open>Discovery\<close> (\<open>discovery.rs\<close>, and \<open>discover\<close> and \<open>validate_open_session\<close> of \<open>harness.rs\<close>).
  \<^item> \<open>Recovery\<close> (\<open>recovery.rs\<close>, \<open>operation.rs\<close>): attempts, dispatch evidence, and when a submission may be
    sent again.
  \<^item> \<open>Configuration\<close> (\<open>configuration.rs\<close>), \<open>Permission\<close> (\<open>permission.rs\<close>), \<open>Interaction\<close>
    (\<open>interaction.rs\<close>): evidence columns and catalogs, the permission matrix and brokered answers, rounds of
    questions and their validation.
  \<^item> \<open>Line_Stream\<close> (\<open>process.rs\<close>, \<open>process/line_break.rs\<close>): bytes of a child into lines under the host's caps.
  \<^item> \<open>Outbox\<close> (\<open>jsonrpc/outbox.rs\<close>): the outbound queue, its bounds, direct turns, withdrawal, the writer; and
    the same steps with a record of what callers were promised and what became of it.
  \<^item> \<open>Json_Value\<close>, \<open>Rpc_Calls\<close>, \<open>Rpc_Queue\<close> (\<open>jsonrpc.rs\<close>): decoded values, the calls of a connection from the
    outbox to their answer, and the bounded queue between the reader and the worker.
  \<^item> \<open>Activity_Content\<close> (\<open>content.rs\<close>, \<open>extension.rs\<close>, \<open>event.rs\<close>): what an activity carries, bounded.
  \<^item> \<open>Codex_Reducer\<close>, \<open>Codex_Turn\<close> (\<open>mango-agent-codex\<close>: \<open>protocol/items.rs\<close>, \<open>protocol/notifications.rs\<close>,
    \<open>activity.rs\<close>, \<open>reducer.rs\<close>, \<open>turn_reducer.rs\<close>): a notification decoded, routed, and reduced to
    events; what a turn remembers between notifications.
  \<^item> \<open>Acp_Reducer\<close>, \<open>Acp_Pacing\<close> (\<open>mango-agent-acp\<close>: \<open>reducer.rs\<close>, \<open>reducer/compaction.rs\<close>,
    \<open>reducer/notice.rs\<close>): the updates of an ACP prompt reduced to events, held back and merged by pacing.
  \<^item> \<open>Claude_Protocol\<close>, \<open>Claude_Reducer\<close> (\<open>mango-agent-claude\<close>: \<open>protocol.rs\<close>, \<open>commands.rs\<close>, \<open>reducer.rs\<close>):
    the records of a Claude Code run and their reduction. Its last section reads the stream of a message without
    the reducer, as the blocks it opens and the text of their deltas, to say what a host may be shown.
  \<^item> \<open>Turn_Buffer\<close> (\<open>stream/buffer.rs\<close>), \<open>Turn_Stream\<close> (\<open>stream.rs\<close>, \<open>event.rs\<close>), \<open>Json_Size\<close>
    (\<open>stream/size.rs\<close>): the transcript of a turn, its sinks, its terminal, and the counter that charges it.
  \<^item> \<open>Session_State\<close> (\<open>state.rs\<close>), \<open>Lifecycle\<close> (\<open>lifecycle.rs\<close>): the published snapshot and the gate of a
    session: a list of the guards alive, one by the mutex and not by the type.
  \<^item> \<open>Redact_Strip\<close>, \<open>Redact_Names\<close> (\<open>redact/strip.rs\<close>, \<open>redact/scan.rs\<close>, \<open>redact/rules.rs\<close>): terminal
    sequences removed from text, and where the name of a credential can start.

  \<^bold>\<open>Correspondence.\<close> A struct is a \<open>record\<close> with the source's fields, an enum a \<open>datatype\<close> with the source's
  variants (suffixed where a name clashes), a method one definition named after it. \<open>Result\<close> is a sum, a
  panic \<open>None\<close>; \<open>HashMap\<close> is a partial map, \<open>BTreeMap\<close> a list sorted by key, \<open>VecDeque\<close> a list, an instant a
  number of nanoseconds. An operation takes the state and returns it updated. Where several tasks share
  state the steps are an \<open>inductive\<close> relation whose granularity is the source's lock or atomic operation, and
  the invariants are proved by rule induction. A loop is structural recursion or a \<open>function\<close> with a
  measure; nothing runs on fuel, so every operation is total. A \<open>usize\<close> is a natural number: an addition that
  can wrap in a release build is written \<open>wrap_add\<close>, one that saturates \<open>sat_add\<close>, and the invariants say where
  no wrap happens.

  \<^bold>\<open>What the lemmas show.\<close> Transcript: refinement of a plain queue, exact budgets, every refusal, one
  terminal that a drop of the last sender supplies. Outbox: exact bounds, no frame written after its
  withdrawal, everything taken settled in order or still waiting, no turn let past what writes, typed
  refusals. JSON-RPC calls: each in one place, answered once, settled at close; the queue never overruns. Lines: framing independent of chunking, caps on what is
  unread, lossy decoding. JSON: the counted size is the size serde writes. Recovery: no retry without proof of
  non-submission. Permissions and questions: a broker answers only what it decided, narrowest option, bounding
  keeps verdicts. Sessions: one close, a status that never walks back, receipts that open only what they were
  bound to. Codex: which frames end a turn, message text delivered once, output tails equal to the end of
  everything said, updates paced, what is left open closed once. ACP: calls and reasoning bracketed, pacing
  loses nothing, compaction summaries exact. Claude: calls bracketed and settled by every end of a run, one
  terminal, each text delivered once against the record of the stream.

  \<^bold>\<open>Parameters.\<close> Code outside the repository is an argument of what uses it: SHA-256, serde's derived
  decoders, the printing of floats, the host's broker, the clock and the operating system's answers. Where a
  property relies on one, the law is a named hypothesis with a witness. \<open>redact::message_text\<close> is in the
  repository but only partly modelled, so it is an argument too.

  \<^bold>\<open>Not modelled.\<close> Redacting \<open>Debug\<close> impls, setters that are record updates, and \<open>#[cfg(test)]\<close> hooks. The
  detectors of \<open>redact/\<close> past the start of a credential's name: how a value is read, the structured and the
  reference scanners. Tasks, wakers and timers of tokio, beyond the steps they allow. Child processes, sockets
  and WebSockets (\<open>launcher\<close>, \<open>transports\<close>, \<open>transport.rs\<close>, the clean-up of \<open>process.rs\<close>): operating system
  calls with no decision of their own. The holds of the JSON-RPC client and its
  handler's tasks. The sessions, harnesses, approvals and permission modes of the three adapters, and the ACP
  client: asynchronous orchestration over the reducers and gates modelled here. Deadlines (\<open>deadlines/\<close>),
  conformance tests and the examples.
\<close>

end
